(* ===== verification/Prelude.thy ===== *)
theory Prelude
  imports Main "HOL-Library.Word" "HOL-Library.Multiset" "HOL-Library.Code_Target_Nat"
begin

text \<open>
  Shared vocabulary of the development: the machine types of the Rust sources, \<open>Result\<close> as a
  sum type with its \<open>and_then\<close>, \<open>std::cmp::Ordering\<close> with the comparison of slices, and the
  operations of \<open>BTreeMap\<close> on association lists kept in key order.
  The proof collections \<open>result_simps\<close> and \<open>btree_simps\<close> carry the routine steps of the
  component theories.
\<close>

unbundle bit_operations_syntax

section \<open>Machine types\<close>

type_synonym byte = "8 word"
type_synonym bytes = "8 word list"
type_synonym u32 = "32 word"
type_synonym u64 = "64 word"
type_synonym i64 = "64 word"
type_synonym i32 = "32 word"

text \<open>
  \<open>usize\<close> values (indices and lengths of slices) are natural numbers: a slice never holds more
  than \<open>isize::MAX\<close> bytes, and where the code subtracts from one, the model writes the guard out.
  Signed integers are words read through \<open>sint\<close> and compared with \<open><s\<close>.
\<close>

named_theorems result_simps \<open>rewriting of results and their sequencing\<close>
named_theorems btree_simps \<open>lookups and keys of ordered association lists\<close>

section \<open>Result\<close>

text \<open>\<open>Result<T, E>\<close> is \<open>'e + 'a\<close>; the \<open>?\<close> operator is \<open>and_then\<close>.\<close>

fun and_then :: "'e + 'a \<Rightarrow> ('a \<Rightarrow> 'e + 'b) \<Rightarrow> 'e + 'b" where
  "and_then (Inl e) f = Inl e"
| "and_then (Inr x) f = f x"

definition ok_or :: "'e \<Rightarrow> 'a option \<Rightarrow> 'e + 'a" where
  "ok_or e x = (case x of None \<Rightarrow> Inl e | Some y \<Rightarrow> Inr y)"

definition map_err :: "('e \<Rightarrow> 'f) \<Rightarrow> 'e + 'a \<Rightarrow> 'f + 'a" where
  "map_err f x = (case x of Inl e \<Rightarrow> Inl (f e) | Inr y \<Rightarrow> Inr y)"

lemma and_then_cong [fundef_cong]:
  "x = y \<Longrightarrow> (\<And>a. y = Inr a \<Longrightarrow> f a = g a) \<Longrightarrow> and_then x f = and_then y g"
  by (cases y) auto

lemma and_then_Inr_iff [result_simps]:
  "and_then x f = Inr b \<longleftrightarrow> (\<exists>a. x = Inr a \<and> f a = Inr b)"
  by (cases x) auto

lemma and_then_Inl_iff:
  "and_then x f = Inl e \<longleftrightarrow> x = Inl e \<or> (\<exists>a. x = Inr a \<and> f a = Inl e)"
  by (cases x) auto

lemma and_then_assoc: "and_then (and_then x f) g = and_then x (\<lambda>a. and_then (f a) g)"
  by (cases x) auto

lemma ok_or_simps [simp]: "ok_or e None = Inl e" "ok_or e (Some y) = Inr y"
  by (simp_all add: ok_or_def)

lemma ok_or_Inr_iff [result_simps]: "ok_or e x = Inr y \<longleftrightarrow> x = Some y"
  by (cases x) auto

lemma map_err_simps [simp]: "map_err f (Inl e) = Inl (f e)" "map_err f (Inr y) = Inr y"
  by (simp_all add: map_err_def)

lemma map_err_Inr_iff [result_simps]: "map_err f x = Inr y \<longleftrightarrow> x = Inr y"
  by (cases x) auto

text \<open>\<open>iter().map(f).collect::<Result<Vec<_>>>()\<close>: the first error stops the traversal.\<close>

fun collect_results :: "('a \<Rightarrow> 'e + 'b) \<Rightarrow> 'a list \<Rightarrow> 'e + 'b list" where
  "collect_results f [] = Inr []"
| "collect_results f (x # xs) =
     and_then (f x) (\<lambda>y. and_then (collect_results f xs) (\<lambda>ys. Inr (y # ys)))"

lemma collect_results_cong [fundef_cong]:
  "xs = ys \<Longrightarrow> (\<And>x. x \<in> set ys \<Longrightarrow> f x = g x) \<Longrightarrow> collect_results f xs = collect_results g ys"
  by (induction xs arbitrary: ys) (auto intro: and_then_cong)

lemma collect_results_map:
  "(\<And>x. x \<in> set xs \<Longrightarrow> f (g x) = Inr (h x)) \<Longrightarrow> collect_results f (map g xs) = Inr (map h xs)"
  by (induction xs) auto

lemma collect_results_roundtrip:
  "(\<And>x. x \<in> set xs \<Longrightarrow> f (g x) = Inr x) \<Longrightarrow> collect_results f (map g xs) = Inr xs"
  using collect_results_map [of xs f g "\<lambda>x. x"] by simp

section \<open>Ordering\<close>

datatype ordering = Less | Equal | Greater

fun then_with :: "ordering \<Rightarrow> ordering \<Rightarrow> ordering" where
  "then_with Equal o2 = o2"
| "then_with Less o2 = Less"
| "then_with Greater o2 = Greater"

fun reverse_ord :: "ordering \<Rightarrow> ordering" where
  "reverse_ord Less = Greater"
| "reverse_ord Equal = Equal"
| "reverse_ord Greater = Less"

definition cmp :: "'a::linorder \<Rightarrow> 'a \<Rightarrow> ordering" where
  "cmp a b = (if a < b then Less else if a = b then Equal else Greater)"

text \<open>Lexicographic comparison of slices, a proper prefix being smaller.\<close>

fun cmp_slice :: "('a \<Rightarrow> 'a \<Rightarrow> ordering) \<Rightarrow> 'a list \<Rightarrow> 'a list \<Rightarrow> ordering" where
  "cmp_slice c [] [] = Equal"
| "cmp_slice c [] (_ # _) = Less"
| "cmp_slice c (_ # _) [] = Greater"
| "cmp_slice c (x # xs) (y # ys) = then_with (c x y) (cmp_slice c xs ys)"

text \<open>
  What \<open>Ord\<close> promises of a key type, on the keys that satisfy \<open>ok\<close> (those a Rust value can
  be): comparing equal means being equal, swapping the arguments reverses the result, and
  \<open>Less\<close> is transitive.
\<close>

locale ord_key =
  fixes c :: "'k \<Rightarrow> 'k \<Rightarrow> ordering"
    and ok :: "'k \<Rightarrow> bool"
  assumes cmp_equal: "ok a \<Longrightarrow> ok b \<Longrightarrow> c a b = Equal \<longleftrightarrow> a = b"
    and cmp_swap: "ok a \<Longrightarrow> ok b \<Longrightarrow> c b a = reverse_ord (c a b)"
    and cmp_trans: "ok a \<Longrightarrow> ok b \<Longrightarrow> ok d \<Longrightarrow> c a b = Less \<Longrightarrow> c b d = Less \<Longrightarrow> c a d = Less"
begin

lemma cmp_refl: "ok a \<Longrightarrow> c a a = Equal"
  by (simp add: cmp_equal)

lemma cmp_greater: "ok a \<Longrightarrow> ok b \<Longrightarrow> c a b = Greater \<longleftrightarrow> c b a = Less"
  using cmp_swap [of a b] by (cases "c a b") auto

lemma cmp_less_irrefl: "ok a \<Longrightarrow> c a a \<noteq> Less"
  by (simp add: cmp_refl)

end

interpretation linorder_key: ord_key "cmp :: 'a::linorder \<Rightarrow> 'a \<Rightarrow> ordering" "\<lambda>_. True"
  by unfold_locales (auto simp: cmp_def split: if_splits)

lemma then_with_Less_iff: "then_with a b = Less \<longleftrightarrow> a = Less \<or> (a = Equal \<and> b = Less)"
  by (cases a) auto

lemma then_with_Equal_iff: "then_with a b = Equal \<longleftrightarrow> a = Equal \<and> b = Equal"
  by (cases a) auto

lemma reverse_reverse_ord [simp]: "reverse_ord (reverse_ord a) = a"
  by (cases a) auto

lemma reverse_ord_then_with: "reverse_ord (then_with a b) = then_with (reverse_ord a) (reverse_ord b)"
  by (cases a) auto

text \<open>Slices of well-behaved elements, and pairs compared one component after the other, are
  well-behaved again.\<close>

context ord_key
begin

lemma slice_equal:
  "list_all ok xs \<Longrightarrow> list_all ok ys \<Longrightarrow> cmp_slice c xs ys = Equal \<longleftrightarrow> xs = ys"
proof (induction xs arbitrary: ys)
  case Nil
  then show ?case by (cases ys) auto
next
  case (Cons x xs)
  then show ?case by (cases ys) (auto simp: then_with_Equal_iff cmp_equal)
qed

lemma slice_swap:
  "list_all ok xs \<Longrightarrow> list_all ok ys \<Longrightarrow> cmp_slice c ys xs = reverse_ord (cmp_slice c xs ys)"
proof (induction xs arbitrary: ys)
  case Nil
  then show ?case by (cases ys) auto
next
  case (Cons x xs)
  then show ?case by (cases ys) (auto simp: reverse_ord_then_with cmp_swap [of x])
qed

lemma slice_trans:
  "list_all ok xs \<Longrightarrow> list_all ok ys \<Longrightarrow> list_all ok zs \<Longrightarrow>
   cmp_slice c xs ys = Less \<Longrightarrow> cmp_slice c ys zs = Less \<Longrightarrow> cmp_slice c xs zs = Less"
proof (induction xs arbitrary: ys zs)
  case Nil
  then show ?case by (cases ys; cases zs) auto
next
  case (Cons x xs)
  from Cons.prems obtain y ys' where ys: "ys = y # ys'" by (cases ys) auto
  with Cons.prems obtain z zs' where zs: "zs = z # zs'" by (cases zs) auto
  have ok: "ok x" "ok y" "ok z" using Cons.prems ys zs by auto
  have xy: "c x y = Less \<or> x = y \<and> cmp_slice c xs ys' = Less"
    and yz: "c y z = Less \<or> y = z \<and> cmp_slice c ys' zs' = Less"
    using Cons.prems ys zs ok by (auto simp: then_with_Less_iff cmp_equal)
  consider "c x z = Less" | "x = z" "cmp_slice c xs ys' = Less" "cmp_slice c ys' zs' = Less"
    using xy yz ok cmp_trans by metis
  then show ?case
  proof cases
    case 1
    then show ?thesis by (simp add: zs)
  next
    case 2
    then have "cmp_slice c xs zs' = Less"
      using Cons.IH Cons.prems ys zs by auto
    with 2 ok show ?thesis by (simp add: zs cmp_refl)
  qed
qed

end

section \<open>BTreeMap\<close>

text \<open>
  A \<open>BTreeMap<K, V>\<close> is the association list of its entries in key order; the operations take
  the key type's \<open>cmp\<close>. Inserting at a key that is there replaces the value and keeps the key.
\<close>

type_synonym ('k, 'v) btree = "('k \<times> 'v) list"

fun bt_insert :: "('k \<Rightarrow> 'k \<Rightarrow> ordering) \<Rightarrow> 'k \<Rightarrow> 'v \<Rightarrow> ('k, 'v) btree \<Rightarrow> ('k, 'v) btree" where
  "bt_insert c k v [] = [(k, v)]"
| "bt_insert c k v ((k', v') # m) =
     (case c k k' of
        Less \<Rightarrow> (k, v) # (k', v') # m
      | Equal \<Rightarrow> (k', v) # m
      | Greater \<Rightarrow> (k', v') # bt_insert c k v m)"

fun bt_get :: "('k \<Rightarrow> 'k \<Rightarrow> ordering) \<Rightarrow> 'k \<Rightarrow> ('k, 'v) btree \<Rightarrow> 'v option" where
  "bt_get c k [] = None"
| "bt_get c k ((k', v') # m) = (if c k k' = Equal then Some v' else bt_get c k m)"

fun bt_remove :: "('k \<Rightarrow> 'k \<Rightarrow> ordering) \<Rightarrow> 'k \<Rightarrow> ('k, 'v) btree \<Rightarrow> ('k, 'v) btree" where
  "bt_remove c k [] = []"
| "bt_remove c k ((k', v') # m) = (if c k k' = Equal then m else (k', v') # bt_remove c k m)"

definition bt_sorted :: "('k \<Rightarrow> 'k \<Rightarrow> ordering) \<Rightarrow> ('k, 'v) btree \<Rightarrow> bool" where
  "bt_sorted c m \<longleftrightarrow> sorted_wrt (\<lambda>a b. c a b = Less) (map fst m)"

lemma bt_sorted_simps [simp]:
  "bt_sorted c []"
  "bt_sorted c ((k, v) # m) \<longleftrightarrow> (\<forall>k' \<in> fst ` set m. c k k' = Less) \<and> bt_sorted c m"
  by (auto simp: bt_sorted_def)

context ord_key
begin

abbreviation "keys_ok m \<equiv> list_all ok (map fst m)"

lemma bt_get_map_of: "ok k \<Longrightarrow> keys_ok m \<Longrightarrow> bt_get c k m = map_of m k"
  by (induction m) (auto simp: cmp_equal)

lemma keys_bt_insert:
  "ok k \<Longrightarrow> keys_ok m \<Longrightarrow> fst ` set (bt_insert c k v m) = insert k (fst ` set m)"
proof (induction m)
  case (Cons e m)
  then show ?case by (cases e) (auto simp: cmp_equal split: ordering.splits)
qed simp

lemma keys_ok_bt_insert: "ok k \<Longrightarrow> keys_ok m \<Longrightarrow> keys_ok (bt_insert c k v m)"
  by (induction m) (auto split: ordering.splits)

lemma map_of_bt_insert:
  "ok k \<Longrightarrow> keys_ok m \<Longrightarrow> bt_sorted c m \<Longrightarrow> map_of (bt_insert c k v m) = (map_of m)(k \<mapsto> v)"
proof (induction m)
  case (Cons e m)
  obtain k' v' where e: "e = (k', v')" by force
  with Cons.prems have ok': "ok k'" by simp
  show ?case
  proof (cases "c k k'")
    case Less
    then show ?thesis using e by (auto simp: fun_eq_iff)
  next
    case Equal
    then have "k = k'" using ok' Cons.prems(1) by (simp add: cmp_equal)
    then show ?thesis using e Equal by auto
  next
    case Greater
    then have "k \<noteq> k'" using ok' cmp_refl by auto
    then show ?thesis using e Greater Cons by (auto simp: fun_upd_twist)
  qed
qed simp

lemma sorted_bt_insert:
  "ok k \<Longrightarrow> keys_ok m \<Longrightarrow> bt_sorted c m \<Longrightarrow> bt_sorted c (bt_insert c k v m)"
proof (induction m)
  case (Cons e m)
  obtain k' v' where e: "e = (k', v')" by force
  with Cons.prems have ok': "ok k'" and okm: "keys_ok m" by auto
  from okm have okm': "ok x" if "x \<in> fst ` set m" for x
    using that by (auto simp: list_all_iff)
  show ?case
  proof (cases "c k k'")
    case Less
    have "c k x = Less" if "x \<in> fst ` set m" for x
      using cmp_trans [of k k' x] okm' [OF that] that Cons.prems e ok' Less by auto
    then show ?thesis using Cons.prems e Less by auto
  next
    case Equal
    then show ?thesis using Cons.prems e by auto
  next
    case Greater
    then have "c k' k = Less" using cmp_greater [OF Cons.prems(1) ok'] by simp
    with Greater show ?thesis using Cons e okm by (simp add: keys_bt_insert)
  qed
qed simp

lemma bt_get_insert:
  "ok k \<Longrightarrow> ok k' \<Longrightarrow> keys_ok m \<Longrightarrow> bt_sorted c m \<Longrightarrow>
   bt_get c k (bt_insert c k' v m) = (if k = k' then Some v else bt_get c k m)"
  by (simp add: bt_get_map_of keys_ok_bt_insert map_of_bt_insert)

lemma sorted_distinct: "keys_ok m \<Longrightarrow> bt_sorted c m \<Longrightarrow> distinct (map fst m)"
proof (induction m)
  case (Cons e m)
  then show ?case by (cases e) (auto simp: cmp_less_irrefl)
qed simp

text \<open>Two ordered lists with the same entries are the same list.\<close>

lemma bt_extensional:
  "keys_ok m \<Longrightarrow> keys_ok n \<Longrightarrow> bt_sorted c m \<Longrightarrow> bt_sorted c n \<Longrightarrow> map_of m = map_of n \<Longrightarrow> m = n"
proof (induction m arbitrary: n)
  case Nil
  then have "dom (map_of n) = {}" by (simp flip: Nil.prems(5))
  then show ?case by (simp add: dom_map_of_conv_image_fst)
next
  case (Cons e m)
  obtain k v where e: "e = (k, v)" by force
  from Cons.prems(5) e have "map_of n k = Some v" by (metis map_of_Cons_code(2))
  then obtain k' v' n' where n: "n = (k', v') # n'" by (cases n) auto
  have ok: "ok k" "ok k'" using Cons.prems e n by auto
  have in1: "k' = k \<or> k' \<in> fst ` set m"
    using Cons.prems(5) e n by (metis domI dom_map_of_conv_image_fst map_of_Cons_code(2) fun_upd_apply)
  have in2: "k = k' \<or> k \<in> fst ` set n'"
    using Cons.prems(5) e n by (metis domI dom_map_of_conv_image_fst map_of_Cons_code(2) fun_upd_apply)
  have kk: "k' = k"
  proof (rule ccontr)
    assume "k' \<noteq> k"
    with in1 in2 have "c k k' = Less" "c k' k = Less"
      using Cons.prems(3,4) e n by auto
    then show False using cmp_trans [of k k' k] cmp_less_irrefl ok by blast
  qed
  have vv: "v' = v" using Cons.prems(5) e n kk by (metis map_of_Cons_code(2) option.inject)
  have fresh: "map_of m k = None" "map_of n' k = None"
    using sorted_distinct [of "e # m"] sorted_distinct [of n] Cons.prems e n kk
    by (auto simp: map_of_eq_None_iff)
  have "map_of m = map_of n'"
  proof
    fix x
    show "map_of m x = map_of n' x"
      using Cons.prems(5) e n kk vv fresh by (cases "x = k") (auto simp: fun_eq_iff split: if_splits)
  qed
  then show ?case using Cons e n kk vv by auto
qed

end

section \<open>Bytes and words\<close>

lemma byte_bound: "unat (b :: byte) < 256"
proof -
  have "unat b < 2 ^ LENGTH(8)" by (rule unsigned_less)
  then show ?thesis by simp
qed

lemma unat_ucast_byte: "unat (ucast w :: byte) = unat w mod 256"
  by (simp add: unsigned_ucast_eq take_bit_eq_mod)

lemma unat_ucast_u32: "unat (ucast (b :: byte) :: u32) = unat b"
  using byte_bound [of b] by (simp add: unsigned_ucast_eq take_bit_eq_mod)

lemma unat_ucast_u64: "unat (ucast (b :: byte) :: u64) = unat b"
  using byte_bound [of b] by (simp add: unsigned_ucast_eq take_bit_eq_mod)

end
