(* ===== verification/Utf.thy ===== *)
theory Utf
  imports Prelude
begin

text \<open>
  Rust's \<open>String\<close> and the two encodings the sources use of it: UTF-8, the representation and
  the bytes of a CBOR text string, and UTF-16, whose code units order CBOR map keys. The facts
  that matter to the components are that decoding what \<open>as_bytes\<close> gave returns the string
  and that distinct strings have distinct UTF-16 forms.
\<close>

section \<open>Strings\<close>

text \<open>
  A Rust \<open>String\<close> is its UTF-8 bytes, held as a HOL \<open>string\<close> (one \<open>char\<close> per byte, so that
  lengths and indices count bytes as Rust's do). \<open>utf8_decode\<close> is the strict decoder behind
  \<open>std::str::from_utf8\<close> (no overlong form, no surrogate, nothing above \<open>0x10FFFF\<close>);
  \<open>encode_utf16\<close> is \<open>str::encode_utf16\<close>.
\<close>

definition as_bytes :: "string \<Rightarrow> bytes" where
  "as_bytes s = map of_char s"

definition cont :: "nat \<Rightarrow> bool" where
  "cont b \<longleftrightarrow> 0x80 \<le> b \<and> b \<le> 0xBF"

definition scalar_value :: "nat \<Rightarrow> bool" where
  "scalar_value c \<longleftrightarrow> c < 0xD800 \<or> (0xE000 \<le> c \<and> c < 0x110000)"

text \<open>The scalar value at the head of a byte sequence, and the bytes after it.\<close>

fun utf8_next :: "nat list \<Rightarrow> (nat \<times> nat list) option" where
  "utf8_next [] = None"
| "utf8_next (a # bs) =
     (if a < 0x80 then Some (a, bs)
      else if 0xC2 \<le> a \<and> a \<le> 0xDF then
        (case bs of b # r \<Rightarrow> if cont b then Some ((a - 0xC0) * 0x40 + (b - 0x80), r) else None
         | _ \<Rightarrow> None)
      else if 0xE0 \<le> a \<and> a \<le> 0xEF then
        (case bs of b # d # r \<Rightarrow>
           (let v = (a - 0xE0) * 0x1000 + (b - 0x80) * 0x40 + (d - 0x80)
            in if cont b \<and> cont d \<and> 0x800 \<le> v \<and> scalar_value v then Some (v, r) else None)
         | _ \<Rightarrow> None)
      else if 0xF0 \<le> a \<and> a \<le> 0xF4 then
        (case bs of b # d # e # r \<Rightarrow>
           (let v = (a - 0xF0) * 0x40000 + (b - 0x80) * 0x1000 + (d - 0x80) * 0x40 + (e - 0x80)
            in if cont b \<and> cont d \<and> cont e \<and> 0x10000 \<le> v \<and> v < 0x110000 then Some (v, r) else None)
         | _ \<Rightarrow> None)
      else None)"

lemma utf8_next_length: "utf8_next bs = Some (c, r) \<Longrightarrow> length r < length bs"
  by (cases bs) (auto simp: Let_def split: if_splits list.splits)

function utf8_decode :: "nat list \<Rightarrow> nat list option" where
  "utf8_decode bs =
     (if bs = [] then Some []
      else case utf8_next bs of
             None \<Rightarrow> None
           | Some (c, r) \<Rightarrow> map_option (\<lambda>cs. c # cs) (utf8_decode r))"
  by pat_completeness auto
termination
  by (relation "measure length") (auto dest: utf8_next_length)

declare utf8_decode.simps [simp del]

definition valid_utf8 :: "string \<Rightarrow> bool" where
  "valid_utf8 s \<longleftrightarrow> utf8_decode (map of_char s) \<noteq> None"

definition from_utf8 :: "bytes \<Rightarrow> string option" where
  "from_utf8 raw = (let s = map (\<lambda>b. char_of (unat b)) raw in if valid_utf8 s then Some s else None)"

definition utf16_units :: "nat \<Rightarrow> nat list" where
  "utf16_units c =
     (if c < 0x10000 then [c]
      else [0xD800 + (c - 0x10000) div 0x400, 0xDC00 + (c - 0x10000) mod 0x400])"

definition encode_utf16 :: "string \<Rightarrow> nat list" where
  "encode_utf16 s = (case utf8_decode (map of_char s) of
     None \<Rightarrow> [] | Some cs \<Rightarrow> concat (map utf16_units cs))"


subsection \<open>UTF-8\<close>

definition utf8_enc :: "nat \<Rightarrow> nat list" where
  "utf8_enc c =
     (if c < 0x80 then [c]
      else if c < 0x800 then [0xC0 + c div 0x40, 0x80 + c mod 0x40]
      else if c < 0x10000 then [0xE0 + c div 0x1000, 0x80 + c div 0x40 mod 0x40, 0x80 + c mod 0x40]
      else [0xF0 + c div 0x40000, 0x80 + c div 0x1000 mod 0x40, 0x80 + c div 0x40 mod 0x40,
            0x80 + c mod 0x40])"

lemma cont_split: "cont b \<Longrightarrow> \<exists>y. b = 0x80 + y \<and> y < 0x40"
  unfolding cont_def by presburger

lemma radix_div: "(z::nat) < k \<Longrightarrow> (q * k + z) div k = q"
  and radix_mod: "(z::nat) < k \<Longrightarrow> (q * k + z) mod k = z"
  by auto

lemma utf8_next_two:
  "0xC2 \<le> a \<Longrightarrow> a \<le> 0xDF \<Longrightarrow> utf8_next (a # bs) = Some (c, r) \<longleftrightarrow>
     (\<exists>b. bs = b # r \<and> cont b \<and> c = (a - 0xC0) * 0x40 + (b - 0x80))"
  by (cases bs) auto

lemma utf8_next_three:
  assumes "0xE0 \<le> a" "a \<le> 0xEF"
  shows "utf8_next (a # bs) = Some (c, r) \<longleftrightarrow>
     (\<exists>b d. bs = b # d # r \<and> cont b \<and> cont d \<and>
        c = (a - 0xE0) * 0x1000 + (b - 0x80) * 0x40 + (d - 0x80) \<and> 0x800 \<le> c \<and> scalar_value c)"
proof -
  have g: "\<not> a < 0x80" "\<not> (0xC2 \<le> a \<and> a \<le> 0xDF)" "0xE0 \<le> a \<and> a \<le> 0xEF" using assms by auto
  show ?thesis
    unfolding utf8_next.simps if_not_P [OF g(1)] if_not_P [OF g(2)] if_P [OF g(3)] Let_def
    by (auto split: list.splits)
qed

lemma utf8_next_four:
  assumes "0xF0 \<le> a" "a \<le> 0xF4"
  shows "utf8_next (a # bs) = Some (c, r) \<longleftrightarrow>
     (\<exists>b d e. bs = b # d # e # r \<and> cont b \<and> cont d \<and> cont e \<and>
        c = (a - 0xF0) * 0x40000 + (b - 0x80) * 0x1000 + (d - 0x80) * 0x40 + (e - 0x80) \<and>
        0x10000 \<le> c \<and> c < 0x110000)"
proof -
  have g: "\<not> a < 0x80" "\<not> (0xC2 \<le> a \<and> a \<le> 0xDF)" "\<not> (0xE0 \<le> a \<and> a \<le> 0xEF)"
      "0xF0 \<le> a \<and> a \<le> 0xF4" using assms by auto
  show ?thesis
    unfolding utf8_next.simps if_not_P [OF g(1)] if_not_P [OF g(2)] if_not_P [OF g(3)] if_P [OF g(4)] Let_def
    by (auto split: list.splits)
qed

lemma utf8_next_sound:
  assumes "utf8_next bs = Some (c, r)"
  shows "bs = utf8_enc c @ r \<and> scalar_value c"
proof -
  from assms obtain a bs' where bs: "bs = a # bs'" by (cases bs) auto
  consider (one) "a < 0x80" | (two) "0xC2 \<le> a" "a \<le> 0xDF" | (three) "0xE0 \<le> a" "a \<le> 0xEF"
    | (four) "0xF0 \<le> a" "a \<le> 0xF4"
    using assms bs by (auto split: if_splits)
  then show ?thesis
  proof cases
    case one
    then show ?thesis using assms bs by (auto simp: utf8_enc_def scalar_value_def)
  next
    case two
    then obtain b where b: "bs' = b # r" "cont b" "c = (a - 0xC0) * 0x40 + (b - 0x80)"
      using assms bs utf8_next_two by blast
    obtain y where y: "b = 0x80 + y" "y < 0x40" using cont_split [OF b(2)] by blast
    define x where "x = a - 0xC0"
    have x: "a = 0xC0 + x" "2 \<le> x" "x < 0x20" using two by (auto simp: x_def)
    have c: "c = x * 0x40 + y" using b y by (simp add: x_def)
    have "c < 0x800" "0x80 \<le> c" using c x y by auto
    moreover have "c div 0x40 = x" "c mod 0x40 = y"
      unfolding c using radix_div [OF y(2)] radix_mod [OF y(2)] by blast+
    ultimately show ?thesis using bs b x y by (simp add: utf8_enc_def scalar_value_def)
  next
    case three
    then obtain b d where b: "bs' = b # d # r" "cont b" "cont d" "0x800 \<le> c" "scalar_value c"
        "c = (a - 0xE0) * 0x1000 + (b - 0x80) * 0x40 + (d - 0x80)"
      using assms bs utf8_next_three by blast
    obtain y where y: "b = 0x80 + y" "y < 0x40" using cont_split [OF b(2)] by blast
    obtain z where z: "d = 0x80 + z" "z < 0x40" using cont_split [OF b(3)] by blast
    define x where "x = a - 0xE0"
    have x: "a = 0xE0 + x" "x < 0x10" using three by (auto simp: x_def)
    have c: "c = (x * 0x40 + y) * 0x40 + z" using b y z by (simp add: x_def)
    have q: "c div 0x40 = x * 0x40 + y" "c mod 0x40 = z"
      unfolding c using radix_div [OF z(2)] radix_mod [OF z(2)] by blast+
    have q2: "c div 0x1000 = x" "c div 0x40 mod 0x40 = y"
      using div_mult2_eq [of c "0x40" "0x40"] radix_div [OF y(2), of x] radix_mod [OF y(2), of x]
      by (simp_all add: q(1))
    have "c < 0x10000" using c x y z by simp
    then show ?thesis using bs b x y z q q2 by (simp add: utf8_enc_def)
  next
    case four
    then obtain b d e where b: "bs' = b # d # e # r" "cont b" "cont d" "cont e" "0x10000 \<le> c" "c < 0x110000"
        "c = (a - 0xF0) * 0x40000 + (b - 0x80) * 0x1000 + (d - 0x80) * 0x40 + (e - 0x80)"
      using assms bs utf8_next_four by blast
    obtain y where y: "b = 0x80 + y" "y < 0x40" using cont_split [OF b(2)] by blast
    obtain z where z: "d = 0x80 + z" "z < 0x40" using cont_split [OF b(3)] by blast
    obtain w where w: "e = 0x80 + w" "w < 0x40" using cont_split [OF b(4)] by blast
    define x where "x = a - 0xF0"
    have x: "a = 0xF0 + x" using four by (auto simp: x_def)
    have c: "c = ((x * 0x40 + y) * 0x40 + z) * 0x40 + w" using b y z w by (simp add: x_def)
    have q: "c div 0x40 = (x * 0x40 + y) * 0x40 + z" "c mod 0x40 = w"
      unfolding c using radix_div [OF w(2)] radix_mod [OF w(2)] by blast+
    have q2: "c div 0x1000 = x * 0x40 + y" "c div 0x40 mod 0x40 = z"
      using div_mult2_eq [of c "0x40" "0x40"] radix_div [OF z(2), of "x * 0x40 + y"]
        radix_mod [OF z(2), of "x * 0x40 + y"]
      by (simp_all add: q(1))
    have q3: "c div 0x40000 = x" "c div 0x1000 mod 0x40 = y"
      using div_mult2_eq [of c "0x1000" "0x40"] radix_div [OF y(2), of x] radix_mod [OF y(2), of x]
      by (simp_all add: q2(1))
    show ?thesis using bs b(1,5,6) x y(1) z(1) w(1) q(2) q2(2) q3 by (simp add: utf8_enc_def scalar_value_def)
  qed
qed

lemma utf8_decode_sound:
  "utf8_decode bs = Some cs \<Longrightarrow> bs = concat (map utf8_enc cs) \<and> list_all scalar_value cs"
proof (induction bs arbitrary: cs rule: utf8_decode.induct)
  case (1 bs)
  show ?case
  proof (cases "bs = []")
    case True
    then show ?thesis using "1.prems" by (simp add: utf8_decode.simps)
  next
    case False
    with "1.prems" obtain c r ds where n: "utf8_next bs = Some (c, r)" "utf8_decode r = Some ds" "cs = c # ds"
      by (subst (asm) utf8_decode.simps) (auto split: option.splits)
    with "1.IH" [OF False n(1) refl] have "r = concat (map utf8_enc ds) \<and> list_all scalar_value ds"
      by simp
    with utf8_next_sound [OF n(1)] n(3) show ?thesis by simp
  qed
qed

lemma valid_utf8_decode:
  assumes "valid_utf8 s"
  obtains cs where "utf8_decode (map of_char s) = Some cs" "map of_char s = concat (map utf8_enc cs)"
    "list_all scalar_value cs"
proof -
  from assms obtain cs where "utf8_decode (map of_char s) = Some cs"
    unfolding valid_utf8_def by blast
  with utf8_decode_sound [OF this] show thesis using that by blast
qed

lemma char_of_unat_of_char [simp]: "char_of (unat (of_char ch :: byte)) = ch"
proof -
  have "(of_char ch :: nat) = of_char ch mod 256"
    by (metis char_of_char of_char_of)
  then have "unat (of_nat (of_char ch) :: byte) = of_char ch"
    by (simp add: unat_of_nat take_bit_eq_mod)
  then have "unat (of_char ch :: byte) = of_char ch"
    by (simp only: of_nat_of_char)
  then show ?thesis by simp
qed

lemma from_utf8_as_bytes: "valid_utf8 s \<Longrightarrow> from_utf8 (as_bytes s) = Some s"
  by (simp add: from_utf8_def as_bytes_def comp_def)

lemma from_utf8_valid: "from_utf8 raw = Some s \<Longrightarrow> valid_utf8 s"
  by (auto simp: from_utf8_def Let_def split: if_splits)

lemma length_as_bytes [simp]: "length (as_bytes s) = length s"
  by (simp add: as_bytes_def)

lemma as_bytes_inject [simp]: "as_bytes s = as_bytes t \<longleftrightarrow> s = t"
  by (metis char_of_unat_of_char as_bytes_def list.inj_map_strong)

subsection \<open>UTF-16\<close>

lemma utf16_units_nonempty: "utf16_units c \<noteq> []"
  by (simp add: utf16_units_def)

text \<open>The first unit tells how many units the scalar value takes, so the values can be read back.\<close>

lemma utf16_units_cancel:
  assumes "scalar_value c" "scalar_value d" "utf16_units c @ xs = utf16_units d @ ys"
  shows "c = d \<and> xs = ys"
proof -
  have split: "c - 0x10000 = (c - 0x10000) div 0x400 * 0x400 + (c - 0x10000) mod 0x400" for c :: nat
    by simp
  show ?thesis
  proof (cases "c < 0x10000 \<longleftrightarrow> d < 0x10000")
    case True
    show ?thesis
    proof (cases "c < 0x10000")
      case True
      with \<open>c < 0x10000 \<longleftrightarrow> d < 0x10000\<close> show ?thesis
        using assms by (auto simp: utf16_units_def)
    next
      case False
      with \<open>c < 0x10000 \<longleftrightarrow> d < 0x10000\<close> have "c - 0x10000 = d - 0x10000" "xs = ys"
        using assms split [of c] split [of d] by (auto simp: utf16_units_def)
      with False \<open>c < 0x10000 \<longleftrightarrow> d < 0x10000\<close> show ?thesis by simp
    qed
  next
    case False
    then show ?thesis
      using assms by (auto simp: utf16_units_def scalar_value_def split: if_splits)
  qed
qed

lemma utf16_inject:
  "list_all scalar_value cs \<Longrightarrow> list_all scalar_value ds \<Longrightarrow>
   concat (map utf16_units cs) = concat (map utf16_units ds) \<Longrightarrow> cs = ds"
proof (induction cs arbitrary: ds)
  case Nil
  then show ?case by (cases ds) (auto simp: utf16_units_nonempty)
next
  case (Cons c cs)
  have "ds \<noteq> []" using Cons.prems(3) by (auto simp: utf16_units_nonempty)
  then obtain d ds' where ds: "ds = d # ds'" by (cases ds) auto
  with Cons.prems utf16_units_cancel [of c d "concat (map utf16_units cs)" "concat (map utf16_units ds')"]
  have "c = d" "concat (map utf16_units cs) = concat (map utf16_units ds')" by auto
  with Cons ds show ?case by auto
qed

lemma encode_utf16_inject:
  assumes "valid_utf8 s" "valid_utf8 t" "encode_utf16 s = encode_utf16 t"
  shows "s = t"
proof -
  obtain cs where cs: "utf8_decode (map of_char s) = Some cs"
      "map of_char s = concat (map utf8_enc cs)" "list_all scalar_value cs"
    using valid_utf8_decode [OF assms(1)] .
  obtain ds where ds: "utf8_decode (map of_char t) = Some ds"
      "map of_char t = concat (map utf8_enc ds)" "list_all scalar_value ds"
    using valid_utf8_decode [OF assms(2)] .
  have "concat (map utf16_units cs) = concat (map utf16_units ds)"
    using assms(3) by (simp add: encode_utf16_def cs(1) ds(1))
  with cs(3) ds(3) have "cs = ds" by (rule utf16_inject)
  then have "map (of_char :: char \<Rightarrow> nat) s = map of_char t" using cs ds by simp
  then show ?thesis by (metis list.inj_map_strong of_char_eq_iff)
qed

end
