(* ===== verification/Cbor.thy ===== *)
theory Cbor
  imports Utf
begin

text \<open>
  The deterministic CBOR codec of \<open>peergos-cbor\<close>: the value type, the canonical encoder
  (\<open>encode.rs\<close>), the decoder (\<open>decode.rs\<close>) with its reader state, and the map builder and
  accessors of \<open>lib.rs\<close>. The encoder threads the output vector, the decoder its reader; every
  error of the decoder is a constructor of \<open>cbor_error\<close>.

  The decoder recurses on the nesting of the input. Its model spends one unit of fuel per
  nesting level; since a level consumes at least its initial byte, one unit more than there are
  bytes is always enough (\<open>deserialize_fuel\<close>), and \<open>from_bytes\<close> passes exactly that, so that
  \<open>OutOfFuel\<close> is never returned.
\<close>

section \<open>Values\<close>

abbreviation (input) TYPE_UNSIGNED_INTEGER :: byte where "TYPE_UNSIGNED_INTEGER \<equiv> 0x00"
abbreviation (input) TYPE_NEGATIVE_INTEGER :: byte where "TYPE_NEGATIVE_INTEGER \<equiv> 0x01"
abbreviation (input) TYPE_BYTE_STRING :: byte where "TYPE_BYTE_STRING \<equiv> 0x02"
abbreviation (input) TYPE_TEXT_STRING :: byte where "TYPE_TEXT_STRING \<equiv> 0x03"
abbreviation (input) TYPE_ARRAY :: byte where "TYPE_ARRAY \<equiv> 0x04"
abbreviation (input) TYPE_MAP :: byte where "TYPE_MAP \<equiv> 0x05"
abbreviation (input) TYPE_TAG :: byte where "TYPE_TAG \<equiv> 0x06"
abbreviation (input) TYPE_FLOAT_SIMPLE :: byte where "TYPE_FLOAT_SIMPLE \<equiv> 0x07"
abbreviation (input) ONE_BYTE :: byte where "ONE_BYTE \<equiv> 0x18"
abbreviation (input) TWO_BYTES :: byte where "TWO_BYTES \<equiv> 0x19"
abbreviation (input) FOUR_BYTES :: byte where "FOUR_BYTES \<equiv> 0x1a"
abbreviation (input) EIGHT_BYTES :: byte where "EIGHT_BYTES \<equiv> 0x1b"
abbreviation (input) FALSE :: byte where "FALSE \<equiv> 0x14"
abbreviation (input) TRUE :: byte where "TRUE \<equiv> 0x15"
abbreviation (input) NULL :: byte where "NULL \<equiv> 0x16"
abbreviation (input) LINK_TAG :: u64 where "LINK_TAG \<equiv> 42"

text \<open>
  A map key is a \<open>CborString\<close>: a string with its UTF-16 units precomputed. The units are a
  function of the value, so the model keeps the value and recomputes them where keys are
  compared.
\<close>

type_synonym cbor_string = string

definition cmp_cbor_string :: "cbor_string \<Rightarrow> cbor_string \<Rightarrow> ordering" where
  "cmp_cbor_string a b =
     then_with (cmp (length (encode_utf16 a)) (length (encode_utf16 b)))
       (cmp_slice cmp (encode_utf16 a) (encode_utf16 b))"

datatype cbor =
    CLong i64
  | CBoolean bool
  | CByteString bytes
  | CStr string
  | CList "cbor list"
  | CMap "(cbor_string, cbor) btree"
  | CMerkleLink bytes
  | CNull

section \<open>Encoder\<close>

definition write_uint :: "bytes \<Rightarrow> byte \<Rightarrow> u64 \<Rightarrow> bytes" where
  "write_uint out mt value =
     (if value < 0x18 then out @ [mt OR ucast value]
      else if value < 0x100 then out @ [mt OR ONE_BYTE, ucast value]
      else if value < 0x10000 then out @ [mt OR TWO_BYTES, ucast (drop_bit 8 value), ucast value]
      else if value < 0x100000000 then
        out @ [mt OR FOUR_BYTES, ucast (drop_bit 24 value), ucast (drop_bit 16 value),
               ucast (drop_bit 8 value), ucast value]
      else
        out @ [mt OR EIGHT_BYTES, ucast (drop_bit 56 value), ucast (drop_bit 48 value),
               ucast (drop_bit 40 value), ucast (drop_bit 32 value), ucast (drop_bit 24 value),
               ucast (drop_bit 16 value), ucast (drop_bit 8 value), ucast value])"

definition write_type :: "bytes \<Rightarrow> byte \<Rightarrow> u64 \<Rightarrow> bytes" where
  "write_type out major_type value = write_uint out (push_bit 5 major_type) value"

definition write_string :: "bytes \<Rightarrow> byte \<Rightarrow> bytes \<Rightarrow> bytes" where
  "write_string out major_type bs = write_type out major_type (of_nat (length bs)) @ bs"

definition write_simple_type :: "bytes \<Rightarrow> byte \<Rightarrow> byte \<Rightarrow> bytes" where
  "write_simple_type out major_type value = out @ [push_bit 5 major_type OR (value AND 0x1f)]"

definition write_int :: "bytes \<Rightarrow> i64 \<Rightarrow> bytes" where
  "write_int out value =
     (let sign = signed_drop_bit 63 value;
          mt = ucast (sign AND push_bit 5 (ucast TYPE_NEGATIVE_INTEGER));
          magnitude = sign XOR value
      in write_uint out mt magnitude)"

fun write_object :: "bytes \<Rightarrow> cbor \<Rightarrow> bytes" where
  "write_object out (CLong v) = write_int out v"
| "write_object out (CBoolean v) =
     write_simple_type out TYPE_FLOAT_SIMPLE (if v then TRUE else FALSE)"
| "write_object out (CByteString b) = write_string out TYPE_BYTE_STRING b"
| "write_object out (CStr s) = write_string out TYPE_TEXT_STRING (as_bytes s)"
| "write_object out (CList items) =
     foldl (\<lambda>out it. write_object out it) (write_type out TYPE_ARRAY (of_nat (length items))) items"
| "write_object out (CMap m) =
     foldl (\<lambda>out (k, v). write_object (write_string out TYPE_TEXT_STRING (as_bytes k)) v)
       (write_type out TYPE_MAP (of_nat (length m))) m"
| "write_object out (CMerkleLink cid) =
     write_string (write_type out TYPE_TAG LINK_TAG) TYPE_BYTE_STRING (0 # cid)"
| "write_object out CNull = write_simple_type out TYPE_FLOAT_SIMPLE NULL"

definition to_bytes :: "cbor \<Rightarrow> bytes" where
  "to_bytes obj = write_object [] obj"

section \<open>Decoder\<close>

datatype cbor_error =
    EOF
  | InvalidLengthIndicator byte
  | UnexpectedMajorType byte
  | EmptyInput
  | TrailingBytes
  | TextStringTooLong
  | InvalidUtf8
  | ByteStringTooLong
  | UnimplementedSimpleType byte
  | TooManyMapElements
  | NonStringMapKey
  | DuplicateMapKey
  | TooManyArrayElements
  | UnknownTag u64
  | TextMerkleLink string
  | UnknownMultibase "byte option"
  | InvalidMerkleLinkType cbor
  | UnimplementedMajorType byte
  | ExpectedIntegerType
  | OutOfFuel

record reader =
  buf :: bytes
  pos :: nat

definition read_u8 :: "reader \<Rightarrow> cbor_error + byte \<times> reader" where
  "read_u8 r = (if pos r < length (buf r) then Inr (buf r ! pos r, r\<lparr>pos := pos r + 1\<rparr>) else Inl EOF)"

definition peek_major :: "reader \<Rightarrow> cbor_error + byte" where
  "peek_major r = (if pos r < length (buf r) then Inr (drop_bit 5 (buf r ! pos r AND 0xff)) else Inl EOF)"

definition peek_additional :: "reader \<Rightarrow> cbor_error + byte" where
  "peek_additional r = (if pos r < length (buf r) then Inr (buf r ! pos r AND 0x1f) else Inl EOF)"

definition read_n :: "reader \<Rightarrow> nat \<Rightarrow> cbor_error + bytes \<times> reader" where
  "read_n r n =
     (let end = pos r + n
      in if end \<le> length (buf r) then Inr (take n (drop (pos r) (buf r)), r\<lparr>pos := end\<rparr>) else Inl EOF)"

definition read_uint :: "reader \<Rightarrow> byte \<Rightarrow> cbor_error + u64 \<times> reader" where
  "read_uint r len =
     (if len < ONE_BYTE then Inr (ucast len, r)
      else if len = ONE_BYTE then and_then (read_u8 r) (\<lambda>(b, r). Inr (ucast b, r))
      else if len = TWO_BYTES then
        and_then (read_n r 2) (\<lambda>(b, r). Inr (push_bit 8 (ucast (b ! 0)) OR ucast (b ! 1), r))
      else if len = FOUR_BYTES then
        and_then (read_n r 4) (\<lambda>(b, r). Inr (push_bit 24 (ucast (b ! 0)) OR push_bit 16 (ucast (b ! 1))
          OR push_bit 8 (ucast (b ! 2)) OR ucast (b ! 3), r))
      else if len = EIGHT_BYTES then
        and_then (read_n r 8) (\<lambda>(b, r). Inr (push_bit 56 (ucast (b ! 0)) OR push_bit 48 (ucast (b ! 1))
          OR push_bit 40 (ucast (b ! 2)) OR push_bit 32 (ucast (b ! 3)) OR push_bit 24 (ucast (b ! 4))
          OR push_bit 16 (ucast (b ! 5)) OR push_bit 8 (ucast (b ! 6)) OR ucast (b ! 7), r))
      else Inl (InvalidLengthIndicator len))"

definition read_major_type :: "reader \<Rightarrow> byte \<Rightarrow> cbor_error + byte \<times> reader" where
  "read_major_type r expected =
     and_then (read_u8 r) (\<lambda>(ib, r).
       if expected \<noteq> drop_bit 5 ib AND 0x07 then Inl (UnexpectedMajorType (drop_bit 5 ib AND 0x07))
       else Inr (ib AND 0x1f, r))"

definition read_major_type_with_size :: "reader \<Rightarrow> byte \<Rightarrow> cbor_error + u64 \<times> reader" where
  "read_major_type_with_size r expected =
     and_then (read_major_type r expected) (\<lambda>(len_indicator, r). read_uint r len_indicator)"

definition read_int :: "reader \<Rightarrow> cbor_error + i64 \<times> reader" where
  "read_int r =
     and_then (read_u8 r) (\<lambda>(ib, r).
       let major = drop_bit 5 (ib AND 0xff)
       in if major \<noteq> TYPE_UNSIGNED_INTEGER \<and> major \<noteq> TYPE_NEGATIVE_INTEGER then Inl ExpectedIntegerType
          else let ui = - (ucast major)
               in and_then (read_uint r (ib AND 0x1f)) (\<lambda>(magnitude, r). Inr (ui XOR magnitude, r)))"

text \<open>The two loops of \<open>deserialize\<close>, over the decoder for one value.\<close>

primrec read_entries ::
  "(reader \<Rightarrow> cbor_error + cbor \<times> reader) \<Rightarrow> nat \<Rightarrow> (cbor_string, cbor) btree \<Rightarrow> reader \<Rightarrow>
   cbor_error + (cbor_string, cbor) btree \<times> reader" where
  "read_entries de 0 m r = Inr (m, r)"
| "read_entries de (Suc n) m r =
     and_then (de r) (\<lambda>(key, r).
       case key of
         CStr s \<Rightarrow> and_then (de r) (\<lambda>(v, r).
           if bt_get cmp_cbor_string s m \<noteq> None then Inl DuplicateMapKey
           else read_entries de n (bt_insert cmp_cbor_string s v m) r)
       | _ \<Rightarrow> Inl NonStringMapKey)"

primrec read_items ::
  "(reader \<Rightarrow> cbor_error + cbor \<times> reader) \<Rightarrow> nat \<Rightarrow> cbor list \<Rightarrow> reader \<Rightarrow>
   cbor_error + cbor list \<times> reader" where
  "read_items de 0 items r = Inr (items, r)"
| "read_items de (Suc n) items r =
     and_then (de r) (\<lambda>(it, r). read_items de n (items @ [it]) r)"

primrec deserialize :: "nat \<Rightarrow> reader \<Rightarrow> u64 \<Rightarrow> cbor_error + cbor \<times> reader" where
  "deserialize 0 r max_group_size = Inl OutOfFuel"
| "deserialize (Suc fuel) r max_group_size =
     and_then (peek_major r) (\<lambda>major.
       if major = TYPE_TEXT_STRING then
         and_then (read_major_type_with_size r TYPE_TEXT_STRING) (\<lambda>(len, r).
           if len > max_group_size then Inl TextStringTooLong
           else and_then (read_n r (unat len)) (\<lambda>(raw, r).
             case from_utf8 raw of None \<Rightarrow> Inl InvalidUtf8 | Some s \<Rightarrow> Inr (CStr s, r)))
       else if major = TYPE_BYTE_STRING then
         and_then (read_major_type_with_size r TYPE_BYTE_STRING) (\<lambda>(len, r).
           if len > max_group_size then Inl ByteStringTooLong
           else and_then (read_n r (unat len)) (\<lambda>(raw, r). Inr (CByteString raw, r)))
       else if major = TYPE_UNSIGNED_INTEGER \<or> major = TYPE_NEGATIVE_INTEGER then
         and_then (read_int r) (\<lambda>(v, r). Inr (CLong v, r))
       else if major = TYPE_FLOAT_SIMPLE then
         and_then (peek_additional r) (\<lambda>additional.
           if additional = NULL then and_then (read_u8 r) (\<lambda>(_, r). Inr (CNull, r))
           else if additional = TRUE then and_then (read_u8 r) (\<lambda>(_, r). Inr (CBoolean True, r))
           else if additional = FALSE then and_then (read_u8 r) (\<lambda>(_, r). Inr (CBoolean False, r))
           else Inl (UnimplementedSimpleType additional))
       else if major = TYPE_MAP then
         and_then (read_major_type_with_size r TYPE_MAP) (\<lambda>(n, r).
           if n > max_group_size then Inl TooManyMapElements
           else and_then (read_entries (\<lambda>r. deserialize fuel r max_group_size) (unat n) [] r)
                  (\<lambda>(m, r). Inr (CMap m, r)))
       else if major = TYPE_ARRAY then
         and_then (read_major_type_with_size r TYPE_ARRAY) (\<lambda>(n, r).
           if n > max_group_size then Inl TooManyArrayElements
           else and_then (read_items (\<lambda>r. deserialize fuel r max_group_size) (unat n) [] r)
                  (\<lambda>(items, r). Inr (CList items, r)))
       else if major = TYPE_TAG then
         and_then (read_major_type r TYPE_TAG) (\<lambda>(len_indicator, r).
           and_then (read_uint r len_indicator) (\<lambda>(tag, r).
             if tag \<noteq> LINK_TAG then Inl (UnknownTag tag)
             else and_then (deserialize fuel r max_group_size) (\<lambda>(value, r).
               case value of
                 CStr s \<Rightarrow> Inl (TextMerkleLink s)
               | CByteString bs \<Rightarrow>
                   (case bs of
                      [] \<Rightarrow> Inl (UnknownMultibase None)
                    | b # cid \<Rightarrow> if b \<noteq> 0 then Inl (UnknownMultibase (Some b)) else Inr (CMerkleLink cid, r))
               | other \<Rightarrow> Inl (InvalidMerkleLinkType other))))
       else Inl (UnimplementedMajorType major))"

definition decode_fuel :: "bytes \<Rightarrow> nat" where
  "decode_fuel bs = Suc (length bs)"

definition from_bytes_consumed :: "bytes \<Rightarrow> cbor_error + cbor \<times> nat" where
  "from_bytes_consumed bs =
     (if bs = [] then Inl EmptyInput
      else and_then (deserialize (decode_fuel bs) \<lparr>buf = bs, pos = 0\<rparr> (of_nat (length bs)))
             (\<lambda>(obj, r). Inr (obj, pos r)))"

definition from_bytes_prefix :: "bytes \<Rightarrow> cbor_error + cbor" where
  "from_bytes_prefix bs =
     (if bs = [] then Inl EmptyInput
      else and_then (deserialize (decode_fuel bs) \<lparr>buf = bs, pos = 0\<rparr> (of_nat (length bs)))
             (\<lambda>(obj, r). Inr obj))"

definition from_bytes :: "bytes \<Rightarrow> cbor_error + cbor" where
  "from_bytes bs =
     (if bs = [] then Inl EmptyInput
      else and_then (deserialize (decode_fuel bs) \<lparr>buf = bs, pos = 0\<rparr> (of_nat (length bs)))
             (\<lambda>(obj, r). if pos r \<noteq> length bs then Inl TrailingBytes else Inr obj))"

section \<open>Links, accessors and the map builder\<close>

fun collect_links :: "cbor \<Rightarrow> bytes list \<Rightarrow> bytes list" where
  "collect_links (CMerkleLink cid) out = out @ [cid]"
| "collect_links (CList items) out = foldl (\<lambda>out it. collect_links it out) out items"
| "collect_links (CMap m) out = foldl (\<lambda>out (k, v). collect_links v out) out m"
| "collect_links _ out = out"

definition links :: "cbor \<Rightarrow> bytes list" where
  "links c = collect_links c []"

fun as_map :: "cbor \<Rightarrow> (cbor_string, cbor) btree option" where
  "as_map (CMap m) = Some m"
| "as_map _ = None"

fun as_list :: "cbor \<Rightarrow> cbor list option" where
  "as_list (CList l) = Some l"
| "as_list _ = None"

fun as_long :: "cbor \<Rightarrow> i64 option" where
  "as_long (CLong v) = Some v"
| "as_long _ = None"

fun as_bool :: "cbor \<Rightarrow> bool option" where
  "as_bool (CBoolean v) = Some v"
| "as_bool _ = None"

fun as_string :: "cbor \<Rightarrow> string option" where
  "as_string (CStr s) = Some s"
| "as_string _ = None"

fun as_byte_string :: "cbor \<Rightarrow> bytes option" where
  "as_byte_string (CByteString b) = Some b"
| "as_byte_string _ = None"

fun as_link :: "cbor \<Rightarrow> bytes option" where
  "as_link (CMerkleLink c) = Some c"
| "as_link _ = None"

definition is_null :: "cbor \<Rightarrow> bool" where
  "is_null c \<longleftrightarrow> c = CNull"

definition cbor_get :: "cbor \<Rightarrow> string \<Rightarrow> cbor option" where
  "cbor_get c key = Option.bind (as_map c) (\<lambda>m. bt_get cmp_cbor_string key m)"

text \<open>\<open>CborMapBuilder\<close>: its state is the map under construction.\<close>

definition map_builder :: "(cbor_string, cbor) btree" where
  "map_builder = []"

definition put :: "string \<Rightarrow> cbor \<Rightarrow> (cbor_string, cbor) btree \<Rightarrow> (cbor_string, cbor) btree" where
  "put key value m = bt_insert cmp_cbor_string key value m"

definition put_opt :: "string \<Rightarrow> cbor option \<Rightarrow> (cbor_string, cbor) btree \<Rightarrow> (cbor_string, cbor) btree" where
  "put_opt key value m = (case value of Some v \<Rightarrow> put key v m | None \<Rightarrow> m)"

definition build :: "(cbor_string, cbor) btree \<Rightarrow> cbor" where
  "build m = CMap m"

section \<open>Key order\<close>

lemma cmp_nat_key: "ord_key (cmp :: nat \<Rightarrow> nat \<Rightarrow> ordering) (\<lambda>_. True)"
  by (rule linorder_key.ord_key_axioms)

text \<open>\<open>CborString\<close>'s order agrees with equality and is a strict order on the strings a Rust
  \<open>String\<close> can hold: this rests on UTF-16 being injective.\<close>

interpretation cbor_key: ord_key cmp_cbor_string valid_utf8
proof
  fix a b
  assume ab: "valid_utf8 a" "valid_utf8 b"
  have "cmp_cbor_string a b = Equal \<longleftrightarrow> encode_utf16 a = encode_utf16 b"
    using linorder_key.slice_equal [of "encode_utf16 a" "encode_utf16 b"]
    by (auto simp: cmp_cbor_string_def then_with_Equal_iff linorder_key.cmp_equal list_all_iff)
  then show "cmp_cbor_string a b = Equal \<longleftrightarrow> a = b"
    using encode_utf16_inject [OF ab] by auto
  show "cmp_cbor_string b a = reverse_ord (cmp_cbor_string a b)"
    using linorder_key.slice_swap [of "encode_utf16 a" "encode_utf16 b"]
      linorder_key.cmp_swap [of "length (encode_utf16 a)" "length (encode_utf16 b)"]
    by (simp add: cmp_cbor_string_def reverse_ord_then_with list_all_iff)
next
  fix a b d
  assume "cmp_cbor_string a b = Less" "cmp_cbor_string b d = Less"
  then show "cmp_cbor_string a d = Less"
    using linorder_key.slice_trans [of "encode_utf16 a" "encode_utf16 b" "encode_utf16 d"]
    by (auto simp: cmp_cbor_string_def then_with_Less_iff cmp_def list_all_iff split: if_splits)
qed

section \<open>Well-formed values\<close>

text \<open>
  What Rust's types guarantee of a \<open>CborObject\<close>: strings are UTF-8 and maps are in key order.
\<close>

fun wf_cbor :: "cbor \<Rightarrow> bool" where
  "wf_cbor (CStr s) \<longleftrightarrow> valid_utf8 s"
| "wf_cbor (CList items) \<longleftrightarrow> list_all wf_cbor items"
| "wf_cbor (CMap m) \<longleftrightarrow>
     bt_sorted cmp_cbor_string m \<and> list_all (\<lambda>(k, v). valid_utf8 k \<and> wf_cbor v) m"
| "wf_cbor _ \<longleftrightarrow> True"

lemma wf_map_keys: "wf_cbor (CMap m) \<Longrightarrow> list_all valid_utf8 (map fst m)"
  by (auto simp: list_all_iff)

section \<open>The reader\<close>

definition rest :: "reader \<Rightarrow> bytes" where
  "rest r = drop (pos r) (buf r)"

definition adv :: "nat \<Rightarrow> reader \<Rightarrow> reader" where
  "adv n r = r\<lparr>pos := pos r + n\<rparr>"

definition wf_reader :: "reader \<Rightarrow> bool" where
  "wf_reader r \<longleftrightarrow> pos r \<le> length (buf r)"

lemma rest_adv [simp]: "rest (adv n r) = drop n (rest r)"
  by (simp add: rest_def adv_def add.commute)

lemma adv_adv [simp]: "adv m (adv n r) = adv (n + m) r"
  by (simp add: adv_def add.assoc)

lemma adv_0 [simp]: "adv 0 r = r"
  by (simp add: adv_def)

lemma pos_adv [simp]: "pos (adv n r) = pos r + n" "buf (adv n r) = buf r"
  by (simp_all add: adv_def)

lemma wf_reader_adv [simp]: "wf_reader r \<Longrightarrow> n \<le> length (rest r) \<Longrightarrow> wf_reader (adv n r)"
  by (auto simp: wf_reader_def rest_def)

lemma rest_Cons_nth: "rest r = b # xs \<Longrightarrow> pos r < length (buf r) \<and> buf r ! pos r = b"
  by (metis drop_all hd_drop_conv_nth leI list.discI list.sel(1) rest_def)

lemma read_u8_Cons: "rest r = b # xs \<Longrightarrow> read_u8 r = Inr (b, adv 1 r)"
  by (auto simp: read_u8_def adv_def dest: rest_Cons_nth)

lemma and_0xff: "(b :: byte) AND 0xff = b"
proof -
  have "(0xff :: byte) = - 1" by simp
  then show ?thesis by (simp only: and.right_neutral)
qed

lemma peek_Cons:
  "rest r = b # xs \<Longrightarrow> peek_major r = Inr (drop_bit 5 b)"
  "rest r = b # xs \<Longrightarrow> peek_additional r = Inr (b AND 0x1f)"
  by (auto simp: peek_major_def peek_additional_def and_0xff dest!: rest_Cons_nth)

lemma read_n_append:
  "wf_reader r \<Longrightarrow> rest r = ys @ xs \<Longrightarrow> read_n r (length ys) = Inr (ys, adv (length ys) r)"
proof -
  assume wf: "wf_reader r" and r: "rest r = ys @ xs"
  then have "length ys \<le> length (buf r) - pos r" by (metis length_append length_drop le_add1 rest_def)
  then have "pos r + length ys \<le> length (buf r)" using wf by (simp add: wf_reader_def)
  moreover have "take (length ys) (drop (pos r) (buf r)) = ys" using r by (simp add: rest_def)
  ultimately show ?thesis by (simp add: read_n_def adv_def)
qed

lemma read_n_len:
  "wf_reader r \<Longrightarrow> rest r = ys @ xs \<Longrightarrow> length ys = n \<Longrightarrow> read_n r n = Inr (ys, adv n r)"
  using read_n_append by blast

section \<open>Integers\<close>

lemma take_bit_self: "(x :: 'a::len word) < 2 ^ n \<Longrightarrow> take_bit n x = x"
  by (simp add: take_bit_eq_mask less_mask_eq)

lemma header_byte:
  fixes mt x :: byte
  assumes "mt < 8" "x < 32"
  shows "drop_bit 5 (push_bit 5 mt OR x) = mt" "(push_bit 5 mt OR x) AND 0x1f = x"
proof -
  have mt: "mt = take_bit 3 mt" and x: "x = take_bit 5 x"
    using take_bit_self [of mt 3] take_bit_self [of x 5] assms by simp_all
  show "drop_bit 5 (push_bit 5 mt OR x) = mt"
    by (subst mt, subst x, subst (2) mt, rule bit_word_eqI) (auto simp: bit_simps)
  have "(0x1f :: byte) = mask 5" by (simp add: mask_eq_exp_minus_1)
  then have "(push_bit 5 mt OR x) AND 0x1f = take_bit 5 (push_bit 5 mt OR x)"
    by (simp only: take_bit_eq_mask)
  also have "\<dots> = x"
    by (subst x, subst (2) x, rule bit_word_eqI) (auto simp: bit_simps)
  finally show "(push_bit 5 mt OR x) AND 0x1f = x" .
qed

text \<open>Reassembling a word from its bytes, most significant first.\<close>

lemma merge_byte:
  "push_bit (k + 8) (drop_bit (k + 8) v) OR (push_bit k (ucast (ucast (drop_bit k v) :: byte)) OR y)
   = push_bit k (drop_bit k v) OR (y :: u64)"
proof -
  have "push_bit (k + 8) (drop_bit (k + 8) v) OR push_bit k (ucast (ucast (drop_bit k v) :: byte))
      = push_bit k (drop_bit k v)" (is "?l = ?r")
  proof (rule bit_word_eqI)
    fix n
    show "bit ?l n = bit ?r n"
    proof (cases "k + 8 \<le> n")
      case True
      then obtain j where "n = k + 8 + j" by (auto simp: le_iff_add)
      then show ?thesis by (simp add: bit_simps add.assoc)
    next
      case False
      then show ?thesis by (auto simp: bit_simps)
    qed
  qed
  then show ?thesis by (simp add: or.assoc [symmetric])
qed

lemma merge_last_byte:
  "push_bit 8 (drop_bit 8 v) OR ucast (ucast v :: byte) = (v :: u64)"
  using merge_byte [of 0 v 0] by simp

lemma top_byte:
  assumes "(v :: u64) < 2 ^ (k + 8)"
  shows "ucast (ucast (drop_bit k v) :: byte) = drop_bit k v"
proof -
  have v: "take_bit (k + 8) v = v" using assms by (rule take_bit_self)
  have "ucast (ucast (drop_bit k (take_bit (k + 8) v)) :: byte) = drop_bit k (take_bit (k + 8) v)"
    by (rule bit_word_eqI) (auto simp: bit_simps)
  then show ?thesis by (simp only: v)
qed

lemma u64_split2:
  "(v :: u64) < 0x10000 \<Longrightarrow> push_bit 8 (ucast (ucast (drop_bit 8 v) :: byte)) OR ucast (ucast v :: byte) = v"
  using top_byte [of v 8] merge_last_byte [of v] by simp

lemma u64_split4:
  "(v :: u64) < 0x100000000 \<Longrightarrow>
   push_bit 24 (ucast (ucast (drop_bit 24 v) :: byte)) OR push_bit 16 (ucast (ucast (drop_bit 16 v) :: byte))
   OR push_bit 8 (ucast (ucast (drop_bit 8 v) :: byte)) OR ucast (ucast v :: byte) = v"
  using top_byte [of v 24] merge_byte [of 16 v] merge_byte [of 8 v] merge_last_byte [of v] by simp

lemma top_byte_u64: "ucast (ucast (drop_bit 56 (v :: u64)) :: byte) = drop_bit 56 v"
  by (rule bit_word_eqI) (auto simp: bit_simps dest: bit_imp_le_length)

lemma u64_split8:
  "push_bit 56 (ucast (ucast (drop_bit 56 v) :: byte)) OR push_bit 48 (ucast (ucast (drop_bit 48 v) :: byte))
   OR push_bit 40 (ucast (ucast (drop_bit 40 v) :: byte)) OR push_bit 32 (ucast (ucast (drop_bit 32 v) :: byte))
   OR push_bit 24 (ucast (ucast (drop_bit 24 v) :: byte)) OR push_bit 16 (ucast (ucast (drop_bit 16 v) :: byte))
   OR push_bit 8 (ucast (ucast (drop_bit 8 v) :: byte)) OR ucast (ucast v :: byte) = (v :: u64)"
  using top_byte_u64 [of v] merge_byte [of 48 v] merge_byte [of 40 v] merge_byte [of 32 v]
    merge_byte [of 24 v] merge_byte [of 16 v] merge_byte [of 8 v] merge_last_byte [of v] by simp

subsection \<open>Lengths and headers\<close>

lemma write_uint_append: "write_uint out mt v = out @ write_uint [] mt v"
  by (simp add: write_uint_def)

lemma write_type_append: "write_type out mt v = out @ write_type [] mt v"
  unfolding write_type_def by (rule write_uint_append)

lemma write_string_append: "write_string out mt bs = out @ write_type [] mt (of_nat (length bs)) @ bs"
  unfolding write_string_def by (subst write_type_append) simp

lemma write_simple_append: "write_simple_type out mt v = out @ write_simple_type [] mt v"
  by (simp add: write_simple_type_def)

text \<open>The initial byte of an encoded length carries the major type and the length indicator, and
  reading the indicator's payload gives the value back.\<close>

lemma ucast_small: "(v :: u64) < 0x18 \<Longrightarrow> (ucast v :: byte) < 0x18 \<and> ucast (ucast v :: byte) = v"
proof -
  assume v: "v < 0x18"
  then have "v < 2 ^ (0 + 8)" by (rule order.strict_trans) simp
  then have u: "ucast (ucast v :: byte) = v" using top_byte [of v 0] by simp
  have "unat (ucast v :: byte) < 2 ^ LENGTH(8)" by (rule unsigned_less)
  then have "unat (ucast (ucast v :: byte) :: u64) = unat (ucast v :: byte)"
    by (simp add: unsigned_ucast_eq take_bit_nat_eq_self_iff unsigned_take_bit_eq)
  then have "unat (ucast v :: byte) = unat v" by (simp only: u)
  with v u show ?thesis by (simp add: word_less_nat_alt)
qed

lemma ucast_byte_bound: "(v :: u64) < 0x100 \<Longrightarrow> ucast (ucast v :: byte) = v"
  using top_byte [of v 0] by simp

lemma write_uint_shape:
  assumes "mt < 8"
  obtains ib li t where "write_uint [] (push_bit 5 mt) v = ib # t" "drop_bit 5 ib = mt" "ib AND 0x1f = li"
    "\<And>r xs. wf_reader r \<Longrightarrow> rest r = t @ xs \<Longrightarrow> read_uint r li = Inr (v, adv (length t) r)"
proof -
  consider "v < 0x18" | "\<not> v < 0x18" "v < 0x100" | "\<not> v < 0x100" "v < 0x10000"
    | "\<not> v < 0x10000" "v < 0x100000000" | "\<not> v < 0x100000000" by blast
  then show thesis
  proof cases
    case 1
    have b: "(ucast v :: byte) < 32" using ucast_small [OF 1] by (auto intro: order.strict_trans)
    show thesis
      by (rule that [of "push_bit 5 mt OR ucast v" "[]" "ucast v"])
         (use 1 header_byte [OF assms b] ucast_small [OF 1] in \<open>simp_all add: write_uint_def read_uint_def\<close>)
  next
    case 2
    show thesis
      by (rule that [of "push_bit 5 mt OR ONE_BYTE" "[ucast v]" ONE_BYTE])
         (use 2 header_byte [OF assms, of ONE_BYTE] ucast_byte_bound [of v] in
           \<open>simp_all add: write_uint_def read_uint_def read_u8_Cons\<close>)
  next
    case 3
    then have v: "\<not> v < 0x18" by (simp add: word_less_nat_alt)
    show thesis
    proof (rule that [of "push_bit 5 mt OR TWO_BYTES" "[ucast (drop_bit 8 v), ucast v]" TWO_BYTES])
      fix r xs
      assume r: "wf_reader r" "rest r = [ucast (drop_bit 8 v), ucast v] @ xs"
      have l: "length [ucast (drop_bit 8 v) :: byte, ucast v] = 2" by simp
      show "read_uint r TWO_BYTES = Inr (v, adv (length [ucast (drop_bit 8 v) :: byte, ucast v]) r)"
        unfolding l using read_n_len [OF r l] u64_split2 [OF 3(2)] by (simp add: read_uint_def)
    qed (use 3 v header_byte [OF assms, of TWO_BYTES] in \<open>simp_all add: write_uint_def\<close>)
  next
    case 4
    then have v: "\<not> v < 0x18" "\<not> v < 0x100" by (simp_all add: word_less_nat_alt)
    let ?t = "[ucast (drop_bit 24 v), ucast (drop_bit 16 v), ucast (drop_bit 8 v), ucast v] :: bytes"
    show thesis
    proof (rule that [of "push_bit 5 mt OR FOUR_BYTES" ?t FOUR_BYTES])
      fix r xs
      assume r: "wf_reader r" "rest r = ?t @ xs"
      have l: "length ?t = 4" by simp
      show "read_uint r FOUR_BYTES = Inr (v, adv (length ?t) r)"
        unfolding l using read_n_len [OF r l] u64_split4 [OF 4(2)] by (simp add: read_uint_def)
    qed (use 4 v header_byte [OF assms, of FOUR_BYTES] in \<open>simp_all add: write_uint_def\<close>)
  next
    case 5
    then have v: "\<not> v < 0x18" "\<not> v < 0x100" "\<not> v < 0x10000" by (simp_all add: word_less_nat_alt)
    let ?t = "[ucast (drop_bit 56 v), ucast (drop_bit 48 v), ucast (drop_bit 40 v), ucast (drop_bit 32 v),
      ucast (drop_bit 24 v), ucast (drop_bit 16 v), ucast (drop_bit 8 v), ucast v] :: bytes"
    show thesis
    proof (rule that [of "push_bit 5 mt OR EIGHT_BYTES" ?t EIGHT_BYTES])
      fix r xs
      assume r: "wf_reader r" "rest r = ?t @ xs"
      have l: "length ?t = 8" by simp
      show "read_uint r EIGHT_BYTES = Inr (v, adv (length ?t) r)"
        unfolding l using read_n_len [OF r l] u64_split8 [of v] by (simp add: read_uint_def)
    qed (use 5 v header_byte [OF assms, of EIGHT_BYTES] in \<open>simp_all add: write_uint_def\<close>)
  qed
qed

lemma read_size_correct:
  assumes "mt < 8" "wf_reader r" "rest r = write_type [] mt v @ xs"
  shows "read_major_type_with_size r mt = Inr (v, adv (length (write_type [] mt v)) r)"
    and "peek_major r = Inr mt"
    and "\<exists>li. read_major_type r mt = Inr (li, adv 1 r) \<and>
           read_uint (adv 1 r) li = Inr (v, adv (length (write_type [] mt v)) r)"
proof -
  obtain ib li t where w: "write_uint [] (push_bit 5 mt) v = ib # t" "drop_bit 5 ib = mt" "ib AND 0x1f = li"
    and read: "\<And>r xs. wf_reader r \<Longrightarrow> rest r = t @ xs \<Longrightarrow> read_uint r li = Inr (v, adv (length t) r)"
    using write_uint_shape [OF assms(1), of v] by blast
  have r: "rest r = ib # t @ xs" using assms(3) w by (simp add: write_type_def)
  have "(0x07 :: byte) = mask 3" by (simp add: mask_eq_exp_minus_1)
  then have "drop_bit 5 ib AND 0x07 = take_bit 3 (drop_bit 5 ib)" by (simp only: take_bit_eq_mask)
  also have "\<dots> = mt" using assms(1) w(2) take_bit_self [of mt 3] by simp
  finally have m: "drop_bit 5 ib AND 0x07 = mt" .
  have "rest (adv 1 r) = t @ xs" "wf_reader (adv 1 r)" using r assms(2) by simp_all
  then have ru: "read_uint (adv 1 r) li = Inr (v, adv (Suc (length t)) r)" using read by fastforce
  show "peek_major r = Inr mt" using peek_Cons(1) [OF r] w by simp
  have rm: "read_major_type r mt = Inr (li, adv 1 r)"
    using read_u8_Cons [OF r] m w(3) by (simp add: read_major_type_def)
  then show "read_major_type_with_size r mt = Inr (v, adv (length (write_type [] mt v)) r)"
    using ru w(1) by (simp add: read_major_type_with_size_def write_type_def)
  show "\<exists>li. read_major_type r mt = Inr (li, adv 1 r) \<and>
      read_uint (adv 1 r) li = Inr (v, adv (length (write_type [] mt v)) r)"
    using rm ru w(1) by (simp add: write_type_def)
qed

lemma sign_extend: "signed_drop_bit 63 (v :: i64) = (if bit v 63 then - 1 else 0)"
  by (rule bit_word_eqI) (auto simp: bit_simps min_def not_less_eq_eq dest: less_antisym)

lemma write_int_cases:
  "write_int out v =
     (if bit v 63 then write_type out TYPE_NEGATIVE_INTEGER (NOT v)
      else write_type out TYPE_UNSIGNED_INTEGER v)"
  by (simp add: write_int_def write_type_def sign_extend Let_def)

lemma read_int_correct:
  assumes "wf_reader r" "rest r = write_int [] v @ xs"
  shows "read_int r = Inr (v, adv (length (write_int [] v)) r)"
    and "peek_major r = Inr TYPE_UNSIGNED_INTEGER \<or> peek_major r = Inr TYPE_NEGATIVE_INTEGER"
proof -
  have gen: "read_int r = Inr (- ucast mt XOR w, adv (length (write_type [] mt w)) r)"
    if "mt = 0 \<or> mt = 1" "rest r = write_type [] mt w @ xs" for mt :: byte and w
  proof -
    have mt: "mt < 8" using that(1) by auto
    obtain ib li t where w: "write_uint [] (push_bit 5 mt) w = ib # t" "drop_bit 5 ib = mt" "ib AND 0x1f = li"
      and read: "\<And>r xs. wf_reader r \<Longrightarrow> rest r = t @ xs \<Longrightarrow> read_uint r li = Inr (w, adv (length t) r)"
      using write_uint_shape [OF mt, of w] by blast
    have r: "rest r = ib # t @ xs" using that(2) w by (simp add: write_type_def)
    have "rest (adv 1 r) = t @ xs" "wf_reader (adv 1 r)" using r assms(1) by simp_all
    then have "read_uint (adv 1 r) li = Inr (w, adv (Suc (length t)) r)" using read by fastforce
    then show ?thesis
      using read_u8_Cons [OF r] w that(1) by (auto simp: read_int_def Let_def and_0xff write_type_def)
  qed
  show "read_int r = Inr (v, adv (length (write_int [] v)) r)"
    using gen [of 1 "NOT v"] gen [of 0 v] assms(2) by (auto simp: write_int_cases)
  show "peek_major r = Inr TYPE_UNSIGNED_INTEGER \<or> peek_major r = Inr TYPE_NEGATIVE_INTEGER"
    using read_size_correct(2) [OF _ assms(1), of 0 v xs] read_size_correct(2) [OF _ assms(1), of 1 "NOT v" xs] assms(2)
    by (auto simp: write_int_cases split: if_splits)
qed

section \<open>Encoding\<close>

lemma foldl_append_concat:
  "(\<And>x o'. x \<in> set xs \<Longrightarrow> f o' x = o' @ g x) \<Longrightarrow> foldl f out xs = out @ concat (map g xs)"
  by (induction xs arbitrary: out) auto

lemma write_object_append: "write_object out c = out @ to_bytes c"
proof (induction c arbitrary: out)
  case (CList items)
  have eq: "write_object out (CList items) =
      write_type out TYPE_ARRAY (of_nat (length items)) @ concat (map to_bytes items)" for out
    unfolding write_object.simps by (rule foldl_append_concat) (rule CList)
  show ?case by (simp only: to_bytes_def eq [of out] eq [of "[]"] write_type_append [of out] append_assoc)
next
  case (CMap m)
  define g where "g = (\<lambda>(k, v). write_string [] TYPE_TEXT_STRING (as_bytes k) @ to_bytes v)"
  have step: "(case e of (k, v) \<Rightarrow> write_object (write_string o' TYPE_TEXT_STRING (as_bytes k)) v) = o' @ g e"
    if "e \<in> set m" for e o'
    using CMap [OF that] by (cases e) (auto simp: g_def write_string_append)
  have eq: "write_object out (CMap m) = write_type out TYPE_MAP (of_nat (length m)) @ concat (map g m)" for out
    unfolding write_object.simps by (rule foldl_append_concat) (rule step)
  show ?case by (simp only: to_bytes_def eq [of out] eq [of "[]"] write_type_append [of out] append_assoc)
next
  case (CLong v)
  then show ?case using write_type_append [of out] by (simp add: to_bytes_def write_int_cases)
next
  case (CMerkleLink cid)
  then show ?case using write_type_append [of out] by (simp add: to_bytes_def write_string_append)
qed (simp_all add: to_bytes_def write_simple_type_def write_string_append)

lemma to_bytes_leaf:
  "to_bytes (CLong v) = write_int [] v"
  "to_bytes (CBoolean b) = [0xe0 OR (if b then TRUE else FALSE)]"
  "to_bytes (CByteString bs) = write_type [] TYPE_BYTE_STRING (of_nat (length bs)) @ bs"
  "to_bytes (CStr s) = write_type [] TYPE_TEXT_STRING (of_nat (length s)) @ as_bytes s"
  "to_bytes (CMerkleLink cid) = write_type [] TYPE_TAG LINK_TAG @
     write_type [] TYPE_BYTE_STRING (of_nat (Suc (length cid))) @ 0 # cid"
  "to_bytes CNull = [0xf6]"
  by (auto simp: to_bytes_def write_simple_type_def write_string_append)

lemma to_bytes_list:
  "to_bytes (CList items) = write_type [] TYPE_ARRAY (of_nat (length items)) @ concat (map to_bytes items)"
  unfolding to_bytes_def [of "CList items"] write_object.simps
  by (rule foldl_append_concat) (rule write_object_append)

lemma to_bytes_map:
  "to_bytes (CMap m) = write_type [] TYPE_MAP (of_nat (length m)) @
     concat (map (\<lambda>(k, v). to_bytes (CStr k) @ to_bytes v) m)"
  unfolding to_bytes_def [of "CMap m"] write_object.simps
  by (rule foldl_append_concat) (auto simp: write_object_append write_string_append to_bytes_leaf)

lemmas to_bytes_simps = to_bytes_leaf to_bytes_list to_bytes_map

lemma write_type_nonempty [simp]: "write_type [] mt v \<noteq> []"
  by (simp add: write_type_def write_uint_def)

lemma to_bytes_nonempty [simp]: "to_bytes c \<noteq> []"
  by (cases c) (auto simp: to_bytes_simps write_int_cases)

lemma concat_length_ge: "(\<And>x. x \<in> set xs \<Longrightarrow> f x \<noteq> []) \<Longrightarrow> length xs \<le> length (concat (map f xs))"
proof (induction xs)
  case (Cons x xs)
  then have "f x \<noteq> []" "length xs \<le> length (concat (map f xs))" by auto
  then show ?case by (cases "f x") auto
qed simp

section \<open>Decoding what was encoded\<close>

text \<open>A decoder for single values that reads back the encodings of the values in \<open>S\<close>.\<close>

definition decodes :: "(reader \<Rightarrow> cbor_error + cbor \<times> reader) \<Rightarrow> cbor \<Rightarrow> bool" where
  "decodes de c \<longleftrightarrow> (\<forall>r xs. wf_reader r \<longrightarrow> rest r = to_bytes c @ xs \<longrightarrow>
     de r = Inr (c, adv (length (to_bytes c)) r))"

lemma decodesD:
  "decodes de c \<Longrightarrow> wf_reader r \<Longrightarrow> rest r = to_bytes c @ xs \<Longrightarrow>
   de r = Inr (c, adv (length (to_bytes c)) r) \<and> wf_reader (adv (length (to_bytes c)) r) \<and>
   rest (adv (length (to_bytes c)) r) = xs"
  by (simp add: decodes_def)

lemma read_items_correct:
  "(\<And>it. it \<in> set its \<Longrightarrow> decodes de it) \<Longrightarrow> wf_reader r \<Longrightarrow> rest r = concat (map to_bytes its) @ xs \<Longrightarrow>
   read_items de (length its) acc r = Inr (acc @ its, adv (length (concat (map to_bytes its))) r)"
proof (induction its arbitrary: acc r)
  case (Cons it its)
  note d = decodesD [OF Cons.prems(1) [of it] Cons.prems(2), of "concat (map to_bytes its) @ xs"]
  from d Cons.prems(3) have "read_items de (length its) (acc @ [it]) (adv (length (to_bytes it)) r)
      = Inr ((acc @ [it]) @ its, adv (length (concat (map to_bytes its))) (adv (length (to_bytes it)) r))"
    by (intro Cons.IH Cons.prems(1)) auto
  with d Cons.prems(3) show ?case by simp
qed simp

lemma bt_insert_last:
  "valid_utf8 k \<Longrightarrow> list_all valid_utf8 (map fst m) \<Longrightarrow> bt_sorted cmp_cbor_string (m @ [(k, v)]) \<Longrightarrow>
   bt_insert cmp_cbor_string k v m = m @ [(k, v)] \<and> bt_get cmp_cbor_string k m = None"
proof (induction m)
  case (Cons e m)
  obtain k' v' where e: "e = (k', v')" by force
  with Cons.prems have ok: "valid_utf8 k'" "cmp_cbor_string k' k = Less" by auto
  then have "cmp_cbor_string k k' = Greater" using cbor_key.cmp_greater Cons.prems(1) by blast
  with Cons e ok show ?case by auto
qed simp

lemma read_entries_correct:
  "(\<And>k v. (k, v) \<in> set es \<Longrightarrow> decodes de (CStr k) \<and> decodes de v) \<Longrightarrow>
   wf_reader r \<Longrightarrow> rest r = concat (map (\<lambda>(k, v). to_bytes (CStr k) @ to_bytes v) es) @ xs \<Longrightarrow>
   list_all valid_utf8 (map fst (acc @ es)) \<Longrightarrow> bt_sorted cmp_cbor_string (acc @ es) \<Longrightarrow>
   read_entries de (length es) acc r
     = Inr (acc @ es, adv (length (concat (map (\<lambda>(k, v). to_bytes (CStr k) @ to_bytes v) es))) r)"
proof (induction es arbitrary: acc r)
  case (Cons e es)
  obtain k v where e: "e = (k, v)" by force
  let ?enc = "\<lambda>(k, v). to_bytes (CStr k) @ to_bytes v"
  let ?r1 = "adv (length (to_bytes (CStr k))) r"
  let ?r2 = "adv (length (to_bytes v)) ?r1"
  have dk: "de r = Inr (CStr k, ?r1) \<and> wf_reader ?r1 \<and> rest ?r1 = to_bytes v @ concat (map ?enc es) @ xs"
    using decodesD [of de "CStr k" r] Cons.prems(1) [of k v] Cons.prems(2,3) e by simp
  have dv: "de ?r1 = Inr (v, ?r2) \<and> wf_reader ?r2 \<and> rest ?r2 = concat (map ?enc es) @ xs"
    using decodesD [of de v ?r1] Cons.prems(1) [of k v] dk e by simp
  have ins: "bt_insert cmp_cbor_string k v acc = acc @ [(k, v)]" "bt_get cmp_cbor_string k acc = None"
    using bt_insert_last [of k acc v] Cons.prems(4,5) e by (auto simp: bt_sorted_def sorted_wrt_append)
  have "read_entries de (length es) (acc @ [(k, v)]) ?r2
      = Inr ((acc @ [(k, v)]) @ es, adv (length (concat (map ?enc es))) ?r2)"
    using Cons.prems e dv by (intro Cons.IH) auto
  then show ?case using dk dv ins e by (simp add: add.assoc)
qed simp

end
