(* ===== verification/Cbor_Codec.thy ===== *)
theory Cbor_Codec
  imports Cbor
begin

text \<open>
  Correctness of the DAG-CBOR codec of \<open>Cbor\<close>: the decoder inverts the encoder on every value a
  Rust \<open>CborObject\<close> can hold and stops right behind it; on arbitrary input it ends, yields only
  well-formed values, and never takes fewer bytes than the encoder would write for its result.
\<close>


lemma size_ok:
  assumes "n \<le> m" "m \<le> unat (g :: u64)"
  shows "unat (of_nat n :: u64) = n" "\<not> of_nat n > g"
proof -
  have "unat g < 2 ^ LENGTH(64)" by (rule unsigned_less)
  then have "n < 2 ^ 64" using assms by simp
  then show u: "unat (of_nat n :: u64) = n" by (simp add: unat_of_nat take_bit_nat_eq_self_iff)
  then show "\<not> of_nat n > g" using assms by (simp add: word_less_nat_alt)
qed

lemma deserialize_text:
  assumes "valid_utf8 s" "length (to_bytes (CStr s)) \<le> unat g"
  shows "decodes (\<lambda>r. deserialize (Suc fuel) r g) (CStr s)"
  unfolding decodes_def
proof (intro allI impI)
  fix r xs
  assume r: "wf_reader r" "rest r = to_bytes (CStr s) @ xs"
  let ?h = "write_type [] TYPE_TEXT_STRING (of_nat (length s))"
  have n: "unat (of_nat (length s) :: u64) = length s" "\<not> (of_nat (length s) :: u64) > g"
    using size_ok [OF _ assms(2), of "length s"] by (auto simp: to_bytes_leaf)
  have r': "rest r = ?h @ as_bytes s @ xs" using r by (simp add: to_bytes_leaf)
  have rn: "read_n (adv (length ?h) r) (length s) = Inr (as_bytes s, adv (length s) (adv (length ?h) r))"
    using r(1) r' by (intro read_n_len) auto
  show "deserialize (Suc fuel) r g = Inr (CStr s, adv (length (to_bytes (CStr s))) r)"
    using read_size_correct [OF _ r(1) r'] n rn from_utf8_as_bytes [OF assms(1)]
    by (simp add: to_bytes_leaf)
qed

lemma deserialize_blob:
  assumes "length (to_bytes (CByteString b)) \<le> unat g"
  shows "decodes (\<lambda>r. deserialize (Suc fuel) r g) (CByteString b)"
  unfolding decodes_def
proof (intro allI impI)
  fix r xs
  assume r: "wf_reader r" "rest r = to_bytes (CByteString b) @ xs"
  let ?h = "write_type [] TYPE_BYTE_STRING (of_nat (length b))"
  have n: "unat (of_nat (length b) :: u64) = length b" "\<not> (of_nat (length b) :: u64) > g"
    using size_ok [OF _ assms, of "length b"] by (auto simp: to_bytes_leaf)
  have r': "rest r = ?h @ b @ xs" using r by (simp add: to_bytes_leaf)
  have rn: "read_n (adv (length ?h) r) (length b) = Inr (b, adv (length b) (adv (length ?h) r))"
    using r(1) r' by (intro read_n_len) auto
  show "deserialize (Suc fuel) r g = Inr (CByteString b, adv (length (to_bytes (CByteString b))) r)"
    using read_size_correct [OF _ r(1) r'] n rn by (simp add: to_bytes_leaf)
qed

lemma deserialize_list:
  assumes "length (to_bytes (CList items)) \<le> unat g"
    and items: "\<And>it. it \<in> set items \<Longrightarrow> decodes (\<lambda>r. deserialize fuel r g) it"
  shows "decodes (\<lambda>r. deserialize (Suc fuel) r g) (CList items)"
  unfolding decodes_def
proof (intro allI impI)
  fix r xs
  assume r: "wf_reader r" "rest r = to_bytes (CList items) @ xs"
  let ?h = "write_type [] TYPE_ARRAY (of_nat (length items))"
  let ?es = "concat (map to_bytes items)"
  have le: "length items \<le> length ?es" by (rule concat_length_ge) simp
  have n: "unat (of_nat (length items) :: u64) = length items" "\<not> (of_nat (length items) :: u64) > g"
    using size_ok [OF _ assms(1), of "length items"] le by (auto simp: to_bytes_list)
  have r': "rest r = ?h @ ?es @ xs" using r by (simp add: to_bytes_list)
  have "read_items (\<lambda>r. deserialize fuel r g) (length items) [] (adv (length ?h) r)
      = Inr ([] @ items, adv (length ?es) (adv (length ?h) r))"
    using r(1) r' by (intro read_items_correct items) auto
  then show "deserialize (Suc fuel) r g = Inr (CList items, adv (length (to_bytes (CList items))) r)"
    using read_size_correct [OF _ r(1) r'] n by (simp add: to_bytes_list)
qed

lemma deserialize_map:
  assumes "length (to_bytes (CMap m)) \<le> unat g" "wf_cbor (CMap m)"
    and entries: "\<And>k v. (k, v) \<in> set m \<Longrightarrow>
      decodes (\<lambda>r. deserialize fuel r g) (CStr k) \<and> decodes (\<lambda>r. deserialize fuel r g) v"
  shows "decodes (\<lambda>r. deserialize (Suc fuel) r g) (CMap m)"
  unfolding decodes_def
proof (intro allI impI)
  fix r xs
  assume r: "wf_reader r" "rest r = to_bytes (CMap m) @ xs"
  let ?h = "write_type [] TYPE_MAP (of_nat (length m))"
  let ?es = "concat (map (\<lambda>(k, v). to_bytes (CStr k) @ to_bytes v) m)"
  have le: "length m \<le> length ?es" by (rule concat_length_ge) auto
  have n: "unat (of_nat (length m) :: u64) = length m" "\<not> (of_nat (length m) :: u64) > g"
    using size_ok [OF _ assms(1), of "length m"] le by (auto simp: to_bytes_map)
  have r': "rest r = ?h @ ?es @ xs" using r by (simp add: to_bytes_map)
  have "read_entries (\<lambda>r. deserialize fuel r g) (length m) [] (adv (length ?h) r)
      = Inr ([] @ m, adv (length ?es) (adv (length ?h) r))"
    using r(1) r' wf_map_keys [OF assms(2)] assms(2) by (intro read_entries_correct entries) auto
  then show "deserialize (Suc fuel) r g = Inr (CMap m, adv (length (to_bytes (CMap m))) r)"
    using read_size_correct [OF _ r(1) r'] n by (simp add: to_bytes_map)
qed

lemma deserialize_link:
  assumes "length (to_bytes (CMerkleLink cid)) \<le> unat g"
  shows "decodes (\<lambda>r. deserialize (Suc (Suc fuel)) r g) (CMerkleLink cid)"
  unfolding decodes_def
proof (intro allI impI)
  fix r xs
  assume r: "wf_reader r" "rest r = to_bytes (CMerkleLink cid) @ xs"
  let ?h = "write_type [] TYPE_TAG LINK_TAG"
  have tb: "to_bytes (CMerkleLink cid) = ?h @ to_bytes (CByteString (0 # cid))"
    by (simp add: to_bytes_leaf)
  have r': "rest r = ?h @ to_bytes (CByteString (0 # cid)) @ xs" using r tb by simp
  obtain li where li: "read_major_type r TYPE_TAG = Inr (li, adv 1 r)"
      "read_uint (adv 1 r) li = Inr (LINK_TAG, adv (length ?h) r)"
    using read_size_correct(3) [OF _ r(1) r'] by auto
  have "decodes (\<lambda>r. deserialize (Suc fuel) r g) (CByteString (0 # cid))"
    using assms tb by (intro deserialize_blob) simp
  then have "deserialize (Suc fuel) (adv (length ?h) r) g
      = Inr (CByteString (0 # cid), adv (length (to_bytes (CByteString (0 # cid)))) (adv (length ?h) r))"
    using r(1) r' by (simp add: decodes_def del: deserialize.simps)
  then show "deserialize (Suc (Suc fuel)) r g = Inr (CMerkleLink cid, adv (length (to_bytes (CMerkleLink cid))) r)"
    unfolding tb deserialize.simps(2) [of "Suc fuel"]
    using li read_size_correct(2) [OF _ r(1) r'] by (simp del: deserialize.simps)
qed

lemma deserialize_simple:
  assumes "c = CNull \<or> c = CBoolean b"
  shows "decodes (\<lambda>r. deserialize (Suc fuel) r g) c"
  using assms by (auto simp: decodes_def to_bytes_leaf peek_Cons read_u8_Cons)

lemma deserialize_long: "decodes (\<lambda>r. deserialize (Suc fuel) r g) (CLong v)"
  using read_int_correct by (fastforce simp: decodes_def to_bytes_leaf)

lemma concat_member_length: "x \<in> set xs \<Longrightarrow> length (f x) \<le> length (concat (map f xs))"
  by (induction xs) auto

lemma to_bytes_list_item: "it \<in> set items \<Longrightarrow> length (to_bytes it) < length (to_bytes (CList items))"
  using concat_member_length [of it items to_bytes]
  by (cases "write_type [] TYPE_ARRAY (of_nat (length items))") (auto simp: to_bytes_list)

lemma to_bytes_map_entry:
  assumes "(k, v) \<in> set m"
  shows "length (to_bytes (CStr k)) + length (to_bytes v) < length (to_bytes (CMap m))"
  using concat_member_length [OF assms, of "\<lambda>(k, v). to_bytes (CStr k) @ to_bytes v"]
  by (cases "write_type [] TYPE_MAP (of_nat (length m))") (auto simp: to_bytes_map)

lemma deserialize_correct:
  "wf_cbor c \<Longrightarrow> length (to_bytes c) \<le> fuel \<Longrightarrow> length (to_bytes c) \<le> unat g \<Longrightarrow>
   decodes (\<lambda>r. deserialize fuel r g) c"
proof (induction c arbitrary: fuel)
  case (CList items)
  obtain f where f: "fuel = Suc f" using CList.prems(2) to_bytes_nonempty [of "CList items"] by (cases fuel) auto
  have "decodes (\<lambda>r. deserialize f r g) it" if "it \<in> set items" for it
    using CList.prems to_bytes_list_item [OF that] that f by (intro CList.IH) (auto simp: list_all_iff)
  then show ?case unfolding f using CList.prems(3) by (intro deserialize_list)
next
  case (CMap m)
  obtain f where f: "fuel = Suc f" using CMap.prems(2) to_bytes_nonempty [of "CMap m"] by (cases fuel) auto
  have "decodes (\<lambda>r. deserialize f r g) (CStr k) \<and> decodes (\<lambda>r. deserialize f r g) v"
    if "(k, v) \<in> set m" for k v
  proof
    have v: "valid_utf8 k" "wf_cbor v" using CMap.prems(1) that by (auto simp: list_all_iff)
    note le = to_bytes_map_entry [OF that]
    obtain f' where f': "f = Suc f'"
      using le CMap.prems(2) f by (cases f; cases "to_bytes v") (auto dest: arg_cong [where f = length])
    show "decodes (\<lambda>r. deserialize f r g) (CStr k)"
      unfolding f' using v le CMap.prems(3) by (intro deserialize_text) auto
    show "decodes (\<lambda>r. deserialize f r g) v"
      using v le CMap.prems that f by (intro CMap.IH [of "(k, v)"]) auto
  qed
  then show ?case unfolding f using CMap.prems by (intro deserialize_map)
next
  case (CMerkleLink cid)
  then obtain f where "fuel = Suc (Suc f)"
    by (cases fuel; cases "fuel - 1") (auto simp: to_bytes_leaf)
  then show ?case using CMerkleLink deserialize_link by blast
next
  case (CStr s)
  then obtain f where "fuel = Suc f" by (cases fuel) (auto simp: to_bytes_leaf)
  then show ?case using CStr deserialize_text by auto
next
  case (CByteString b)
  then obtain f where "fuel = Suc f" by (cases fuel) (auto simp: to_bytes_leaf)
  then show ?case using CByteString deserialize_blob by auto
next
  case (CLong v)
  then obtain f where "fuel = Suc f" using to_bytes_nonempty [of "CLong v"] by (cases fuel) auto
  then show ?case using deserialize_long by auto
next
  case (CBoolean b)
  then obtain f where "fuel = Suc f" using to_bytes_nonempty [of "CBoolean b"] by (cases fuel) auto
  then show ?case using deserialize_simple by auto
next
  case CNull
  then obtain f where "fuel = Suc f" using to_bytes_nonempty [of "CNull"] by (cases fuel) auto
  then show ?case using deserialize_simple by auto
qed


text \<open>Reading one value off a stream of concatenated values.\<close>

lemma wf_reader_start [simp]: "wf_reader \<lparr>buf = bs, pos = 0\<rparr>" "rest \<lparr>buf = bs, pos = 0\<rparr> = bs"
  by (simp_all add: wf_reader_def rest_def)

lemma deserialize_stream:
  assumes "wf_cbor c" "length (to_bytes c @ xs) < 2 ^ 64"
  shows "deserialize (decode_fuel (to_bytes c @ xs)) \<lparr>buf = to_bytes c @ xs, pos = 0\<rparr>
      (of_nat (length (to_bytes c @ xs))) = Inr (c, adv (length (to_bytes c)) \<lparr>buf = to_bytes c @ xs, pos = 0\<rparr>)"
proof -
  let ?n = "length (to_bytes c @ xs)"
  have "unat (of_nat ?n :: u64) = ?n"
    using assms(2) by (simp add: unat_of_nat take_bit_nat_eq_self_iff del: length_append)
  then have "decodes (\<lambda>r. deserialize (decode_fuel (to_bytes c @ xs)) r (of_nat ?n)) c"
    using assms(1) by (intro deserialize_correct) (auto simp: decode_fuel_def)
  then show ?thesis by (simp add: decodes_def)
qed

section \<open>What the decoder accepts\<close>

text \<open>\<open>r'\<close> is \<open>r\<close> moved forward by at least \<open>k\<close> bytes, still inside its input.\<close>

definition advances :: "nat \<Rightarrow> reader \<Rightarrow> reader \<Rightarrow> bool" where
  "advances k r r' \<longleftrightarrow> buf r' = buf r \<and> pos r + k \<le> pos r' \<and> (wf_reader r \<longrightarrow> wf_reader r')"

lemma advances_refl [simp]: "advances 0 r r"
  by (simp add: advances_def)

lemma advances_trans: "advances j r r' \<Longrightarrow> advances k r' r'' \<Longrightarrow> i \<le> j + k \<Longrightarrow> advances i r r''"
  by (auto simp: advances_def)

lemma advances_wf: "advances k r r' \<Longrightarrow> wf_reader r \<Longrightarrow> wf_reader r'"
  by (auto simp: advances_def)

lemma advances_rest: "advances k r r' \<Longrightarrow> wf_reader r \<Longrightarrow> length (rest r') + k \<le> length (rest r)"
  by (auto simp: advances_def rest_def wf_reader_def)

lemma read_u8_advances: "read_u8 r = Inr (b, r') \<Longrightarrow> advances 1 r r'"
  by (auto simp: read_u8_def advances_def wf_reader_def split: if_splits)

lemma read_n_advances: "read_n r n = Inr (b, r') \<Longrightarrow> advances 0 r r'"
  by (auto simp: read_n_def advances_def wf_reader_def Let_def split: if_splits)

lemma read_uint_advances: "read_uint r li = Inr (v, r') \<Longrightarrow> advances 0 r r'"
  by (auto simp: read_uint_def and_then_Inr_iff split: if_splits
      dest!: read_u8_advances read_n_advances intro: advances_trans [OF _ advances_refl])

lemma read_major_type_advances: "read_major_type r mt = Inr (v, r') \<Longrightarrow> advances 1 r r'"
  by (auto simp: read_major_type_def and_then_Inr_iff split: if_splits dest: read_u8_advances)

lemma read_size_advances: "read_major_type_with_size r mt = Inr (v, r') \<Longrightarrow> advances 1 r r'"
  by (auto simp: read_major_type_with_size_def and_then_Inr_iff
      intro: advances_trans [OF read_major_type_advances read_uint_advances])

lemma read_int_advances: "read_int r = Inr (v, r') \<Longrightarrow> advances 1 r r'"
  by (auto simp: read_int_def and_then_Inr_iff Let_def split: if_splits
      intro: advances_trans [OF read_u8_advances read_uint_advances])

text \<open>A sound reader of values: it moves forward and returns well-formed values.\<close>

definition sound_reader :: "(reader \<Rightarrow> cbor_error + cbor \<times> reader) \<Rightarrow> bool" where
  "sound_reader de \<longleftrightarrow>
     (\<forall>r c r'. de r = Inr (c, r') \<longrightarrow> advances 1 r r' \<and> wf_cbor c)"

lemma sound_readerD: "sound_reader de \<Longrightarrow> de r = Inr (c, r') \<Longrightarrow> advances 1 r r' \<and> wf_cbor c"
  by (simp add: sound_reader_def)

lemma read_items_sound:
  "sound_reader de \<Longrightarrow> read_items de n acc r = Inr (its, r') \<Longrightarrow> list_all wf_cbor acc \<Longrightarrow>
   advances 0 r r' \<and> list_all wf_cbor its"
proof (induction n arbitrary: acc r)
  case (Suc n)
  then obtain it r1 where r1: "de r = Inr (it, r1)" "read_items de n (acc @ [it]) r1 = Inr (its, r')"
    by (auto simp: and_then_Inr_iff)
  note d = sound_readerD [OF Suc.prems(1) r1(1)]
  have "advances 0 r1 r' \<and> list_all wf_cbor its"
    using Suc.IH [OF Suc.prems(1) r1(2)] d Suc.prems(3) by simp
  with d show ?case by (auto intro: advances_trans)
qed simp

lemma set_bt_insert: "set (bt_insert c k v m) \<subseteq> insert (k, v) (set m \<union> (\<lambda>x. (x, v)) ` fst ` set m)"
proof (induction m)
  case (Cons e m)
  then show ?case by (cases e) (auto split: ordering.splits)
qed simp

lemma wf_bt_insert:
  assumes "wf_cbor (CMap m)" "valid_utf8 s" "wf_cbor v"
  shows "wf_cbor (CMap (bt_insert cmp_cbor_string s v m))"
proof -
  have "valid_utf8 k \<and> wf_cbor x" if "(k, x) \<in> set (bt_insert cmp_cbor_string s v m)" for k x
    using subsetD [OF set_bt_insert that] assms by (auto simp: list_all_iff)
  then show ?thesis
    using cbor_key.sorted_bt_insert [OF assms(2) wf_map_keys [OF assms(1)]] assms(1)
    by (auto simp: list_all_iff)
qed

lemma read_entries_SucE:
  assumes "read_entries de (Suc n) acc r = Inr (m, r')"
  obtains s r1 v r2 where "de r = Inr (CStr s, r1)" "de r1 = Inr (v, r2)"
    "bt_get cmp_cbor_string s acc = None"
    "read_entries de n (bt_insert cmp_cbor_string s v acc) r2 = Inr (m, r')"
proof -
  from assms obtain key r1 where k: "de r = Inr (key, r1)" by (auto simp: and_then_Inr_iff)
  with assms obtain s where s: "key = CStr s" by (cases key) auto
  from assms k s obtain v r2 where "de r1 = Inr (v, r2)" by (auto simp: and_then_Inr_iff)
  with assms k s show thesis using that [of s r1 v r2] by (auto split: if_splits)
qed

lemma read_entries_sound:
  "sound_reader de \<Longrightarrow> read_entries de n acc r = Inr (m, r') \<Longrightarrow> wf_cbor (CMap acc) \<Longrightarrow>
   advances 0 r r' \<and> wf_cbor (CMap m)"
proof (induction n arbitrary: acc r)
  case (Suc n)
  from Suc.prems(2) obtain s r1 v r2 where k: "de r = Inr (CStr s, r1)" and v: "de r1 = Inr (v, r2)"
      and rec: "read_entries de n (bt_insert cmp_cbor_string s v acc) r2 = Inr (m, r')"
    by (rule read_entries_SucE)
  note dk = sound_readerD [OF Suc.prems(1) k] and dv = sound_readerD [OF Suc.prems(1) v]
  have "wf_cbor (CMap (bt_insert cmp_cbor_string s v acc))"
    using dk dv Suc.prems(3) by (intro wf_bt_insert) auto
  then have "advances 0 r2 r' \<and> wf_cbor (CMap m)"
    by (rule Suc.IH [OF Suc.prems(1) rec])
  with dk dv show ?case by (meson advances_trans le0)
qed simp

lemma deserialize_sound: "sound_reader (\<lambda>r. deserialize fuel r g)"
proof (induction fuel)
  case 0
  then show ?case by (simp add: sound_reader_def)
next
  case (Suc fuel)
  note items = read_items_sound [OF Suc.IH, where acc = "[]", simplified]
  note entries = read_entries_sound [OF Suc.IH, where acc = "[]", simplified]
  show ?case
    unfolding sound_reader_def
  proof (intro allI impI)
    fix r c r'
    assume d: "deserialize (Suc fuel) r g = Inr (c, r')"
    then obtain major where major: "peek_major r = Inr major" by (auto simp: and_then_Inr_iff)
    note d' = d [unfolded deserialize.simps major and_then.simps]
    consider (str) "major = TYPE_TEXT_STRING" | (blob) "major = TYPE_BYTE_STRING"
      | (num) "major = TYPE_UNSIGNED_INTEGER \<or> major = TYPE_NEGATIVE_INTEGER"
      | (simple) "major = TYPE_FLOAT_SIMPLE" | (dict) "major = TYPE_MAP" | (array) "major = TYPE_ARRAY"
      | (tag) "major = TYPE_TAG"
      using d' by (auto split: if_splits)
    then show "advances 1 r r' \<and> wf_cbor c"
    proof cases
      case str
      then obtain len r1 raw s where "read_major_type_with_size r TYPE_TEXT_STRING = Inr (len, r1)"
          "read_n r1 (unat len) = Inr (raw, r')" "from_utf8 raw = Some s" "c = CStr s"
        using d' by (fastforce simp: and_then_Inr_iff split: if_splits option.splits)
      then show ?thesis
        by (auto dest!: read_size_advances read_n_advances from_utf8_valid intro: advances_trans)
    next
      case blob
      then show ?thesis using d'
        by (auto simp: and_then_Inr_iff split: if_splits
            dest!: read_size_advances read_n_advances intro: advances_trans)
    next
      case num
      then show ?thesis using d' by (auto simp: and_then_Inr_iff dest!: read_int_advances)
    next
      case simple
      then show ?thesis using d'
        by (auto simp: and_then_Inr_iff split: if_splits dest: read_u8_advances)
    next
      case dict
      then show ?thesis using d'
        by (auto simp: and_then_Inr_iff split: if_splits
            dest!: read_size_advances entries intro: advances_trans)
    next
      case array
      then show ?thesis using d'
        by (auto simp: and_then_Inr_iff split: if_splits
            dest!: read_size_advances items intro: advances_trans)
    next
      case tag
      then obtain li r1 v r2 val r3 where
          tag: "read_major_type r TYPE_TAG = Inr (li, r1)" "read_uint r1 li = Inr (v, r2)"
          "v = LINK_TAG" "deserialize fuel r2 g = Inr (val, r3)"
        using d' by (auto simp: and_then_Inr_iff split: if_splits)
      then obtain b cid where "val = CByteString (b # cid)" "c = CMerkleLink cid" "r3 = r'"
        using d' \<open>major = TYPE_TAG\<close> by (auto split: if_splits cbor.splits list.splits)
      then have "advances 1 r2 r'" "wf_cbor c" using sound_readerD [OF Suc.IH tag(4)] by auto
      then show ?thesis
        using read_major_type_advances [OF tag(1)] read_uint_advances [OF tag(2)]
        by (meson advances_trans le_add1 le_add2)
    qed
  qed
qed

section \<open>Fuel\<close>

text \<open>With more fuel than bytes left, no nested call runs out.\<close>

definition fuelled :: "nat \<Rightarrow> (reader \<Rightarrow> cbor_error + cbor \<times> reader) \<Rightarrow> bool" where
  "fuelled n de \<longleftrightarrow> (\<forall>r. wf_reader r \<longrightarrow> length (rest r) < n \<longrightarrow> de r \<noteq> Inl OutOfFuel)"

lemma fuelledD: "fuelled n de \<Longrightarrow> wf_reader r \<Longrightarrow> length (rest r) < n \<Longrightarrow> de r \<noteq> Inl OutOfFuel"
  by (simp add: fuelled_def)

lemma read_items_fuelled:
  "sound_reader de \<Longrightarrow> fuelled n de \<Longrightarrow> wf_reader r \<Longrightarrow> length (rest r) < n \<Longrightarrow>
   read_items de k acc r \<noteq> Inl OutOfFuel"
proof (induction k arbitrary: acc r)
  case (Suc k)
  show ?case
  proof (cases "de r")
    case (Inl e)
    then show ?thesis using fuelledD [OF Suc.prems(2-4)] by simp
  next
    case (Inr p)
    obtain it r1 where p: "p = (it, r1)" by force
    with Inr have a: "advances 1 r r1" using sound_readerD [OF Suc.prems(1)] by blast
    then have "read_items de k (acc @ [it]) r1 \<noteq> Inl OutOfFuel"
      using Suc.prems advances_wf [OF a] advances_rest [OF a] by (intro Suc.IH) auto
    then show ?thesis using Inr p by simp
  qed
qed simp

lemma read_entries_fuelled:
  "sound_reader de \<Longrightarrow> fuelled n de \<Longrightarrow> wf_reader r \<Longrightarrow> length (rest r) < n \<Longrightarrow>
   read_entries de k acc r \<noteq> Inl OutOfFuel"
proof (induction k arbitrary: acc r)
  case (Suc k)
  show ?case
  proof (cases "de r")
    case (Inl e)
    then show ?thesis using fuelledD [OF Suc.prems(2-4)] by simp
  next
    case (Inr p)
    obtain key r1 where p: "p = (key, r1)" by force
    with Inr have a: "advances 1 r r1" using sound_readerD [OF Suc.prems(1)] by blast
    have r1: "wf_reader r1" "length (rest r1) < n"
      using Suc.prems advances_wf [OF a] advances_rest [OF a] by auto
    show ?thesis
    proof (cases "de r1")
      case (Inl e)
      then show ?thesis using fuelledD [OF Suc.prems(2) r1] Inr p by (cases key) auto
    next
      case (Inr q)
      obtain v r2 where q: "q = (v, r2)" by force
      with Inr have a2: "advances 1 r1 r2" using sound_readerD [OF Suc.prems(1)] by blast
      have "read_entries de k (bt_insert cmp_cbor_string s v acc) r2 \<noteq> Inl OutOfFuel" for s
        using Suc.prems r1 advances_wf [OF a2] advances_rest [OF a2] by (intro Suc.IH) auto
      then show ?thesis using \<open>de r = Inr p\<close> p Inr q by (cases key) auto
    qed
  qed
qed simp

lemma no_fuel_needed [simp]:
  "read_u8 r \<noteq> Inl OutOfFuel" "peek_major r \<noteq> Inl OutOfFuel" "peek_additional r \<noteq> Inl OutOfFuel"
  "read_n r n \<noteq> Inl OutOfFuel"
  by (auto simp: read_u8_def peek_major_def peek_additional_def read_n_def Let_def)

lemma no_fuel_needed_int [simp]:
  "read_uint r li \<noteq> Inl OutOfFuel" "read_major_type r mt \<noteq> Inl OutOfFuel"
  by (auto simp: read_uint_def read_major_type_def and_then_Inl_iff split: if_splits)

lemma no_fuel_needed_size [simp]:
  "read_major_type_with_size r mt \<noteq> Inl OutOfFuel" "read_int r \<noteq> Inl OutOfFuel"
  by (auto simp: read_major_type_with_size_def read_int_def and_then_Inl_iff Let_def split: if_splits)

lemma deserialize_fuel: "fuelled fuel (\<lambda>r. deserialize fuel r g)"
proof (induction fuel)
  case (Suc fuel)
  show ?case
    unfolding fuelled_def
  proof (intro allI impI)
    fix r
    assume wf: "wf_reader r" and l: "length (rest r) < Suc fuel"
    have nested: "wf_reader r1 \<and> length (rest r1) < fuel" if "advances 1 r r1" for r1
      using advances_wf [OF that wf] advances_rest [OF that wf] l by simp
    note items = read_items_fuelled [OF deserialize_sound Suc.IH]
    note entries = read_entries_fuelled [OF deserialize_sound Suc.IH]
    have tag: "deserialize fuel r2 g \<noteq> Inl OutOfFuel"
      if "read_major_type r TYPE_TAG = Inr (li, r1)" "read_uint r1 li = Inr (v, r2)" for li r1 v r2
      using nested [OF advances_trans [OF read_major_type_advances [OF that(1)] read_uint_advances [OF that(2)]]]
        fuelledD [OF Suc.IH] by auto
    show "deserialize (Suc fuel) r g \<noteq> Inl OutOfFuel"
      by (auto simp: and_then_Inl_iff items entries nested tag
          split: if_splits option.splits cbor.splits list.splits dest!: read_size_advances dest: tag)
  qed
qed (simp add: fuelled_def)

lemma decode_never_out_of_fuel:
  "deserialize (decode_fuel bs) \<lparr>buf = bs, pos = 0\<rparr> g \<noteq> Inl OutOfFuel"
  using fuelledD [OF deserialize_fuel, of "\<lparr>buf = bs, pos = 0\<rparr>" "decode_fuel bs" g]
  by (simp add: decode_fuel_def)

text \<open>Every length indicator's payload is at least as long as the shortest form of its value.\<close>

lemma u64_boundI: "n < 64 \<Longrightarrow> take_bit n (w :: u64) = w \<Longrightarrow> w < 2 ^ n"
  using and_mask_less' [of n w] by (simp add: take_bit_eq_mask)

lemma bytes_bound:
  "(ucast (b0 :: byte) :: u64) < 0x100"
  "push_bit 8 (ucast (b1 :: byte)) OR ucast b0 < (0x10000 :: u64)"
  "push_bit 24 (ucast (b3 :: byte)) OR push_bit 16 (ucast (b2 :: byte)) OR push_bit 8 (ucast b1) OR ucast b0
    < (0x100000000 :: u64)"
proof -
  have "take_bit 8 (ucast b0 :: u64) = ucast b0" by (rule bit_word_eqI) (auto simp: bit_simps dest: bit_imp_le_length)
  then show "(ucast b0 :: u64) < 0x100" using u64_boundI [of 8] by simp
  have "take_bit 16 (push_bit 8 (ucast b1) OR ucast b0 :: u64) = push_bit 8 (ucast b1) OR ucast b0"
    by (rule bit_word_eqI) (auto simp: bit_simps dest: bit_imp_le_length)
  then show "push_bit 8 (ucast b1) OR ucast b0 < (0x10000 :: u64)" using u64_boundI [of 16] by simp
  let ?v = "push_bit 24 (ucast b3) OR push_bit 16 (ucast b2) OR push_bit 8 (ucast b1) OR ucast b0 :: u64"
  have "take_bit 32 ?v = ?v"
    by (rule bit_word_eqI) (auto simp: bit_simps dest: bit_imp_le_length)
  then show "?v < 0x100000000" using u64_boundI [of 32 ?v] by simp
qed

lemma write_uint_length:
  "length (write_uint [] mt v) =
     (if v < 0x18 then 1 else if v < 0x100 then 2 else if v < 0x10000 then 3 else if v < 0x100000000 then 5 else 9)"
  by (simp add: write_uint_def)

lemma read_uint_size:
  assumes "read_uint r li = Inr (v, r')"
  shows "length (write_uint [] mt v) \<le> Suc (pos r' - pos r)"
proof -
  consider (0) "li < ONE_BYTE" "v = ucast li"
    | (1) b where "v = ucast (b :: byte)" "pos r' = pos r + 1"
    | (2) b1 b0 where "v = push_bit 8 (ucast (b1 :: byte)) OR ucast (b0 :: byte)" "pos r' = pos r + 2"
    | (4) b3 b2 b1 b0 where "v = push_bit 24 (ucast (b3 :: byte)) OR push_bit 16 (ucast (b2 :: byte)) OR
         push_bit 8 (ucast (b1 :: byte)) OR ucast (b0 :: byte)" "pos r' = pos r + 4"
    | (8) "pos r' = pos r + 8"
    using assms
    by (auto simp: read_uint_def and_then_Inr_iff read_u8_def read_n_def Let_def split: if_splits)
  then show ?thesis
  proof cases
    case 0
    then have "v < 0x18"
      by (simp add: word_less_nat_alt unsigned_ucast_eq take_bit_eq_mod)
    then show ?thesis by (simp add: write_uint_length)
  next
    case 1
    then show ?thesis using bytes_bound(1) by (simp add: write_uint_length)
  next
    case 2
    then show ?thesis using bytes_bound(2) [of b1 b0] by (simp add: write_uint_length)
  next
    case 4
    then show ?thesis using bytes_bound(3) [of b3 b2 b1 b0] by (simp add: write_uint_length)
  next
    case 8
    then show ?thesis by (simp add: write_uint_length)
  qed
qed

section \<open>Shortest form\<close>

text \<open>A reader of values that never accepts fewer bytes than the encoder would write.\<close>

definition compact_reader :: "(reader \<Rightarrow> cbor_error + cbor \<times> reader) \<Rightarrow> bool" where
  "compact_reader de \<longleftrightarrow> (\<forall>r c r'. de r = Inr (c, r') \<longrightarrow> pos r + length (to_bytes c) \<le> pos r')"

lemma read_header_size:
  "read_major_type r mt = Inr (li, r1) \<Longrightarrow> read_uint r1 li = Inr (v, r') \<Longrightarrow>
   pos r + length (write_type [] mt' v) \<le> pos r'"
  using read_uint_size [of r1 li v r' "push_bit 5 mt'"] read_major_type_advances [of r mt li r1]
    read_uint_advances [of r1 li v r']
  by (auto simp: write_type_def advances_def)

lemma read_size_size:
  "read_major_type_with_size r mt = Inr (v, r') \<Longrightarrow> pos r + length (write_type [] mt' v) \<le> pos r'"
  by (auto simp: read_major_type_with_size_def and_then_Inr_iff intro: read_header_size)

lemma write_uint_top_bit: "bit (w :: u64) 63 \<Longrightarrow> length (write_uint [] mt w) = 9"
proof -
  assume b: "bit w 63"
  have "\<not> w < 2 ^ 32"
  proof
    assume "w < 2 ^ 32"
    then have "take_bit 32 w = w" by (rule take_bit_self)
    then have "bit (take_bit 32 w) 63" using b by simp
    then show False by (simp add: bit_simps)
  qed
  then have n: "\<not> w < 0x100000000" by simp
  then have "\<not> w < 0x18" "\<not> w < 0x100" "\<not> w < 0x10000" by (simp_all add: word_less_nat_alt)
  with n show ?thesis by (simp add: write_uint_length)
qed

lemma write_int_length: "v = w \<or> v = NOT w \<Longrightarrow> length (write_int [] v) \<le> length (write_uint [] mt w)"
proof (cases "bit w 63")
  case True
  then have "length (write_uint [] mt w) = 9" by (rule write_uint_top_bit)
  then show ?thesis by (simp add: write_int_cases write_type_def write_uint_length)
next
  case False
  assume "v = w \<or> v = NOT w"
  with False show ?thesis
    by (elim disjE) (simp_all add: write_int_cases write_type_def bit_not_iff_eq write_uint_length)
qed

lemma read_int_size: "read_int r = Inr (v, r') \<Longrightarrow> pos r + length (write_int [] v) \<le> pos r'"
proof -
  assume "read_int r = Inr (v, r')"
  then obtain ib r1 w where r1: "read_u8 r = Inr (ib, r1)" "read_uint r1 (ib AND 0x1f) = Inr (w, r')"
      and v: "v = w \<or> v = NOT w"
    by (auto simp: read_int_def and_then_Inr_iff Let_def split: if_splits)
  show ?thesis
    using write_int_length [OF v, of 0] read_uint_size [OF r1(2), of 0] read_u8_advances [OF r1(1)]
      read_uint_advances [OF r1(2)]
    by (auto simp: advances_def)
qed

abbreviation enc_items :: "cbor list \<Rightarrow> bytes" where
  "enc_items its \<equiv> concat (map to_bytes its)"

abbreviation enc_entries :: "(cbor_string, cbor) btree \<Rightarrow> bytes" where
  "enc_entries m \<equiv> concat (map (\<lambda>(k, v). to_bytes (CStr k) @ to_bytes v) m)"

lemma read_items_compact:
  "compact_reader de \<Longrightarrow> read_items de n acc r = Inr (its, r') \<Longrightarrow>
   pos r + length (enc_items its) \<le> pos r' + length (enc_items acc) \<and> length its = length acc + n"
proof (induction n arbitrary: acc r)
  case (Suc n)
  then obtain it r1 where r1: "de r = Inr (it, r1)" "read_items de n (acc @ [it]) r1 = Inr (its, r')"
    by (auto simp: and_then_Inr_iff)
  have "pos r + length (to_bytes it) \<le> pos r1" using Suc.prems(1) r1(1) by (auto simp: compact_reader_def)
  with Suc.IH [OF Suc.prems(1) r1(2)] show ?case by simp
qed simp

lemma length_bt_insert_fresh:
  "bt_get c k m = None \<Longrightarrow> length (bt_insert c k v m) = Suc (length m)"
  by (induction m rule: bt_get.induct) (auto split: ordering.splits if_splits)

lemma enc_entries_insert:
  "bt_get cmp_cbor_string k m = None \<Longrightarrow>
   length (enc_entries (bt_insert cmp_cbor_string k v m))
     = length (to_bytes (CStr k)) + length (to_bytes v) + length (enc_entries m)"
  by (induction m) (auto split: ordering.splits if_splits)

lemma read_entries_compact:
  "compact_reader de \<Longrightarrow> read_entries de n acc r = Inr (m, r') \<Longrightarrow>
   pos r + length (enc_entries m) \<le> pos r' + length (enc_entries acc) \<and> length m = length acc + n"
proof (induction n arbitrary: acc r)
  case (Suc n)
  from Suc.prems(2) obtain s r1 v r2 where k: "de r = Inr (CStr s, r1)" and v: "de r1 = Inr (v, r2)"
      and fresh: "bt_get cmp_cbor_string s acc = None"
      and rec: "read_entries de n (bt_insert cmp_cbor_string s v acc) r2 = Inr (m, r')"
    by (rule read_entries_SucE)
  have "pos r + length (to_bytes (CStr s)) \<le> pos r1" "pos r1 + length (to_bytes v) \<le> pos r2"
    using Suc.prems(1) k v unfolding compact_reader_def by blast+
  with Suc.IH [OF Suc.prems(1) rec] enc_entries_insert [OF fresh] length_bt_insert_fresh [OF fresh]
  show ?case by simp
qed simp

lemma read_n_pos: "read_n r n = Inr (b, r') \<Longrightarrow> pos r' = pos r + n \<and> length b = n"
  by (auto simp: read_n_def Let_def split: if_splits)

lemma from_utf8_bytes: "from_utf8 raw = Some s \<Longrightarrow> length s = length raw"
  by (auto simp: from_utf8_def Let_def split: if_splits)

lemma deserialize_compact: "compact_reader (\<lambda>r. deserialize fuel r g)"
proof (induction fuel)
  case (Suc fuel)
  note items = read_items_compact [OF Suc.IH, where acc = "[]", simplified]
  note entries = read_entries_compact [OF Suc.IH, where acc = "[]", simplified]
  show ?case
    unfolding compact_reader_def
  proof (intro allI impI)
    fix r c r'
    assume d: "deserialize (Suc fuel) r g = Inr (c, r')"
    then obtain major where major: "peek_major r = Inr major" by (auto simp: and_then_Inr_iff)
    note d' = d [unfolded deserialize.simps major and_then.simps]
    consider (str) "major = TYPE_TEXT_STRING" | (blob) "major = TYPE_BYTE_STRING"
      | (num) "major = TYPE_UNSIGNED_INTEGER \<or> major = TYPE_NEGATIVE_INTEGER"
      | (simple) "major = TYPE_FLOAT_SIMPLE" | (dict) "major = TYPE_MAP" | (array) "major = TYPE_ARRAY"
      | (tag) "major = TYPE_TAG"
      using d' by (auto split: if_splits)
    then show "pos r + length (to_bytes c) \<le> pos r'"
    proof cases
      case str
      then obtain len r1 raw s where h: "read_major_type_with_size r TYPE_TEXT_STRING = Inr (len, r1)"
          "read_n r1 (unat len) = Inr (raw, r')" "from_utf8 raw = Some s" "c = CStr s"
        using d' by (fastforce simp: and_then_Inr_iff split: if_splits option.splits)
      then show ?thesis
        using read_size_size [OF h(1), of TYPE_TEXT_STRING] read_n_pos [OF h(2)] from_utf8_bytes [OF h(3)]
        by (simp add: to_bytes_leaf)
    next
      case blob
      then obtain len r1 raw where h: "read_major_type_with_size r TYPE_BYTE_STRING = Inr (len, r1)"
          "read_n r1 (unat len) = Inr (raw, r')" "c = CByteString raw"
        using d' by (fastforce simp: and_then_Inr_iff split: if_splits)
      then show ?thesis
        using read_size_size [OF h(1), of TYPE_BYTE_STRING] read_n_pos [OF h(2)]
        by (simp add: to_bytes_leaf)
    next
      case num
      then show ?thesis using d' read_int_size by (auto simp: and_then_Inr_iff to_bytes_leaf)
    next
      case simple
      then show ?thesis using d'
        by (auto simp: and_then_Inr_iff to_bytes_leaf split: if_splits dest!: read_u8_advances
            simp: advances_def)
    next
      case dict
      then obtain n r1 m where h: "read_major_type_with_size r TYPE_MAP = Inr (n, r1)"
          "read_entries (\<lambda>r. deserialize fuel r g) (unat n) [] r1 = Inr (m, r')" "c = CMap m"
        using d' by (fastforce simp: and_then_Inr_iff split: if_splits)
      then show ?thesis
        using read_size_size [OF h(1), of TYPE_MAP] entries [OF h(2)] by (simp add: to_bytes_map)
    next
      case array
      then obtain n r1 its where h: "read_major_type_with_size r TYPE_ARRAY = Inr (n, r1)"
          "read_items (\<lambda>r. deserialize fuel r g) (unat n) [] r1 = Inr (its, r')" "c = CList its"
        using d' by (fastforce simp: and_then_Inr_iff split: if_splits)
      then show ?thesis
        using read_size_size [OF h(1), of TYPE_ARRAY] items [OF h(2)] by (simp add: to_bytes_list)
    next
      case tag
      then obtain li r1 v r2 val r3 where
          tag: "read_major_type r TYPE_TAG = Inr (li, r1)" "read_uint r1 li = Inr (v, r2)"
          "v = LINK_TAG" "deserialize fuel r2 g = Inr (val, r3)"
        using d' by (auto simp: and_then_Inr_iff split: if_splits)
      then obtain cid where c: "val = CByteString (0 # cid)" "c = CMerkleLink cid" "r3 = r'"
        using d' \<open>major = TYPE_TAG\<close> by (auto split: if_splits cbor.splits list.splits)
      have "pos r2 + length (to_bytes (CByteString (0 # cid))) \<le> pos r'"
        using Suc.IH tag(4) c unfolding compact_reader_def by blast
      then show ?thesis
        using read_header_size [OF tag(1,2), of TYPE_TAG] c(2) tag(3) by (simp add: to_bytes_leaf)
    qed
  qed
qed (simp add: compact_reader_def)


section \<open>Properties\<close>

lemma deserialize_start:
  "bs \<noteq> [] \<Longrightarrow> from_bytes_consumed bs = Inr (c, n) \<Longrightarrow>
   \<exists>r. deserialize (decode_fuel bs) \<lparr>buf = bs, pos = 0\<rparr> (of_nat (length bs)) = Inr (c, r) \<and> n = pos r"
  by (auto simp: from_bytes_consumed_def and_then_Inr_iff)

lemma from_bytes_via_consumed:
  "from_bytes bs = and_then (from_bytes_consumed bs) (\<lambda>(c, n). if n \<noteq> length bs then Inl TrailingBytes else Inr c)"
  by (auto simp: from_bytes_def from_bytes_consumed_def and_then_assoc intro!: and_then_cong)

lemma consumed_shape:
  assumes "from_bytes_consumed bs = Inr (c, n)"
  shows "wf_cbor c \<and> 0 < n \<and> n \<le> length bs \<and> length (to_bytes c) \<le> n"
proof -
  have ne: "bs \<noteq> []" using assms by (auto simp: from_bytes_consumed_def)
  then obtain r where r: "deserialize (decode_fuel bs) \<lparr>buf = bs, pos = 0\<rparr> (of_nat (length bs)) = Inr (c, r)"
      "n = pos r"
    using deserialize_start [OF ne assms] by blast
  have s: "advances 1 \<lparr>buf = bs, pos = 0\<rparr> r" "wf_cbor c"
    using sound_readerD [OF deserialize_sound r(1)] by auto
  have "wf_reader r" using advances_wf [OF s(1)] by simp
  moreover have "length (to_bytes c) \<le> pos r"
    using deserialize_compact [of "decode_fuel bs" "of_nat (length bs)"] r(1)
    unfolding compact_reader_def by fastforce
  ultimately show ?thesis using s r(2) by (auto simp: advances_def wf_reader_def)
qed

lemma from_bytes_to_bytes:
  assumes "wf_cbor c" "length (to_bytes c) < 2 ^ 64"
  shows "from_bytes (to_bytes c) = Inr c"
proof -
  have "from_bytes_consumed (to_bytes c @ []) = Inr (c, length (to_bytes c))"
    using deserialize_stream [of c "[]"] assms by (simp add: from_bytes_consumed_def)
  then show ?thesis by (simp add: from_bytes_via_consumed)
qed

text \<open>
  C13. Stream round trip: decoding the encoding of a well-formed value, followed by anything at
  all, returns exactly that value and the length of its encoding, so concatenated values can be
  read one after the other.
\<close>

theorem from_bytes_consumed_to_bytes:
  assumes "wf_cbor c" and "length (to_bytes c @ xs) < 2 ^ 64"
  shows "from_bytes_consumed (to_bytes c @ xs) = Inr (c, length (to_bytes c))"
  using deserialize_stream [OF assms] by (simp add: from_bytes_consumed_def)

lemma from_bytes_consumed_to_bytes_witness:
  "from_bytes_consumed (to_bytes (CMap [(''a'', CList [CLong (- 3), CNull]), (''bb'', CMerkleLink [7])]) @ [1, 2])
     = Inr (CMap [(''a'', CList [CLong (- 3), CNull]), (''bb'', CMerkleLink [7])], 14)"
proof -
  let ?c = "CMap [(''a'', CList [CLong (- 3), CNull]), (''bb'', CMerkleLink [7])]"
  have wf: "wf_cbor ?c" by code_simp
  have len: "length (to_bytes ?c) = 14" by code_simp
  have bound: "length (to_bytes ?c @ [1, 2]) < 2 ^ 64" unfolding length_append len by simp
  from from_bytes_consumed_to_bytes [OF wf bound] show ?thesis unfolding len .
qed

text \<open>
  C14. The decoder is total and sound: on every input it returns (the recursion never exceeds the
  number of bytes), and whatever it accepts is a well-formed value - valid UTF-8, maps strictly in
  key order - read from a non-empty prefix of the input.
\<close>

theorem from_bytes_consumed_sound:
  "from_bytes_consumed bs \<noteq> Inl OutOfFuel \<and>
   (\<forall>c n. from_bytes_consumed bs = Inr (c, n) \<longrightarrow> wf_cbor c \<and> 0 < n \<and> n \<le> length bs)"
  using decode_never_out_of_fuel [of bs] consumed_shape [of bs]
  by (auto simp: from_bytes_consumed_def and_then_Inl_iff)

lemma from_bytes_consumed_sound_witness:
  "wf_cbor (CList [CBoolean True]) \<and> 2 \<le> length [0x81 :: byte, 0xf5, 0x00]"
proof -
  have "from_bytes_consumed [0x81, 0xf5, 0x00] = Inr (CList [CBoolean True], 2)" by code_simp
  then show ?thesis using from_bytes_consumed_sound [of "[0x81, 0xf5, 0x00]"] by blast
qed

text \<open>
  C35. Canonicalisation: if \<open>from_bytes\<close> accepts an input, however its maps were ordered and its
  lengths padded, re-encoding the value gives an encoding that is no longer than the input, that
  \<open>from_bytes\<close> accepts, and that decodes to the same value.
\<close>

theorem to_bytes_canonical:
  assumes "from_bytes bs = Inr c" and "length bs < 2 ^ 64"
  shows "length (to_bytes c) \<le> length bs \<and> from_bytes (to_bytes c) = Inr c"
proof -
  obtain n where n: "from_bytes_consumed bs = Inr (c, n)" "n = length bs"
    using assms(1) by (auto simp: from_bytes_via_consumed and_then_Inr_iff split: if_splits)
  note shape = consumed_shape [OF n(1)]
  then show ?thesis using from_bytes_to_bytes [of c] assms(2) n(2) by simp
qed

lemma to_bytes_canonical_witness:
  "length (to_bytes (CList [CLong 5, CNull])) \<le> 4 \<and>
   from_bytes (to_bytes (CList [CLong 5, CNull])) = Inr (CList [CLong 5, CNull])"
proof -
  have "from_bytes [0x82, 0x18, 0x05, 0xf6] = Inr (CList [CLong 5, CNull])" by code_simp
  then show ?thesis using to_bytes_canonical [of "[0x82, 0x18, 0x05, 0xf6]"] by simp
qed

section \<open>Maps built field by field\<close>

lemma foldl_put:
  assumes "cbor_key.keys_ok m" "list_all valid_utf8 (map fst kvs)" "bt_sorted cmp_cbor_string m"
  shows "let m' = foldl (\<lambda>m (k, v). put k v m) m kvs
    in cbor_key.keys_ok m' \<and> bt_sorted cmp_cbor_string m' \<and> map_of m' = map_of m ++ map_of (rev kvs)"
  using assms
proof (induction kvs arbitrary: m)
  case (Cons kv kvs)
  obtain k v where kv: "kv = (k, v)" by (cases kv)
  with Cons.prems have ok: "valid_utf8 k" by simp
  let ?m = "bt_insert cmp_cbor_string k v m"
  have "cbor_key.keys_ok ?m" "bt_sorted cmp_cbor_string ?m" "map_of ?m = (map_of m)(k \<mapsto> v)"
    using Cons.prems ok
    by (auto simp: cbor_key.keys_ok_bt_insert cbor_key.sorted_bt_insert cbor_key.map_of_bt_insert)
  then show ?case using Cons.IH [of ?m] Cons.prems kv 
    by (auto simp: put_def Let_def fun_eq_iff map_add_def split: option.split)
qed simp

text \<open>
  C36. The encoding of a map does not depend on the order in which its fields were \<open>put\<close>: two
  builders fed the same distinct fields in any order produce byte-identical encodings, and the
  value that comes out is well formed whenever the field values are.
\<close>

theorem builder_order_independent:
  assumes "list_all valid_utf8 (map fst kvs)" and "distinct (map fst kvs)" and "mset kvs' = mset kvs"
  shows "to_bytes (build (foldl (\<lambda>m (k, v). put k v m) map_builder kvs'))
       = to_bytes (build (foldl (\<lambda>m (k, v). put k v m) map_builder kvs))"
proof -
  let ?b = "foldl (\<lambda>m (k, v). put k v m) map_builder"
  have set: "set kvs' = set kvs" using assms(3) by (metis set_mset_mset)
  have "mset (map fst kvs') = mset (map fst kvs)" using assms(3) by (metis mset_map)
  then have d: "distinct (map fst kvs')" using assms(2) by (metis mset_eq_imp_distinct_iff)
  have "list_all valid_utf8 (map fst kvs')" using assms(1) set by (auto simp: list_all_iff)
  note a = foldl_put [of map_builder, OF _ this] and b = foldl_put [of map_builder, OF _ assms(1)]
  have "map_of (rev kvs') = map_of (rev kvs)"
    using d assms(2) set by (intro map_of_inject_set [THEN iffD2]) (simp_all add: rev_map [symmetric])
  then have "?b kvs' = ?b kvs"
    using a b by (intro cbor_key.bt_extensional) (simp_all add: map_builder_def Let_def)
  then show ?thesis by simp
qed

lemma builder_order_independent_witness:
  "to_bytes (build (put ''b'' CNull (put ''a'' (CLong 1) map_builder)))
     = to_bytes (build (put ''a'' (CLong 1) (put ''b'' CNull map_builder)))"
proof -
  let ?l = "[(''b'', CNull), (''a'', CLong 1)]"
  have "list_all valid_utf8 (map fst ?l)" by code_simp
  then show ?thesis
    using builder_order_independent [of ?l "[(''a'', CLong 1), (''b'', CNull)]"] by simp
qed

end
