(* ===== verification/Bases.thy ===== *)
theory Bases
  imports Utf
begin

text \<open>
  Base encodings of \<open>peergos-multiformats/src/bases.rs\<close>: base58btc by repeated division of a digit
  array in place, base16, base32 without padding, and multibase.  Digit arrays are byte lists
  updated by index; an index that would leave its array, or a subtraction that would go below
  zero, is the error \<open>Panic\<close>, and the lemmas show that no input reaches it.
\<close>

datatype mf_error =
    Panic
  | EofVarint
  | VarintOverflow
  | NonMinimalVarint
  | VarintTooLong
  | UnknownMultihashType u64
  | UnsupportedHashSize nat
  | IncorrectHashLength nat int
  | MultihashTooShort
  | EofMultihash
  | UnknownCodec u64
  | InvalidCidVersion u64
  | CidTooShort
  | InvalidBase58Character
  | OddLengthHex
  | InvalidHexChar
  | InvalidBase32Char
  | EmptyMultibase
  | UnsupportedMultibase

section \<open>Base 58\<close>

definition B58_ALPHABET :: bytes where
  "B58_ALPHABET = as_bytes ''123456789ABCDEFGHJKLMNPQRSTUVWXYZabcdefghijkmnopqrstuvwxyz''"

fun index_from :: "int \<Rightarrow> byte \<Rightarrow> bytes \<Rightarrow> int" where
  "index_from i c [] = - 1"
| "index_from i c (a # as) = (if a = c then i else index_from (i + 1) c as)"

definition b58_index :: "byte \<Rightarrow> int" where
  "b58_index c = (if c \<ge> 128 then - 1 else index_from 0 c B58_ALPHABET)"

text \<open>The loop of \<open>divmod\<close> over the digits from \<open>first_digit\<close> on, carrying the remainder.\<close>

fun divmod_loop :: "bytes \<Rightarrow> u32 \<Rightarrow> u32 \<Rightarrow> u32 \<Rightarrow> bytes \<times> u32" where
  "divmod_loop [] base divisor remainder = ([], remainder)"
| "divmod_loop (d # ds) base divisor remainder =
     (let digit = ucast d;
          temp = remainder * base + digit;
          (ds', r) = divmod_loop ds base divisor (temp mod divisor)
      in (ucast (temp div divisor) # ds', r))"

definition divmod :: "bytes \<Rightarrow> nat \<Rightarrow> u32 \<Rightarrow> u32 \<Rightarrow> bytes \<times> byte" where
  "divmod number first_digit base divisor =
     (let (ds, remainder) = divmod_loop (drop first_digit number) base divisor 0
      in (take first_digit number @ ds, ucast remainder))"

text \<open>\<open>while i < xs.len() && xs[i] == b { i += 1 }\<close>\<close>

function skip_while :: "byte \<Rightarrow> bytes \<Rightarrow> nat \<Rightarrow> nat" where
  "skip_while b xs i = (if i < length xs \<and> xs ! i = b then skip_while b xs (i + 1) else i)"
  by pat_completeness auto
termination
  by (relation "measure (\<lambda>(b, xs, i). length xs - i)") auto

declare skip_while.simps [simp del]

lemma length_divmod_loop [simp]: "length (fst (divmod_loop ds base divisor r)) = length ds"
proof (induction ds arbitrary: r)
  case (Cons d ds)
  show ?case using Cons.IH [of "(r * base + ucast d) mod divisor"] by (simp add: Let_def split_beta)
qed simp

lemma length_divmod [simp]: "length (fst (divmod ds k base divisor)) = length ds"
  using length_divmod_loop [of "drop k ds" base divisor 0]
  by (simp add: divmod_def split_beta)

lemma divmod_head:
  assumes "k < length ds"
  shows "fst (divmod ds k base divisor) ! k = ucast (ucast (ds ! k) div divisor :: u32)"
proof -
  have "drop k ds = ds ! k # drop (Suc k) ds" using assms by (simp add: Cons_nth_drop_Suc)
  then show ?thesis
    using assms by (auto simp: divmod_def nth_append Let_def split: prod.splits)
qed

text \<open>
  The division loops of \<open>base58_encode\<close> and \<open>base58_decode\<close>: they divide the digits from
  \<open>input_start\<close> on by the other base, store the remainder one place further left, and move
  \<open>input_start\<close> past the leading digit once it is zero.
\<close>

definition encode_steps :: "bytes \<Rightarrow> nat \<Rightarrow> nat" where
  "encode_steps input i = 2 * (length input - i) - (if i < length input \<and> input ! i < 58 then 1 else 0)"

lemma encode_step_decreases:
  assumes "i < length input" and "input' = fst (divmod input i 256 58)"
  shows "encode_steps input' (if input' ! i = 0 then i + 1 else i) < encode_steps input i"
proof -
  let ?d = "input ! i" and ?q = "input' ! i"
  have q: "unat ?q = unat ?d div 58"
  proof -
    have "unat ?d div 58 < 256" using byte_bound [of ?d] by simp
    then show ?thesis
      using assms by (simp add: divmod_head unat_ucast_byte unat_div unat_ucast_u32)
  qed
  have "length input' = length input" using assms by simp
  moreover have "?d < 58 \<Longrightarrow> ?q = 0" using q by (simp add: word_less_nat_alt unat_0_iff [symmetric])
  moreover have "?q < 58" using q byte_bound [of ?d] by (simp add: word_less_nat_alt)
  ultimately show ?thesis using assms(1) by (auto simp: encode_steps_def)
qed

function base58_encode_loop :: "bytes \<Rightarrow> bytes \<Rightarrow> nat \<Rightarrow> nat \<Rightarrow> mf_error + bytes \<times> nat" where
  "base58_encode_loop input encoded output_start input_start =
     (if input_start < length input then
        (if output_start = 0 then Inl Panic
         else
           let output_start = output_start - 1;
               (input, r) = divmod input input_start 256 58;
               encoded = encoded[output_start := B58_ALPHABET ! unat r]
           in base58_encode_loop input encoded output_start
                (if input ! input_start = 0 then input_start + 1 else input_start))
      else Inr (encoded, output_start))"
  by pat_completeness auto
termination
proof (relation "measure (\<lambda>(input, encoded, output_start, input_start). encode_steps input input_start)")
  fix input encoded output_start input_start x p input' r encoded'
  assume "input_start < length input" "p = divmod input input_start 256 58" "(input', r) = p"
  then have "input' = fst (divmod input input_start 256 58)" by (metis fst_conv)
  with encode_step_decreases [OF \<open>input_start < length input\<close> this]
  show "((input', encoded', x, if input' ! input_start = 0 then input_start + 1 else input_start),
         input, encoded, output_start, input_start)
        \<in> measure (\<lambda>(input, encoded, output_start, input_start). encode_steps input input_start)"
    by simp
qed simp

declare base58_encode_loop.simps [simp del]

text \<open>\<open>while z > 0 { output_start -= 1; encoded[output_start] = '1'; z -= 1 }\<close>\<close>

primrec put_leading :: "byte \<Rightarrow> nat \<Rightarrow> bytes \<Rightarrow> nat \<Rightarrow> mf_error + bytes \<times> nat" where
  "put_leading b 0 encoded output_start = Inr (encoded, output_start)"
| "put_leading b (Suc z) encoded output_start =
     (if output_start = 0 then Inl Panic
      else put_leading b z (encoded[output_start - 1 := b]) (output_start - 1))"

definition base58_encode :: "bytes \<Rightarrow> mf_error + string" where
  "base58_encode input =
     (if input = [] then Inr []
      else
        let zeros = skip_while 0 input 0;
            encoded = replicate (length input * 2) 0
        in and_then (base58_encode_loop input encoded (length encoded) zeros) (\<lambda>(encoded, output_start).
           let output_start = skip_while (B58_ALPHABET ! 0) encoded output_start
           in and_then (put_leading (B58_ALPHABET ! 0) zeros encoded output_start) (\<lambda>(encoded, output_start).
              ok_or Panic (from_utf8 (drop output_start encoded)))))"

fun base58_digits :: "bytes \<Rightarrow> mf_error + bytes" where
  "base58_digits [] = Inr []"
| "base58_digits (c # cs) =
     (let digit = b58_index c
      in if digit < 0 then Inl InvalidBase58Character
         else and_then (base58_digits cs) (\<lambda>ds. Inr (word_of_int digit # ds)))"

lemma decode_step_head:
  assumes "i < length input"
  shows "fst (divmod input i 58 256) ! i = 0"
proof -
  have "unat (ucast (input ! i) :: u32) < 256" using byte_bound [of "input ! i"] by (simp add: unat_ucast_u32)
  then have "unat ((ucast (input ! i) :: u32) div 256) = 0" by (simp add: unat_div)
  then have "(ucast (input ! i) :: u32) div 256 = 0" by (simp only: unat_0_iff)
  then show ?thesis using assms by (simp add: divmod_head)
qed

function base58_decode_loop :: "bytes \<Rightarrow> bytes \<Rightarrow> nat \<Rightarrow> nat \<Rightarrow> mf_error + bytes \<times> nat" where
  "base58_decode_loop input58 decoded output_start input_start =
     (if input_start < length input58 then
        (if output_start = 0 then Inl Panic
         else
           let output_start = output_start - 1;
               (input58, r) = divmod input58 input_start 58 256;
               decoded = decoded[output_start := r]
           in base58_decode_loop input58 decoded output_start
                (if input58 ! input_start = 0 then input_start + 1 else input_start))
      else Inr (decoded, output_start))"
  by pat_completeness auto
termination
proof (relation "measure (\<lambda>(input, decoded, output_start, input_start). length input - input_start)")
  fix input decoded output_start input_start x p input' r decoded'
  assume less: "input_start < length input" and p: "p = divmod input input_start 58 256" "(input', r) = p"
  then have i: "input' = fst (divmod input input_start 58 256)" by (metis fst_conv)
  show "((input', decoded', x, if input' ! input_start = 0 then input_start + 1 else input_start),
         input, decoded, output_start, input_start)
        \<in> measure (\<lambda>(input, decoded, output_start, input_start). length input - input_start)"
    using less decode_step_head [OF less] by (simp add: i)
qed simp

declare base58_decode_loop.simps [simp del]

definition base58_decode :: "string \<Rightarrow> mf_error + bytes" where
  "base58_decode input =
     (if input = [] then Inr []
      else
        let bytes = as_bytes input
        in and_then (base58_digits bytes) (\<lambda>input58.
           let zeros = skip_while 0 input58 0;
               decoded = replicate (length bytes) 0
           in and_then (base58_decode_loop input58 decoded (length decoded) zeros) (\<lambda>(decoded, output_start).
              let output_start = skip_while 0 decoded output_start
              in if output_start < zeros then Inl Panic else Inr (drop (output_start - zeros) decoded))))"

section \<open>Base 16\<close>

text \<open>\<open>format!("{b:02x}")\<close>\<close>

definition hex_digit :: "byte \<Rightarrow> char" where
  "hex_digit d = ''0123456789abcdef'' ! unat d"

definition base16_encode :: "bytes \<Rightarrow> string" where
  "base16_encode data = concat (map (\<lambda>b. [hex_digit (drop_bit 4 b), hex_digit (b AND 0x0f)]) data)"

definition hexval :: "byte \<Rightarrow> mf_error + byte" where
  "hexval c =
     (if 0x30 \<le> c \<and> c \<le> 0x39 then Inr (c - 0x30)
      else if 0x61 \<le> c \<and> c \<le> 0x66 then Inr (c - 0x61 + 10)
      else if 0x41 \<le> c \<and> c \<le> 0x46 then Inr (c - 0x41 + 10)
      else Inl InvalidHexChar)"

fun hex_pairs :: "bytes \<Rightarrow> mf_error + bytes" where
  "hex_pairs (a # b # r) =
     and_then (hexval a) (\<lambda>x. and_then (hexval b) (\<lambda>y.
       and_then (hex_pairs r) (\<lambda>out. Inr ((push_bit 4 x OR y) # out))))"
| "hex_pairs _ = Inr []"

definition base16_decode :: "string \<Rightarrow> mf_error + bytes" where
  "base16_decode hex = (if length hex mod 2 \<noteq> 0 then Inl OddLengthHex else hex_pairs (as_bytes hex))"

section \<open>Base 32\<close>

definition B32_ALPHABET :: string where
  "B32_ALPHABET = ''ABCDEFGHIJKLMNOPQRSTUVWXYZ234567''"

text \<open>\<open>while bits >= 5\<close>: emit the next five bits of the buffer.\<close>

fun base32_emit :: "string \<Rightarrow> u32 \<Rightarrow> nat \<Rightarrow> string \<times> nat" where
  "base32_emit out buffer bits =
     (if bits \<ge> 5 then
        (let idx = drop_bit (bits - 5) buffer AND 0x1f
         in base32_emit (out @ [B32_ALPHABET ! unat idx]) buffer (bits - 5))
      else (out, bits))"

declare base32_emit.simps [simp del]

fun base32_encode_loop :: "bytes \<Rightarrow> string \<Rightarrow> u32 \<Rightarrow> nat \<Rightarrow> string \<times> u32 \<times> nat" where
  "base32_encode_loop [] out buffer bits = (out, buffer, bits)"
| "base32_encode_loop (b # bs) out buffer bits =
     (let buffer = push_bit 8 buffer OR ucast b;
          (out, bits) = base32_emit out buffer (bits + 8)
      in base32_encode_loop bs out buffer bits)"

definition base32_encode :: "bytes \<Rightarrow> string" where
  "base32_encode data =
     (let (out, buffer, bits) = base32_encode_loop data [] 0 0
      in if bits > 0 then out @ [B32_ALPHABET ! unat (push_bit (5 - bits) buffer AND 0x1f)] else out)"

definition b32_val :: "byte \<Rightarrow> mf_error + u32" where
  "b32_val c =
     (if 0x41 \<le> c \<and> c \<le> 0x5a then Inr (ucast (c - 0x41))
      else if 0x61 \<le> c \<and> c \<le> 0x7a then Inr (ucast (c - 0x61))
      else if 0x32 \<le> c \<and> c \<le> 0x37 then Inr (ucast (c - 0x32 + 26))
      else Inl InvalidBase32Char)"

fun base32_decode_loop :: "bytes \<Rightarrow> bytes \<Rightarrow> u32 \<Rightarrow> nat \<Rightarrow> mf_error + bytes" where
  "base32_decode_loop [] out buffer bits = Inr out"
| "base32_decode_loop (c # cs) out buffer bits =
     (if c = 0x3d then Inr out
      else and_then (b32_val c) (\<lambda>v.
        let buffer = push_bit 5 buffer OR v;
            bits = bits + 5
        in if bits \<ge> 8 then base32_decode_loop cs (out @ [ucast (drop_bit (bits - 8) buffer)]) buffer (bits - 8)
           else base32_decode_loop cs out buffer bits))"

definition base32_decode :: "string \<Rightarrow> mf_error + bytes" where
  "base32_decode s = base32_decode_loop (as_bytes s) [] 0 0"

section \<open>Multibase\<close>

definition multibase_encode_base58btc :: "bytes \<Rightarrow> mf_error + string" where
  "multibase_encode_base58btc data = and_then (base58_encode data) (\<lambda>e. Inr (''z'' @ e))"

text \<open>
  \<open>str::to_lowercase\<close>: ASCII letters, and the Kelvin sign, the one other character whose lower
  case is ASCII alone.  The remaining letters outside ASCII keep a non-ASCII lower case, which
  \<open>base32_decode\<close> rejects either way, so they are left as they are.
\<close>

fun to_lowercase :: "string \<Rightarrow> string" where
  "to_lowercase (a # b # c # r) =
     (if a = CHR 0xE2 \<and> b = CHR 0x84 \<and> c = CHR 0xAA then CHR ''k'' # to_lowercase r
      else (if of_char a \<in> {65..90 :: nat} then char_of (of_char a + 32 :: nat) else a) # to_lowercase (b # c # r))"
| "to_lowercase s = map (\<lambda>a. if of_char a \<in> {65..90 :: nat} then char_of (of_char a + 32 :: nat) else a) s"

definition multibase_decode :: "string \<Rightarrow> mf_error + bytes" where
  "multibase_decode data =
     (case data of
        [] \<Rightarrow> Inl EmptyMultibase
      | prefix # rest \<Rightarrow>
          if prefix = CHR ''z'' then base58_decode rest
          else if prefix = CHR ''f'' then base16_decode rest
          else if prefix = CHR ''b'' then base32_decode rest
          else if prefix = CHR ''B'' then base32_decode (to_lowercase rest)
          else Inl UnsupportedMultibase)"

end
