(* ===== verification/Bases_Codec.thy ===== *)
theory Bases_Codec
  imports Bases
begin

text \<open>
  Correctness of the base encodings of \<open>Bases\<close>: the in-place divisions compute the digits of the
  same number in the other base, which makes base58 a bijection between byte strings and strings
  over its alphabet; base16 and base32 decode what they encode.
\<close>

section \<open>Numbers in positional notation\<close>

definition digits_val :: "nat \<Rightarrow> bytes \<Rightarrow> nat" where
  "digits_val b ds = foldl (\<lambda>a d. a * b + unat d) 0 ds"

abbreviation digits_below :: "nat \<Rightarrow> bytes \<Rightarrow> bool" where
  "digits_below b ds \<equiv> list_all (\<lambda>d. unat d < b) ds"

abbreviation leading_zeros :: "bytes \<Rightarrow> nat" where
  "leading_zeros ds \<equiv> length (takeWhile (\<lambda>d. d = 0) ds)"

lemma digits_val_snoc [simp]: "digits_val b (ds @ [d]) = digits_val b ds * b + unat d"
  by (simp add: digits_val_def)

lemma digits_val_Nil [simp]: "digits_val b [] = 0"
  by (simp add: digits_val_def)

lemma foldl_digits: "foldl (\<lambda>a d. a * b + unat d) x ds = x * b ^ length ds + digits_val b ds"
proof (induction ds rule: rev_induct)
  case (snoc d ds)
  then show ?case by (simp add: algebra_simps)
qed simp

lemma digits_val_Cons: "digits_val b (d # ds) = unat d * b ^ length ds + digits_val b ds"
  using foldl_digits [of b "unat d" ds] by (simp add: digits_val_def)

lemma digits_val_append: "digits_val b (ds @ es) = digits_val b ds * b ^ length es + digits_val b es"
  using foldl_digits [of b "digits_val b ds" es] by (simp add: digits_val_def)

lemma digits_val_zeros [simp]: "digits_val b (replicate n 0 @ ds) = digits_val b ds"
  by (induction n) (auto simp: digits_val_Cons)

lemma digits_val_bound: "digits_below b ds \<Longrightarrow> digits_val b ds < b ^ length ds"
proof (induction ds rule: rev_induct)
  case (snoc d ds)
  then have "digits_val b ds < b ^ length ds" "unat d < b" by auto
  then have "digits_val b ds + 1 \<le> b ^ length ds" "unat d + 1 \<le> b" by auto
  then have "(digits_val b ds + 1) * b \<le> b ^ length ds * b" by (intro mult_right_mono) auto
  then show ?case using \<open>unat d < b\<close> by (simp add: algebra_simps)
qed simp

lemma digits_val_dropWhile [simp]: "digits_val b (dropWhile (\<lambda>d. d = 0) ds) = digits_val b ds"
  by (induction ds) (auto simp: digits_val_Cons)

lemma digits_val_pos: "ds \<noteq> [] \<Longrightarrow> hd ds \<noteq> 0 \<Longrightarrow> 0 < b \<Longrightarrow> 0 < digits_val b ds"
  by (cases ds) (auto simp: digits_val_Cons unat_gt_0)

lemma digits_unique:
  assumes "0 < b" "digits_below b ds" "digits_below b es" "digits_val b ds = digits_val b es"
    "ds = [] \<or> hd ds \<noteq> 0" "es = [] \<or> hd es \<noteq> 0"
  shows "ds = es"
  using assms(2-6)
proof (induction ds arbitrary: es rule: rev_induct)
  case Nil
  then show ?case using digits_val_pos [of es b] assms(1) by auto
next
  case (snoc d ds)
  have "0 < digits_val b (ds @ [d])" 
    using digits_val_pos [of "ds @ [d]" b] snoc.prems(4) assms(1) by blast
  then have "es \<noteq> []" using snoc.prems(3) by (cases es) auto
  then obtain es' e where es: "es = es' @ [e]" by (cases es rule: rev_cases) auto
  have below: "unat d < b" "unat e < b" using snoc.prems es by auto
  have v: "digits_val b ds * b + unat d = digits_val b es' * b + unat e" using snoc.prems(3) es by simp
  then have ud: "unat d = unat e" using below by (metis mod_less mod_mult_self3)
  then have "d = e" by (simp add: word_unat_eq_iff)
  moreover from ud v have "digits_val b ds = digits_val b es'" using assms(1) by simp
  moreover have "ds = [] \<or> hd ds \<noteq> 0" "es' = [] \<or> hd es' \<noteq> 0" using snoc.prems(4,5) es by (auto simp: hd_append)
  ultimately show ?case using snoc.IH [of es'] snoc.prems(1,2) es by simp
qed

text \<open>
  \<open>same_number\<close>: the digit strings write the same number in their bases, behind the same number
  of leading zeros.  Either side determines the other.
\<close>

definition same_number :: "nat \<Rightarrow> nat \<Rightarrow> bytes \<Rightarrow> bytes \<Rightarrow> bool" where
  "same_number b c ds es \<longleftrightarrow> leading_zeros ds = leading_zeros es \<and> digits_val b ds = digits_val c es"

lemma takeWhile_zeros: "takeWhile (\<lambda>d. d = 0) ds = replicate (leading_zeros ds) (0 :: byte)"
  by (metis (mono_tags, lifting) replicate_length_same set_takeWhileD)

lemma split_zeros: "ds = replicate (leading_zeros ds) (0 :: byte) @ dropWhile (\<lambda>d. d = 0) ds"
  by (metis takeWhile_zeros takeWhile_dropWhile_id)

lemma same_number_unique:
  assumes "same_number b c ds es" "same_number b c ds' es" "0 < b" "digits_below b ds" "digits_below b ds'"
  shows "ds = ds'"
proof -
  let ?s = "dropWhile (\<lambda>d. d = (0 :: byte))"
  have h: "?s xs = [] \<or> hd (?s xs) \<noteq> 0" for xs by (metis (mono_tags, lifting) hd_dropWhile)
  have "digits_below b (?s ds)" "digits_below b (?s ds')"
    using assms(4,5) by (auto simp: list_all_iff dest: set_dropWhileD)
  moreover have "digits_val b (?s ds) = digits_val b (?s ds')"
    using assms(1,2) by (simp add: same_number_def)
  ultimately have "?s ds = ?s ds'" using assms(3) h by (intro digits_unique) auto
  moreover have "leading_zeros ds = leading_zeros ds'" using assms(1,2) by (simp add: same_number_def)
  ultimately show ?thesis by (metis split_zeros)
qed

lemma same_number_sym: "same_number b c ds es \<longleftrightarrow> same_number c b es ds"
  by (auto simp: same_number_def)

section \<open>Division in place\<close>

lemma divmod_loop_correct:
  assumes "unat base \<le> 256" "0 < unat divisor" "unat divisor \<le> 256"
    "unat r < unat divisor" "digits_below (unat base) ds" "divmod_loop ds base divisor r = (ds', r')"
  shows "unat r' < unat divisor \<and> digits_below (unat base) ds' \<and>
    digits_val (unat base) ds' * unat divisor + unat r' = unat r * unat base ^ length ds + digits_val (unat base) ds"
  using assms(4-6)
proof (induction ds arbitrary: r ds' r')
  case (Cons d ds)
  let ?B = "unat base" and ?D = "unat divisor"
  define t where t_def: "t = r * base + ucast d"
  obtain es where es: "divmod_loop ds base divisor (t mod divisor) = (es, r')"
      and ds': "ds' = ucast (t div divisor) # es"
    using Cons.prems(3) by (auto simp: Let_def t_def split: prod.splits)
  have d: "unat d < ?B" using Cons.prems(2) by simp
  have "unat r * ?B + unat d < ?D * ?B"
  proof -
    have "(unat r + 1) * ?B \<le> ?D * ?B" using Cons.prems(1) by (intro mult_right_mono) auto
    then show ?thesis using d by (simp add: algebra_simps)
  qed
  moreover have "?D * ?B \<le> 256 * 256" using assms(1,3) by (intro mult_mono) auto
  ultimately have ut: "unat t = unat r * ?B + unat d" "unat t < ?D * ?B"
    by (simp_all add: t_def unat_word_ariths unat_ucast_u32)
  have q: "unat t div ?D < ?B" using ut(2) assms(2) by (simp add: less_mult_imp_div_less mult.commute)
  then have uq: "unat (ucast (t div divisor) :: byte) = unat t div ?D"
    using assms(1) by (simp add: unat_ucast_byte unat_div)
  have m: "unat (t mod divisor) < ?D" using assms(2) by (simp add: unat_mod)
  have IH: "unat r' < ?D" "digits_below ?B es"
      and IHv: "digits_val ?B es * ?D + unat r' = unat (t mod divisor) * ?B ^ length ds + digits_val ?B ds"
    using Cons.IH [OF m _ es] Cons.prems(2) by auto
  have len: "length es = length ds" using length_divmod_loop [of ds base divisor "t mod divisor"] es by simp
  have "digits_val ?B ds' * ?D + unat r'
      = (unat t div ?D) * ?B ^ length ds * ?D + (digits_val ?B es * ?D + unat r')"
    by (simp add: ds' digits_val_Cons uq len algebra_simps)
  also have "\<dots> = (unat t div ?D * ?D + unat t mod ?D) * ?B ^ length ds + digits_val ?B ds"
    unfolding IHv unat_mod by (simp only: add_mult_distrib add_mult_distrib2 mult_ac add_ac)
  also have "\<dots> = unat r * ?B ^ length (d # ds) + digits_val ?B (d # ds)"
    by (simp add: ut(1) digits_val_Cons algebra_simps)
  finally show ?case using IH Cons.prems(2) q uq by (simp add: ds')
qed simp

lemma divmod_correct:
  assumes "unat base \<le> 256" "0 < unat divisor" "unat divisor \<le> 256"
    "digits_below (unat base) (drop i ds)" "divmod ds i base divisor = (ds', r)" "i \<le> length ds"
  shows "unat r < unat divisor \<and> digits_below (unat base) (drop i ds') \<and> length ds' = length ds \<and>
    digits_val (unat base) (drop i ds') * unat divisor + unat r = digits_val (unat base) (drop i ds)"
proof -
  obtain es w where l: "divmod_loop (drop i ds) base divisor 0 = (es, w)" by fastforce
  then have e: "ds' = take i ds @ es" "r = ucast w" using assms(5) by (auto simp: divmod_def)
  have drop: "drop i ds' = es" using e(1) assms(6) by simp
  have c: "unat w < unat divisor \<and> digits_below (unat base) es \<and>
      digits_val (unat base) es * unat divisor + unat w = digits_val (unat base) (drop i ds)"
    using divmod_loop_correct [OF assms(1-3) _ assms(4) l] assms(2) by simp
  then have "unat r = unat w" using assms(3) by (simp add: e(2) unat_ucast_byte)
  moreover have "length ds' = length ds" using length_divmod [of ds i base divisor] assms(5) by simp
  ultimately show ?thesis using c drop by simp
qed

lemma drop_list_update_at: "i < length xs \<Longrightarrow> drop i (xs[i := x]) = x # drop (Suc i) xs"
  by (simp add: drop_update_swap flip: Cons_nth_drop_Suc)

lemma digits_val_skip: "i < length ds \<Longrightarrow> ds ! i = 0 \<Longrightarrow> digits_val b (drop (Suc i) ds) = digits_val b (drop i ds)"
  by (simp add: digits_val_Cons flip: Cons_nth_drop_Suc)

lemma skip_while_spec: "i \<le> length xs \<Longrightarrow> skip_while b xs i = i + length (takeWhile (\<lambda>x. x = b) (drop i xs))"
proof (induction b xs i rule: skip_while.induct)
  case (1 b xs i)
  show ?case
  proof (cases "i < length xs")
    case True
    then have "drop i xs = xs ! i # drop (Suc i) xs" by (simp add: Cons_nth_drop_Suc)
    then show ?thesis using 1 True by (subst skip_while.simps) auto
  qed (use 1 in \<open>subst skip_while.simps, auto\<close>)
qed

lemma drop_skip_while:
  "i \<le> length xs \<Longrightarrow> drop (skip_while b xs i) xs = dropWhile (\<lambda>x. x = b) (drop i xs)"
  by (simp add: skip_while_spec dropWhile_eq_drop add.commute)

section \<open>Base 58 is a bijection\<close>

abbreviation b58_char :: "byte \<Rightarrow> byte" where
  "b58_char d \<equiv> B58_ALPHABET ! unat d"

lemma length_B58 [simp]: "length B58_ALPHABET = 58"
  by (simp add: B58_ALPHABET_def)

lemma distinct_B58: "distinct B58_ALPHABET"
  by code_simp

lemma ascii_B58: "list_all (\<lambda>c. c < 128) B58_ALPHABET"
  by code_simp

lemma b58_char_inj: "unat d < 58 \<Longrightarrow> unat e < 58 \<Longrightarrow> b58_char d = b58_char e \<longleftrightarrow> d = e"
  using word_unat_eq_iff [of d e] by (simp add: nth_eq_iff_index_eq distinct_B58)

lemma base58_encode_loop_correct:
  assumes "encode_steps input i \<le> s" "s \<le> length encoded" "i \<le> length input"
  shows "\<exists>encoded' s' out. base58_encode_loop input encoded s i = Inr (encoded', s') \<and>
    s \<le> s' + encode_steps input i \<and> s' \<le> length encoded' \<and> digits_below 58 out \<and>
    drop s' encoded' = map b58_char out @ drop s encoded \<and> digits_val 58 out = digits_val 256 (drop i input)"
  using assms
proof (induction input encoded s i rule: base58_encode_loop.induct)
  case (1 input encoded s i)
  show ?case
  proof (cases "i < length input")
    case True
    obtain input' r where dm: "divmod input i 256 58 = (input', r)" by fastforce
    let ?i = "if input' ! i = 0 then i + 1 else i"
    let ?enc = "encoded[s - 1 := b58_char r]"
    have steps: "encode_steps input' ?i < encode_steps input i"
      using encode_step_decreases [OF True, of input'] dm by simp
    then have s: "s \<noteq> 0" "encode_steps input' ?i \<le> s - 1" using "1.prems"(1) by auto
    have c: "unat r < 58" "length input' = length input"
        "digits_val 256 (drop i input') * 58 + unat r = digits_val 256 (drop i input)"
      using divmod_correct [of 256 58 i input input' r] dm True by (auto simp: byte_bound list_all_iff)
    have val: "digits_val 256 (drop ?i input') = digits_val 256 (drop i input')"
      using digits_val_skip [of i input'] True c(2) by auto
    have "\<exists>encoded' s' out. base58_encode_loop input' ?enc (s - 1) ?i = Inr (encoded', s') \<and>
        s - 1 \<le> s' + encode_steps input' ?i \<and> s' \<le> length encoded' \<and> digits_below 58 out \<and>
        drop s' encoded' = map b58_char out @ drop (s - 1) ?enc \<and>
        digits_val 58 out = digits_val 256 (drop ?i input')"
      using "1.prems"(2) s c(2) True dm by (intro "1.IH" [where y = r]) auto
    then obtain encoded' s' out where IH: "base58_encode_loop input' ?enc (s - 1) ?i = Inr (encoded', s')"
        "s - 1 \<le> s' + encode_steps input' ?i" "s' \<le> length encoded'" "digits_below 58 out"
        "drop s' encoded' = map b58_char out @ drop (s - 1) ?enc"
        "digits_val 58 out = digits_val 256 (drop ?i input')" by blast
    have "drop (s - 1) ?enc = b58_char r # drop s encoded"
      using s(1) "1.prems"(2) by (simp add: drop_list_update_at)
    then have "drop s' encoded' = map b58_char (out @ [r]) @ drop s encoded" using IH(5) by simp
    moreover have "base58_encode_loop input encoded s i = Inr (encoded', s')"
      using True s(1) IH(1) by (subst base58_encode_loop.simps) (simp add: dm Let_def)
    moreover have "s \<le> s' + encode_steps input i" using IH(2) steps by linarith
    moreover have "digits_val 58 (out @ [r]) = digits_val 256 (drop i input)" using IH(6) val c(3) by simp
    moreover have "digits_below 58 (out @ [r])" using IH(4) c(1) by simp
    ultimately show ?thesis using IH(3) by blast
  next
    case False
    then show ?thesis
      using "1.prems" by (subst base58_encode_loop.simps) (auto intro!: exI [of _ "[]"])
  qed
qed

lemma put_leading_correct:
  "z \<le> s \<Longrightarrow> s \<le> length encoded \<Longrightarrow>
   \<exists>encoded'. put_leading b z encoded s = Inr (encoded', s - z) \<and> drop (s - z) encoded' = replicate z b @ drop s encoded"
proof (induction z arbitrary: encoded s)
  case (Suc z)
  then have "\<exists>encoded'. put_leading b z (encoded[s - 1 := b]) (s - 1) = Inr (encoded', s - 1 - z) \<and>
      drop (s - 1 - z) encoded' = replicate z b @ drop (s - 1) (encoded[s - 1 := b])"
    by (intro Suc.IH) auto
  moreover have "drop (s - 1) (encoded[s - 1 := b]) = b # drop s encoded"
    using Suc.prems by (simp add: drop_list_update_at)
  ultimately show ?case using Suc.prems by (auto simp: replicate_append_same)
qed simp

lemma utf8_ascii: "list_all (\<lambda>c. c < 128) ns \<Longrightarrow> utf8_decode ns = Some ns"
proof (induction ns)
  case (Cons n ns)
  then show ?case by (subst utf8_decode.simps) simp
qed (subst utf8_decode.simps, simp)

lemma of_char_char_of_byte [simp]: "(of_char (char_of (unat (b :: byte))) :: byte) = b"
proof -
  have "(of_char (char_of (unat b)) :: byte) = of_nat (of_char (char_of (unat b) :: char))"
    by (simp only: of_nat_of_char)
  also have "\<dots> = of_nat (unat b)" using byte_bound [of b] by simp
  finally show ?thesis by simp
qed

lemma from_utf8_ascii:
  assumes "list_all (\<lambda>c. c < 128) bs"
  shows "\<exists>s. from_utf8 bs = Some s \<and> as_bytes s = bs"
proof -
  have "list_all (\<lambda>c. c < 128) (map unat bs)" using assms by (auto simp: list_all_iff word_less_nat_alt)
  moreover have "map of_char (map (\<lambda>b. char_of (unat b)) bs) = map unat bs"
    using byte_bound by simp
  ultimately have "valid_utf8 (map (\<lambda>b. char_of (unat b)) bs)" 
    by (simp only: valid_utf8_def utf8_ascii) simp
  then show ?thesis by (simp add: from_utf8_def as_bytes_def comp_def)
qed

lemma b58_ascii: "digits_below 58 ds \<Longrightarrow> list_all (\<lambda>c. c < 128) (map b58_char ds)"
  using ascii_B58 by (auto simp: list_all_iff)

lemma dropWhile_map_b58:
  "digits_below 58 out \<Longrightarrow> dropWhile (\<lambda>c. c = B58_ALPHABET ! 0) (map b58_char out) = map b58_char (dropWhile (\<lambda>d. d = 0) out)"
proof (induction out)
  case (Cons d out)
  then show ?case using b58_char_inj [of d 0] by auto
qed simp

lemma leading_zeros_replicate: "leading_zeros (replicate z 0 @ dropWhile (\<lambda>d. d = 0) ds) = z"
  by (induction z) (simp_all, induction ds, auto)

lemma base58_encode_correct:
  "\<exists>s ds. base58_encode input = Inr s \<and> as_bytes s = map b58_char ds \<and> digits_below 58 ds \<and>
     same_number 256 58 input ds"
proof (cases "input = []")
  case False
  let ?z = "skip_while 0 input 0" and ?n = "length input * 2"
  have z: "?z = leading_zeros input" by (simp add: skip_while_spec)
  then have zlen: "?z \<le> length input" by (simp add: length_takeWhile_le)
  have "encode_steps input ?z \<le> 2 * (length input - ?z)" by (simp add: encode_steps_def)
  with zlen obtain enc s out where loop: "base58_encode_loop input (replicate ?n 0) ?n ?z = Inr (enc, s)"
      "?n \<le> s + 2 * (length input - ?z)" "s \<le> length enc" "digits_below 58 out"
      "drop s enc = map b58_char out" "digits_val 58 out = digits_val 256 (drop ?z input)"
    using base58_encode_loop_correct [of input ?z ?n "replicate ?n 0"] by fastforce
  let ?s = "skip_while (B58_ALPHABET ! 0) enc s" and ?out = "dropWhile (\<lambda>d. d = 0) out"
  have s: "drop ?s enc = map b58_char ?out"
    using drop_skip_while [OF loop(3)] loop(4,5) by (simp add: dropWhile_map_b58)
  have sz: "?z \<le> ?s" "?s \<le> length enc"
    using loop(2,3) zlen skip_while_spec [OF loop(3), of "B58_ALPHABET ! 0"]
      length_takeWhile_le [of "\<lambda>c. c = B58_ALPHABET ! 0" "drop s enc"] by auto
  let ?ds = "replicate ?z 0 @ ?out"
  obtain enc' where lead: "put_leading (B58_ALPHABET ! 0) ?z enc ?s = Inr (enc', ?s - ?z)"
      "drop (?s - ?z) enc' = map b58_char ?ds"
    using put_leading_correct [OF sz, of "B58_ALPHABET ! 0"] s by auto
  have below: "digits_below 58 ?ds" using loop(4) by (auto simp: list_all_iff dest: set_dropWhileD)
  then obtain str where str: "from_utf8 (map b58_char ?ds) = Some str" "as_bytes str = map b58_char ?ds"
    using from_utf8_ascii [OF b58_ascii] by blast
  have "base58_encode input = Inr str"
    using False loop(1) lead str(1) by (simp add: base58_encode_def Let_def)
  moreover have "same_number 256 58 input ?ds"
    using loop(6) z leading_zeros_replicate [of ?z out]
    by (simp add: same_number_def flip: dropWhile_eq_drop)
  ultimately show ?thesis using str(2) below by blast
qed (simp add: base58_encode_def as_bytes_def same_number_def exI [of _ "[]"])

lemma index_from_nth:
  "distinct as \<Longrightarrow> k < length as \<Longrightarrow> index_from i (as ! k) as = i + int k"
proof (induction as arbitrary: i k)
  case (Cons a as)
  then show ?case by (cases k) (auto simp: nth_Cons')
qed simp

lemma index_from_found: "0 \<le> i \<Longrightarrow> 0 \<le> index_from i c as \<Longrightarrow>
   \<exists>k < length as. c = as ! k \<and> index_from i c as = i + int k"
proof (induction as arbitrary: i)
  case (Cons a as)
  show ?case
  proof (cases "a = c")
    case False
    then obtain k where "k < length as" "c = as ! k" "index_from (i + 1) c as = i + 1 + int k"
      using Cons.IH [of "i + 1"] Cons.prems by auto
    then show ?thesis using False by (intro exI [of _ "Suc k"]) auto
  qed (auto intro: exI [of _ 0])
qed simp

lemma b58_index_char: "unat d < 58 \<Longrightarrow> b58_index (b58_char d) = int (unat d)"
proof -
  assume d: "unat d < 58"
  then have "b58_char d < 128" using ascii_B58 by (simp add: list_all_iff)
  then show ?thesis using d index_from_nth [OF distinct_B58, of "unat d" 0] by (auto simp: b58_index_def)
qed

lemma b58_index_found: "0 \<le> b58_index c \<Longrightarrow> \<exists>d. unat d < 58 \<and> c = b58_char d"
proof -
  assume "0 \<le> b58_index c"
  then obtain k where k: "k < 58" "c = B58_ALPHABET ! k"
    using index_from_found [of 0 c B58_ALPHABET] by (auto simp: b58_index_def split: if_splits)
  then have "unat (of_nat k :: byte) = k" by (simp add: unat_of_nat)
  then show ?thesis using k by metis
qed

lemma base58_digits_map: "digits_below 58 ds \<Longrightarrow> base58_digits (map b58_char ds) = Inr ds"
  by (induction ds) (auto simp: b58_index_char Let_def)

lemma base58_digits_Inr:
  "base58_digits cs = Inr ds \<Longrightarrow> digits_below 58 ds \<and> cs = map b58_char ds"
proof (induction cs arbitrary: ds)
  case (Cons c cs)
  then obtain ds' where ds: "0 \<le> b58_index c" "base58_digits cs = Inr ds'"
      "ds = word_of_int (b58_index c) # ds'"
    by (auto simp: Let_def and_then_Inr_iff split: if_splits)
  then obtain d where "unat d < 58" "c = b58_char d" using b58_index_found by blast
  then show ?case using Cons.IH [OF ds(2)] ds(3) b58_index_char [of d] by simp
qed simp

lemma base58_decode_loop_correct:
  assumes "length input - i \<le> s" "s \<le> length decoded" "i \<le> length input" "digits_below 58 (drop i input)"
  shows "\<exists>decoded' s' out. base58_decode_loop input decoded s i = Inr (decoded', s') \<and>
    s \<le> s' + (length input - i) \<and> s' \<le> s \<and> s' \<le> length decoded' \<and>
    drop s' decoded' = out @ drop s decoded \<and> take s' decoded' = take s' decoded \<and>
    digits_val 256 out = digits_val 58 (drop i input)"
  using assms
proof (induction input decoded s i rule: base58_decode_loop.induct)
  case (1 input decoded s i)
  show ?case
  proof (cases "i < length input")
    case True
    obtain input' r where dm: "divmod input i 58 256 = (input', r)" by fastforce
    let ?dec = "decoded[s - 1 := r]"
    have s: "s \<noteq> 0" "length input - (i + 1) \<le> s - 1" using "1.prems"(1) True by auto
    have c: "length input' = length input" "digits_below 58 (drop i input')"
        "digits_val 58 (drop i input') * 256 + unat r = digits_val 58 (drop i input)"
      using divmod_correct [of 58 256 i input input' r] dm True "1.prems"(4) by auto
    have zero: "input' ! i = 0" using decode_step_head [OF True] dm by simp
    have val: "digits_val 58 (drop (i + 1) input') = digits_val 58 (drop i input')"
      using digits_val_skip [of i input'] True c(1) zero by simp
    have below: "digits_below 58 (drop (i + 1) input')"
      using c(2) set_drop_subset_set_drop [of i "i + 1" input'] by (auto simp: list_all_iff)
    have "\<exists>decoded' s' out. base58_decode_loop input' ?dec (s - 1) (i + 1) = Inr (decoded', s') \<and>
        s - 1 \<le> s' + (length input' - (i + 1)) \<and> s' \<le> s - 1 \<and> s' \<le> length decoded' \<and>
        drop s' decoded' = out @ drop (s - 1) ?dec \<and> take s' decoded' = take s' ?dec \<and>
        digits_val 256 out = digits_val 58 (drop (i + 1) input')"
      using "1.IH" [where y = r] "1.prems"(2) s c(1) True dm zero below by auto
    then obtain decoded' s' out where IH: "base58_decode_loop input' ?dec (s - 1) (i + 1) = Inr (decoded', s')"
        "s - 1 \<le> s' + (length input' - (i + 1))" "s' \<le> length decoded'" "s' \<le> s - 1"
        "drop s' decoded' = out @ drop (s - 1) ?dec" "take s' decoded' = take s' ?dec"
        "digits_val 256 out = digits_val 58 (drop (i + 1) input')" by blast
    have d: "drop (s - 1) ?dec = r # drop s decoded"
      using s(1) "1.prems"(2) by (simp add: drop_list_update_at)
    then have "drop s' decoded' = (out @ [r]) @ drop s decoded" using IH(5) by simp
    moreover have "take s' ?dec = take s' decoded" using IH(4) by simp
    moreover have "base58_decode_loop input decoded s i = Inr (decoded', s')"
      using True s(1) IH(1) zero by (subst base58_decode_loop.simps) (simp add: dm Let_def)
    moreover have "s \<le> s' + (length input - i)" using IH(2) c(1) True s by linarith
    moreover have "digits_val 256 (out @ [r]) = digits_val 58 (drop i input)" using IH(7) val c(3) by simp
    ultimately show ?thesis using IH(3,4,6)
      by (intro exI [of _ decoded'] exI [of _ s'] exI [of _ "out @ [r]"]) simp
  next
    case False
    then show ?thesis
      using "1.prems" by (subst base58_decode_loop.simps) (auto intro!: exI [of _ "[]"])
  qed
qed

lemma drop_zeros_before:
  assumes "take k xs = replicate k 0" "z \<le> k" "k \<le> length xs"
  shows "drop (k - z) xs = replicate z (0 :: byte) @ drop k xs"
proof -
  have "drop (k - z) xs = drop (k - z) (take k xs) @ drop k xs"
    by (metis append_take_drop_id diff_diff_cancel diff_le_self drop_append length_take min.absorb2
        assms(2,3) drop_0 diff_is_0_eq)
  then show ?thesis using assms(1,2) by simp
qed

lemma base58_decode_correct:
  assumes "as_bytes s = map b58_char ds" "digits_below 58 ds"
  shows "\<exists>bs. base58_decode s = Inr bs \<and> same_number 58 256 ds bs"
proof (cases "s = []")
  case False
  let ?z = "skip_while 0 ds 0" and ?n = "length ds"
  have z: "?z = leading_zeros ds" by (simp add: skip_while_spec)
  then have zlen: "?z \<le> ?n" by (simp add: length_takeWhile_le)
  have below: "digits_below 58 (drop ?z ds)" using assms(2) by (auto simp: list_all_iff dest: in_set_dropD)
  obtain dec k out where loop: "base58_decode_loop ds (replicate ?n 0) ?n ?z = Inr (dec, k)"
      "?n \<le> k + (?n - ?z)" "k \<le> ?n" "k \<le> length dec" "drop k dec = out" "take k dec = replicate k 0"
      "digits_val 256 out = digits_val 58 (drop ?z ds)"
    using base58_decode_loop_correct [OF _ _ zlen below, of ?n "replicate ?n 0"] by (auto simp: min_absorb2)
  let ?k = "skip_while 0 dec k"
  have kk: "?k = k + leading_zeros out" using loop(4,5) by (simp add: skip_while_spec)
  have kz: "?z \<le> ?k" "?k \<le> length dec" using loop zlen kk length_takeWhile_le [of "\<lambda>d. d = 0" out] by auto
  have "take ?k dec = take k dec @ takeWhile (\<lambda>d. d = 0) out"
    by (simp only: kk take_add loop(5) takeWhile_eq_take [symmetric])
  then have "take ?k dec = replicate ?k 0"
    using loop(6) takeWhile_zeros [of out] by (simp add: kk replicate_add)
  from drop_zeros_before [OF this kz] have res: "drop (?k - ?z) dec = replicate ?z 0 @ dropWhile (\<lambda>d. d = 0) out"
    using drop_skip_while [OF loop(4), of 0] loop(5) by simp
  have "length (as_bytes s) = ?n" using assms(1) by simp
  then have "base58_decode s = Inr (replicate ?z 0 @ dropWhile (\<lambda>d. d = 0) out)"
    using False loop(1) kz(1) res base58_digits_map [OF assms(2)] assms(1)
    by (simp add: base58_decode_def Let_def)
  moreover have "same_number 58 256 ds (replicate ?z 0 @ dropWhile (\<lambda>d. d = 0) out)"
    using loop(7) z leading_zeros_replicate [of ?z out] by (simp add: same_number_def flip: dropWhile_eq_drop)
  ultimately show ?thesis by blast
qed (use assms in \<open>auto simp: base58_decode_def as_bytes_def same_number_def\<close>)

lemma base58_decode_Inr:
  assumes "base58_decode s = Inr bs"
  shows "\<exists>ds. as_bytes s = map b58_char ds \<and> digits_below 58 ds \<and> same_number 58 256 ds bs"
proof -
  obtain ds where "base58_digits (as_bytes s) = Inr ds"
    using assms by (cases "s = []") (auto simp: base58_decode_def as_bytes_def and_then_Inr_iff Let_def)
  then have "digits_below 58 ds \<and> as_bytes s = map b58_char ds" by (rule base58_digits_Inr)
  then show ?thesis using base58_decode_correct [of s ds] assms by auto
qed

lemma all_bytes_below [simp]: "digits_below 256 bs"
  by (simp add: list_all_iff byte_bound)

lemma base58_decode_encode: "and_then (base58_encode bs) base58_decode = Inr bs"
proof -
  obtain s ds where e: "base58_encode bs = Inr s" "as_bytes s = map b58_char ds" "digits_below 58 ds"
      "same_number 256 58 bs ds" using base58_encode_correct by blast
  then obtain bs' where d: "base58_decode s = Inr bs'" "same_number 58 256 ds bs'"
    using base58_decode_correct by blast
  have "bs' = bs" using same_number_unique [of 256 58 bs' ds bs] e(4) d(2) same_number_sym [of 58 256 ds bs'] by simp
  then show ?thesis using e(1) d(1) by simp
qed

lemma base58_encode_decode: "base58_decode s = Inr bs \<Longrightarrow> base58_encode bs = Inr s"
proof -
  assume "base58_decode s = Inr bs"
  then obtain ds where d: "as_bytes s = map b58_char ds" "digits_below 58 ds" "same_number 58 256 ds bs"
    using base58_decode_Inr by blast
  obtain t es where e: "base58_encode bs = Inr t" "as_bytes t = map b58_char es" "digits_below 58 es"
      "same_number 256 58 bs es" using base58_encode_correct by blast
  have "es = ds" using same_number_unique [of 58 256 es bs ds] e(3,4) d(2,3)
      same_number_sym [of 58 256 es bs] by simp
  then have "as_bytes t = as_bytes s" using d(1) e(2) by simp
  then show ?thesis using e(1) by simp
qed

section \<open>Base 16 and base 32\<close>

lemma hexval_digits: "list_all (\<lambda>d. hexval (of_char (hex_digit d)) = Inr d) (map of_nat [0..<16])"
proof -
  have "[0..<16] = [0, 1, 2, 3, 4, 5, 6, 7, 8, 9, 10, 11, 12, 13, 14, 15]" by code_simp
  then show ?thesis by (simp add: hexval_def hex_digit_def of_char_def)
qed

lemma byte_in_range: "unat (d :: byte) < n \<Longrightarrow> d \<in> set (map of_nat [0..<n])"
  by (auto intro!: image_eqI [of _ _ "unat d"])

lemma hexval_hex_digit: "d < 16 \<Longrightarrow> hexval (of_char (hex_digit d)) = Inr d"
  using hexval_digits byte_in_range [of d 16] by (auto simp: list_all_iff word_less_nat_alt)

lemma nibbles: "push_bit 4 (drop_bit 4 b) OR (b AND 0x0f) = (b :: byte)"
proof -
  have "(0x0f :: byte) = mask 4" by (simp add: mask_eq_exp_minus_1)
  then show ?thesis by (auto simp: bit_eq_iff bit_simps)
qed

lemma nibble_bounds: "drop_bit 4 (b :: byte) < 16" "(b AND 0x0f) < 16"
proof -
  have "unat b div 16 < 16" using byte_bound [of b] by simp
  then show "drop_bit 4 b < 16" by (simp add: word_less_nat_alt drop_bit_eq_div unat_div)
  have "b AND 0x0f = take_bit 4 b" by (simp add: take_bit_eq_mask mask_eq_exp_minus_1)
  then show "(b AND 0x0f) < 16"
    by (simp add: word_less_nat_alt take_bit_eq_mod unat_mod)
qed

lemma base16_decode_encode: "base16_decode (base16_encode data) = Inr data"
proof -
  have "hex_pairs (as_bytes (base16_encode data)) = Inr data"
    by (induction data) (simp_all add: base16_encode_def as_bytes_def hexval_hex_digit nibble_bounds nibbles)
  moreover have "length (base16_encode data) mod 2 = 0" by (induction data) (simp_all add: base16_encode_def)
  ultimately show ?thesis by (simp add: base16_decode_def)
qed

text \<open>The bits of a word, most significant of the lowest \<open>n\<close> first.\<close>

definition bits_of :: "nat \<Rightarrow> 'a :: len word \<Rightarrow> bool list" where
  "bits_of n w = map (bit w) (rev [0..<n])"

abbreviation stream8 :: "bytes \<Rightarrow> bool list" where
  "stream8 bs \<equiv> concat (map (bits_of 8) bs)"

abbreviation stream5 :: "u32 list \<Rightarrow> bool list" where
  "stream5 vs \<equiv> concat (map (bits_of 5) vs)"

lemma length_bits_of [simp]: "length (bits_of n w) = n"
  by (simp add: bits_of_def)

lemma bits_of_0 [simp]: "bits_of 0 w = []"
  by (simp add: bits_of_def)

lemma nth_bits_of: "i < n \<Longrightarrow> bits_of n w ! i = bit w (n - 1 - i)"
  by (simp add: bits_of_def rev_nth)

lemma bits_of_split: "bits_of (m + n) w = bits_of m (drop_bit n w) @ bits_of n w"
  by (rule nth_equalityI) (auto simp: nth_append nth_bits_of bit_drop_bit_eq add.commute)

lemma bits_of_cong: "(\<And>i. i < n \<Longrightarrow> bit v i = bit w i) \<Longrightarrow> bits_of n (v :: 'a :: len word) = bits_of n (w :: 'b :: len word)"
  by (auto simp: bits_of_def)

lemma mask5: "(0x1f :: u32) = mask 5"
  by (simp add: mask_eq_exp_minus_1)

definition b32_char :: "u32 \<Rightarrow> char" where
  "b32_char v = B32_ALPHABET ! unat v"

lemma bits5_masked: "bits_of 5 (w AND 0x1f) = bits_of 5 (w :: u32)"
  by (rule bits_of_cong) (auto simp: mask5 bit_simps)

lemma masked_below: "unat (w AND 0x1f :: u32) < 32"
  by (simp add: mask5 take_bit_eq_mod unat_mod flip: take_bit_eq_mask)

lemma base32_emit_correct:
  "\<exists>vs bits'. base32_emit out buffer bits = (out @ map b32_char vs, bits') \<and> bits' < 5 \<and> bits' \<le> bits \<and>
     list_all (\<lambda>v. unat v < 32) vs \<and> stream5 vs @ bits_of bits' buffer = bits_of bits buffer"
proof (induction out buffer bits rule: base32_emit.induct)
  case (1 out buffer bits)
  show ?case
  proof (cases "bits \<ge> 5")
    case True
    let ?v = "drop_bit (bits - 5) buffer AND 0x1f"
    obtain vs bits' where IH: "base32_emit (out @ [b32_char ?v]) buffer (bits - 5)
          = ((out @ [b32_char ?v]) @ map b32_char vs, bits')"
        "bits' < 5" "bits' \<le> bits - 5" "list_all (\<lambda>v. unat v < 32) vs"
        "stream5 vs @ bits_of bits' buffer = bits_of (bits - 5) buffer"
      using 1 [OF True refl] unfolding b32_char_def by blast
    have "bits_of bits buffer = bits_of 5 (drop_bit (bits - 5) buffer) @ bits_of (bits - 5) buffer"
      using bits_of_split [of 5 "bits - 5" buffer] True by simp
    then have "stream5 (?v # vs) @ bits_of bits' buffer = bits_of bits buffer"
      using IH(5) by (simp add: bits5_masked)
    moreover have "base32_emit out buffer bits = (out @ map b32_char (?v # vs), bits')"
      using True IH(1) by (subst base32_emit.simps) (simp add: Let_def b32_char_def)
    moreover have "list_all (\<lambda>v. unat v < 32) (?v # vs)"
      using masked_below [of "drop_bit (bits - 5) buffer"] IH(4) by simp
    ultimately show ?thesis using IH(2,3) by (intro exI [of _ "?v # vs"] exI [of _ bits']) simp
  next
    case False
    then show ?thesis by (subst base32_emit.simps) (auto intro!: exI [of _ "[]"])
  qed
qed

lemma bits_of_shift_in:
  fixes w :: u32
  assumes "k + n \<le> 32" "\<And>i. n \<le> i \<Longrightarrow> \<not> bit v i"
  shows "bits_of (k + n) (push_bit n w OR v) = bits_of k w @ bits_of n v"
proof -
  have "bits_of k (drop_bit n (push_bit n w OR v)) = bits_of k w"
    using assms by (intro bits_of_cong) (auto simp: bit_simps)
  moreover have "bits_of n (push_bit n w OR v) = bits_of n v"
    by (rule bits_of_cong) (auto simp: bit_simps)
  ultimately show ?thesis by (simp add: bits_of_split)
qed

lemma high_bits_byte: "8 \<le> i \<Longrightarrow> \<not> bit (ucast (b :: byte) :: u32) i"
  by (auto simp: bit_simps dest: bit_imp_le_length)

lemma base32_encode_loop_correct:
  assumes "bits < 5" "base32_encode_loop bs out buffer bits = (out', buffer', bits')"
  shows "\<exists>vs. out' = out @ map b32_char vs \<and> bits' < 5 \<and> list_all (\<lambda>v. unat v < 32) vs \<and>
    stream5 vs @ bits_of bits' buffer' = bits_of bits buffer @ stream8 bs"
  using assms
proof (induction bs arbitrary: out buffer bits)
  case Nil
  then show ?case by (auto intro!: exI [of _ "[]"])
next
  case (Cons b bs)
  let ?buf = "push_bit 8 buffer OR ucast b"
  obtain vs k where e: "base32_emit out ?buf (bits + 8) = (out @ map b32_char vs, k)" "k < 5"
      "list_all (\<lambda>v. unat v < 32) vs" "stream5 vs @ bits_of k ?buf = bits_of (bits + 8) ?buf"
    using base32_emit_correct by blast
  then have "base32_encode_loop bs (out @ map b32_char vs) ?buf k = (out', buffer', bits')"
    using Cons.prems(2) by (simp add: Let_def)
  from Cons.IH [OF e(2) this] obtain ws where ws: "out' = (out @ map b32_char vs) @ map b32_char ws"
      "bits' < 5" "list_all (\<lambda>v. unat v < 32) ws"
      "stream5 ws @ bits_of bits' buffer' = bits_of k ?buf @ stream8 bs" by blast
  have "bits_of (bits + 8) ?buf = bits_of bits buffer @ bits_of 8 (ucast b :: u32)"
    using Cons.prems(1) by (intro bits_of_shift_in high_bits_byte) auto
  moreover have "bits_of 8 (ucast b :: u32) = bits_of 8 b" by (rule bits_of_cong) (auto simp: bit_simps)
  moreover have "stream5 (vs @ ws) @ bits_of bits' buffer' = (stream5 vs @ bits_of k ?buf) @ stream8 bs"
    using ws(4) by simp
  ultimately have "stream5 (vs @ ws) @ bits_of bits' buffer' = bits_of bits buffer @ stream8 (b # bs)"
    unfolding e(4) by simp
  then show ?case using ws(1-3) e(3) by (intro exI [of _ "vs @ ws"]) simp
qed

lemma base32_encode_correct:
  "\<exists>vs pad. base32_encode data = map b32_char vs \<and> list_all (\<lambda>v. unat v < 32) vs \<and>
     stream5 vs = stream8 data @ pad \<and> length pad < 5"
proof -
  obtain out buffer bits where l: "base32_encode_loop data [] 0 0 = (out, buffer, bits)"
    by (metis prod_cases3)
  then obtain vs where vs: "out = map b32_char vs" "bits < 5" "list_all (\<lambda>v. unat v < 32) vs"
      "stream5 vs @ bits_of bits buffer = stream8 data"
    using base32_encode_loop_correct [of 0 data "[]" 0] by auto
  show ?thesis
  proof (cases "bits > 0")
    case True
    let ?v = "push_bit (5 - bits) buffer AND 0x1f"
    have "bits_of 5 (push_bit (5 - bits) buffer) = bits_of (bits + (5 - bits)) (push_bit (5 - bits) buffer OR 0)"
      using vs(2) by simp
    also have "\<dots> = bits_of bits buffer @ bits_of (5 - bits) (0 :: u32)"
      using vs(2) by (intro bits_of_shift_in) auto
    finally have "stream5 (vs @ [?v]) = stream8 data @ bits_of (5 - bits) (0 :: u32)"
      using vs(4) by (simp add: bits5_masked)
    then show ?thesis
      using l vs(1,3) True masked_below [of "push_bit (5 - bits) buffer"]
      by (intro exI [of _ "vs @ [?v]"] exI [of _ "bits_of (5 - bits) (0 :: u32)"])
        (simp add: base32_encode_def b32_char_def)
  next
    case False
    then show ?thesis using l vs
      by (intro exI [of _ vs] exI [of _ "[]"]) (simp add: base32_encode_def)
  qed
qed

text \<open>Either case of a base 32 character reads as its value.\<close>

definition b32_reads :: "char \<Rightarrow> u32 \<Rightarrow> bool" where
  "b32_reads c v \<longleftrightarrow> (of_char c :: byte) \<noteq> 0x3d \<and> b32_val (of_char c) = Inr v"

lemma base32_decode_loop_correct:
  assumes "list_all2 b32_reads cs vs" "list_all (\<lambda>v. unat v < 32) vs" "bits < 8"
  shows "\<exists>res left. base32_decode_loop (as_bytes cs) out buffer bits = Inr (out @ res) \<and>
    length left < 8 \<and> stream8 res @ left = bits_of bits buffer @ stream5 vs"
  using assms
proof (induction arbitrary: out buffer bits rule: list_all2_induct)
  case Nil
  then show ?case by (intro exI [of _ "[]"] exI [of _ "bits_of bits buffer"]) (simp add: as_bytes_def)
next
  case (Cons c cs v vs)
  let ?buf = "push_bit 5 buffer OR v"
  have v: "\<not> bit v i" if "5 \<le> i" for i
  proof -
    have "unat v < 2 ^ 5" using Cons.prems(1) by simp
    then have "take_bit 5 (unat v) = unat v" by (simp add: take_bit_eq_mod)
    then have "take_bit 5 v = v" by (simp add: word_unat_eq_iff unsigned_take_bit_eq)
    then show ?thesis using that by (metis bit_take_bit_iff not_less)
  qed
  have b: "bits_of (bits + 5) ?buf = bits_of bits buffer @ bits_of 5 v"
    using Cons.prems(2) v by (intro bits_of_shift_in) auto
  show ?case
  proof (cases "bits + 5 \<ge> 8")
    case True
    define buf' where "buf' = ?buf"
    let ?o = "ucast (drop_bit (bits + 5 - 8) buf') :: byte"
    obtain res left where IH: "base32_decode_loop (as_bytes cs) (out @ [?o]) buf' (bits + 5 - 8) = Inr ((out @ [?o]) @ res)"
        "length left < 8" "stream8 res @ left = bits_of (bits + 5 - 8) buf' @ stream5 vs"
      using Cons.IH [of "bits + 5 - 8" "out @ [?o]" buf'] Cons.prems by fastforce
    have "bits_of (bits + 5) buf' = bits_of 8 (drop_bit (bits + 5 - 8) buf') @ bits_of (bits + 5 - 8) buf'"
      using bits_of_split [of 8 "bits + 5 - 8" buf'] True by (simp add: add.commute)
    moreover have "bits_of 8 (drop_bit (bits + 5 - 8) buf') = bits_of 8 ?o"
      by (rule bits_of_cong) (auto simp: bit_simps)
    ultimately have "stream8 (?o # res) @ left = bits_of bits buffer @ stream5 (v # vs)"
      using b IH(3) by (simp add: buf'_def)
    then show ?thesis using IH(1,2) True Cons.hyps(1)
      by (intro exI [of _ "?o # res"] exI [of _ left]) (simp add: as_bytes_def b32_reads_def Let_def buf'_def)
  next
    case False
    obtain res left where IH: "base32_decode_loop (as_bytes cs) out ?buf (bits + 5) = Inr (out @ res)"
        "length left < 8" "stream8 res @ left = bits_of (bits + 5) ?buf @ stream5 vs"
      using Cons.IH [of "bits + 5" out ?buf] Cons.prems False by auto
    then show ?thesis using b False Cons.hyps(1)
      by (intro exI [of _ res] exI [of _ left]) (simp add: as_bytes_def b32_reads_def Let_def)
  qed
qed

lemma bits_of_inject: "bits_of 8 a = bits_of 8 b \<Longrightarrow> a = (b :: byte)"
proof (rule bit_word_eqI)
  fix i
  assume e: "bits_of 8 a = bits_of 8 b" and "i < LENGTH(8)"
  then have "bits_of 8 a ! (7 - i) = bits_of 8 b ! (7 - i)" "7 - i < 8" "7 - (7 - i) = i" by auto
  then show "bit a i = bit b i" by (simp add: nth_bits_of)
qed

lemma length_stream8: "length (stream8 bs) = 8 * length bs"
  by (induction bs) auto

lemma stream8_inject: "stream8 as = stream8 bs \<Longrightarrow> length as = length bs \<Longrightarrow> as = bs"
proof (induction as bs rule: list_induct2')
  case (4 a as b bs)
  then show ?case by (auto dest: bits_of_inject)
qed auto

lemma base32_decode_reads:
  assumes "list_all2 b32_reads cs vs" "list_all (\<lambda>v. unat v < 32) vs"
    "stream5 vs = stream8 data @ pad" "length pad < 5"
  shows "base32_decode cs = Inr data"
proof -
  obtain res left where r: "base32_decode cs = Inr res" "length left < 8" "stream8 res @ left = stream8 data @ pad"
    using base32_decode_loop_correct [OF assms(1,2), of 0 "[]" 0] assms(3) by (auto simp: base32_decode_def)
  then have "8 * length res + length left = 8 * length data + length pad"
    by (metis length_append length_stream8)
  then have "length res = length data" using r(2) assms(4) by presburger
  moreover from this have "stream8 res = stream8 data"
    using r(3) by (metis append_eq_append_conv length_stream8)
  ultimately show ?thesis using r(1) stream8_inject by simp
qed

definition lower_char :: "char \<Rightarrow> char" where
  "lower_char a = (if of_char a \<in> {65..90 :: nat} then char_of (of_char a + 32 :: nat) else a)"

lemma to_lowercase_map: "CHR 0xE2 \<notin> set s \<Longrightarrow> to_lowercase s = map lower_char s"
  by (induction s rule: to_lowercase.induct) (auto simp: lower_char_def)

lemma b32_chars:
  "list_all (\<lambda>k. let c = B32_ALPHABET ! k in
     b32_val (of_char c) = Inr (of_nat k) \<and> (of_char c :: byte) \<noteq> 0x3d \<and>
     b32_val (of_char (lower_char c)) = Inr (of_nat k) \<and> (of_char (lower_char c) :: byte) \<noteq> 0x3d \<and>
     c \<noteq> CHR 0xE2) [0..<32]"
  by code_simp

lemma b32_char_reads:
  assumes "unat v < 32"
  shows "b32_reads (b32_char v) v" "b32_reads (lower_char (b32_char v)) v" "b32_char v \<noteq> CHR 0xE2"
  using b32_chars assms by (auto simp: list_all_iff b32_reads_def b32_char_def Let_def)

text \<open>
  C37. Base58btc is a bijection between byte strings and strings over its alphabet: encoding never
  panics (no index leaves its array and no position underflows) and decodes to the input; and a
  string that decodes at all is the encoding of what it decodes to.
\<close>

theorem base58_bijection:
  "\<exists>s. base58_encode bs = Inr s \<and> base58_decode s = Inr bs \<and> (\<forall>t. base58_decode t = Inr bs \<longrightarrow> t = s)"
proof -
  obtain s where "base58_encode bs = Inr s" "base58_decode s = Inr bs"
    using base58_decode_encode [of bs] by (auto simp: and_then_Inr_iff)
  then show ?thesis using base58_encode_decode by fastforce
qed

lemma base58_bijection_witness:
  "base58_decode ''115Q'' = Inr [0, 0, 255] \<and> base58_encode [0, 0, 255] = Inr ''115Q''"
proof -
  have d: "base58_decode ''115Q'' = Inr [0, 0, 255]" by code_simp
  with base58_bijection [of "[0, 0, 255]"] show ?thesis by auto
qed

text \<open>
  Multibase round trip: every byte string survives each of the four supported encodings -
  base58btc, hex, and base32 in both cases - when decoded by its prefix character.
\<close>

theorem multibase_roundtrip:
  "and_then (multibase_encode_base58btc data) multibase_decode = Inr data \<and>
   multibase_decode (''f'' @ base16_encode data) = Inr data \<and>
   multibase_decode (''b'' @ to_lowercase (base32_encode data)) = Inr data \<and>
   multibase_decode (''B'' @ base32_encode data) = Inr data"
proof -
  obtain vs pad where e: "base32_encode data = map b32_char vs" "list_all (\<lambda>v. unat v < 32) vs"
      "stream5 vs = stream8 data @ pad" "length pad < 5"
    using base32_encode_correct by blast
  have "CHR 0xE2 \<notin> set (map b32_char vs)" 
    using e(2) b32_char_reads(3) by (metis (no_types, lifting) imageE list.set_map list_all_iff)
  then have "to_lowercase (base32_encode data) = map (\<lambda>v. lower_char (b32_char v)) vs"
    using e(1) by (simp add: to_lowercase_map comp_def)
  moreover have "list_all2 b32_reads (map (\<lambda>v. lower_char (b32_char v)) vs) vs"
    using e(2) b32_char_reads(2) by (simp add: list_all2_map1 list_all2_same list_all_iff)
  ultimately have lower: "base32_decode (to_lowercase (base32_encode data)) = Inr data"
    using base32_decode_reads e(2-4) by simp
  have "and_then (multibase_encode_base58btc data) multibase_decode = Inr data"
    using base58_decode_encode [of data]
    by (auto simp: multibase_encode_base58btc_def multibase_decode_def and_then_Inr_iff)
  then show ?thesis using lower by (simp add: multibase_decode_def base16_decode_encode)
qed

end
