(* ===== verification/Multiformats.thy ===== *)
theory Multiformats
  imports Bases_Codec
begin

text \<open>
  \<open>peergos-multiformats/src/lib.rs\<close>: unsigned varints, multihashes and content identifiers, in
  their binary and string forms.  A cursor \<open>pos: &mut usize\<close> is passed and returned.  The two
  \<open>panic!\<close>s on unknown CID versions are the error \<open>Panic\<close>.
\<close>

section \<open>Varints\<close>

function put_uvarint :: "bytes \<Rightarrow> u64 \<Rightarrow> bytes" where
  "put_uvarint out x =
     (if x \<ge> 0x80 then put_uvarint (out @ [ucast x OR 0x80]) (drop_bit 7 x) else out @ [ucast x])"
  by pat_completeness auto
termination
proof (relation "measure (\<lambda>(out, x). unat x)")
  fix out and x :: u64
  assume "0x80 \<le> x"
  then have "0 < unat x" by (simp add: word_le_nat_alt)
  then have "unat x div 128 < unat x" by simp
  then show "((out @ [ucast x OR 0x80], drop_bit 7 x), out, x) \<in> measure (\<lambda>(out, x). unat x)"
    by (simp add: drop_bit_eq_div unat_div)
qed simp

declare put_uvarint.simps [simp del]

text \<open>The loop \<open>for i in 0..10\<close> with \<open>left = 10 - i\<close> rounds to go.\<close>

primrec read_uvarint_loop :: "nat \<Rightarrow> bytes \<Rightarrow> nat \<Rightarrow> u64 \<Rightarrow> nat \<Rightarrow> mf_error + u64 \<times> nat" where
  "read_uvarint_loop 0 buf pos x s = Inl VarintTooLong"
| "read_uvarint_loop (Suc left) buf pos x s =
     (if pos \<ge> length buf then Inl EofVarint
      else
        let b = buf ! pos; pos = pos + 1
        in if b < 0x80 then
             (if left = 0 \<and> b > 1 then Inl VarintOverflow
              else if b = 0 \<and> s > 0 then Inl NonMinimalVarint
              else Inr (x OR push_bit s (ucast b), pos))
           else read_uvarint_loop left buf pos (x OR push_bit s (ucast b AND 0x7f)) (s + 7))"

definition read_uvarint :: "bytes \<Rightarrow> nat \<Rightarrow> mf_error + u64 \<times> nat" where
  "read_uvarint buf pos = read_uvarint_loop 10 buf pos 0 0"

section \<open>Multihashes\<close>

datatype multihash_type = Id_hash | Sha2_256 | Sha2_512 | Sha3 | Blake2b | Blake2s | Blake3

fun mh_index :: "multihash_type \<Rightarrow> u64" where
  "mh_index Id_hash = 0x00"
| "mh_index Sha2_256 = 0x12"
| "mh_index Sha2_512 = 0x13"
| "mh_index Sha3 = 0x14"
| "mh_index Blake2b = 0x40"
| "mh_index Blake2s = 0x41"
| "mh_index Blake3 = 0x1e"

fun mh_length :: "multihash_type \<Rightarrow> int" where
  "mh_length Id_hash = - 1"
| "mh_length Sha2_256 = 32"
| "mh_length Sha2_512 = 64"
| "mh_length Sha3 = 64"
| "mh_length Blake2b = 64"
| "mh_length Blake2s = 32"
| "mh_length Blake3 = 32"

definition mh_lookup :: "u64 \<Rightarrow> mf_error + multihash_type" where
  "mh_lookup t =
     (if t = 0x00 then Inr Id_hash
      else if t = 0x12 then Inr Sha2_256
      else if t = 0x13 then Inr Sha2_512
      else if t = 0x14 then Inr Sha3
      else if t = 0x40 then Inr Blake2b
      else if t = 0x41 then Inr Blake2s
      else if t = 0x1e then Inr Blake3
      else Inl (UnknownMultihashType t))"

abbreviation (input) LEGACY_MAX_IDENTITY_HASH_SIZE :: nat where
  "LEGACY_MAX_IDENTITY_HASH_SIZE \<equiv> 4112"

record multihash =
  hash_type :: multihash_type
  hash :: bytes

definition multihash_new :: "multihash_type \<Rightarrow> bytes \<Rightarrow> mf_error + multihash" where
  "multihash_new t h =
     (if length h > 127 \<and> t \<noteq> Id_hash then Inl (UnsupportedHashSize (length h))
      else if length h > LEGACY_MAX_IDENTITY_HASH_SIZE then Inl (UnsupportedHashSize (length h))
      else if t \<noteq> Id_hash \<and> int (length h) \<noteq> mh_length t then Inl (IncorrectHashLength (length h) (mh_length t))
      else Inr \<lparr>hash_type = t, hash = h\<rparr>)"

definition is_identity :: "multihash \<Rightarrow> bool" where
  "is_identity m \<longleftrightarrow> hash_type m = Id_hash"

definition multihash_decode :: "bytes \<Rightarrow> mf_error + multihash" where
  "multihash_decode bs =
     (if length bs < 2 then Inl MultihashTooShort
      else and_then (mh_lookup (ucast (bs ! 0 AND 0xff))) (\<lambda>t. multihash_new t (drop 2 bs)))"

definition multihash_to_bytes :: "multihash \<Rightarrow> bytes" where
  "multihash_to_bytes m =
     (let out = put_uvarint [] (mh_index (hash_type m));
          out = put_uvarint out (of_nat (length (hash m)))
      in out @ hash m)"

definition multihash_deserialize :: "bytes \<Rightarrow> nat \<Rightarrow> mf_error + multihash \<times> nat" where
  "multihash_deserialize buf pos =
     and_then (read_uvarint buf pos) (\<lambda>(t, pos).
     and_then (read_uvarint buf pos) (\<lambda>(len, pos).
     and_then (mh_lookup t) (\<lambda>t.
       let end = pos + unat len
       in if end \<le> length buf then
            and_then (multihash_new t (take (end - pos) (drop pos buf))) (\<lambda>m. Inr (m, end))
          else Inl EofMultihash)))"

definition multihash_to_base58 :: "multihash \<Rightarrow> mf_error + string" where
  "multihash_to_base58 m = base58_encode (multihash_to_bytes m)"

definition multihash_from_base58 :: "string \<Rightarrow> mf_error + multihash" where
  "multihash_from_base58 s = and_then (base58_decode s) multihash_decode"

text \<open>\<open>Ord for Multihash\<close>: by length, then by bytes as signed numbers, then by type index.\<close>

fun cmp_zip :: "('a \<Rightarrow> 'b \<Rightarrow> ordering) \<Rightarrow> 'a list \<Rightarrow> 'b list \<Rightarrow> ordering" where
  "cmp_zip c (a # as) (b # bs) = (let o' = c a b in if o' \<noteq> Equal then o' else cmp_zip c as bs)"
| "cmp_zip c _ _ = Equal"

definition cmp_i8 :: "byte \<Rightarrow> byte \<Rightarrow> ordering" where
  "cmp_i8 a b = cmp (sint a) (sint b)"

definition cmp_multihash :: "multihash \<Rightarrow> multihash \<Rightarrow> ordering" where
  "cmp_multihash a b =
     then_with (then_with (cmp (length (hash a)) (length (hash b))) (cmp_zip cmp_i8 (hash a) (hash b)))
       (cmp (mh_index (hash_type a)) (mh_index (hash_type b)))"

section \<open>Content identifiers\<close>

datatype codec = Raw | DagProtobuf | DagCbor | LibP2pKey

fun codec_code :: "codec \<Rightarrow> u64" where
  "codec_code Raw = 0x55"
| "codec_code DagProtobuf = 0x70"
| "codec_code DagCbor = 0x71"
| "codec_code LibP2pKey = 0x72"

definition codec_lookup :: "u64 \<Rightarrow> mf_error + codec" where
  "codec_lookup c =
     (if c = 0x55 then Inr Raw
      else if c = 0x70 then Inr DagProtobuf
      else if c = 0x71 then Inr DagCbor
      else if c = 0x72 then Inr LibP2pKey
      else Inl (UnknownCodec c))"

abbreviation (input) CID_V0 :: u64 where "CID_V0 \<equiv> 0"
abbreviation (input) CID_V1 :: u64 where "CID_V1 \<equiv> 1"

record cid =
  version :: u64
  cid_codec :: codec
  cid_multihash :: multihash

definition cid_new :: "u64 \<Rightarrow> codec \<Rightarrow> multihash_type \<Rightarrow> bytes \<Rightarrow> mf_error + cid" where
  "cid_new v c t h =
     and_then (multihash_new t h) (\<lambda>m. Inr \<lparr>version = v, cid_codec = c, cid_multihash = m\<rparr>)"

definition cid_build :: "u64 \<Rightarrow> codec \<Rightarrow> multihash \<Rightarrow> cid" where
  "cid_build v c h = \<lparr>version = v, cid_codec = c, cid_multihash = h\<rparr>"

definition build_v0 :: "multihash \<Rightarrow> cid" where
  "build_v0 h = cid_build CID_V0 DagProtobuf h"

definition build_v1 :: "codec \<Rightarrow> multihash_type \<Rightarrow> bytes \<Rightarrow> mf_error + cid" where
  "build_v1 c t h = cid_new CID_V1 c t h"

definition is_raw :: "cid \<Rightarrow> bool" where
  "is_raw c \<longleftrightarrow> cid_codec c = Raw"

definition to_bytes_v1 :: "cid \<Rightarrow> bytes" where
  "to_bytes_v1 c =
     (let out = put_uvarint [] (version c);
          out = put_uvarint out (codec_code (cid_codec c))
      in out @ multihash_to_bytes (cid_multihash c))"

definition cid_to_bytes :: "cid \<Rightarrow> mf_error + bytes" where
  "cid_to_bytes c =
     (if version c = CID_V0 then Inr (multihash_to_bytes (cid_multihash c))
      else if version c = CID_V1 then Inr (to_bytes_v1 c)
      else Inl Panic)"

definition cid_to_base58 :: "cid \<Rightarrow> mf_error + string" where
  "cid_to_base58 c = and_then (cid_to_bytes c) base58_encode"

definition cid_cast :: "bytes \<Rightarrow> mf_error + cid" where
  "cid_cast data =
     (if length data = 34 \<and> data ! 0 = 18 \<and> data ! 1 = 32 then
        and_then (multihash_decode data) (\<lambda>m. Inr (build_v0 m))
      else
        and_then (read_uvarint data 0) (\<lambda>(v, pos).
          if v \<noteq> CID_V0 \<and> v \<noteq> CID_V1 then Inl (InvalidCidVersion v)
          else
            and_then (read_uvarint data pos) (\<lambda>(c, pos).
            and_then (multihash_deserialize data pos) (\<lambda>(h, pos).
            and_then (codec_lookup c) (\<lambda>c.
              Inr \<lparr>version = v, cid_codec = c, cid_multihash = h\<rparr>)))))"

definition starts_with :: "string \<Rightarrow> string \<Rightarrow> bool" where
  "starts_with s p \<longleftrightarrow> take (length p) s = p"

definition cid_decode :: "string \<Rightarrow> mf_error + cid" where
  "cid_decode v =
     (if length v < 2 then Inl CidTooShort
      else if length v = 46 \<and> starts_with v ''Qm'' then
        and_then (multihash_from_base58 v) (\<lambda>m. Inr (build_v0 m))
      else and_then (multibase_decode v) cid_cast)"

definition decode_peer_id :: "string \<Rightarrow> mf_error + cid" where
  "decode_peer_id peer_id =
     (if starts_with peer_id ''1'' then
        and_then (base58_decode peer_id) (\<lambda>bs.
        and_then (multihash_decode bs) (\<lambda>h.
          Inr \<lparr>version = CID_V1, cid_codec = LibP2pKey, cid_multihash = h\<rparr>))
      else cid_decode peer_id)"

text \<open>\<open>Display for Cid\<close>\<close>

definition cid_to_string :: "cid \<Rightarrow> mf_error + string" where
  "cid_to_string c =
     (if version c = CID_V0 then multihash_to_base58 (cid_multihash c)
      else if version c = CID_V1 then multibase_encode_base58btc (to_bytes_v1 c)
      else Inl Panic)"

section \<open>Varints are canonical\<close>

lemma drop7_less: "x \<ge> 0x80 \<Longrightarrow> unat (drop_bit 7 (x :: u64)) < unat x"
  by (simp add: word_le_nat_alt drop_bit_eq_div unat_div)

lemma put_uvarint_append: "put_uvarint out x = out @ put_uvarint [] x"
proof (induction x arbitrary: out rule: measure_induct_rule [where f = unat])
  case (less x)
  show ?case
  proof (cases "x \<ge> 0x80")
    case True
    note IH = less [OF drop7_less [OF True]]
    show ?thesis
      using True IH [of "out @ [ucast x OR 0x80]"] IH [of "[ucast x OR 0x80]"]
      by (simp add: put_uvarint.simps [of out x] put_uvarint.simps [of "[]" x])
  next
    case False
    then show ?thesis by (simp add: put_uvarint.simps [of out x] put_uvarint.simps [of "[]" x])
  qed
qed

lemma put_uvarint_small: "x < 0x80 \<Longrightarrow> put_uvarint [] x = [ucast x]"
  by (subst put_uvarint.simps) (auto simp: not_le)

lemma put_uvarint_big: "x \<ge> 0x80 \<Longrightarrow> put_uvarint [] x = (ucast x OR 0x80) # put_uvarint [] (drop_bit 7 x)"
  using put_uvarint_append [of "[ucast x OR 0x80]" "drop_bit 7 x"] by (subst put_uvarint.simps) simp

lemma bit_0x80: "bit (0x80 :: byte) n \<longleftrightarrow> n = 7"
proof -
  have "(0x80 :: byte) = 2 ^ 7" by simp
  then show ?thesis by (simp only: bit_exp_iff) (auto simp: possible_bit_def)
qed

lemma bit_0x7f: "bit (0x7f :: u64) n \<longleftrightarrow> n < 7"
proof -
  have "(0x7f :: u64) = mask 7" by (simp add: mask_eq_exp_minus_1)
  then show ?thesis by (simp only: bit_mask_iff) (auto simp: possible_bit_def)
qed

lemma top_bit_byte: "(b :: byte) < 0x80 \<longleftrightarrow> \<not> bit b 7"
proof -
  have "bit b 7 \<longleftrightarrow> bit (unat b) 7" by (simp add: bit_unsigned_iff)
  also have "\<dots> \<longleftrightarrow> odd (unat b div 128)" by (simp add: bit_iff_odd)
  also have "\<dots> \<longleftrightarrow> \<not> unat b < 128"
  proof (cases "unat b < 128")
    case False
    then have "unat b div 128 = 1" using byte_bound [of b] by (intro div_nat_eqI) auto
    then show ?thesis using False by simp
  qed simp
  finally show ?thesis by (simp add: word_less_nat_alt)
qed

lemma cont_byte: "\<not> (ucast v OR 0x80 :: byte) < 0x80" "ucast (ucast v OR 0x80 :: byte) AND 0x7f = (v :: u64) AND 0x7f"
proof -
  show "\<not> (ucast v OR 0x80 :: byte) < 0x80" unfolding top_bit_byte by (simp only: bit_or_iff bit_0x80) simp
  show "ucast (ucast v OR 0x80 :: byte) AND 0x7f = (v :: u64) AND 0x7f"
    by (rule bit_word_eqI, simp only: bit_and_iff bit_0x7f bit_unsigned_iff bit_or_iff bit_0x80 possible_bit_word)
      auto
qed

lemma join7: "(x OR push_bit s (v AND 0x7f)) OR push_bit (s + 7) (drop_bit 7 v) = x OR push_bit s (v :: u64)"
proof (rule bit_word_eqI)
  fix n
  have "7 + (n - (s + 7)) = n - s" if "s + 7 \<le> n" using that by simp
  then show "bit ((x OR push_bit s (v AND 0x7f)) OR push_bit (s + 7) (drop_bit 7 v)) n = bit (x OR push_bit s v) n"
    unfolding bit_or_iff bit_push_bit_iff bit_and_iff bit_0x7f bit_drop_bit_eq comp_def
    by (cases "s + 7 \<le> n") auto
qed

lemma drop7_bound:
  assumes "unat (v :: u64) < 2 ^ (64 - s)" "v \<ge> 0x80"
  shows "s + 7 \<le> 63" "unat (drop_bit 7 v) < 2 ^ (64 - (s + 7))" "drop_bit 7 v \<noteq> 0"
proof -
  have v: "128 \<le> unat v" using assms(2) by (simp add: word_le_nat_alt)
  then have "(2 :: nat) ^ 7 < 2 ^ (64 - s)" using assms(1) by simp
  then have "7 < 64 - s" by (rule power_less_imp_less_exp [rotated]) simp
  then show s: "s + 7 \<le> 63" by simp
  have "64 - s = (64 - (s + 7)) + 7" using s by simp
  then have "(2 :: nat) ^ (64 - s) = 2 ^ (64 - (s + 7)) * 128" by (simp only: power_add) simp
  then have "unat v div 128 < 2 ^ (64 - (s + 7))" using assms(1) by (simp add: less_mult_imp_div_less)
  then show "unat (drop_bit 7 v) < 2 ^ (64 - (s + 7))" by (simp add: drop_bit_eq_div unat_div)
  have "0 < unat v div 128" using v by (simp add: div_greater_zero_iff)
  then show "drop_bit 7 v \<noteq> 0" by (simp add: drop_bit_eq_div unat_div flip: unat_gt_0)
qed

lemma read_loop_correct:
  assumes "s + 7 * n = 70" "unat v < 2 ^ (64 - s)" "v \<noteq> 0 \<or> s = 0" "s < 64"
    "buf = pre @ put_uvarint [] v @ post"
  shows "read_uvarint_loop n buf (length pre) x s = Inr (x OR push_bit s v, length pre + length (put_uvarint [] v))"
  using assms
proof (induction n arbitrary: s v pre x)
  case (Suc n)
  show ?case
  proof (cases "v < 0x80")
    case True
    then have "unat v < 128" by (simp add: word_less_nat_alt)
    then have u: "unat (ucast v :: byte) = unat v" by (simp add: unat_ucast_byte)
    then have ucast: "ucast (ucast v :: byte) = v" by (simp add: word_unat_eq_iff unat_ucast_u64)
    have "n = 0 \<Longrightarrow> unat v < 2" using Suc.prems(1,2) by simp
    then have "\<not> (n = 0 \<and> 1 < (ucast v :: byte))" using u by (auto simp: word_less_nat_alt)
    moreover have "\<not> ((ucast v :: byte) = 0 \<and> 0 < s)" using Suc.prems(3) u by (auto simp: word_unat_eq_iff)
    ultimately show ?thesis
      using True Suc.prems(5) u \<open>unat v < 128\<close> ucast
      by (auto simp: put_uvarint_small Let_def word_less_nat_alt)
  next
    case False
    then have big: "v \<ge> 0x80" by simp
    let ?w = "drop_bit 7 v" and ?b = "ucast v OR 0x80 :: byte"
    note bd = drop7_bound [OF Suc.prems(2) big]
    have e: "buf = (pre @ [?b]) @ put_uvarint [] ?w @ post" using Suc.prems(5) big by (simp add: put_uvarint_big)
    have "read_uvarint_loop n buf (length (pre @ [?b])) (x OR push_bit s (v AND 0x7f)) (s + 7)
        = Inr ((x OR push_bit s (v AND 0x7f)) OR push_bit (s + 7) ?w, length (pre @ [?b]) + length (put_uvarint [] ?w))"
      using Suc.prems(1) bd by (intro Suc.IH [OF _ _ _ _ e]) auto
    then show ?thesis
      using e big cont_byte [of v] by (simp add: put_uvarint_big Let_def join7 del: push_bit_and)
  qed
qed simp

lemma read_uvarint_put:
  "read_uvarint (pre @ put_uvarint [] v @ post) (length pre) = Inr (v, length pre + length (put_uvarint [] v))"
proof -
  have "unat v < 2 ^ LENGTH(64)" by (rule unsigned_less)
  then show ?thesis by (simp add: read_uvarint_def read_loop_correct)
qed

lemma unsplit7:
  fixes v :: u64 and b :: byte
  assumes "unat v < 2 ^ 57"
  shows "drop_bit 7 (push_bit 7 v OR (ucast b AND 0x7f)) = v"
    "(push_bit 7 v OR (ucast b AND 0x7f)) AND 0x7f = ucast b AND 0x7f"
    "unat (push_bit 7 v OR (ucast b AND 0x7f)) = unat v * 128 + unat b mod 128"
    "\<not> b < 0x80 \<Longrightarrow> ucast (push_bit 7 v OR (ucast b AND 0x7f)) OR 0x80 = b"
proof -
  let ?w = "push_bit 7 v OR (ucast b AND 0x7f)"
  have top: "\<not> bit v n" if "57 \<le> n" for n
  proof -
    have "take_bit 57 (unat v) = unat v" using assms by (simp add: take_bit_eq_mod)
    then have "take_bit 57 v = v" by (simp add: word_unat_eq_iff unsigned_take_bit_eq)
    then show ?thesis using that by (metis bit_take_bit_iff not_less)
  qed
  show d: "drop_bit 7 ?w = v"
  proof (rule bit_word_eqI)
    fix n
    assume "n < LENGTH(64)"
    then show "bit (drop_bit 7 ?w) n = bit v n"
      unfolding bit_or_iff bit_push_bit_iff bit_and_iff bit_0x7f bit_drop_bit_eq comp_def
      using top [of n] by (cases "57 \<le> n") auto
  qed
  show a: "?w AND 0x7f = ucast b AND 0x7f"
    by (rule bit_word_eqI) (simp only: bit_or_iff bit_push_bit_iff bit_and_iff bit_0x7f, auto)
  have t: "x AND 0x7f = x mod 128" for x :: u64
    using take_bit_eq_mask [of 7 x] take_bit_eq_mod [of 7 x] by (simp add: mask_eq_exp_minus_1)
  have "unat ?w = unat ?w div 128 * 128 + unat ?w mod 128" by simp
  also have "unat ?w div 128 = unat (drop_bit 7 ?w)" by (simp only: drop_bit_eq_div unat_div) simp
  also have "unat ?w mod 128 = unat (?w AND 0x7f)"
    unfolding t by (simp only: unat_mod) simp
  finally have "unat ?w = unat v * 128 + unat (ucast b AND 0x7f :: u64)" unfolding d a .
  also have "unat (ucast b AND 0x7f :: u64) = unat b mod 128"
    unfolding t by (simp only: unat_mod unat_ucast_u64) simp
  finally show "unat ?w = unat v * 128 + unat b mod 128" .
  assume "\<not> b < 0x80"
  then have "bit b 7" by (simp add: top_bit_byte)
  then show "ucast ?w OR 0x80 = b"
    by (intro bit_word_eqI)
      (simp only: bit_or_iff bit_push_bit_iff bit_and_iff bit_0x7f bit_0x80 bit_unsigned_iff possible_bit_word, auto simp: less_Suc_eq numeral_eq_Suc)
qed

lemma read_loop_canonical:
  assumes "read_uvarint_loop n buf pos x s = Inr (y, pos')" "s + 7 * n = 70"
  shows "\<exists>v post. drop pos buf = put_uvarint [] v @ post \<and> pos' = pos + length (put_uvarint [] v) \<and>
    y = x OR push_bit s v \<and> unat v < 2 ^ (64 - s) \<and> (v \<noteq> 0 \<or> s = 0)"
  using assms
proof (induction n arbitrary: pos x s)
  case (Suc n)
  let ?b = "buf ! pos"
  have pos: "pos < length buf" using Suc.prems(1) by (auto split: if_splits)
  then have d: "drop pos buf = ?b # drop (pos + 1) buf" by (simp add: Cons_nth_drop_Suc)
  show ?case
  proof (cases "?b < 0x80")
    case True
    then have r: "y = x OR push_bit s (ucast ?b)" "pos' = pos + 1" "\<not> (n = 0 \<and> ?b > 1)" "\<not> (?b = 0 \<and> s > 0)"
      using Suc.prems(1) pos by (auto simp: Let_def split: if_splits)
    have b: "unat ?b < 128" using True by (simp add: word_less_nat_alt)
    then have lt: "(ucast ?b :: u64) < 0x80" by (simp add: word_less_nat_alt unat_ucast_u64)
    have "unat ?b < 2 ^ (64 - s)"
    proof (cases "n = 0")
      case True
      then show ?thesis using r(3) Suc.prems(2) by (simp add: word_less_nat_alt)
    next
      case False
      then have "(2 :: nat) ^ 7 \<le> 2 ^ (64 - s)" using Suc.prems(2) by (intro power_increasing) auto
      then show ?thesis using b by simp
    qed
    moreover have "ucast ?b \<noteq> (0 :: u64) \<or> s = 0" using r(4) by (auto simp: word_unat_eq_iff unat_ucast_u64)
    moreover have "ucast (ucast ?b :: u64) = ?b" by (simp add: word_unat_eq_iff unat_ucast_byte unat_ucast_u64 byte_bound)
    ultimately show ?thesis
      using lt d r(1,2) by (intro exI [of _ "ucast ?b"] exI [of _ "drop (pos + 1) buf"])
        (simp add: put_uvarint_small unat_ucast_u64)
  next
    case False
    then have loop: "read_uvarint_loop n buf (pos + 1) (x OR push_bit s (ucast ?b AND 0x7f)) (s + 7) = Inr (y, pos')"
      using Suc.prems(1) pos by (auto simp: Let_def split: if_splits)
    then have "n \<noteq> 0" by (cases n) auto
    have "s + 7 + 7 * n = 70" using Suc.prems(2) by simp
    from Suc.IH [OF loop this] obtain v post where v: "drop (pos + 1) buf = put_uvarint [] v @ post"
        "pos' = pos + 1 + length (put_uvarint [] v)" "y = (x OR push_bit s (ucast ?b AND 0x7f)) OR push_bit (s + 7) v"
        "unat v < 2 ^ (64 - (s + 7))" "v \<noteq> 0"
      by (metis add_is_0 zero_neq_numeral)
    let ?v = "push_bit 7 v OR (ucast ?b AND 0x7f)"
    have s: "s \<le> 56" using Suc.prems(2) \<open>n \<noteq> 0\<close> by auto
    then have "(2 :: nat) ^ (64 - (s + 7)) \<le> 2 ^ 57" by (intro power_increasing) auto
    then have "unat v < 2 ^ 57" using v(4) by (rule less_le_trans [rotated])
    note split = unsplit7 [OF this, of "?b"]
    have "push_bit s ?v = push_bit s (ucast ?b AND 0x7f) OR push_bit (s + 7) v"
      using join7 [of 0 s ?v] split(1,2) by simp
    moreover have "unat ?v < 2 ^ (64 - s)"
    proof -
      have "64 - s = (64 - (s + 7)) + 7" using s by simp
      then have "(2 :: nat) ^ (64 - s) = 2 ^ (64 - (s + 7)) * 128" by (simp only: power_add) simp
      then show ?thesis using v(4) unfolding split(3) using mod_less_divisor [of 128 "unat ?b"] by linarith
    qed
    moreover have "?v \<ge> 0x80"
      using v(5) unfolding word_le_nat_alt split(3) by (simp flip: unat_gt_0)
    moreover have "?v \<noteq> 0"
      using v(5) unfolding word_unat_eq_iff split(3) by simp
    moreover have "ucast ?v OR 0x80 = ?b" using False by (rule split(4))
    ultimately show ?thesis
      using d v(1-3) split(1)
      by (intro exI [of _ ?v] exI [of _ post]) (simp add: put_uvarint_big ac_simps del: push_bit_and push_bit_or drop_bit_or)
  qed
qed simp

text \<open>
  C40. Varints are canonical: reading the encoding of \<open>v\<close> wherever it stands in a buffer gives
  back \<open>v\<close> and moves the cursor right behind it; and a varint is accepted only in the form
  \<open>put_uvarint\<close> writes, so no number has a second encoding.
\<close>

theorem uvarint_canonical:
  "read_uvarint (pre @ put_uvarint [] v @ post) (length pre) = Inr (v, length pre + length (put_uvarint [] v)) \<and>
   (read_uvarint buf pos = Inr (w, pos') \<longrightarrow>
      take (pos' - pos) (drop pos buf) = put_uvarint [] w \<and> pos < pos' \<and> pos' \<le> length buf)"
proof -
  have "take (pos' - pos) (drop pos buf) = put_uvarint [] w \<and> pos < pos' \<and> pos' \<le> length buf"
    if r: "read_uvarint buf pos = Inr (w, pos')"
  proof -
    obtain v post where v: "drop pos buf = put_uvarint [] v @ post" "pos' = pos + length (put_uvarint [] v)" "w = v"
      using read_loop_canonical [of 10 buf pos 0 0 w pos'] r by (auto simp: read_uvarint_def)
    have "put_uvarint [] v \<noteq> []"
      using put_uvarint_small [of v] put_uvarint_big [of v] by (cases "v < 0x80") auto
    moreover from this have "pos \<le> length buf" using v(1) by (cases "pos < length buf") auto
    moreover have "length buf - pos = length (put_uvarint [] v @ post)" unfolding v(1) [symmetric] by simp
    ultimately show ?thesis using v by (auto simp: length_greater_0_conv [symmetric] simp del: length_greater_0_conv)
  qed
  then show ?thesis using read_uvarint_put by blast
qed

lemma uvarint_canonical_witness:
  "read_uvarint [9, 0x80, 0x01] 1 = Inr (128, 3) \<and> put_uvarint [] 128 = [0x80, 0x01]"
proof -
  have "read_uvarint [9, 0x80, 0x01] 1 = Inr (128, 3)" by code_simp
  then show ?thesis using uvarint_canonical [of "[]" 0 "[]" "[9, 0x80, 0x01]" 1 128 3] by simp
qed

section \<open>Multihashes and CIDs\<close>

lemma read_uvarint_small:
  assumes "drop pos buf = ucast v # r" "v < 0x80"
  shows "read_uvarint buf pos = Inr (v, pos + 1)"
proof -
  have "pos < length buf" using assms(1) by (cases "pos < length buf") auto
  then have "buf = take pos buf @ put_uvarint [] v @ r" "length (take pos buf) = pos"
    using assms by (auto simp: put_uvarint_small) (metis append_take_drop_id)
  then show ?thesis using read_uvarint_put [of "take pos buf" v r] assms(2) by (simp add: put_uvarint_small)
qed

definition wf_multihash :: "multihash \<Rightarrow> bool" where
  "wf_multihash m \<longleftrightarrow> multihash_new (hash_type m) (hash m) = Inr m"

lemma wf_multihash_new: "multihash_new t h = Inr m \<Longrightarrow> wf_multihash m \<and> hash_type m = t \<and> hash m = h"
  by (auto simp: wf_multihash_def multihash_new_def split: if_splits)

lemma mh_lookup_index [simp]: "mh_lookup (mh_index t) = Inr t"
  by (cases t) (simp_all add: mh_lookup_def)

lemma mh_index_small: "mh_index t < 0x80"
  by (cases t) simp_all

lemma codec_lookup_code [simp]: "codec_lookup (codec_code c) = Inr c"
  by (cases c) (simp_all add: codec_lookup_def)

lemma codec_code_small: "codec_code c < 0x80"
  by (cases c) simp_all

lemma wf_multihash_length: "wf_multihash m \<Longrightarrow> length (hash m) \<le> 4112"
  by (auto simp: wf_multihash_def multihash_new_def split: if_splits)

lemma multihash_to_bytes_eq:
  "multihash_to_bytes m = ucast (mh_index (hash_type m)) # put_uvarint [] (of_nat (length (hash m))) @ hash m"
  using put_uvarint_append [of "[ucast (mh_index (hash_type m))]" "of_nat (length (hash m))"]
  by (simp add: multihash_to_bytes_def put_uvarint_small mh_index_small Let_def)

lemma multihash_deserialize_to_bytes:
  assumes "wf_multihash m" "drop pos buf = multihash_to_bytes m @ r"
  shows "multihash_deserialize buf pos = Inr (m, pos + length (multihash_to_bytes m))"
proof -
  let ?l = "of_nat (length (hash m)) :: u64"
  let ?h = "ucast (mh_index (hash_type m)) # put_uvarint [] ?l"
  have len: "unat ?l = length (hash m)"
    using wf_multihash_length [OF assms(1)] by (simp add: unat_of_nat take_bit_eq_mod)
  have buf: "drop pos buf = ?h @ hash m @ r" using assms(2) by (simp add: multihash_to_bytes_eq)
  then have pos: "pos < length buf" by (cases "pos < length buf") auto
  have split: "buf = (take pos buf @ [ucast (mh_index (hash_type m))]) @ put_uvarint [] ?l @ (hash m @ r)"
    using buf by (metis append.assoc append_Cons append_Nil append_take_drop_id)
  have r1: "read_uvarint buf pos = Inr (mh_index (hash_type m), pos + 1)"
    using read_uvarint_small [OF _ mh_index_small] buf by simp
  have r2: "read_uvarint buf (pos + 1) = Inr (?l, pos + length ?h)"
    using read_uvarint_put [of "take pos buf @ [ucast (mh_index (hash_type m))]" ?l "hash m @ r"] split pos by simp
  have "drop (pos + length ?h) buf = hash m @ r"
    using buf by (metis add.commute append_eq_conv_conj drop_drop)
  moreover from this have "pos + length ?h + length (hash m) \<le> length buf"
    using arg_cong [OF buf, of length] pos by simp
  ultimately show ?thesis
    using assms(1) r1 r2 len by (simp add: multihash_deserialize_def wf_multihash_def multihash_to_bytes_eq add.assoc)
qed

text \<open>
  A well-formed CID: version 1 over a valid multihash, or version 0 over a sha2-256 hash and dag-pb, as \<open>build_v1\<close> and
  \<open>build_v0\<close> of such a hash build it.  \<open>Cid::new\<close> takes any version, and \<open>Cid::cast\<close> also accepts a version 0 that is written out, with
  any codec and hash, although such a CID does not survive being written.
\<close>

definition wf_cid :: "cid \<Rightarrow> bool" where
  "wf_cid c \<longleftrightarrow> wf_multihash (cid_multihash c) \<and>
     (version c = CID_V1 \<or>
      version c = CID_V0 \<and> cid_codec c = DagProtobuf \<and> hash_type (cid_multihash c) = Sha2_256)"

lemma sha256_bytes:
  assumes "wf_multihash m" "hash_type m = Sha2_256"
  shows "length (hash m) = 32" "multihash_to_bytes m = 18 # 32 # hash m"
proof -
  show "length (hash m) = 32" using assms by (auto simp: wf_multihash_def multihash_new_def split: if_splits)
  then show "multihash_to_bytes m = 18 # 32 # hash m" using assms(2) by (simp add: multihash_to_bytes_eq put_uvarint_small)
qed

lemma multihash_decode_sha256:
  "wf_multihash m \<Longrightarrow> hash_type m = Sha2_256 \<Longrightarrow> multihash_decode (18 # 32 # hash m) = Inr m"
  by (simp add: multihash_decode_def mh_lookup_def wf_multihash_def)

lemma to_bytes_v1_eq:
  "version c = CID_V1 \<Longrightarrow> to_bytes_v1 c = 1 # ucast (codec_code (cid_codec c)) # multihash_to_bytes (cid_multihash c)"
  using put_uvarint_append [of "[1]" "codec_code (cid_codec c)"]
  by (simp add: to_bytes_v1_def put_uvarint_small codec_code_small Let_def)

lemma cid_cast_v1:
  assumes "wf_cid c" "version c = CID_V1"
  shows "cid_cast (to_bytes_v1 c) = Inr c"
proof -
  let ?d = "to_bytes_v1 c"
  note eq = to_bytes_v1_eq [OF assms(2)]
  have "read_uvarint ?d 0 = Inr (1, 1)" using read_uvarint_small [of 0 ?d 1] eq by simp
  moreover have "read_uvarint ?d 1 = Inr (codec_code (cid_codec c), 2)"
    using read_uvarint_small [of 1 ?d "codec_code (cid_codec c)"] eq codec_code_small by simp
  moreover have "multihash_deserialize ?d 2 = Inr (cid_multihash c, 2 + length (multihash_to_bytes (cid_multihash c)))"
    using multihash_deserialize_to_bytes [of "cid_multihash c" 2 ?d "[]"] assms(1) eq by (simp add: wf_cid_def)
  ultimately show ?thesis using assms(2) eq by (simp add: cid_cast_def)
qed

lemma cid_cast_v0:
  assumes "wf_cid c" "version c = CID_V0"
  shows "cid_cast (multihash_to_bytes (cid_multihash c)) = Inr c"
  using assms sha256_bytes [of "cid_multihash c"] multihash_decode_sha256 [of "cid_multihash c"]
  by (auto simp: wf_cid_def cid_cast_def build_v0_def cid_build_def)

text \<open>
  Binary round trip of content identifiers: every version 1 CID, whatever its codec and hash,
  and every version 0 CID is recovered by \<open>cast\<close> from its bytes.
\<close>

theorem cid_cast_to_bytes:
  assumes "wf_cid c"
  shows "and_then (cid_to_bytes c) cid_cast = Inr c"
  using assms cid_cast_v0 cid_cast_v1 by (auto simp: cid_to_bytes_def wf_cid_def)

lemma cid_cast_to_bytes_witness:
  "and_then (cid_to_bytes \<lparr>version = 1, cid_codec = DagCbor,
     cid_multihash = \<lparr>hash_type = Sha2_256, hash = replicate 32 7\<rparr>\<rparr>) cid_cast
   = Inr \<lparr>version = 1, cid_codec = DagCbor, cid_multihash = \<lparr>hash_type = Sha2_256, hash = replicate 32 7\<rparr>\<rparr>"
  by (rule cid_cast_to_bytes) (simp add: wf_cid_def wf_multihash_def multihash_new_def)

section \<open>The string form\<close>

text \<open>
  The number written by a sha2-256 multihash lies between \<open>0x1220 * 256^32\<close> and
  \<open>0x1221 * 256^32\<close>, which fixes both the length and the first two characters of its base58 form.
\<close>

lemma b58_leading:
  assumes "digits_below 58 ds" "digits_val 58 ds = digits_val 256 (18 # 32 # h)" "length h = 32" "leading_zeros ds = 0"
  shows "length ds = 46 \<and> ds ! 0 = 23 \<and> ds ! 1 = 44"
proof -
  let ?N = "digits_val 58 ds"
  have h: "digits_val 256 h < 256 ^ 32" using digits_val_bound [of 256 h] assms(3) by simp
  have N: "?N = (18 * 256 + 32) * 256 ^ 32 + digits_val 256 h"
    using assms(2,3) by (simp add: digits_val_Cons)
  have lo: "58 ^ 45 \<le> ?N" and hi: "?N < 58 ^ 46" unfolding N using h by simp_all
  have q: "?N div 58 ^ 44 = 1378"
    by (rule div_nat_eqI) (use h in \<open>simp_all add: N\<close>)
  have "45 < length ds"
  proof (rule ccontr)
    assume "\<not> 45 < length ds"
    then have "(58 :: nat) ^ length ds \<le> 58 ^ 45" by (intro power_increasing) auto
    then show False using digits_val_bound [OF assms(1)] lo by linarith
  qed
  then obtain a b r where ds: "ds = a # b # r" by (cases ds; cases "tl ds") auto
  have "a \<noteq> 0" using assms(4) ds by auto
  then have "1 * 58 ^ length (b # r) \<le> unat a * 58 ^ length (b # r)"
    by (intro mult_right_mono) (simp_all add: unat_gt_0 Suc_le_eq)
  then have "58 ^ (length ds - 1) \<le> ?N" unfolding ds digits_val_Cons [of 58 a]
    by (simp only: list.size diff_Suc_1 mult_1 trans_le_add1 add_Suc_right add_0_right)
  then have "(58 :: nat) ^ (length ds - 1) < 58 ^ 46" using hi by (rule le_less_trans)
  then have "length ds - 1 < 46" by (rule power_less_imp_less_exp [rotated]) simp
  with \<open>45 < length ds\<close> have len: "length ds = 46" by simp
  have r: "length r = 44" "digits_val 58 r < 58 ^ 44" using len ds digits_val_bound [of 58 r] assms(1) by auto
  have "?N = (unat a * 58 + unat b) * 58 ^ 44 + digits_val 58 r"
    using ds r(1) by (simp add: digits_val_Cons)
  then have "?N div 58 ^ 44 = unat a * 58 + unat b" using r(2) by simp
  then have "unat a * 58 + unat b = 1378" using q by simp
  moreover have "unat b < 58" using assms(1) ds by simp
  ultimately have "unat a = 23" "unat b = 44" by presburger+
  then have "a = 23" "b = 44" by (simp_all add: word_unat_eq_iff)
  then show ?thesis using ds len by simp
qed

lemma multihash_base58_sha256:
  assumes "wf_multihash m" "hash_type m = Sha2_256"
  shows "\<exists>s. multihash_to_base58 m = Inr s \<and> length s = 46 \<and> starts_with s ''Qm'' \<and> multihash_from_base58 s = Inr m"
proof -
  obtain s ds where e: "base58_encode (multihash_to_bytes m) = Inr s" "as_bytes s = map b58_char ds"
      "digits_below 58 ds" "same_number 256 58 (multihash_to_bytes m) ds"
    using base58_encode_correct by blast
  then have "length ds = 46 \<and> ds ! 0 = 23 \<and> ds ! 1 = 44"
    using b58_leading [of ds "hash m"] sha256_bytes [OF assms] by (simp add: same_number_def)
  then obtain r where ds: "ds = 23 # 44 # r" "length r = 44"
    by (cases ds; cases "tl ds") (auto simp: nth_Cons')
  have "as_bytes ''Qm'' = map b58_char [23, 44]" by (simp add: B58_ALPHABET_def as_bytes_def)
  then have "as_bytes s = as_bytes ''Qm'' @ map b58_char r" using e(2) ds(1) by simp
  then have "as_bytes (take 2 s) = as_bytes ''Qm''" 
    unfolding as_bytes_def take_map [symmetric] by simp
  then have "starts_with s ''Qm''" unfolding as_bytes_inject by (simp add: starts_with_def numeral_2_eq_2)
  moreover have "length s = 46" using arg_cong [OF e(2), of length] ds by simp
  moreover have "base58_decode s = Inr (multihash_to_bytes m)" using base58_decode_encode e(1) by (metis and_then.simps(2))
  ultimately show ?thesis
    using e(1) sha256_bytes [OF assms] multihash_decode_sha256 [OF assms]
    by (simp add: multihash_to_base58_def multihash_from_base58_def)
qed

lemma cid_string_roundtrip:
  assumes "wf_cid c"
  shows "\<exists>s. cid_to_string c = Inr s \<and> cid_decode s = Inr c \<and> decode_peer_id s = Inr c \<and>
    (version c = 0 \<longrightarrow> length s = 46 \<and> starts_with s ''Qm'')"
proof (cases "version c = CID_V0")
  case True
  then obtain s where "multihash_to_base58 (cid_multihash c) = Inr s" "length s = 46" "starts_with s ''Qm''"
      "multihash_from_base58 s = Inr (cid_multihash c)"
    using assms multihash_base58_sha256 [of "cid_multihash c"] by (auto simp: wf_cid_def)
  then show ?thesis
    using True assms
    by (cases s) (auto simp: cid_to_string_def cid_decode_def decode_peer_id_def build_v0_def cid_build_def wf_cid_def starts_with_def)
next
  case False
  then have v1: "version c = CID_V1" using assms by (simp add: wf_cid_def)
  obtain e where e: "base58_encode (to_bytes_v1 c) = Inr e" "base58_decode e = Inr (to_bytes_v1 c)"
    using base58_decode_encode [of "to_bytes_v1 c"] by (auto simp: and_then_Inr_iff)
  have "e \<noteq> []" using e(2) to_bytes_v1_eq [OF v1] by (auto simp: base58_decode_def)
  then show ?thesis
    using v1 e cid_cast_v1 [OF assms v1]
    by (auto simp: cid_to_string_def multibase_encode_base58btc_def cid_decode_def decode_peer_id_def
        starts_with_def multibase_decode_def Suc_le_eq)
qed

text \<open>
  C38. String round trip of content identifiers that are well-formed, of version 1 or of version 0 with a sha2-256 hash
  and the dag-pb codec: printing never panics, and \<open>Cid::decode\<close> (and \<open>decode_peer_id\<close>) recover the CID.  In particular
  every such version 0 CID prints as 46 characters beginning with \<open>Qm\<close>, the test by which \<open>decode\<close> recognises them, and no
  version 1 string is mistaken for one.
\<close>

theorem cid_decode_to_string:
  assumes "wf_cid c"
  shows "\<exists>s. cid_to_string c = Inr s \<and> cid_decode s = Inr c \<and> decode_peer_id s = Inr c \<and>
    (version c = 0 \<longrightarrow> length s = 46 \<and> starts_with s ''Qm'')"
  by (rule cid_string_roundtrip [OF assms])

lemma cid_decode_to_string_witness:
  "\<exists>s. cid_to_string (build_v0 \<lparr>hash_type = Sha2_256, hash = replicate 32 7\<rparr>) = Inr s \<and>
     cid_decode s = Inr (build_v0 \<lparr>hash_type = Sha2_256, hash = replicate 32 7\<rparr>) \<and> length s = 46"
  using cid_decode_to_string [of "build_v0 \<lparr>hash_type = Sha2_256, hash = replicate 32 7\<rparr>"]
  by (auto simp: wf_cid_def wf_multihash_def multihash_new_def build_v0_def cid_build_def)

section \<open>Multihashes are ordered keys\<close>

lemma cmp_zip_slice: "length as = length bs \<Longrightarrow> cmp_zip c as bs = cmp_slice c as bs"
proof (induction as bs rule: list_induct2)
  case (Cons x xs y ys)
  then show ?case by (cases "c x y") auto
qed simp

interpretation i8_key: ord_key cmp_i8 "\<lambda>_. True"
proof
  fix a b d :: byte
  show "cmp_i8 a b = Equal \<longleftrightarrow> a = b" 
    using signed_word_eqI [of a b] by (auto simp: cmp_i8_def linorder_key.cmp_equal)
  show "cmp_i8 b a = reverse_ord (cmp_i8 a b)" 
    unfolding cmp_i8_def by (rule linorder_key.cmp_swap) simp_all
  show "cmp_i8 a b = Less \<Longrightarrow> cmp_i8 b d = Less \<Longrightarrow> cmp_i8 a d = Less"
    using linorder_key.cmp_trans [of "sint a" "sint b" "sint d"] by (simp add: cmp_i8_def)
qed

lemma mh_index_inject: "mh_index s = mh_index t \<longleftrightarrow> s = t"
  by (metis mh_lookup_index sum.inject(2))

text \<open>A multihash is an ordered key: its order is total and agrees with equality.\<close>

interpretation multihash_key: ord_key cmp_multihash "\<lambda>_. True"
proof
  fix a b d :: multihash
  let ?s = "cmp_slice cmp_i8"
  have eq: "cmp_multihash a b = then_with (then_with (cmp (length (hash a)) (length (hash b))) (?s (hash a) (hash b)))
      (cmp (mh_index (hash_type a)) (mh_index (hash_type b)))" for a b
    by (cases "length (hash a) = length (hash b)") (auto simp: cmp_multihash_def cmp_zip_slice cmp_def)
  show "cmp_multihash a b = Equal \<longleftrightarrow> a = b"
    using i8_key.slice_equal [of "hash a" "hash b"]
    by (auto simp: eq then_with_Equal_iff linorder_key.cmp_equal mh_index_inject list_all_iff intro: multihash.equality)
  show "cmp_multihash b a = reverse_ord (cmp_multihash a b)"
    using i8_key.slice_swap [of "hash a" "hash b"]
      linorder_key.cmp_swap [of "length (hash a)" "length (hash b)"]
      linorder_key.cmp_swap [of "mh_index (hash_type a)" "mh_index (hash_type b)"]
    by (simp add: eq reverse_ord_then_with list_all_iff)
  show "cmp_multihash a b = Less \<Longrightarrow> cmp_multihash b d = Less \<Longrightarrow> cmp_multihash a d = Less"
    using i8_key.slice_trans [of "hash a" "hash b" "hash d"] i8_key.slice_equal [of "hash a" "hash b"]
      i8_key.slice_equal [of "hash b" "hash d"]
    by (auto simp: eq then_with_Less_iff then_with_Equal_iff cmp_def list_all_iff split: if_splits)
qed

section \<open>The one-byte length prefix\<close>

text \<open>
  \<open>Multihash::decode\<close> skips two bytes whatever they hold.  That inverts \<open>to_bytes\<close> while the
  length fits one varint byte; an identity hash of 128 to 4112 bytes, which \<open>Multihash::new\<close>
  accepts, comes back with the second length byte prepended, so it does not round trip.
\<close>

lemma multihash_decode_to_bytes:
  "wf_multihash m \<Longrightarrow> length (hash m) < 128 \<Longrightarrow> multihash_decode (multihash_to_bytes m) = Inr m"
proof -
  assume m: "wf_multihash m" "length (hash m) < 128"
  then have "(of_nat (length (hash m)) :: u64) < 0x80"
    by (simp add: word_less_nat_alt unat_of_nat take_bit_eq_mod)
  then have "multihash_to_bytes m = ucast (mh_index (hash_type m)) # ucast (of_nat (length (hash m)) :: u64) # hash m"
    by (simp add: multihash_to_bytes_eq put_uvarint_small)
  moreover have "ucast (ucast (mh_index t) AND 0xff :: byte) = mh_index t" for t by (cases t) simp_all
  ultimately show ?thesis using m(1) by (simp add: multihash_decode_def wf_multihash_def)
qed

lemma multihash_decode_long_identity:
  "let m = \<lparr>hash_type = Id_hash, hash = replicate 128 7\<rparr>
   in wf_multihash m \<and>
      multihash_decode (multihash_to_bytes m) = Inr \<lparr>hash_type = Id_hash, hash = 1 # replicate 128 7\<rparr>"
proof -
  have "put_uvarint [] 128 = [0x80, 1]" by code_simp
  then show ?thesis
    by (simp add: wf_multihash_def multihash_new_def multihash_to_bytes_eq multihash_decode_def mh_lookup_def Let_def)
qed

end
