(* ===== verification/Storage.thy ===== *)
theory Storage
  imports Cbor_Codec Multiformats
begin

text \<open>
  The block-store layer of \<open>peergos-core\<close>: the error type of \<open>error.rs\<close>, building of block CIDs and
  \<open>put_block_signed\<close> of \<open>storage.rs\<close>, the in-memory store \<open>RamStorage\<close> of \<open>ram.rs\<close>, and the BAT ids
  of \<open>auth.rs\<close>.  Code that works on a store runs in \<open>'s \<Rightarrow> ('e + 'a) \<times> 's\<close>: what was written before an
  error stays written.  SHA-256 and the signature of a block are parameters.

  The locale \<open>block_store\<close> states what the code above relies on; \<open>RamStorage\<close> with a log of what was
  put into it interprets it, the log being there to say that no two of the blocks collided.
\<close>

section \<open>Computations over a store\<close>

type_synonym ('s, 'e, 'a) io = "'s \<Rightarrow> ('e + 'a) \<times> 's"

definition io_ret :: "'a \<Rightarrow> ('s, 'e, 'a) io" where
  "io_ret x = (\<lambda>st. (Inr x, st))"

definition io_lift :: "'e + 'a \<Rightarrow> ('s, 'e, 'a) io" where
  "io_lift r = (\<lambda>st. (r, st))"

definition io_bind :: "('s, 'e, 'a) io \<Rightarrow> ('a \<Rightarrow> ('s, 'e, 'b) io) \<Rightarrow> ('s, 'e, 'b) io" where
  "io_bind f g = (\<lambda>st. case f st of (Inl e, st') \<Rightarrow> (Inl e, st') | (Inr x, st') \<Rightarrow> g x st')"

fun io_fold :: "('b \<Rightarrow> 'a \<Rightarrow> ('s, 'e, 'b) io) \<Rightarrow> 'b \<Rightarrow> 'a list \<Rightarrow> ('s, 'e, 'b) io" where
  "io_fold f b [] = io_ret b"
| "io_fold f b (x # xs) = io_bind (f b x) (\<lambda>b. io_fold f b xs)"

lemma io_ret_apply [simp]: "io_ret x st = (Inr x, st)"
  by (simp add: io_ret_def)

lemma io_lift_apply [simp]: "io_lift r st = (r, st)"
  by (simp add: io_lift_def)

lemma io_bind_Inr: "f st = (Inr x, st') \<Longrightarrow> io_bind f g st = g x st'"
  by (simp add: io_bind_def)

lemma io_bind_Inl: "f st = (Inl e, st') \<Longrightarrow> io_bind f g st = (Inl e, st')"
  by (simp add: io_bind_def)

lemma io_bind_cases:
  assumes "io_bind f g st = (r, st'')"
  obtains (err) e where "f st = (Inl e, st'')" "r = Inl e"
  | (val) x st' where "f st = (Inr x, st')" "g x st' = (r, st'')"
  using assms by (cases "f st"; cases "fst (f st)") (auto simp: io_bind_def)

section \<open>Errors\<close>

datatype error =
    Http string
  | RateLimited
  | QuotaExceeded string
  | Protocol string
  | CborMsg string
  | CborErr cbor_error
  | Multiformat mf_error
  | Crypto string
  | Panicked
  | FuelExhausted

section \<open>Block CIDs\<close>

definition build_cid :: "bytes \<Rightarrow> bool \<Rightarrow> error + cid" where
  "build_cid sha256_hash raw =
     map_err Multiformat (cid_new CID_V1 (if raw then Raw else DagCbor) Sha2_256 sha256_hash)"

definition hash_to_cid :: "(bytes \<Rightarrow> bytes) \<Rightarrow> bytes \<Rightarrow> bool \<Rightarrow> error + cid" where
  "hash_to_cid sha256 input raw = build_cid (sha256 input) raw"

definition sign_block :: "(bytes \<Rightarrow> bytes) \<Rightarrow> (bytes \<Rightarrow> error + bytes) \<Rightarrow> bytes \<Rightarrow> error + bytes" where
  "sign_block sha256 sign_message block = sign_message (sha256 block)"

text \<open>The default \<open>put_batch\<close>: sign every block, then \<open>put\<close>.\<close>

definition put_batch ::
  "(bytes \<Rightarrow> bytes) \<Rightarrow> (bytes \<Rightarrow> error + bytes) \<Rightarrow> (bytes list \<Rightarrow> bytes list \<Rightarrow> ('s, error, cid list) io) \<Rightarrow>
   bytes list \<Rightarrow> ('s, error, cid list) io" where
  "put_batch sha256 sign_message store_put bs =
     io_bind (io_lift (collect_results (sign_block sha256 sign_message) bs)) (\<lambda>sigs. store_put sigs bs)"

definition put_block_signed :: "(bytes list \<Rightarrow> ('s, error, cid list) io) \<Rightarrow> bytes \<Rightarrow> ('s, error, cid) io" where
  "put_block_signed batch block =
     io_bind (batch [block]) (\<lambda>cids.
       case cids of cid # _ \<Rightarrow> io_ret cid | [] \<Rightarrow> io_lift (Inl (Protocol ''put returned no cid'')))"

section \<open>RamStorage\<close>

record ram_storage =
  blocks :: "bytes \<rightharpoonup> bytes"

definition ram_new :: ram_storage where
  "ram_new = \<lparr>blocks = Map.empty\<rparr>"

fun ram_store_loop :: "(bytes \<Rightarrow> bytes) \<Rightarrow> bool \<Rightarrow> cid list \<Rightarrow> bytes list \<Rightarrow> (ram_storage, error, cid list) io" where
  "ram_store_loop sha256 raw out [] r = (Inr out, r)"
| "ram_store_loop sha256 raw out (block # bs) r =
     (case build_cid (sha256 block) raw of
        Inl e \<Rightarrow> (Inl e, r)
      | Inr c \<Rightarrow>
          (case cid_to_bytes c of
             Inl e \<Rightarrow> (Inl (Multiformat e), r)
           | Inr k \<Rightarrow> ram_store_loop sha256 raw (out @ [c]) bs (r\<lparr>blocks := (blocks r)(k \<mapsto> block)\<rparr>)))"

definition ram_store :: "(bytes \<Rightarrow> bytes) \<Rightarrow> bytes list \<Rightarrow> bool \<Rightarrow> (ram_storage, error, cid list) io" where
  "ram_store sha256 bs raw = ram_store_loop sha256 raw [] bs"

definition load_verified :: "(bytes \<Rightarrow> bytes) \<Rightarrow> bytes list \<Rightarrow> (ram_storage, error, unit) io" where
  "load_verified sha256 bs =
     io_fold (\<lambda>_ block. io_bind (ram_store sha256 [block] False) (\<lambda>_.
       io_bind (ram_store sha256 [block] True) (\<lambda>_. io_ret ()))) () bs"

definition ram_fetch :: "ram_storage \<Rightarrow> cid \<Rightarrow> error + bytes option" where
  "ram_fetch r h =
     (if is_identity (cid_multihash h) then Inr (Some (hash (cid_multihash h)))
      else and_then (map_err Multiformat (cid_to_bytes h)) (\<lambda>k. Inr (blocks r k)))"

definition ram_get :: "ram_storage \<Rightarrow> cid \<Rightarrow> error + cbor option" where
  "ram_get r h =
     and_then (ram_fetch r h) (\<lambda>found.
       case found of Some raw \<Rightarrow> and_then (map_err CborErr (from_bytes raw)) (\<lambda>c. Inr (Some c)) | None \<Rightarrow> Inr None)"

definition ram_get_raw :: "ram_storage \<Rightarrow> cid \<Rightarrow> error + bytes option" where
  "ram_get_raw r h = ram_fetch r h"

definition ram_put :: "(bytes \<Rightarrow> bytes) \<Rightarrow> bytes list \<Rightarrow> bytes list \<Rightarrow> (ram_storage, error, cid list) io" where
  "ram_put sha256 signed_hashes bs = ram_store sha256 bs False"

definition ram_put_raw :: "(bytes \<Rightarrow> bytes) \<Rightarrow> bytes list \<Rightarrow> bytes list \<Rightarrow> (ram_storage, error, cid list) io" where
  "ram_put_raw sha256 signed_hashes bs = ram_store sha256 bs True"

definition ram_get_size :: "ram_storage \<Rightarrow> multihash \<Rightarrow> error + u64 option" where
  "ram_get_size r m =
     and_then (map_err Multiformat (build_v1 DagCbor (hash_type m) (hash m))) (\<lambda>c.
     and_then (map_err Multiformat (cid_to_bytes c)) (\<lambda>k.
       Inr (map_option (\<lambda>b. of_nat (length b)) (blocks r k))))"

section \<open>BAT ids\<close>

record bat_id =
  bat_cid :: cid

definition bat_is_inline :: "bat_id \<Rightarrow> bool" where
  "bat_is_inline b = is_identity (cid_multihash (bat_cid b))"

definition bat_inline :: "bytes \<Rightarrow> error + bat_id" where
  "bat_inline secret = and_then (map_err Multiformat (cid_new CID_V1 Raw Id_hash secret)) (\<lambda>c. Inr \<lparr>bat_cid = c\<rparr>)"

definition bat_sha256 :: "(bytes \<Rightarrow> bytes) \<Rightarrow> bytes \<Rightarrow> error + bat_id" where
  "bat_sha256 sha256 secret =
     and_then (map_err Multiformat (cid_new CID_V1 Raw Sha2_256 (sha256 secret))) (\<lambda>c. Inr \<lparr>bat_cid = c\<rparr>)"

definition bat_from_cbor :: "cbor \<Rightarrow> error + bat_id" where
  "bat_from_cbor c =
     and_then (ok_or (CborMsg ''Incorrect cbor for BatId'') (as_byte_string c)) (\<lambda>bs.
     and_then (map_err Multiformat (cid_cast bs)) (\<lambda>i. Inr \<lparr>bat_cid = i\<rparr>))"

definition bat_to_cbor :: "bat_id \<Rightarrow> error + cbor" where
  "bat_to_cbor b = and_then (map_err Multiformat (cid_to_bytes (bat_cid b))) (\<lambda>bs. Inr (CByteString bs))"

lemma cid_bytes_roundtrip: "wf_cid l \<Longrightarrow> \<exists>bs. cid_to_bytes l = Inr bs \<and> cid_cast bs = Inr l"
proof -
  assume wf: "wf_cid l"
  then consider "version l = 0" | "version l = 1" by (auto simp: wf_cid_def)
  then show ?thesis using wf cid_cast_v0 cid_cast_v1 by cases (simp_all add: cid_to_bytes_def)
qed

section \<open>What a block store promises\<close>

text \<open>
  \<open>inv\<close> is the store's own invariant; \<open>ok\<close> says that nothing went wrong so far that content
  addressing excludes.  While the store is \<open>ok\<close> after a \<open>put\<close>, it was before, the block is found
  under the returned CID, and every block found before is found still.
\<close>

locale block_store =
  fixes sget :: "'s \<Rightarrow> cid \<Rightarrow> error + cbor option"
    and sput :: "bytes \<Rightarrow> ('s, error, cid) io"
    and inv :: "'s \<Rightarrow> bool"
    and ok :: "'s \<Rightarrow> bool"
  assumes put_inv: "sput b st = (r, st') \<Longrightarrow> inv st \<Longrightarrow> inv st'"
    and put_mono: "sput b st = (r, st') \<Longrightarrow> inv st \<Longrightarrow> ok st' \<Longrightarrow> ok st"
    and put_keeps: "sput b st = (r, st') \<Longrightarrow> inv st \<Longrightarrow> ok st' \<Longrightarrow> sget st g = Inr (Some c) \<Longrightarrow>
      sget st' g = Inr (Some c)"
    and put_get: "sput b st = (Inr h, st') \<Longrightarrow> inv st \<Longrightarrow> ok st' \<Longrightarrow> from_bytes b = Inr c \<Longrightarrow>
      sget st' h = Inr (Some c)"
    and put_size: "sput b st = (Inr h, st') \<Longrightarrow> ok st' \<Longrightarrow> length b < 2 ^ 64"
    and put_cid: "sput b st = (Inr h, st') \<Longrightarrow> wf_cid h"
begin

text \<open>\<open>later st st'\<close>: what a computation that only puts blocks guarantees.\<close>

definition later :: "'s \<Rightarrow> 's \<Rightarrow> bool" where
  "later st st' \<longleftrightarrow> (inv st \<longrightarrow> inv st' \<and>
     (ok st' \<longrightarrow> ok st \<and> (\<forall>g c. sget st g = Inr (Some c) \<longrightarrow> sget st' g = Inr (Some c))))"

lemma later_refl [simp, intro]: "later st st"
  by (simp add: later_def)

lemma later_trans: "later st st' \<Longrightarrow> later st' st'' \<Longrightarrow> later st st''"
  by (auto simp: later_def)

lemma put_later: "sput b st = (r, st') \<Longrightarrow> later st st'"
  using put_inv put_mono put_keeps by (auto simp: later_def)

lemma later_inv: "later st st' \<Longrightarrow> inv st \<Longrightarrow> inv st'"
  by (simp add: later_def)

lemma later_ok: "later st st' \<Longrightarrow> inv st \<Longrightarrow> ok st' \<Longrightarrow> ok st"
  by (simp add: later_def)

lemma later_get:
  "later st st' \<Longrightarrow> inv st \<Longrightarrow> ok st' \<Longrightarrow> sget st g = Inr (Some c) \<Longrightarrow> sget st' g = Inr (Some c)"
  by (simp add: later_def)

end

section \<open>RamStorage with a log of its puts\<close>

type_synonym logged = "ram_storage \<times> bytes list"

definition logged_get :: "logged \<Rightarrow> cid \<Rightarrow> error + cbor option" where
  "logged_get st h = ram_get (fst st) h"

definition logged_put_batch ::
  "(bytes \<Rightarrow> bytes) \<Rightarrow> (bytes \<Rightarrow> error + bytes) \<Rightarrow> bytes list \<Rightarrow> (logged, error, cid list) io" where
  "logged_put_batch sha256 sign bs st =
     (case put_batch sha256 sign (ram_put sha256) bs (fst st) of (r, ram) \<Rightarrow> (r, (ram, bs @ snd st)))"

definition logged_put :: "(bytes \<Rightarrow> bytes) \<Rightarrow> (bytes \<Rightarrow> error + bytes) \<Rightarrow> bytes \<Rightarrow> (logged, error, cid) io" where
  "logged_put sha256 sign = put_block_signed (logged_put_batch sha256 sign)"

text \<open>
  No two different blocks of the log have the same hash, every block fits in memory, and the map
  holds blocks of the log under their own CID.
\<close>

definition block_key :: "(bytes \<Rightarrow> bytes) \<Rightarrow> bool \<Rightarrow> bytes \<Rightarrow> bytes" where
  "block_key sha256 raw b = [1, if raw then 0x55 else 0x71, 18, 32] @ sha256 b"

definition no_collision :: "(bytes \<Rightarrow> bytes) \<Rightarrow> bytes list \<Rightarrow> bool" where
  "no_collision sha256 log \<longleftrightarrow>
     (\<forall>b \<in> set log. length b < 2 ^ 64 \<and> (\<forall>b' \<in> set log. sha256 b = sha256 b' \<longrightarrow> b = b'))"

definition addressed :: "(bytes \<Rightarrow> bytes) \<Rightarrow> logged \<Rightarrow> bool" where
  "addressed sha256 st \<longleftrightarrow>
     (\<forall>k b. blocks (fst st) k = Some b \<longrightarrow> b \<in> set (snd st) \<and> (\<exists>raw. k = block_key sha256 raw b))"

text \<open>What the code relies on of SHA-256 and of signing: digests are 32 bytes, signing succeeds.\<close>

definition hash_params :: "(bytes \<Rightarrow> bytes) \<Rightarrow> (bytes \<Rightarrow> error + bytes) \<Rightarrow> bool" where
  "hash_params sha256 sign \<longleftrightarrow> (\<forall>b. length (sha256 b) = 32) \<and> (\<forall>b. \<exists>s. sign b = Inr s)"

definition block_cid :: "(bytes \<Rightarrow> bytes) \<Rightarrow> bool \<Rightarrow> bytes \<Rightarrow> cid" where
  "block_cid sha256 raw b = \<lparr>version = 1, cid_codec = (if raw then Raw else DagCbor),
     cid_multihash = \<lparr>hash_type = Sha2_256, hash = sha256 b\<rparr>\<rparr>"

lemma build_cid_32: "length (sha256 b) = 32 \<Longrightarrow> build_cid (sha256 b) raw = Inr (block_cid sha256 raw b)"
  by (simp add: build_cid_def cid_new_def multihash_new_def block_cid_def)

lemma block_cid_bytes:
  assumes "length (sha256 b) = 32"
  shows "cid_to_bytes (block_cid sha256 raw b) = Inr (block_key sha256 raw b)" "wf_cid (block_cid sha256 raw b)"
  using assms
  by (simp_all add: cid_to_bytes_def to_bytes_v1_eq block_cid_def multihash_to_bytes_eq put_uvarint_small
      block_key_def wf_cid_def wf_multihash_def multihash_new_def)

abbreviation stored :: "(bytes \<Rightarrow> bytes) \<Rightarrow> bytes \<Rightarrow> logged \<Rightarrow> logged" where
  "stored sha256 b st \<equiv>
     ((fst st)\<lparr>blocks := (blocks (fst st))(block_key sha256 False b \<mapsto> b)\<rparr>, b # snd st)"

lemma logged_put_cases:
  assumes "logged_put sha256 sign b st = (r, st')"
  shows "(\<exists>e. r = Inl e) \<and> st' = (fst st, b # snd st) \<or>
    length (sha256 b) = 32 \<and> r = Inr (block_cid sha256 False b) \<and> st' = stored sha256 b st"
proof (cases "sign (sha256 b)")
  case (Inr s)
  show ?thesis
  proof (cases "length (sha256 b) = 32")
    case True
    then show ?thesis using assms Inr
      by (simp add: logged_put_def put_block_signed_def logged_put_batch_def put_batch_def sign_block_def io_bind_def
          ram_put_def ram_store_def build_cid_32 block_cid_bytes)
  next
    case False
    then obtain e where "build_cid (sha256 b) False = Inl e"
      by (cases "build_cid (sha256 b) False")
        (auto simp: build_cid_def cid_new_def multihash_new_def map_err_Inr_iff and_then_Inr_iff split: if_splits)
    then have "(r, st') = (Inl e, (fst st, b # snd st))" using assms Inr
      by (simp add: logged_put_def put_block_signed_def logged_put_batch_def put_batch_def sign_block_def io_bind_def
          ram_put_def ram_store_def)
    then show ?thesis by simp
  qed
qed (use assms in \<open>auto simp: logged_put_def put_block_signed_def logged_put_batch_def put_batch_def
    sign_block_def io_bind_def\<close>)

lemma logged_put_eq:
  assumes "hash_params sha256 sign"
  shows "logged_put sha256 sign b st = (Inr (block_cid sha256 False b), stored sha256 b st)"
proof -
  obtain s where "sign (sha256 b) = Inr s" and len: "length (sha256 b) = 32"
    using assms by (auto simp: hash_params_def)
  then show ?thesis
    by (simp add: logged_put_def put_block_signed_def logged_put_batch_def put_batch_def sign_block_def io_bind_def
        ram_put_def ram_store_def build_cid_32 block_cid_bytes)
qed

lemma addressed_put: "addressed sha256 st \<Longrightarrow> addressed sha256 (stored sha256 b st)"
  by (auto simp: addressed_def)

lemma block_key_inject: "block_key sha256 raw b = block_key sha256 raw' b' \<Longrightarrow> sha256 b = sha256 b'"
  by (simp add: block_key_def)

lemma fetch_after_put:
  assumes "addressed sha256 (r, log)" "no_collision sha256 (b # log)" "ram_fetch r g = Inr (Some x)"
  shows "ram_fetch (r\<lparr>blocks := (blocks r)(block_key sha256 raw b \<mapsto> b)\<rparr>) g = Inr (Some x)"
proof (cases "is_identity (cid_multihash g)")
  case False
  then obtain k where k: "cid_to_bytes g = Inr k" "blocks r k = Some x"
    using assms(3) by (auto simp: ram_fetch_def and_then_Inr_iff map_err_Inr_iff)
  then have "x \<in> set log" "\<exists>raw'. k = block_key sha256 raw' x" using assms(1) by (auto simp: addressed_def)
  then have "k = block_key sha256 raw b \<Longrightarrow> x = b"
    using assms(2) block_key_inject by (fastforce simp: no_collision_def)
  then show ?thesis using False k by (auto simp: ram_fetch_def)
qed (use assms(3) in \<open>simp add: ram_fetch_def\<close>)

lemma logged_get_some:
  "logged_get st g = Inr (Some c) \<longleftrightarrow> (\<exists>x. ram_fetch (fst st) g = Inr (Some x) \<and> from_bytes x = Inr c)"
proof (cases "ram_fetch (fst st) g")
  case (Inr x)
  then show ?thesis
    by (cases x) (auto simp: logged_get_def ram_get_def and_then_Inr_iff map_err_Inr_iff)
qed (simp add: logged_get_def ram_get_def)

text \<open>
  \<open>RamStorage\<close> keeps the promises of a block store whatever the hash and signature functions are,
  as long as no two logged blocks collide.
\<close>

interpretation ram: block_store logged_get "logged_put sha256 sign" "addressed sha256"
    "\<lambda>st. no_collision sha256 (snd st)" for sha256 sign
proof
  fix b st r st' g c
  assume p: "logged_put sha256 sign b st = (r, st')" and a: "addressed sha256 st"
  note cases = logged_put_cases [OF p]
  show "addressed sha256 st'" using cases addressed_put [OF a, of b] a by (auto simp: addressed_def)
  assume n: "no_collision sha256 (snd st')"
  then show "no_collision sha256 (snd st)" using cases by (auto simp: no_collision_def)
  assume "logged_get st g = Inr (Some c)"
  then show "logged_get st' g = Inr (Some c)"
    using cases fetch_after_put [of sha256 "fst st" "snd st" b g] a n by (auto simp: logged_get_some)
next
  fix b st st' h c
  assume "logged_put sha256 sign b st = (Inr h, st')"
  from logged_put_cases [OF this] have len: "length (sha256 b) = 32"
      and p: "h = block_cid sha256 False b" "st' = stored sha256 b st" by auto
  show "wf_cid h" using p len by (simp add: block_cid_bytes)
  assume "no_collision sha256 (snd st')"
  then show "length b < 2 ^ 64" using p by (simp add: no_collision_def)
  assume "from_bytes b = Inr c"
  then show "logged_get st' h = Inr (Some c)"
    using p len block_cid_bytes(1) [of sha256 b False]
    by (auto simp: logged_get_some ram_fetch_def is_identity_def block_cid_def)
qed

end
