(* ===== verification/Champ.thy ===== *)
theory Champ
  imports Storage
begin

text \<open>
  \<open>peergos-core/src/champ.rs\<close>: the compressed hash-array mapped prefix tree, a persistent map from
  keys to values whose nodes are blocks of a store.  The store is a parameter: \<open>sget\<close> reads a block as
  CBOR and \<open>sput\<close> is \<open>put_block_signed\<close> for the owner, writer and transaction of the call, which the
  code only passes on.  Indexing a vector out of its bounds, and a subtraction below zero, is the
  error \<open>Panicked\<close>.  The recursion into child nodes is bounded by fuel; \<open>FuelExhausted\<close> marks its end.
\<close>

section \<open>Vectors\<close>

definition vec_at :: "'a list \<Rightarrow> nat \<Rightarrow> error + 'a" where
  "vec_at xs i = (if i < length xs then Inr (xs ! i) else Inl Panicked)"

definition vec_remove :: "'a list \<Rightarrow> nat \<Rightarrow> error + 'a list" where
  "vec_remove xs i = (if i < length xs then Inr (take i xs @ drop (Suc i) xs) else Inl Panicked)"

definition vec_insert :: "'a list \<Rightarrow> nat \<Rightarrow> 'a \<Rightarrow> error + 'a list" where
  "vec_insert xs i x = (if i \<le> length xs then Inr (take i xs @ x # drop i xs) else Inl Panicked)"

definition vec_set :: "'a list \<Rightarrow> nat \<Rightarrow> 'a \<Rightarrow> error + 'a list" where
  "vec_set xs i x = (if i < length xs then Inr (xs[i := x]) else Inl Panicked)"

definition sub_usize :: "nat \<Rightarrow> nat \<Rightarrow> error + nat" where
  "sub_usize a b = (if b \<le> a then Inr (a - b) else Inl Panicked)"

text \<open>\<open>slice::sort_by\<close>, which is stable.\<close>

fun insert_by :: "('a \<Rightarrow> 'a \<Rightarrow> ordering) \<Rightarrow> 'a \<Rightarrow> 'a list \<Rightarrow> 'a list" where
  "insert_by c x [] = [x]"
| "insert_by c x (y # ys) = (if c x y = Greater then y # insert_by c x ys else x # y # ys)"

definition sort_by :: "('a \<Rightarrow> 'a \<Rightarrow> ordering) \<Rightarrow> 'a list \<Rightarrow> 'a list" where
  "sort_by c xs = foldr (insert_by c) xs []"

section \<open>Nodes\<close>

abbreviation (input) BIT_WIDTH :: nat where "BIT_WIDTH \<equiv> 3"
abbreviation (input) MAX_HASH_COLLISIONS_PER_LEVEL :: nat where "MAX_HASH_COLLISIONS_PER_LEVEL \<equiv> 4"
abbreviation (input) HASH_CODE_LENGTH :: nat where "HASH_CODE_LENGTH \<equiv> 32"

record key_element =
  ke_key :: bytes
  ke_value :: "cbor option"

datatype payload = Mappings "key_element list" | Link cid

fun is_shard :: "payload \<Rightarrow> bool" where
  "is_shard (Link _) = True"
| "is_shard (Mappings _) = False"

fun as_mappings :: "payload \<Rightarrow> key_element list option" where
  "as_mappings (Mappings ms) = Some ms"
| "as_mappings (Link _) = None"

definition byte_array_compare :: "bytes \<Rightarrow> bytes \<Rightarrow> ordering" where
  "byte_array_compare a b = then_with (cmp (length a) (length b)) (cmp_slice cmp a b)"

definition bit_set :: "bytes \<Rightarrow> nat \<Rightarrow> bytes" where
  "bit_set bitmap bitp =
     (let byte = bitp div 8;
          bitmap = (if byte \<ge> length bitmap then bitmap @ replicate (byte + 1 - length bitmap) 0 else bitmap)
      in bitmap[byte := bitmap ! byte OR push_bit (bitp mod 8) 1])"

definition bit_clear :: "bytes \<Rightarrow> nat \<Rightarrow> bytes" where
  "bit_clear bitmap bitp =
     (let byte = bitp div 8;
          bitmap = (if byte < length bitmap
                    then bitmap[byte := bitmap ! byte AND NOT (push_bit (bitp mod 8) 1)] else bitmap)
      in rev (dropWhile (\<lambda>b. b = 0) (rev bitmap)))"

record champ =
  data_map :: bytes
  node_map :: bytes
  contents :: "payload list"
  mirror_bat :: "bat_id option"

definition champ_empty :: champ where
  "champ_empty = \<lparr>data_map = [], node_map = [], contents = [], mirror_bat = None\<rparr>"

definition champ_mask :: "bytes \<Rightarrow> nat \<Rightarrow> nat \<Rightarrow> nat" where
  "champ_mask h depth nbits =
     (let index = depth * nbits div 8;
          shift = depth * nbits mod 8;
          low_bits = min nbits (8 - shift);
          hi_bits = nbits - low_bits;
          val1 = (if index < length h then scast (h ! index) else 0 :: i32);
          val2 = (if index + 1 < length h then scast (h ! (index + 1)) else 0 :: i32)
      in unat (scast ((signed_drop_bit shift val1 AND (push_bit low_bits 1 - 1))
           OR push_bit low_bits (val2 AND (push_bit hi_bits 1 - 1))) :: u64))"

definition bit_get :: "bytes \<Rightarrow> nat \<Rightarrow> bool" where
  "bit_get bitmap bitp \<longleftrightarrow>
     (let byte = bitp div 8 in byte < length bitmap \<and> drop_bit (bitp mod 8) (bitmap ! byte) AND 1 = 1)"

definition get_index :: "bytes \<Rightarrow> nat \<Rightarrow> nat" where
  "get_index bitmap bitpos = length (filter (bit_get bitmap) [0..<bitpos])"

section \<open>Serialisation\<close>

fun mappings_from_cbor :: "cbor list \<Rightarrow> error + key_element list" where
  "mappings_from_cbor (k # v # kvs) =
     and_then (ok_or (CborMsg ''champ key must be bytes'') (as_byte_string k)) (\<lambda>key.
     and_then (mappings_from_cbor kvs) (\<lambda>ms.
       Inr (\<lparr>ke_key = key, ke_value = (case v of CNull \<Rightarrow> None | v \<Rightarrow> Some v)\<rparr> # ms)))"
| "mappings_from_cbor _ = Inr []"

fun payload_from_cbor :: "cbor \<Rightarrow> error + payload" where
  "payload_from_cbor (CList ms) =
     (if length ms mod 2 \<noteq> 0 then Inl (CborMsg ''Invalid cbor for CHAMP mappings: odd number of elements'')
      else and_then (mappings_from_cbor ms) (\<lambda>ms. Inr (Mappings ms)))"
| "payload_from_cbor (CMerkleLink bs) = and_then (map_err Multiformat (cid_cast bs)) (\<lambda>c. Inr (Link c))"
| "payload_from_cbor _ = Inl (CborMsg ''Invalid champ content element'')"

definition from_cbor_list :: "cbor \<Rightarrow> error + champ" where
  "from_cbor_list c =
     and_then (ok_or (CborMsg ''Invalid cbor for CHAMP!'') (as_list c)) (\<lambda>l.
       if length l < 3 then Inl (CborMsg ''champ list needs 3 elements'')
       else
         and_then (ok_or (CborMsg ''Invalid cbor for a champ, is this a btree?'') (as_byte_string (l ! 0))) (\<lambda>data.
         and_then (ok_or (CborMsg ''champ nodeMap must be bytes'') (as_byte_string (l ! 1))) (\<lambda>node.
         and_then (ok_or (CborMsg ''champ contents must be a list'') (as_list (l ! 2))) (\<lambda>elements.
         and_then (collect_results payload_from_cbor elements) (\<lambda>cs.
           Inr \<lparr>data_map = data, node_map = node, contents = cs, mirror_bat = None\<rparr>)))))"

definition champ_from_cbor :: "cbor \<Rightarrow> error + champ" where
  "champ_from_cbor c =
     (case c of
        CMap _ \<Rightarrow>
          and_then
            (case Option.bind (cbor_get c ''bats'') as_list of
               Some (b # _) \<Rightarrow> and_then (bat_from_cbor b) (\<lambda>b. Inr (Some b))
             | _ \<Rightarrow> Inr None) (\<lambda>bat.
          and_then (ok_or (CborMsg ''champ map missing d'') (cbor_get c ''d'')) (\<lambda>d.
          and_then (from_cbor_list d) (\<lambda>champ. Inr (champ\<lparr>mirror_bat := bat\<rparr>))))
      | _ \<Rightarrow> from_cbor_list c)"

definition mapping_to_cbor :: "key_element \<Rightarrow> cbor list" where
  "mapping_to_cbor m = [CByteString (ke_key m), case ke_value m of Some v \<Rightarrow> v | None \<Rightarrow> CNull]"

fun payload_to_cbor :: "payload \<Rightarrow> error + cbor" where
  "payload_to_cbor (Link c) = and_then (map_err Multiformat (cid_to_bytes c)) (\<lambda>bs. Inr (CMerkleLink bs))"
| "payload_to_cbor (Mappings ms) = Inr (CList (concat (map mapping_to_cbor ms)))"

definition to_cbor_list :: "champ \<Rightarrow> error + cbor" where
  "to_cbor_list c =
     and_then (collect_results payload_to_cbor (contents c)) (\<lambda>cs.
       Inr (CList [CByteString (data_map c), CByteString (node_map c), CList cs]))"

definition champ_to_cbor :: "champ \<Rightarrow> error + cbor" where
  "champ_to_cbor c =
     (case mirror_bat c of
        Some bat \<Rightarrow>
          and_then (to_cbor_list c) (\<lambda>l.
          and_then (bat_to_cbor bat) (\<lambda>b.
            Inr (build (put ''bats'' (CList [b]) (put ''d'' l map_builder)))))
      | None \<Rightarrow> to_cbor_list c)"

definition champ_serialize :: "champ \<Rightarrow> error + bytes" where
  "champ_serialize c = and_then (champ_to_cbor c) (\<lambda>x. Inr (to_bytes x))"

section \<open>Editing a node\<close>

definition with_bat :: "champ \<Rightarrow> bat_id option \<Rightarrow> champ" where
  "with_bat c bat = c\<lparr>mirror_bat := bat\<rparr>"

definition with_contents :: "champ \<Rightarrow> bytes \<Rightarrow> bytes \<Rightarrow> payload list \<Rightarrow> champ" where
  "with_contents c d n cs = \<lparr>data_map = d, node_map = n, contents = cs, mirror_bat = mirror_bat c\<rparr>"

text \<open>\<open>self.contents.len() - 1 - get_index(&self.node_map, bitpos)\<close>\<close>

definition link_index :: "champ \<Rightarrow> nat \<Rightarrow> error + nat" where
  "link_index c bitpos =
     and_then (sub_usize (length (contents c)) 1) (\<lambda>n. sub_usize n (get_index (node_map c) bitpos))"

definition key_count :: "champ \<Rightarrow> nat" where
  "key_count c = sum_list (map length (List.map_filter as_mappings (contents c)))"

definition node_count :: "champ \<Rightarrow> nat" where
  "node_count c = length (filter is_shard (contents c))"

definition copy_and_set_value :: "champ \<Rightarrow> nat \<Rightarrow> nat \<Rightarrow> cbor option \<Rightarrow> error + champ" where
  "copy_and_set_value c set_index payload_index val =
     and_then (vec_at (contents c) set_index) (\<lambda>p.
     and_then
       (case p of
          Mappings ms \<Rightarrow>
            and_then (vec_at ms payload_index) (\<lambda>m.
              vec_set (contents c) set_index (Mappings (ms[payload_index := m\<lparr>ke_value := val\<rparr>])))
        | Link _ \<Rightarrow> Inr (contents c)) (\<lambda>dst.
       Inr (with_contents c (data_map c) (node_map c) dst)))"

definition insert_into_prefix :: "champ \<Rightarrow> nat \<Rightarrow> bytes \<Rightarrow> cbor option \<Rightarrow> error + champ" where
  "insert_into_prefix c index key val =
     and_then (vec_at (contents c) index) (\<lambda>p.
     and_then
       (case p of
          Mappings ms \<Rightarrow>
            vec_set (contents c) index
              (Mappings (sort_by (\<lambda>a b. byte_array_compare (ke_key a) (ke_key b)) (ms @ [\<lparr>ke_key = key, ke_value = val\<rparr>])))
        | Link _ \<Rightarrow> Inr (contents c)) (\<lambda>result.
       Inr (with_contents c (data_map c) (node_map c) result)))"

definition add_new_prefix :: "champ \<Rightarrow> nat \<Rightarrow> bytes \<Rightarrow> cbor option \<Rightarrow> error + champ" where
  "add_new_prefix c bitpos key val =
     and_then (vec_insert (contents c) (get_index (data_map c) bitpos) (Mappings [\<lparr>ke_key = key, ke_value = val\<rparr>]))
       (\<lambda>result. Inr (with_contents c (bit_set (data_map c) bitpos) (node_map c) result))"

definition copy_and_migrate_from_inline_to_node :: "champ \<Rightarrow> nat \<Rightarrow> cid \<Rightarrow> error + champ" where
  "copy_and_migrate_from_inline_to_node c bitpos node_hash =
     and_then (link_index c bitpos) (\<lambda>new_index.
     and_then (vec_remove (contents c) (get_index (data_map c) bitpos)) (\<lambda>dst.
     and_then (vec_insert dst new_index (Link node_hash)) (\<lambda>dst.
       Inr (with_contents c (bit_clear (data_map c) bitpos) (bit_set (node_map c) bitpos) dst))))"

definition overwrite_child_link :: "champ \<Rightarrow> nat \<Rightarrow> cid \<Rightarrow> error + champ" where
  "overwrite_child_link c bitpos node_hash =
     and_then (link_index c bitpos) (\<lambda>set_index.
     and_then (vec_set (contents c) set_index (Link node_hash)) (\<lambda>dst.
       Inr (with_contents c (data_map c) (node_map c) dst)))"

definition remove_mapping :: "champ \<Rightarrow> nat \<Rightarrow> nat \<Rightarrow> error + champ" where
  "remove_mapping c bitpos payload_index =
     (let data_index = get_index (data_map c) bitpos
      in and_then (vec_at (contents c) data_index) (\<lambda>p.
         case p of
           Mappings ms \<Rightarrow>
             (if length ms = 1 then
                and_then (vec_remove (contents c) data_index) (\<lambda>dst.
                  Inr (with_contents c (bit_clear (data_map c) bitpos) (node_map c) dst))
              else
                and_then (vec_remove ms payload_index) (\<lambda>remaining.
                and_then (vec_set (contents c) data_index (Mappings remaining)) (\<lambda>dst.
                  Inr (with_contents c (data_map c) (node_map c) dst))))
         | Link _ \<Rightarrow> Inr (with_contents c (data_map c) (node_map c) (contents c))))"

definition copy_and_migrate_from_node_to_inline :: "champ \<Rightarrow> nat \<Rightarrow> champ \<Rightarrow> error + champ" where
  "copy_and_migrate_from_node_to_inline c bitpos node =
     and_then (link_index c bitpos) (\<lambda>old_index.
       let new_index = get_index (data_map c) bitpos;
           bucket = (case contents node of Mappings ms # _ \<Rightarrow> ms | _ \<Rightarrow> [])
       in and_then (vec_remove (contents c) old_index) (\<lambda>dst.
          and_then (vec_insert dst new_index (Mappings bucket)) (\<lambda>dst.
            Inr (with_contents c (bit_set (data_map c) bitpos) (bit_clear (node_map c) bitpos) dst))))"

section \<open>Reading a tree\<close>

definition child_link :: "champ \<Rightarrow> bytes \<Rightarrow> nat \<Rightarrow> nat \<Rightarrow> error + cid" where
  "child_link c h depth bit_width =
     and_then (link_index c (champ_mask h depth bit_width)) (\<lambda>index.
     and_then (vec_at (contents c) index) (\<lambda>p.
       case p of Link l \<Rightarrow> Inr l | Mappings _ \<Rightarrow> Inl (Protocol ''expected champ shard link'')))"

definition get_child :: "(cid \<Rightarrow> error + cbor option) \<Rightarrow> champ \<Rightarrow> bytes \<Rightarrow> nat \<Rightarrow> nat \<Rightarrow> error + champ option" where
  "get_child sg c h depth bit_width =
     and_then (child_link c h depth bit_width) (\<lambda>l.
     and_then (sg l) (\<lambda>found.
       case found of Some x \<Rightarrow> and_then (champ_from_cbor x) (\<lambda>child. Inr (Some child)) | None \<Rightarrow> Inr None))"

text \<open>The child behind a link, absence being an error.\<close>

definition load_child :: "(cid \<Rightarrow> error + cbor option) \<Rightarrow> cid \<Rightarrow> error + champ" where
  "load_child sg l =
     and_then (sg l) (\<lambda>found.
     and_then (ok_or (Protocol ''champ child missing'') found) champ_from_cbor)"

definition get_child_with_hash ::
  "(cid \<Rightarrow> error + cbor option) \<Rightarrow> champ \<Rightarrow> bytes \<Rightarrow> nat \<Rightarrow> nat \<Rightarrow> error + cid \<times> champ" where
  "get_child_with_hash sg c h depth bit_width =
     and_then (child_link c h depth bit_width) (\<lambda>l. and_then (load_child sg l) (\<lambda>child. Inr (l, child)))"

primrec collect_mappings :: "(cid \<Rightarrow> error + cbor option) \<Rightarrow> nat \<Rightarrow> champ \<Rightarrow> error + key_element list" where
  "collect_mappings sg 0 c = Inl FuelExhausted"
| "collect_mappings sg (Suc fuel) c =
     and_then (collect_results (\<lambda>p. case p of
         Mappings ms \<Rightarrow> Inr ms
       | Link l \<Rightarrow> and_then (load_child sg l) (collect_mappings sg fuel)) (contents c)) (\<lambda>parts. Inr (concat parts))"

fun find_mapping :: "bytes \<Rightarrow> nat \<Rightarrow> key_element list \<Rightarrow> (nat \<times> key_element) option" where
  "find_mapping key i [] = None"
| "find_mapping key i (m # ms) = (if ke_key m = key then Some (i, m) else find_mapping key (i + 1) ms)"

primrec champ_get ::
  "(cid \<Rightarrow> error + cbor option) \<Rightarrow> nat \<Rightarrow> champ \<Rightarrow> bytes \<Rightarrow> bytes \<Rightarrow> nat \<Rightarrow> nat \<Rightarrow> error + cbor option" where
  "champ_get sg 0 c key h depth bit_width = Inl FuelExhausted"
| "champ_get sg (Suc fuel) c key h depth bit_width =
     (let bitpos = champ_mask h depth bit_width
      in if bit_get (data_map c) bitpos then
           and_then (vec_at (contents c) (get_index (data_map c) bitpos)) (\<lambda>p.
             case p of
               Mappings ms \<Rightarrow> (case find_mapping key 0 ms of Some (_, m) \<Rightarrow> Inr (ke_value m) | None \<Rightarrow> Inr None)
             | Link _ \<Rightarrow> Inr None)
         else if bit_get (node_map c) bitpos then
           and_then (get_child sg c h depth bit_width) (\<lambda>found.
             case found of
               Some child \<Rightarrow> champ_get sg fuel child key h (depth + 1) bit_width
             | None \<Rightarrow> Inr None)
         else Inr None)"

text \<open>\<open>size\<close> counts the keys of the node and adds the sizes of its children, in order.\<close>

primrec champ_size :: "(cid \<Rightarrow> error + cbor option) \<Rightarrow> nat \<Rightarrow> champ \<Rightarrow> error + nat" where
  "champ_size sg 0 c = Inl FuelExhausted"
| "champ_size sg (Suc fuel) c =
     and_then (collect_results (\<lambda>p. case p of
         Mappings ms \<Rightarrow> Inr 0
       | Link l \<Rightarrow> and_then (load_child sg l) (champ_size sg fuel)) (contents c)) (\<lambda>ns. Inr (key_count c + sum_list ns))"

section \<open>Writing a tree\<close>

text \<open>Serialise a node, put it, and return it with its CID.\<close>

definition write_node :: "(bytes \<Rightarrow> ('s, error, cid) io) \<Rightarrow> champ \<Rightarrow> ('s, error, champ \<times> cid) io" where
  "write_node sput c =
     io_bind (io_lift (champ_serialize c)) (\<lambda>bs. io_bind (sput bs) (\<lambda>h. io_ret (c, h)))"

type_synonym 's putter =
  "champ \<Rightarrow> bytes \<Rightarrow> bytes \<Rightarrow> nat \<Rightarrow> cbor option \<Rightarrow> cbor option \<Rightarrow> cid \<Rightarrow> ('s, error, champ \<times> cid) io"

text \<open>\<open>put_rec\<close> is the recursive call of \<open>put\<close>.\<close>

definition push_mappings_down_a_level ::
  "'s putter \<Rightarrow> (bytes \<Rightarrow> ('s, error, cid) io) \<Rightarrow> (bytes \<Rightarrow> bytes) \<Rightarrow> champ \<Rightarrow> key_element list \<Rightarrow>
   bytes \<Rightarrow> bytes \<Rightarrow> cbor option \<Rightarrow> nat \<Rightarrow> ('s, error, champ \<times> cid) io" where
  "push_mappings_down_a_level put_rec sput key_hasher c ms key1 hash1 val1 depth =
     (if depth \<ge> HASH_CODE_LENGTH then io_lift (Inl (Protocol ''Hash collision!''))
      else
        io_bind (write_node sput (with_bat champ_empty (mirror_bat c))) (\<lambda>(empty, empty_hash).
        io_bind (put_rec empty key1 hash1 depth None val1 empty_hash) (\<lambda>start.
          io_fold (\<lambda>(cur, cur_hash) e. put_rec cur (ke_key e) (key_hasher (ke_key e)) depth None (ke_value e) cur_hash)
            start ms)))"

primrec champ_put ::
  "('s \<Rightarrow> cid \<Rightarrow> error + cbor option) \<Rightarrow> (bytes \<Rightarrow> ('s, error, cid) io) \<Rightarrow> (bytes \<Rightarrow> bytes) \<Rightarrow> nat \<Rightarrow> nat \<Rightarrow>
   nat \<Rightarrow> 's putter" where
  "champ_put sget sput key_hasher bit_width max_collisions 0 c key h depth expected val our_hash =
     io_lift (Inl FuelExhausted)"
| "champ_put sget sput key_hasher bit_width max_collisions (Suc fuel) c key h depth expected val our_hash =
     (let bitpos = champ_mask h depth bit_width
      in if bit_get (data_map c) bitpos then
           (let index = get_index (data_map c) bitpos
            in io_bind (io_lift (and_then (vec_at (contents c) index) (\<lambda>p.
                 ok_or (Protocol ''expected champ mappings'') (as_mappings p)))) (\<lambda>ms.
               case find_mapping key 0 ms of
                 Some (payload_index, m) \<Rightarrow>
                   if ke_value m \<noteq> expected then io_lift (Inl (Protocol ''champ CAS failed''))
                   else io_bind (io_lift (copy_and_set_value c index payload_index val)) (write_node sput)
               | None \<Rightarrow>
                   if length ms < max_collisions then
                     io_bind (io_lift (insert_into_prefix c index key val)) (write_node sput)
                   else
                     io_bind (push_mappings_down_a_level
                       (champ_put sget sput key_hasher bit_width max_collisions fuel) sput key_hasher
                       c ms key h val (depth + 1)) (\<lambda>(child, child_hash).
                     io_bind (io_lift (copy_and_migrate_from_inline_to_node c bitpos child_hash)) (write_node sput))))
         else if bit_get (node_map c) bitpos then
           (\<lambda>st. io_bind (io_lift (get_child_with_hash (sget st) c h depth bit_width)) (\<lambda>(child_hash, child).
              io_bind (champ_put sget sput key_hasher bit_width max_collisions fuel
                child key h (depth + 1) expected val child_hash) (\<lambda>(new_child, new_child_hash).
              if new_child_hash = child_hash then io_ret (c, our_hash)
              else io_bind (io_lift (overwrite_child_link c bitpos new_child_hash)) (write_node sput))) st)
         else io_bind (io_lift (add_new_prefix c bitpos key val)) (write_node sput))"

text \<open>The node into which the last mappings of a subtree collapse.\<close>

definition collapsed_node :: "champ \<Rightarrow> bytes \<Rightarrow> bytes \<Rightarrow> nat \<Rightarrow> champ" where
  "collapsed_node c key h bit_width =
     \<lparr>data_map = bit_set [] (champ_mask h 0 bit_width), node_map = [],
      contents = [Mappings (sort_by (\<lambda>a b. byte_array_compare (ke_key a) (ke_key b))
        (filter (\<lambda>m. ke_key m \<noteq> key) (concat (List.map_filter as_mappings (contents c)))))],
      mirror_bat = mirror_bat c\<rparr>"

primrec champ_remove ::
  "('s \<Rightarrow> cid \<Rightarrow> error + cbor option) \<Rightarrow> (bytes \<Rightarrow> ('s, error, cid) io) \<Rightarrow> nat \<Rightarrow> nat \<Rightarrow>
   nat \<Rightarrow> champ \<Rightarrow> bytes \<Rightarrow> bytes \<Rightarrow> nat \<Rightarrow> cbor option \<Rightarrow> cid \<Rightarrow> ('s, error, champ \<times> cid) io" where
  "champ_remove sget sput bit_width max_collisions 0 c key h depth expected our_hash = io_lift (Inl FuelExhausted)"
| "champ_remove sget sput bit_width max_collisions (Suc fuel) c key h depth expected our_hash =
     (let bitpos = champ_mask h depth bit_width
      in if bit_get (data_map c) bitpos then
           io_bind (io_lift (and_then (vec_at (contents c) (get_index (data_map c) bitpos)) (\<lambda>p.
             ok_or (Protocol ''expected champ mappings'') (as_mappings p)))) (\<lambda>ms.
             case find_mapping key 0 ms of
               Some (payload_index, m) \<Rightarrow>
                 if ke_value m \<noteq> expected then io_lift (Inl (Protocol ''champ CAS failed on remove''))
                 else io_bind (io_lift
                        (if key_count c = max_collisions + 1 \<and> node_count c = 0 \<and> depth > 0
                         then Inr (collapsed_node c key h bit_width)
                         else remove_mapping c bitpos payload_index)) (write_node sput)
             | None \<Rightarrow> io_lift (Inl (Protocol ''champ CAS failed: key not present'')))
         else if bit_get (node_map c) bitpos then
           (\<lambda>st. io_bind (io_lift (get_child_with_hash (sget st) c h depth bit_width)) (\<lambda>(child_hash, child).
              io_bind (champ_remove sget sput bit_width max_collisions fuel
                child key h (depth + 1) expected child_hash) (\<lambda>(new_child, new_child_hash).
              if new_child_hash = child_hash then io_ret (c, our_hash)
              else if contents new_child = [] then io_lift (Inl (Protocol ''Sub-node must have at least one element''))
              else if node_count new_child = 0 \<and> key_count new_child = max_collisions then
                (if key_count c = 0 \<and> node_count c = 1 then io_ret (new_child, new_child_hash)
                 else io_bind (io_lift (copy_and_migrate_from_node_to_inline c bitpos new_child)) (write_node sput))
              else io_bind (io_lift (overwrite_child_link c bitpos new_child_hash)) (write_node sput))) st)
         else io_ret (c, our_hash))"

section \<open>ChampWrapper\<close>

record champ_wrapper =
  root :: champ
  root_hash :: cid

text \<open>Sixty-four is more than the thirty-two levels that \<open>HASH_CODE_LENGTH\<close> allows a tree.\<close>

definition champ_fuel :: nat where
  "champ_fuel = 64"

definition identity_key_hasher :: "bytes \<Rightarrow> bytes" where
  "identity_key_hasher k = k"

definition wrapper_create :: "(cid \<Rightarrow> error + cbor option) \<Rightarrow> cid \<Rightarrow> error + champ_wrapper" where
  "wrapper_create sg h =
     and_then (sg h) (\<lambda>found.
     and_then (ok_or (Protocol ''Champ root not present'') found) (\<lambda>raw.
     and_then (champ_from_cbor raw) (\<lambda>c. Inr \<lparr>root = c, root_hash = h\<rparr>)))"

definition wrapper_get :: "(cid \<Rightarrow> error + cbor option) \<Rightarrow> (bytes \<Rightarrow> bytes) \<Rightarrow> champ_wrapper \<Rightarrow> bytes \<Rightarrow> error + cbor option" where
  "wrapper_get sg key_hasher w raw_key =
     champ_get sg champ_fuel (root w) raw_key (key_hasher raw_key) 0 BIT_WIDTH"

text \<open>\<open>&mut self\<close> is passed and returned, next to the result.\<close>

definition wrapper_put ::
  "('s \<Rightarrow> cid \<Rightarrow> error + cbor option) \<Rightarrow> (bytes \<Rightarrow> ('s, error, cid) io) \<Rightarrow> (bytes \<Rightarrow> bytes) \<Rightarrow>
   champ_wrapper \<Rightarrow> bytes \<Rightarrow> cbor option \<Rightarrow> cbor option \<Rightarrow> ('s, error, champ_wrapper) io" where
  "wrapper_put sget sput key_hasher w raw_key expected val =
     io_bind (champ_put sget sput key_hasher BIT_WIDTH MAX_HASH_COLLISIONS_PER_LEVEL champ_fuel
       (root w) raw_key (key_hasher raw_key) 0 expected val (root_hash w)) (\<lambda>(new_root, new_root_hash).
       io_ret \<lparr>root = new_root, root_hash = new_root_hash\<rparr>)"

definition wrapper_size :: "(cid \<Rightarrow> error + cbor option) \<Rightarrow> champ_wrapper \<Rightarrow> error + nat" where
  "wrapper_size sg w = champ_size sg champ_fuel (root w)"

definition wrapper_remove ::
  "('s \<Rightarrow> cid \<Rightarrow> error + cbor option) \<Rightarrow> (bytes \<Rightarrow> ('s, error, cid) io) \<Rightarrow> (bytes \<Rightarrow> bytes) \<Rightarrow>
   champ_wrapper \<Rightarrow> bytes \<Rightarrow> cbor option \<Rightarrow> ('s, error, champ_wrapper) io" where
  "wrapper_remove sget sput key_hasher w raw_key expected =
     io_bind (champ_remove sget sput BIT_WIDTH MAX_HASH_COLLISIONS_PER_LEVEL champ_fuel
       (root w) raw_key (key_hasher raw_key) 0 expected (root_hash w)) (\<lambda>(new_root, new_root_hash).
       io_ret \<lparr>root = new_root, root_hash = new_root_hash\<rparr>)"

end
