(* ===== verification/Champ_Node.thy ===== *)
theory Champ_Node
  imports Champ
begin

text \<open>
  One node of the tree seen as eight slots, each empty, a bucket of mappings or a link.  \<open>is_node c s\<close>
  relates a node to its slots, and every edit of \<open>Champ\<close> is shown to be an update of one slot: a
  functional refinement that hides bitmaps and vector positions from the proofs about trees.
\<close>

section \<open>Bitmaps\<close>

lemma drop_bit_and_1: "drop_bit n (b :: byte) AND 1 = 1 \<longleftrightarrow> bit b n"
  by (simp add: and_one_eq bit_iff_odd_drop_bit odd_iff_mod_2_eq_one)

lemma bit_get_eq: "bit_get bm i \<longleftrightarrow> i div 8 < length bm \<and> bit (bm ! (i div 8)) (i mod 8)"
  by (simp add: bit_get_def Let_def drop_bit_and_1)

lemma bit_slot: "bit (push_bit (i mod 8) 1 :: byte) (j mod 8) \<longleftrightarrow> j mod 8 = i mod 8"
  unfolding push_bit_of_1 bit_exp_iff possible_bit_word by auto

lemma bit_get_update:
  assumes "i div 8 < length bm"
  shows "bit_get (bm[i div 8 := w]) j = (if j div 8 = i div 8 then bit w (j mod 8) else bit_get bm j)"
  using assms by (auto simp: bit_get_eq)

lemma same_bit: "j div 8 = i div 8 \<Longrightarrow> j mod 8 = i mod 8 \<longleftrightarrow> j = (i :: nat)"
  by (metis div_mult_mod_eq)

lemma bit_get_pad: "bit_get (bm @ replicate n 0) j = bit_get bm j"
  by (auto simp: bit_get_eq nth_append)

lemma bit_get_set: "bit_get (bit_set bm i) j \<longleftrightarrow> j = i \<or> bit_get bm j"
proof -
  define bm' where "bm' = (if i div 8 \<ge> length bm then bm @ replicate (i div 8 + 1 - length bm) 0 else bm)"
  have len: "i div 8 < length bm'" by (simp add: bm'_def)
  have get: "bit_get bm' j = bit_get bm j" by (simp add: bm'_def bit_get_pad)
  have eq: "bit_set bm i = bm'[i div 8 := bm' ! (i div 8) OR push_bit (i mod 8) 1]"
    by (simp only: bit_set_def bm'_def Let_def)
  show ?thesis
  proof (cases "j div 8 = i div 8")
    case True
    then have "bit_get bm' j \<longleftrightarrow> bit (bm' ! (i div 8)) (j mod 8)" using len by (simp add: bit_get_eq)
    then show ?thesis
      unfolding eq bit_get_update [OF len] bit_or_iff bit_slot using True same_bit [OF True] get by auto
  next
    case False
    then show ?thesis unfolding eq bit_get_update [OF len] using get by auto
  qed
qed

lemma bit_get_strip: "bit_get (rev (dropWhile (\<lambda>b. b = 0) (rev bm))) j = bit_get bm j"
proof -
  let ?r = "rev (dropWhile (\<lambda>b. b = 0) (rev bm))" and ?z = "takeWhile (\<lambda>b. b = 0) (rev bm)"
  have "rev bm = ?z @ dropWhile (\<lambda>b. b = 0) (rev bm)" by simp
  then have bm: "bm = ?r @ rev ?z" by (metis rev_append rev_rev_ident)
  have z: "x = 0" if "x \<in> set (rev ?z)" for x using that by (auto dest: set_takeWhileD)
  have "bit_get bm j = bit_get (?r @ rev ?z) j" using bm by simp
  also have "\<dots> = bit_get ?r j"
    unfolding bit_get_eq using z [OF nth_mem] by (auto simp: nth_append) 
  finally show ?thesis ..
qed

lemma bit_get_clear: "bit_get (bit_clear bm i) j \<longleftrightarrow> j \<noteq> i \<and> bit_get bm j"
proof (cases "i div 8 < length bm")
  case len: True
  then have eq: "bit_get (bit_clear bm i) j = bit_get (bm[i div 8 := bm ! (i div 8) AND NOT (push_bit (i mod 8) 1)]) j"
    by (simp only: bit_clear_def Let_def bit_get_strip if_True)
  show ?thesis
  proof (cases "j div 8 = i div 8")
    case True
    then have "bit_get bm j \<longleftrightarrow> bit (bm ! (i div 8)) (j mod 8)" using len by (simp add: bit_get_eq)
    moreover have "possible_bit TYPE(byte) (j mod 8)" by simp
    ultimately show ?thesis
      unfolding eq bit_get_update [OF len] bit_and_iff bit_not_iff bit_slot using True same_bit [OF True] by auto
  next
    case False
    then show ?thesis unfolding eq bit_get_update [OF len] by auto
  qed
next
  case False
  then have "bit_get (bit_clear bm i) j = bit_get bm j" by (simp add: bit_clear_def bit_get_strip)
  moreover have "\<not> bit_get bm i" using False by (simp add: bit_get_eq)
  ultimately show ?thesis by auto
qed

lemma bit_get_Nil [simp]: "\<not> bit_get [] i"
  by (simp add: bit_get_eq)

section \<open>Slots\<close>

type_synonym slots = "nat \<Rightarrow> payload option"

fun dat :: "payload option \<Rightarrow> payload list" where
  "dat (Some (Mappings ms)) = [Mappings ms]"
| "dat _ = []"

fun lnk :: "payload option \<Rightarrow> payload list" where
  "lnk (Some (Link l)) = [Link l]"
| "lnk _ = []"

definition node_contents :: "slots \<Rightarrow> payload list" where
  "node_contents s = concat (map (\<lambda>i. dat (s i)) [0..<8]) @ rev (concat (map (\<lambda>i. lnk (s i)) [0..<8]))"

definition is_node :: "champ \<Rightarrow> slots \<Rightarrow> bool" where
  "is_node c s \<longleftrightarrow> (\<forall>i < 8. (bit_get (data_map c) i \<longleftrightarrow> dat (s i) \<noteq> []) \<and> (bit_get (node_map c) i \<longleftrightarrow> lnk (s i) \<noteq> []))
     \<and> contents c = node_contents s"

lemma dat_lnk_simps [simp]:
  "dat x \<noteq> [] \<longleftrightarrow> (\<exists>ms. x = Some (Mappings ms))"
  "lnk x \<noteq> [] \<longleftrightarrow> (\<exists>l. x = Some (Link l))"
  by (cases x rule: dat.cases; simp)+

lemma upt8_split: "i < 8 \<Longrightarrow> [0..<8] = [0..<i] @ i # [Suc i..<8]"
  using upt_add_eq_append [of 0 i "8 - i"] by (simp add: upt_conv_Cons)

lemma length_concat_dat: "length (concat (map (\<lambda>i. dat (s i)) xs)) = length (filter (\<lambda>i. dat (s i) \<noteq> []) xs)"
proof (induction xs)
  case (Cons i xs)
  then show ?case by (cases "s i" rule: dat.cases) simp_all
qed simp

lemma length_concat_lnk: "length (concat (map (\<lambda>i. lnk (s i)) xs)) = length (filter (\<lambda>i. lnk (s i) \<noteq> []) xs)"
proof (induction xs)
  case (Cons i xs)
  then show ?case by (cases "s i" rule: lnk.cases) simp_all
qed simp

text \<open>Around slot \<open>i\<close> the contents split so that only the parts of that slot depend on it.\<close>

lemma node_split:
  assumes "is_node c s" "i < 8"
  obtains A B Y where "\<And>x. node_contents (s(i := x)) = A @ dat x @ B @ lnk x @ Y"
    "get_index (data_map c) i = length A" "get_index (node_map c) i = length Y"
    "contents c = A @ dat (s i) @ B @ lnk (s i) @ Y"
proof -
  let ?D = "\<lambda>xs. concat (map (\<lambda>i. dat (s i)) xs)" and ?L = "\<lambda>xs. concat (map (\<lambda>i. lnk (s i)) xs)"
  have e: "map (\<lambda>j. f ((s(i := x)) j)) xs = map (\<lambda>j. f (s j)) xs"
    if "i \<notin> set xs" for f :: "payload option \<Rightarrow> payload list" and x xs
    using that by (auto intro: map_cong)
  have nc: "node_contents (s(i := x)) =
      ?D [0..<i] @ dat x @ (?D [Suc i..<8] @ rev (?L [Suc i..<8])) @ lnk x @ rev (?L [0..<i])" for x
  proof -
    have r: "rev (lnk x) = lnk x" by (cases x rule: lnk.cases) simp_all
    show ?thesis unfolding node_contents_def upt8_split [OF assms(2)] 
      by (simp add: e r del: fun_upd_apply) (simp add: r)
  qed
  have d: "get_index (data_map c) i = length (?D [0..<i])"
  proof -
    have "filter (bit_get (data_map c)) [0..<i] = filter (\<lambda>j. dat (s j) \<noteq> []) [0..<i]"
      using assms by (intro filter_cong) (auto simp: is_node_def)
    then show ?thesis unfolding get_index_def length_concat_dat by (rule arg_cong)
  qed
  have n: "get_index (node_map c) i = length (rev (?L [0..<i]))"
  proof -
    have "filter (bit_get (node_map c)) [0..<i] = filter (\<lambda>j. lnk (s j) \<noteq> []) [0..<i]"
      using assms by (intro filter_cong) (auto simp: is_node_def)
    then show ?thesis unfolding get_index_def length_rev length_concat_lnk by (rule arg_cong)
  qed
  have "contents c = node_contents (s(i := s i))" using assms(1) by (simp add: is_node_def)
  then show thesis using that [OF nc d n] nc [of "s i"] by simp
qed

lemma is_node_update:
  assumes "is_node c s" "i < 8" "contents c' = node_contents (s(i := x))"
    "\<And>j. j < 8 \<Longrightarrow> bit_get (data_map c') j \<longleftrightarrow> (if j = i then dat x \<noteq> [] else bit_get (data_map c) j)"
    "\<And>j. j < 8 \<Longrightarrow> bit_get (node_map c') j \<longleftrightarrow> (if j = i then lnk x \<noteq> [] else bit_get (node_map c) j)"
  shows "is_node c' (s(i := x))"
  using assms unfolding is_node_def by auto

lemma is_node_empty: "is_node (with_bat champ_empty b) (\<lambda>_. None)"
  by (simp add: is_node_def with_bat_def champ_empty_def node_contents_def)

lemma is_node_bits:
  assumes "is_node c s" "i < 8"
  shows "bit_get (data_map c) i \<longleftrightarrow> (\<exists>ms. s i = Some (Mappings ms))" "bit_get (node_map c) i \<longleftrightarrow> (\<exists>l. s i = Some (Link l))"
  using assms by (auto simp: is_node_def simp flip: dat_lnk_simps)

lemma node_data:
  assumes "is_node c s" "i < 8" "s i = Some (Mappings ms)"
  shows "vec_at (contents c) (get_index (data_map c) i) = Inr (Mappings ms)"
  by (rule node_split [OF assms(1,2)]) (simp add: assms(3) vec_at_def)

lemma node_link_index:
  assumes "is_node c s" "i < 8" "s i = Some (Link l)"
  shows "\<exists>k. link_index c i = Inr k \<and> vec_at (contents c) k = Inr (Link l)"
  by (rule node_split [OF assms(1,2)]) (simp add: assms(3) link_index_def sub_usize_def vec_at_def nth_append)

section \<open>Edits are updates of one slot\<close>

lemma with_contents_simps [simp]:
  "data_map (with_contents c d n cs) = d" "node_map (with_contents c d n cs) = n"
  "contents (with_contents c d n cs) = cs" "mirror_bat (with_contents c d n cs) = mirror_bat c"
  by (simp_all add: with_contents_def)

text \<open>What an edit returns: a node with slot \<open>i\<close> replaced and the same mirror BAT.\<close>

definition edits :: "champ \<Rightarrow> slots \<Rightarrow> nat \<Rightarrow> payload option \<Rightarrow> error + champ \<Rightarrow> bool" where
  "edits c s i x r \<longleftrightarrow> (\<exists>c'. r = Inr c' \<and> is_node c' (s(i := x)) \<and> mirror_bat c' = mirror_bat c)"

lemma set_slot:
  assumes "is_node c s" "i < 8" "s i = Some (Mappings ms)" "k = get_index (data_map c) i"
  shows "edits c s i (Some (Mappings ms')) (and_then (vec_set (contents c) k (Mappings ms'))
    (\<lambda>dst. Inr (with_contents c (data_map c) (node_map c) dst)))"
proof (rule node_split [OF assms(1,2)])
  fix A B Y
  assume a: "\<And>x. node_contents (s(i := x)) = A @ dat x @ B @ lnk x @ Y" "get_index (data_map c) i = length A"
    "contents c = A @ dat (s i) @ B @ lnk (s i) @ Y"
  then have "vec_set (contents c) k (Mappings ms') = Inr (node_contents (s(i \<mapsto> Mappings ms')))"
    by (simp add: vec_set_def assms(3,4) list_update_append)
  then show ?thesis
    using is_node_update [OF assms(1,2), of "with_contents c (data_map c) (node_map c) (node_contents (s(i \<mapsto> Mappings ms')))"
        "Some (Mappings ms')"] is_node_bits [OF assms(1,2)] assms(3)
    by (auto simp: edits_def)
qed

lemma editsI:
  assumes "is_node c s" "i < 8" "r = Inr (with_contents c d n (node_contents (s(i := x))))"
    "\<And>j. j < 8 \<Longrightarrow> bit_get d j \<longleftrightarrow> (if j = i then \<exists>ms. x = Some (Mappings ms) else bit_get (data_map c) j)"
    "\<And>j. j < 8 \<Longrightarrow> bit_get n j \<longleftrightarrow> (if j = i then \<exists>l. x = Some (Link l) else bit_get (node_map c) j)"
  shows "edits c s i x r"
  using is_node_update [OF assms(1,2), of "with_contents c d n (node_contents (s(i := x)))" x] assms(3-5)
  by (auto simp: edits_def)

lemma add_new_prefix_edits:
  assumes "is_node c s" "i < 8" "s i = None"
  shows "edits c s i (Some (Mappings [\<lparr>ke_key = k, ke_value = v\<rparr>])) (add_new_prefix c i k v)"
proof (rule node_split [OF assms(1,2)])
  fix A B Y
  assume a: "\<And>x. node_contents (s(i := x)) = A @ dat x @ B @ lnk x @ Y" "get_index (data_map c) i = length A"
    "contents c = A @ dat (s i) @ B @ lnk (s i) @ Y"
  show ?thesis
    using a assms(3) is_node_bits [OF assms(1,2)]
    by (intro editsI [OF assms(1,2), where d = "bit_set (data_map c) i" and n = "node_map c"])
      (auto simp: add_new_prefix_def vec_insert_def bit_get_set)
qed

lemma copy_and_set_value_edits:
  assumes "is_node c s" "i < 8" "s i = Some (Mappings ms)" "p < length ms"
  shows "edits c s i (Some (Mappings (ms[p := (ms ! p)\<lparr>ke_value := v\<rparr>])))
    (copy_and_set_value c (get_index (data_map c) i) p v)"
  using set_slot [OF assms(1-3) refl, of "ms[p := (ms ! p)\<lparr>ke_value := v\<rparr>]"] node_data [OF assms(1-3)] assms(4)
  by (simp add: copy_and_set_value_def vec_at_def)

lemma insert_into_prefix_edits:
  assumes "is_node c s" "i < 8" "s i = Some (Mappings ms)"
  shows "edits c s i (Some (Mappings (sort_by (\<lambda>a b. byte_array_compare (ke_key a) (ke_key b))
      (ms @ [\<lparr>ke_key = k, ke_value = v\<rparr>])))) (insert_into_prefix c (get_index (data_map c) i) k v)"
  using set_slot [OF assms refl] node_data [OF assms] by (simp add: insert_into_prefix_def)

lemma inline_to_node_edits:
  assumes "is_node c s" "i < 8" "s i = Some (Mappings ms)"
  shows "edits c s i (Some (Link l)) (copy_and_migrate_from_inline_to_node c i l)"
proof (rule node_split [OF assms(1,2)])
  fix A B Y
  assume a: "\<And>x. node_contents (s(i := x)) = A @ dat x @ B @ lnk x @ Y" "get_index (data_map c) i = length A"
    "get_index (node_map c) i = length Y" "contents c = A @ dat (s i) @ B @ lnk (s i) @ Y"
  have "link_index c i = Inr (length A + length B)" using a assms(3) by (simp add: link_index_def sub_usize_def)
  moreover have "vec_remove (contents c) (length A) = Inr (A @ B @ Y)" using a assms(3) by (simp add: vec_remove_def)
  moreover have "vec_insert (A @ B @ Y) (length A + length B) (Link l) = Inr (node_contents (s(i \<mapsto> Link l)))"
    using a(1) by (simp add: vec_insert_def)
  ultimately show ?thesis
    using a(2) assms(3) is_node_bits [OF assms(1,2)]
    by (intro editsI [OF assms(1,2), where d = "bit_clear (data_map c) i" and n = "bit_set (node_map c) i"])
      (auto simp: copy_and_migrate_from_inline_to_node_def bit_get_set bit_get_clear)
qed

lemma overwrite_child_link_edits:
  assumes "is_node c s" "i < 8" "s i = Some (Link l0)"
  shows "edits c s i (Some (Link l)) (overwrite_child_link c i l)"
proof (rule node_split [OF assms(1,2)])
  fix A B Y
  assume a: "\<And>x. node_contents (s(i := x)) = A @ dat x @ B @ lnk x @ Y" "get_index (node_map c) i = length Y"
    "contents c = A @ dat (s i) @ B @ lnk (s i) @ Y"
  have "link_index c i = Inr (length A + length B)" using a assms(3) by (simp add: link_index_def sub_usize_def)
  moreover have "vec_set (contents c) (length A + length B) (Link l) = Inr (node_contents (s(i \<mapsto> Link l)))"
    using a(1,3) assms(3) by (simp add: vec_set_def list_update_append)
  ultimately show ?thesis
    using assms(3) is_node_bits [OF assms(1,2)]
    by (intro editsI [OF assms(1,2), where d = "data_map c" and n = "node_map c"])
      (auto simp: overwrite_child_link_def)
qed

lemma remove_mapping_edits:
  assumes "is_node c s" "i < 8" "s i = Some (Mappings ms)" "p < length ms"
  shows "edits c s i (if length ms = 1 then None else Some (Mappings (take p ms @ drop (Suc p) ms))) (remove_mapping c i p)"
proof (cases "length ms = 1")
  case False
  then show ?thesis
    using set_slot [OF assms(1-3) refl] node_data [OF assms(1-3)] assms(4)
    by (simp add: remove_mapping_def vec_remove_def Let_def)
next
  case True
  show ?thesis
  proof (rule node_split [OF assms(1,2)])
    fix A B Y
    assume a: "\<And>x. node_contents (s(i := x)) = A @ dat x @ B @ lnk x @ Y" "get_index (data_map c) i = length A"
      "contents c = A @ dat (s i) @ B @ lnk (s i) @ Y"
    have "vec_remove (contents c) (length A) = Inr (node_contents (s(i := None)))"
      using a(1) [of None] a(3) assms(3) by (simp add: vec_remove_def)
    then show ?thesis
      using a(2) True node_data [OF assms(1-3)] is_node_bits [OF assms(1,2)] assms(3)
      by (intro editsI [OF assms(1,2), where d = "bit_clear (data_map c) i" and n = "node_map c"])
        (auto simp: remove_mapping_def bit_get_clear Let_def)
  qed
qed

lemma node_to_inline_edits:
  assumes "is_node c s" "i < 8" "s i = Some (Link l)" "contents node = [Mappings ms]"
  shows "edits c s i (Some (Mappings ms)) (copy_and_migrate_from_node_to_inline c i node)"
proof (rule node_split [OF assms(1,2)])
  fix A B Y
  assume a: "\<And>x. node_contents (s(i := x)) = A @ dat x @ B @ lnk x @ Y" "get_index (data_map c) i = length A"
    "get_index (node_map c) i = length Y" "contents c = A @ dat (s i) @ B @ lnk (s i) @ Y"
  have "link_index c i = Inr (length A + length B)" using a assms(3) by (simp add: link_index_def sub_usize_def)
  moreover have "vec_remove (contents c) (length A + length B) = Inr (A @ B @ Y)"
    using a assms(3) by (simp add: vec_remove_def)
  moreover have "vec_insert (A @ B @ Y) (length A) (Mappings ms) = Inr (node_contents (s(i \<mapsto> Mappings ms)))"
    using a(1) by (simp add: vec_insert_def)
  ultimately show ?thesis
    using a(2) assms(3,4) is_node_bits [OF assms(1,2)]
    by (intro editsI [OF assms(1,2), where d = "bit_set (data_map c) i" and n = "bit_clear (node_map c) i"])
      (auto simp: copy_and_migrate_from_node_to_inline_def bit_get_set bit_get_clear Let_def)
qed

section \<open>Counting\<close>

fun slot_keys :: "payload option \<Rightarrow> nat" where
  "slot_keys (Some (Mappings ms)) = length ms"
| "slot_keys _ = 0"

fun slot_nodes :: "payload option \<Rightarrow> nat" where
  "slot_nodes (Some (Link l)) = 1"
| "slot_nodes _ = 0"

lemma map_filter_simps_append: "List.map_filter f (xs @ ys) = List.map_filter f xs @ List.map_filter f ys"
  by (induction xs) (auto simp: List.map_filter_simps split: option.split)

lemma as_mappings_concat:
  "List.map_filter as_mappings (concat (map (\<lambda>i. dat (s i)) xs)) =
     concat (map (\<lambda>i. case s i of Some (Mappings ms) \<Rightarrow> [ms] | _ \<Rightarrow> []) xs)"
  "List.map_filter as_mappings (rev (concat (map (\<lambda>i. lnk (s i)) xs))) = []"
proof (induction xs)
  case (Cons i xs)
  { case 1 then show ?case using Cons by (cases "s i" rule: dat.cases) (simp_all add: List.map_filter_simps) }
  { case 2 then show ?case using Cons
      by (cases "s i" rule: lnk.cases) (simp_all add: List.map_filter_simps map_filter_simps_append) }
qed (simp_all add: List.map_filter_simps)

lemma node_mappings:
  assumes "is_node c s"
  shows "List.map_filter as_mappings (contents c) = concat (map (\<lambda>i. case s i of Some (Mappings ms) \<Rightarrow> [ms] | _ \<Rightarrow> []) [0..<8])"
  using assms by (simp add: is_node_def node_contents_def map_filter_simps_append as_mappings_concat del: upt.simps)

lemma key_count_slots:
  assumes "is_node c s"
  shows "key_count c = (\<Sum>i<8. slot_keys (s i))"
proof -
  have "sum_list (map length (concat (map (\<lambda>i. case s i of Some (Mappings ms) \<Rightarrow> [ms] | _ \<Rightarrow> []) xs)))
      = sum_list (map (\<lambda>i. slot_keys (s i)) xs)" for xs
  proof (induction xs)
    case (Cons i xs)
    then show ?case by (cases "s i" rule: slot_keys.cases) simp_all
  qed simp
  then have "key_count c = sum_list (map (\<lambda>i. slot_keys (s i)) [0..<8])"
    unfolding key_count_def node_mappings [OF assms] .
  then show ?thesis by (simp only: interv_sum_list_conv_sum_set_nat set_upt atLeast0LessThan)
qed

lemma node_count_slots:
  assumes "is_node c s"
  shows "node_count c = (\<Sum>i<8. slot_nodes (s i))"
proof -
  have d: "filter is_shard (concat (map (\<lambda>i. dat (s i)) xs)) = []" for xs
  proof (induction xs)
    case (Cons i xs)
    then show ?case by (cases "s i" rule: dat.cases) simp_all
  qed simp
  have l: "length (filter is_shard (rev (concat (map (\<lambda>i. lnk (s i)) xs)))) = sum_list (map (\<lambda>i. slot_nodes (s i)) xs)" for xs
  proof (induction xs)
    case (Cons i xs)
    then show ?case by (cases "s i" rule: lnk.cases) simp_all
  qed simp
  have cs: "contents c = node_contents s" using assms by (simp add: is_node_def)
  have "node_count c = sum_list (map (\<lambda>i. slot_nodes (s i)) [0..<8])"
    unfolding node_count_def cs node_contents_def filter_append length_append d l by simp
  then show ?thesis by (simp only: interv_sum_list_conv_sum_set_nat set_upt atLeast0LessThan)
qed

end
