(* ===== verification/Champ_Codec.thy ===== *)
theory Champ_Codec
  imports Champ_Node
begin

text \<open>
  The parts of a CHAMP below its tree structure: the index of a key at a level is a group of bits of
  its hash, nodes survive serialisation, and buckets of mappings behave as finite maps.
\<close>

section \<open>The index of a hash at a depth\<close>

text \<open>Bit \<open>i\<close> of a hash, least significant bit of the first byte first, zero past its end.\<close>

definition hash_bit :: "bytes \<Rightarrow> nat \<Rightarrow> bool" where
  "hash_bit h i \<longleftrightarrow> i div 8 < length h \<and> bit (h ! (i div 8)) (i mod 8)"

lemma bit_scast_low: "j < 8 \<Longrightarrow> bit (scast (b :: byte) :: i32) j \<longleftrightarrow> bit b j"
proof -
  assume "j < 8"
  then have "j \<noteq> 7 \<Longrightarrow> j < 7" by simp
  then show ?thesis using \<open>j < 8\<close> by (cases "j = 7") (simp_all add: bit_signed_iff min_def)
qed

lemma low_mask: "(push_bit n 1 - 1 :: i32) = mask n"
  by (simp add: mask_eq_exp_minus_1)

definition mask_word :: "bytes \<Rightarrow> nat \<Rightarrow> nat \<Rightarrow> i32" where
  "mask_word h depth nbits =
     (let index = depth * nbits div 8; shift = depth * nbits mod 8;
          low_bits = min nbits (8 - shift); hi_bits = nbits - low_bits;
          val1 = (if index < length h then scast (h ! index) else 0 :: i32);
          val2 = (if index + 1 < length h then scast (h ! (index + 1)) else 0 :: i32)
      in (signed_drop_bit shift val1 AND (push_bit low_bits 1 - 1)) OR push_bit low_bits (val2 AND (push_bit hi_bits 1 - 1)))"

lemma champ_mask_word: "champ_mask h depth nbits = unat (scast (mask_word h depth nbits) :: u64)"
  by (simp only: champ_mask_def mask_word_def Let_def)

lemma mask_join:
  fixes a b :: i32
  assumes "j < 32"
  shows "bit ((a AND mask L) OR push_bit L (b AND mask (n - L))) j \<longleftrightarrow>
    (if j < L then bit a j else bit b (j - L) \<and> j - L < n - L)"
  using assms unfolding bit_or_iff bit_and_iff bit_mask_iff bit_push_bit_iff possible_bit_word by auto

lemma split_8:
  fixes p :: nat
  obtains q s where "p = 8 * q + s" "s < 8" "p div 8 = q" "p mod 8 = s"
  by (metis mod_less_divisor mult_div_mod_eq zero_less_numeral)

lemma div_mod_8: "r < 8 \<Longrightarrow> (8 * q + r) div 8 = q \<and> (8 * q + r) mod 8 = (r :: nat)"
  by simp

lemma carry_8:
  fixes p j :: nat
  assumes "8 \<le> p mod 8 + j" "j < 9"
  shows "(p + j) div 8 = p div 8 + 1 \<and> (p + j) mod 8 = p mod 8 + j - 8"
proof (rule split_8 [of p])
  fix q s
  assume p: "p = 8 * q + s" "s < 8" "p div 8 = q" "p mod 8 = s"
  have "p + j = 8 * (q + 1) + (s + j - 8)" "s + j - 8 < 8" 
    using p(1,2) assms [unfolded p(4)] by auto
  then show ?thesis unfolding p(3,4) using div_mod_8 [of "s + j - 8" "q + 1"] by metis
qed

lemma no_carry_8:
  fixes p j :: nat
  assumes "p mod 8 + j < 8"
  shows "(p + j) div 8 = p div 8 \<and> (p + j) mod 8 = p mod 8 + j"
proof (rule split_8 [of p])
  fix q s
  assume p: "p = 8 * q + s" "s < 8" "p div 8 = q" "p mod 8 = s"
  have "p + j = 8 * q + (s + j)" "s + j < 8" using p(1) assms [unfolded p(4)] by linarith+
  then show ?thesis unfolding p(3,4) using div_mod_8 [of "s + j" q] by metis
qed

lemma mask_bits:
  assumes "nbits \<le> 8" "j < 32"
  shows "bit (mask_word h depth nbits) j \<longleftrightarrow> j < nbits \<and> hash_bit h (depth * nbits + j)"
proof -
  define p where "p = depth * nbits"
  define s where "s = p mod 8"
  define low where "low = min nbits (8 - s)"
  have s: "s < 8" by (simp add: s_def)
  have low: "low \<le> nbits" "low \<le> 8 - s" "low < nbits \<Longrightarrow> low = 8 - s" by (auto simp: low_def)
  have w: "bit (mask_word h depth nbits) j \<longleftrightarrow>
      (if j < low then bit (signed_drop_bit s (if p div 8 < length h then scast (h ! (p div 8)) else 0 :: i32)) j
       else bit (if p div 8 + 1 < length h then scast (h ! (p div 8 + 1)) else 0 :: i32) (j - low) \<and> j - low < nbits - low)"
    unfolding mask_word_def Let_def low_mask low_def s_def p_def by (rule mask_join [OF assms(2)])
  consider (lo) "j < low" | (hi) "\<not> j < low" "j < nbits" | (out) "\<not> j < low" "\<not> j < nbits" by blast
  then show ?thesis
  proof cases
    case lo
    then have sj: "s + j < 8" "j < nbits" using low s by linarith+
    have "bit (signed_drop_bit s (scast b :: i32)) j \<longleftrightarrow> bit b (s + j)" for b :: byte
      using sj(1) bit_scast_low [OF sj(1), of b] by (auto simp: bit_signed_drop_bit_iff)
    then show ?thesis
      using lo w no_carry_8 [of p j] sj unfolding hash_bit_def p_def [symmetric] s_def [symmetric] by simp
  next
    case hi
    then have "low = 8 - s" using low by linarith
    then have r: "8 \<le> s + j" "j < 9" "s + j - 8 = j - low" "j - low < 8" "j - low < nbits - low"
      using hi assms(1) s by linarith+
    show ?thesis
      using hi w carry_8 [of p j] r bit_scast_low [OF r(4), of "h ! (p div 8 + 1)"]
      unfolding hash_bit_def p_def [symmetric] s_def [symmetric] by simp
  next
    case out
    then have "\<not> j - low < nbits - low" using low by linarith
    then show ?thesis using out w by simp
  qed
qed

lemma champ_mask_bits:
  assumes "nbits \<le> 8"
  shows "bit (champ_mask h depth nbits) j \<longleftrightarrow> j < nbits \<and> hash_bit h (depth * nbits + j)"
proof -
  have top: "\<not> bit (mask_word h depth nbits) 31" using mask_bits [OF assms, of 31 h depth] assms by auto
  have "bit (scast (mask_word h depth nbits) :: u64) j \<longleftrightarrow> j < 64 \<and> bit (mask_word h depth nbits) (min 31 j)"
    by (auto simp: bit_signed_iff)
  also have "\<dots> \<longleftrightarrow> j < nbits \<and> hash_bit h (depth * nbits + j)"
    using top mask_bits [OF assms, of j h depth] assms by (cases "j < 32") (auto simp: min_def)
  finally show ?thesis by (simp add: champ_mask_word bit_unsigned_iff)
qed

lemma champ_mask_less: "nbits \<le> 8 \<Longrightarrow> champ_mask h depth nbits < 2 ^ nbits"
proof -
  assume n: "nbits \<le> 8"
  have "take_bit nbits (champ_mask h depth nbits) = champ_mask h depth nbits"
    by (rule bit_eqI) (auto simp: bit_take_bit_iff champ_mask_bits [OF n])
  then show ?thesis by (metis take_bit_nat_less_exp)
qed

lemma champ_mask_3 [simp]: "champ_mask h depth 3 < 8"
  using champ_mask_less [of 3 h depth] by simp

section \<open>Serialisation of nodes\<close>

text \<open>What a node must satisfy to be read back: valid links and values, and no explicit null value.\<close>

fun wf_payload :: "payload \<Rightarrow> bool" where
  "wf_payload (Link l) \<longleftrightarrow> wf_cid l"
| "wf_payload (Mappings ms) \<longleftrightarrow> (\<forall>m \<in> set ms. ke_value m \<noteq> Some CNull \<and> (\<forall>v. ke_value m = Some v \<longrightarrow> wf_cbor v))"

definition wf_champ :: "champ \<Rightarrow> bool" where
  "wf_champ c \<longleftrightarrow> (\<forall>p \<in> set (contents c). wf_payload p) \<and> (\<forall>b. mirror_bat c = Some b \<longrightarrow> wf_cid (bat_cid b))"

lemma mappings_roundtrip:
  "wf_payload (Mappings ms) \<Longrightarrow> mappings_from_cbor (concat (map mapping_to_cbor ms)) = Inr ms"
proof (induction ms)
  case (Cons m ms)
  have "(case (case ke_value m of None \<Rightarrow> CNull | Some v \<Rightarrow> v) of CNull \<Rightarrow> None | v \<Rightarrow> Some v) = ke_value m"
    using Cons.prems by (auto split: option.splits cbor.splits)
  then show ?case using Cons by (simp add: mapping_to_cbor_def)
qed simp

lemma payload_roundtrip:
  "wf_payload p \<Longrightarrow> \<exists>x. payload_to_cbor p = Inr x \<and> payload_from_cbor x = Inr p \<and> wf_cbor x"
proof (cases p)
  case (Mappings ms)
  assume wf: "wf_payload p"
  have "length (concat (map mapping_to_cbor ms)) = 2 * length ms" by (induction ms) (auto simp: mapping_to_cbor_def)
  moreover have "list_all wf_cbor (concat (map mapping_to_cbor ms))"
    using wf Mappings by (auto simp: list_all_iff mapping_to_cbor_def split: option.splits)
  ultimately show ?thesis using Mappings mappings_roundtrip [of ms] wf by simp
next
  case (Link l)
  assume "wf_payload p"
  then show ?thesis using Link cid_bytes_roundtrip [of l] by auto
qed

lemma payloads_roundtrip:
  "\<forall>p \<in> set ps. wf_payload p \<Longrightarrow>
   \<exists>xs. collect_results payload_to_cbor ps = Inr xs \<and> collect_results payload_from_cbor xs = Inr ps \<and> list_all wf_cbor xs"
proof (induction ps)
  case (Cons p ps)
  then obtain x xs where "payload_to_cbor p = Inr x" "payload_from_cbor x = Inr p" "wf_cbor x"
      "collect_results payload_to_cbor ps = Inr xs" "collect_results payload_from_cbor xs = Inr ps" "list_all wf_cbor xs"
    using payload_roundtrip by fastforce
  then show ?case by (intro exI [of _ "x # xs"]) simp
qed simp

lemma champ_list_roundtrip:
  assumes "wf_champ c"
  shows "\<exists>x. to_cbor_list c = Inr x \<and> from_cbor_list x = Inr (c\<lparr>mirror_bat := None\<rparr>) \<and> wf_cbor x \<and> (\<exists>l. x = CList l)"
proof -
  obtain xs where "collect_results payload_to_cbor (contents c) = Inr xs"
      "collect_results payload_from_cbor xs = Inr (contents c)" "list_all wf_cbor xs"
    using payloads_roundtrip [of "contents c"] assms by (auto simp: wf_champ_def)
  then show ?thesis by (simp add: to_cbor_list_def from_cbor_list_def)
qed

lemma bats_d_order: "cmp_cbor_string ''bats'' ''d'' = Greater" "cmp_cbor_string ''d'' ''bats'' = Less"
    "valid_utf8 ''bats''" "valid_utf8 ''d''"
  by code_simp+

lemma champ_roundtrip:
  assumes "wf_champ c"
  shows "\<exists>x. champ_to_cbor c = Inr x \<and> champ_from_cbor x = Inr c \<and> wf_cbor x"
proof -
  obtain x l where x: "to_cbor_list c = Inr x" "from_cbor_list x = Inr (c\<lparr>mirror_bat := None\<rparr>)" "wf_cbor x" "x = CList l"
    using champ_list_roundtrip [OF assms] by blast
  show ?thesis
  proof (cases "mirror_bat c")
    case None
    then show ?thesis using x by (auto simp: champ_to_cbor_def champ_from_cbor_def intro: exI [of _ x])
  next
    case (Some b)
    then obtain bs where bs: "cid_to_bytes (bat_cid b) = Inr bs" "cid_cast bs = Inr (bat_cid b)"
      using assms cid_bytes_roundtrip by (auto simp: wf_champ_def)
    let ?m = "[(''d'', x), (''bats'', CList [CByteString bs])]"
    have "build (put ''bats'' (CList [CByteString bs]) (put ''d'' x map_builder)) = CMap ?m"
      by (simp add: build_def put_def map_builder_def bats_d_order)
    moreover have "cbor_get (CMap ?m) ''bats'' = Some (CList [CByteString bs])" "cbor_get (CMap ?m) ''d'' = Some x"
      by (simp_all add: cbor_get_def cbor_key.cmp_refl bats_d_order)
    moreover have "wf_cbor (CMap ?m)" using x(3) by (simp add: bats_d_order)
    ultimately show ?thesis
      using x(1,2) bs Some
      by (intro exI [of _ "CMap ?m"]) (simp add: champ_to_cbor_def champ_from_cbor_def bat_to_cbor_def bat_from_cbor_def)
  qed
qed

end
