(* ===== verification/Champ_Tree.thy ===== *)
theory Champ_Tree
  imports Champ_Codec
begin

text \<open>
  The tree as a finite map.  \<open>repr\<close> says which map a node stands for, given what the store holds: each
  slot holds the keys whose hash has that index at the node's depth, a bucket has one to four mappings,
  and a child holds more than four keys.  Inside \<open>block_store\<close>, lookup, collection and size are shown to
  be those of the map, and insertion to be an update of it.
\<close>

section \<open>Buckets\<close>

definition ke_map :: "key_element list \<Rightarrow> bytes \<rightharpoonup> cbor option" where
  "ke_map ms = map_of (map (\<lambda>m. (ke_key m, ke_value m)) ms)"

abbreviation ke_distinct :: "key_element list \<Rightarrow> bool" where
  "ke_distinct ms \<equiv> distinct (map ke_key ms)"

lemma ke_map_simps [simp]:
  "ke_map [] = Map.empty"
  "ke_map (m # ms) = (ke_map ms)(ke_key m \<mapsto> ke_value m)"
  by (simp_all add: ke_map_def)

lemma dom_ke_map: "dom (ke_map ms) = ke_key ` set ms"
proof (induction ms)
  case (Cons a ms)
  then show ?case unfolding ke_map_simps dom_fun_upd by simp
qed simp

lemma ke_map_None: "ke_map ms k = None \<longleftrightarrow> k \<notin> ke_key ` set ms"
  unfolding dom_ke_map [symmetric] by (simp add: domIff)

lemma card_ke_map: "ke_distinct ms \<Longrightarrow> card (dom (ke_map ms)) = length ms"
  using distinct_card [of "map ke_key ms"] by (simp add: dom_ke_map)

lemma ke_map_Some: "ke_map ms k = Some v \<Longrightarrow> \<exists>m \<in> set ms. ke_key m = k \<and> ke_value m = v"
  by (induction ms) (auto split: if_splits)

lemma ke_map_in: "ke_distinct ms \<Longrightarrow> m \<in> set ms \<Longrightarrow> ke_map ms (ke_key m) = Some (ke_value m)"
  by (induction ms) (auto simp: image_iff)

lemma ke_map_perm:
  assumes "ke_distinct ms" "mset ms' = mset ms"
  shows "ke_map ms' = ke_map ms" "ke_distinct ms'"
proof -
  have "mset (map ke_key ms') = mset (map ke_key ms)" using assms(2) by simp
  then show d: "ke_distinct ms'" using assms(1) by (metis mset_eq_imp_distinct_iff)
  have set: "set ms' = set ms" using assms(2) by (metis set_mset_mset)
  show "ke_map ms' = ke_map ms"
  proof
    fix k
    show "ke_map ms' k = ke_map ms k"
      using ke_map_in [OF d] ke_map_in [OF assms(1)] ke_map_Some [of ms k] ke_map_Some [of ms' k] set
      by (cases "ke_map ms k"; cases "ke_map ms' k") (metis option.distinct(1) option.inject)+
  qed
qed

lemma mset_insert_by [simp]: "mset (insert_by c x xs) = add_mset x (mset xs)"
  by (induction xs) auto

lemma mset_sort_by [simp]: "mset (sort_by c xs) = mset xs"
  by (induction xs) (simp_all add: sort_by_def)

lemma set_sort_by [simp]: "set (sort_by c xs) = set xs"
  by (metis mset_sort_by set_mset_mset)

lemma length_sort_by [simp]: "length (sort_by c xs) = length xs"
  by (metis mset_sort_by size_mset)

lemma find_mapping_Some:
  "find_mapping k n ms = Some (p, m) \<Longrightarrow> \<exists>q. p = n + q \<and> q < length ms \<and> ms ! q = m \<and> ke_key m = k \<and> ke_map ms k = Some (ke_value m)"
proof (induction ms arbitrary: n)
  case (Cons a ms)
  show ?case
  proof (cases "ke_key a = k")
    case False
    then obtain q where "p = n + 1 + q" "q < length ms" "ms ! q = m" "ke_key m = k" "ke_map ms k = Some (ke_value m)"
      using Cons.IH [of "n + 1"] Cons.prems by auto
    then show ?thesis using False by (intro exI [of _ "Suc q"]) auto
  qed (use Cons.prems in auto)
qed simp

lemma find_mapping_None: "find_mapping k n ms = None \<longleftrightarrow> ke_map ms k = None"
  by (induction ms arbitrary: n) auto

lemma ke_map_set:
  assumes "ke_distinct ms" "p < length ms"
  shows "ke_map (ms[p := (ms ! p)\<lparr>ke_value := v\<rparr>]) = (ke_map ms)(ke_key (ms ! p) \<mapsto> v)"
    "map ke_key (ms[p := (ms ! p)\<lparr>ke_value := v\<rparr>]) = map ke_key ms"
proof -
  show keys: "map ke_key (ms[p := (ms ! p)\<lparr>ke_value := v\<rparr>]) = map ke_key ms"
    using assms(2) by (simp add: map_update list_update_same_conv)
  show "ke_map (ms[p := (ms ! p)\<lparr>ke_value := v\<rparr>]) = (ke_map ms)(ke_key (ms ! p) \<mapsto> v)"
    using assms
  proof (induction ms arbitrary: p)
    case (Cons a ms)
    show ?case
    proof (cases p)
      case (Suc q)
      then have "ke_key (ms ! q) \<in> ke_key ` set ms" using Cons.prems by simp
      then have "ke_key (ms ! q) \<noteq> ke_key a" using Cons.prems(1) by auto
      then show ?thesis using Cons.IH [of q] Cons.prems Suc by (auto simp: fun_eq_iff)
    qed (simp add: fun_eq_iff)
  qed simp
qed

lemma ke_map_delete:
  assumes "ke_distinct ms" "p < length ms"
  shows "ke_map (take p ms @ drop (Suc p) ms) = (ke_map ms)(ke_key (ms ! p) := None)"
    "ke_distinct (take p ms @ drop (Suc p) ms)"
proof -
  have e: "ms = take p ms @ ms ! p # drop (Suc p) ms" using assms(2) by (rule id_take_nth_drop)
  have d: "ke_distinct (take p ms @ ms ! p # drop (Suc p) ms)" using assms(1) e by simp
  then show "ke_distinct (take p ms @ drop (Suc p) ms)" by simp
  have "ke_map (xs @ m # ys) = (ke_map (xs @ ys))(ke_key m \<mapsto> ke_value m)" if "ke_distinct (xs @ m # ys)" for xs m ys
    using that by (induction xs) (auto simp: fun_upd_twist)
  from this [OF d] have "ke_map ms = (ke_map (take p ms @ drop (Suc p) ms))(ke_key (ms ! p) \<mapsto> ke_value (ms ! p))"
    using e by simp
  moreover have "ke_map (take p ms @ drop (Suc p) ms) (ke_key (ms ! p)) = None"
    using d by (auto simp: ke_map_None)
  ultimately show "ke_map (take p ms @ drop (Suc p) ms) = (ke_map ms)(ke_key (ms ! p) := None)" by auto
qed

lemma ke_map_filter: "ke_map (filter (\<lambda>m. ke_key m \<noteq> k) ms) = (ke_map ms)(k := None)"
  by (induction ms) (auto simp: fun_upd_twist)

lemma ke_map_snoc: "ke_map ms k = None \<Longrightarrow> ke_map (ms @ [\<lparr>ke_key = k, ke_value = v\<rparr>]) = (ke_map ms)(k \<mapsto> v)"
  by (induction ms) (auto simp: fun_upd_twist split: if_splits)

section \<open>Maps by slot\<close>

lemma slot_cases:
  obtains (none) "x = None" | (data) ms where "x = Some (Mappings ms)" | (link) l where "x = Some (Link l)"
  by (metis option.exhaust payload.exhaust)

abbreviation slot_keys_of :: "(bytes \<Rightarrow> bytes) \<Rightarrow> nat \<Rightarrow> nat \<Rightarrow> bytes set" where
  "slot_keys_of kh d i \<equiv> {k. champ_mask (kh k) d 3 = i}"

lemma restrict_upd_slot:
  "(m(k := w)) |` slot_keys_of kh d j =
     (if j = champ_mask (kh k) d 3 then (m |` slot_keys_of kh d j)(k := w) else m |` slot_keys_of kh d j)"
  by (auto simp: restrict_map_def fun_eq_iff)

lemma dom_slots: "dom m = (\<Union>i<8. dom (m |` slot_keys_of kh d i))"
proof -
  have "x \<in> (\<Union>i<8. dom (m |` slot_keys_of kh d i))" if "x \<in> dom m" for x
    using that by (intro UN_I [of "champ_mask (kh x) d 3"]) auto
  then show ?thesis by auto
qed

lemma card_slots:
  assumes "\<And>i. i < 8 \<Longrightarrow> finite (dom (m |` slot_keys_of kh d i))"
  shows "card (dom m) = (\<Sum>i<8. card (dom (m |` slot_keys_of kh d i)))"
  unfolding dom_slots [of m kh d] using assms
  by (intro card_UN_disjoint) auto

text \<open>\<open>holds sg l c\<close>: the block under \<open>l\<close> decodes to the node \<open>c\<close>.\<close>

definition holds :: "(cid \<Rightarrow> error + cbor option) \<Rightarrow> cid \<Rightarrow> champ \<Rightarrow> bool" where
  "holds sg l c \<longleftrightarrow> (\<exists>y. sg l = Inr (Some y) \<and> champ_from_cbor y = Inr c)"

lemma holds_unique: "holds sg l c \<Longrightarrow> holds sg l c' \<Longrightarrow> c = c'"
  by (auto simp: holds_def)

lemma load_child_holds: "holds sg l c \<Longrightarrow> load_child sg l = Inr c"
  by (auto simp: holds_def load_child_def)

definition slot_repr ::
  "(champ \<Rightarrow> (bytes \<rightharpoonup> cbor option) \<Rightarrow> bool) \<Rightarrow> (cid \<Rightarrow> error + cbor option) \<Rightarrow> payload option \<Rightarrow>
   (bytes \<rightharpoonup> cbor option) \<Rightarrow> bool" where
  "slot_repr R sg x m \<longleftrightarrow>
     (case x of
        None \<Rightarrow> m = Map.empty
      | Some (Mappings ms) \<Rightarrow> ms \<noteq> [] \<and> length ms \<le> 4 \<and> ke_distinct ms \<and> ke_map ms = m
      | Some (Link l) \<Rightarrow> 4 < card (dom m) \<and> (\<exists>c. holds sg l c \<and> R c m))"

primrec repr ::
  "(cid \<Rightarrow> error + cbor option) \<Rightarrow> (bytes \<Rightarrow> bytes) \<Rightarrow> nat \<Rightarrow> nat \<Rightarrow> champ \<Rightarrow> (bytes \<rightharpoonup> cbor option) \<Rightarrow> bool" where
  "repr sg kh 0 d c m \<longleftrightarrow> False"
| "repr sg kh (Suc h) d c m \<longleftrightarrow> wf_champ c \<and>
     (\<exists>s. is_node c s \<and> (\<forall>i<8. slot_repr (repr sg kh h (Suc d)) sg (s i) (m |` slot_keys_of kh d i)))"

lemma slot_repr_simps [simp]:
  "slot_repr R sg None m \<longleftrightarrow> m = Map.empty"
  "slot_repr R sg (Some (Mappings ms)) m \<longleftrightarrow> ms \<noteq> [] \<and> length ms \<le> 4 \<and> ke_distinct ms \<and> ke_map ms = m"
  "slot_repr R sg (Some (Link l)) m \<longleftrightarrow> 4 < card (dom m) \<and> (\<exists>c. holds sg l c \<and> R c m)"
  by (simp_all add: slot_repr_def)

lemma slot_repr_finite: "slot_repr R sg x m \<Longrightarrow> finite (dom m)"
proof (cases x rule: slot_cases)
  case (link l)
  assume "slot_repr R sg x m"
  then have "0 < card (dom m)" using link by simp
  then show ?thesis by (rule card_ge_0_finite)
qed (auto simp: dom_ke_map)

lemma repr_finite: "repr sg kh h d c m \<Longrightarrow> finite (dom m)"
proof (cases h)
  case (Suc n)
  assume "repr sg kh h d c m"
  then have "finite (dom (m |` slot_keys_of kh d i))" if "i < 8" for i
    using Suc that slot_repr_finite by (metis repr.simps(2))
  then show ?thesis unfolding dom_slots [of m kh d] by (intro finite_UN_I) auto
qed simp

lemma repr_wf: "repr sg kh h d c m \<Longrightarrow> wf_champ c"
  by (cases h) auto

lemma repr_mono:
  assumes "\<And>l y. sg l = Inr (Some y) \<Longrightarrow> sg' l = Inr (Some y)"
  shows "repr sg kh h d c m \<Longrightarrow> repr sg' kh h d c m"
proof (induction h arbitrary: d c m)
  case (Suc h)
  have "slot_repr (repr sg kh h (Suc d)) sg x m' \<Longrightarrow> slot_repr (repr sg' kh h (Suc d)) sg' x m'" for x m'
    using Suc.IH assms by (cases x rule: slot_cases) (auto simp: holds_def)
  then show ?case using Suc.prems by auto
qed simp

lemma is_node_unique:
  assumes "is_node c s" "is_node c s'" "i < 8"
  shows "s i = s' i"
proof (cases "s i" rule: slot_cases)
  case (data ms)
  then obtain ms' where "s' i = Some (Mappings ms')" using is_node_bits assms by metis
  then show ?thesis using data node_data [OF assms(1,3)] node_data [OF assms(2,3)] by simp
next
  case none
  then have "\<not> (\<exists>ms. s' i = Some (Mappings ms))" "\<not> (\<exists>l. s' i = Some (Link l))"
    using is_node_bits [OF assms(1,3)] is_node_bits [OF assms(2,3)] by auto
  then show ?thesis using none by (cases "s' i" rule: slot_cases) auto
next
  case (link l)
  then obtain l' where "s' i = Some (Link l')" using is_node_bits assms by metis
  then show ?thesis using link node_link_index [OF assms(1,3)] node_link_index [OF assms(2,3)] by fastforce
qed

lemma map_by_slots:
  assumes "\<And>i. i < 8 \<Longrightarrow> m |` slot_keys_of kh d i = m' |` slot_keys_of kh d i"
  shows "m = m'"
proof
  fix k
  have "(m |` slot_keys_of kh d (champ_mask (kh k) d 3)) k = (m' |` slot_keys_of kh d (champ_mask (kh k) d 3)) k"
    using assms by simp
  then show "m k = m' k" by simp
qed

lemma repr_unique: "repr sg kh h d c m \<Longrightarrow> repr sg kh h d c m' \<Longrightarrow> m = m'"
proof (induction h arbitrary: d c m m')
  case (Suc h)
  obtain s s' where s: "is_node c s" "\<forall>i<8. slot_repr (repr sg kh h (Suc d)) sg (s i) (m |` slot_keys_of kh d i)"
      and s': "is_node c s'" "\<forall>i<8. slot_repr (repr sg kh h (Suc d)) sg (s' i) (m' |` slot_keys_of kh d i)"
    using Suc.prems by auto
  show ?case
  proof (rule map_by_slots)
    fix i :: nat
    assume i: "i < 8"
    have "slot_repr (repr sg kh h (Suc d)) sg (s i) a \<Longrightarrow> slot_repr (repr sg kh h (Suc d)) sg (s i) b \<Longrightarrow> a = b" for a b
      using Suc.IH holds_unique by (cases "s i" rule: slot_cases) (auto, blast)
    then show "m |` slot_keys_of kh d i = m' |` slot_keys_of kh d i"
      using s s' i is_node_unique [OF s(1) s'(1) i] by metis
  qed
qed simp

lemma slots_of_node: "is_node c s \<Longrightarrow> set (contents c) = {p. \<exists>i<8. s i = Some p}"
proof -
  assume n: "is_node c s"
  have d: "p \<in> set (dat x) \<or> p \<in> set (lnk x) \<longleftrightarrow> x = Some p" for p x
    by (cases x rule: slot_cases) auto
  have "p \<in> set (contents c) \<longleftrightarrow> (\<exists>i<8. p \<in> set (dat (s i)) \<or> p \<in> set (lnk (s i)))" for p
    using n by (auto simp: is_node_def node_contents_def simp del: upt.simps)
  then show ?thesis unfolding d by blast
qed

lemma wf_champ_slots:
  "is_node c s \<Longrightarrow> wf_champ c \<longleftrightarrow> (\<forall>i<8. \<forall>p. s i = Some p \<longrightarrow> wf_payload p) \<and> (\<forall>b. mirror_bat c = Some b \<longrightarrow> wf_cid (bat_cid b))"
  by (auto simp: wf_champ_def slots_of_node)

section \<open>Reading\<close>

definition flat :: "'a option option \<Rightarrow> 'a option" where
  "flat x = (case x of Some y \<Rightarrow> y | None \<Rightarrow> None)"

lemma repr_slot:
  assumes "repr sg kh (Suc h) d c m"
  obtains s where "is_node c s" "\<And>i. i < 8 \<Longrightarrow> slot_repr (repr sg kh h (Suc d)) sg (s i) (m |` slot_keys_of kh d i)"
    "wf_champ c"
  using assms by auto

lemma champ_get_correct:
  "repr sg kh h d c m \<Longrightarrow> h \<le> fuel \<Longrightarrow> champ_get sg fuel c k (kh k) d 3 = Inr (flat (m k))"
proof (induction h arbitrary: fuel d c m)
  case (Suc h)
  then obtain f where f: "fuel = Suc f" "h \<le> f" by (cases fuel) auto
  obtain s where n: "is_node c s" and sl: "\<And>i. i < 8 \<Longrightarrow> slot_repr (repr sg kh h (Suc d)) sg (s i) (m |` slot_keys_of kh d i)"
    using repr_slot [OF Suc.prems(1)] by blast
  let ?i = "champ_mask (kh k) d 3" and ?m = "m |` slot_keys_of kh d (champ_mask (kh k) d 3)"
  have mk: "m k = ?m k" by simp
  note bits = is_node_bits [OF n champ_mask_3 [of "kh k" d]]
  have r: "slot_repr (repr sg kh h (Suc d)) sg (s ?i) ?m" using sl by simp
  show ?case
  proof (cases "s ?i" rule: slot_cases)
    case none
    then show ?thesis using bits f r mk by (simp add: Let_def flat_def)
  next
    case (data ms)
    then have "ke_map ms k = m k" using r mk by auto
    then show ?thesis
      using bits f data node_data [OF n champ_mask_3 data] find_mapping_Some [of k 0 ms] find_mapping_None [of k 0 ms]
      by (auto simp: Let_def flat_def split: option.splits)
  next
    case (link l)
    then obtain c' where c': "holds sg l c'" "repr sg kh h (Suc d) c' ?m" using r by auto
    have "get_child sg c (kh k) d 3 = Inr (Some c')"
      using node_link_index [OF n champ_mask_3 link] c'(1)
      by (auto simp: get_child_def child_link_def holds_def)
    moreover have "champ_get sg f c' k (kh k) (Suc d) 3 = Inr (flat (m k))" unfolding mk by (rule Suc.IH [OF c'(2) f(2)])
    ultimately show ?thesis using bits f(1) link by (simp add: Let_def)
  qed
qed simp

lemma collect_results_all:
  "(\<And>x. x \<in> set xs \<Longrightarrow> f x = Inr (g x)) \<Longrightarrow> collect_results f xs = Inr (map g xs)"
  by (induction xs) auto

section \<open>Monotone computations\<close>

context block_store
begin

definition mono_io :: "('s, error, 'a) io \<Rightarrow> bool" where
  "mono_io f \<longleftrightarrow> (\<forall>st r st'. f st = (r, st') \<longrightarrow> later st st')"

lemma mono_ioD: "mono_io f \<Longrightarrow> f st = (r, st') \<Longrightarrow> later st st'"
  by (simp add: mono_io_def)

lemma mono_ret [simp, intro]: "mono_io (io_ret x)" "mono_io (io_lift r)"
  by (auto simp: mono_io_def)

lemma mono_bind [intro]:
  assumes "mono_io f" "\<And>x. mono_io (g x)"
  shows "mono_io (io_bind f g)"
  unfolding mono_io_def
proof (intro allI impI)
  fix st r st'
  assume "io_bind f g st = (r, st')"
  then show "later st st'"
  proof (cases rule: io_bind_cases)
    case (val x st1)
    then show ?thesis using mono_ioD [OF assms(1)] mono_ioD [OF assms(2)] later_trans by blast
  qed (use assms(1) in \<open>auto simp: mono_io_def\<close>)
qed

lemma mono_read: "(\<And>x. mono_io (g x)) \<Longrightarrow> mono_io (\<lambda>st. io_bind (io_lift (f st)) g st)"
  by (auto simp: mono_io_def io_bind_def split: sum.splits)

lemma mono_if: "mono_io f \<Longrightarrow> mono_io g \<Longrightarrow> mono_io (if b then f else g)"
  by simp

lemma mono_case_option: "mono_io f \<Longrightarrow> (\<And>x. mono_io (g x)) \<Longrightarrow> mono_io (case x of None \<Rightarrow> f | Some x \<Rightarrow> g x)"
  by (cases x) auto

lemma mono_case_prod: "(\<And>x y. mono_io (f x y)) \<Longrightarrow> mono_io (case p of (x, y) \<Rightarrow> f x y)"
  by (cases p) auto

lemmas mono_intros = mono_if mono_case_option mono_case_prod mono_bind mono_read mono_ret

lemma mono_fold: "(\<And>b x. mono_io (f b x)) \<Longrightarrow> mono_io (io_fold f b xs)"
  by (induction xs arbitrary: b) auto

lemma mono_put [simp, intro]: "mono_io (sput b)"
  using put_later by (auto simp: mono_io_def)

lemma mono_write [simp, intro]: "mono_io (write_node sput c)"
  by (auto simp: write_node_def)

lemma mono_push:
  assumes "\<And>c k h d e v l. mono_io (P c k h d e v l)"
  shows "mono_io (push_mappings_down_a_level P sput kh c ms k h v d)"
proof -
  have "mono_io ((case b of (cur, l) \<Rightarrow> \<lambda>e. P cur (ke_key e) (kh (ke_key e)) d None (ke_value e) l) e)" for b e
    using assms by (cases b) simp
  then show ?thesis
    unfolding push_mappings_down_a_level_def by (intro mono_intros mono_fold mono_write assms)
qed

lemma mono_champ_put: "mono_io (champ_put sget sput kh bw mc fuel c k h d e v l)"
proof (induction fuel arbitrary: c k h d e v l)
  case (Suc fuel)
  show ?case
    unfolding champ_put.simps Let_def
    by (intro mono_intros mono_write mono_push Suc)
qed simp

lemma mono_champ_remove: "mono_io (champ_remove sget sput bw mc fuel c k h d e l)"
proof (induction fuel arbitrary: c k h d e l)
  case (Suc fuel)
  show ?case
    unfolding champ_remove.simps Let_def
    by (intro mono_intros mono_write Suc)
qed simp

end

end
