(* ===== verification/Champ_Put.thy ===== *)
theory Champ_Put
  imports Champ_Tree
begin

text \<open>
  Insertion into a CHAMP is the update of the map it stands for.  The proof is inside \<open>block_store\<close>, so
  it holds over every store with those laws; \<open>put_spec\<close> is what the recursive call promises.
\<close>

definition val_ok :: "cbor option \<Rightarrow> bool" where
  "val_ok v \<longleftrightarrow> v \<noteq> Some CNull \<and> (\<forall>x. v = Some x \<longrightarrow> wf_cbor x)"

lemma wf_payload_mappings: "wf_payload (Mappings ms) \<longleftrightarrow> (\<forall>m \<in> set ms. val_ok (ke_value m))"
  by (auto simp: val_ok_def)

declare wf_payload.simps(2) [simp del]
declare wf_payload_mappings [simp]

text \<open>Five keys of the set have the same index at all thirty-two levels.\<close>

definition collide :: "(bytes \<Rightarrow> bytes) \<Rightarrow> bytes set \<Rightarrow> bool" where
  "collide kh K \<longleftrightarrow> (\<exists>S \<subseteq> K. card S = 5 \<and> (\<forall>a \<in> S. \<forall>b \<in> S. \<forall>j < 32. champ_mask (kh a) j 3 = champ_mask (kh b) j 3))"

lemma collide_mono: "collide kh K \<Longrightarrow> K \<subseteq> K' \<Longrightarrow> collide kh K'"
  unfolding collide_def by (meson order_trans)

definition same_prefix :: "(bytes \<Rightarrow> bytes) \<Rightarrow> nat \<Rightarrow> bytes \<Rightarrow> bytes set \<Rightarrow> bool" where
  "same_prefix kh d k K \<longleftrightarrow> (\<forall>a \<in> K. \<forall>j < d. champ_mask (kh a) j 3 = champ_mask (kh k) j 3)"

lemma same_prefix_slot:
  assumes "same_prefix kh d k (dom m)"
  shows "same_prefix kh (Suc d) k (dom (m |` slot_keys_of kh d (champ_mask (kh k) d 3)))"
  using assms by (auto simp: same_prefix_def less_Suc_eq)

section \<open>Updating a node\<close>

lemma reprI:
  assumes "wf_champ c" "is_node c s" "\<And>i. i < 8 \<Longrightarrow> slot_repr (repr sg kh h (Suc d)) sg (s i) (m |` slot_keys_of kh d i)"
  shows "repr sg kh (Suc h) d c m"
  unfolding repr.simps using assms by blast

lemma edits_repr:
  assumes "is_node c s" "wf_champ c"
    "\<And>i. i < 8 \<Longrightarrow> slot_repr (repr sg kh h (Suc d)) sg (s i) (m |` slot_keys_of kh d i)"
    "edits c s (champ_mask (kh k) d 3) x (Inr c')" "\<And>p. x = Some p \<Longrightarrow> wf_payload p"
    "slot_repr (repr sg kh h (Suc d)) sg x ((m |` slot_keys_of kh d (champ_mask (kh k) d 3))(k := w))"
  shows "repr sg kh (Suc h) d c' (m(k := w))"
proof -
  let ?i = "champ_mask (kh k) d 3"
  have c': "is_node c' (s(?i := x))" "mirror_bat c' = mirror_bat c" using assms(4) by (auto simp: edits_def)
  have "wf_champ c'"
    using assms(2,5) c'(2) unfolding wf_champ_slots [OF assms(1)] wf_champ_slots [OF c'(1)] by auto
  moreover have "slot_repr (repr sg kh h (Suc d)) sg ((s(?i := x)) j) ((m(k := w)) |` slot_keys_of kh d j)" if "j < 8" for j
    using assms(3) [OF that] assms(6) unfolding restrict_upd_slot by (cases "j = ?i") simp_all
  ultimately show ?thesis using c'(1) by (intro reprI)
qed

lemma repr_empty: "wf_champ (with_bat champ_empty b) \<Longrightarrow> repr sg kh (Suc h) d (with_bat champ_empty b) Map.empty"
  by (rule reprI [OF _ is_node_empty]) (auto simp: restrict_map_def)

section \<open>The cases of the code\<close>

lemma io_bind_lift [simp]: "io_bind (io_lift (Inr x)) f = f x"
  by (simp add: io_bind_def io_lift_def)

lemma champ_put_data:
  assumes "bit_get (data_map c) (champ_mask h d bw)"
    "vec_at (contents c) (get_index (data_map c) (champ_mask h d bw)) = Inr (Mappings ms)"
  shows "champ_put sget sput kh bw mc (Suc fuel) c k h d expected v our =
    (case find_mapping k 0 ms of
       Some (p, m) \<Rightarrow>
         if ke_value m \<noteq> expected then io_lift (Inl (Protocol ''champ CAS failed''))
         else io_bind (io_lift (copy_and_set_value c (get_index (data_map c) (champ_mask h d bw)) p v)) (write_node sput)
     | None \<Rightarrow>
         if length ms < mc then
           io_bind (io_lift (insert_into_prefix c (get_index (data_map c) (champ_mask h d bw)) k v)) (write_node sput)
         else
           io_bind (push_mappings_down_a_level (champ_put sget sput kh bw mc fuel) sput kh c ms k h v (Suc d))
             (\<lambda>(child, l). io_bind (io_lift (copy_and_migrate_from_inline_to_node c (champ_mask h d bw) l)) (write_node sput)))"
  using assms by (cases "find_mapping k 0 ms") (auto simp: Let_def)

lemma champ_put_empty:
  assumes "\<not> bit_get (data_map c) (champ_mask h d bw)" "\<not> bit_get (node_map c) (champ_mask h d bw)"
  shows "champ_put sget sput kh bw mc (Suc fuel) c k h d expected v our =
    io_bind (io_lift (add_new_prefix c (champ_mask h d bw) k v)) (write_node sput)"
  using assms by (simp add: Let_def)

lemma champ_put_node:
  assumes "\<not> bit_get (data_map c) (champ_mask h d bw)" "bit_get (node_map c) (champ_mask h d bw)"
    "get_child_with_hash (sget st) c h d bw = Inr (l, child)"
  shows "champ_put sget sput kh bw mc (Suc fuel) c k h d expected v our st =
    io_bind (champ_put sget sput kh bw mc fuel child k h (Suc d) expected v l) (\<lambda>(new_child, l').
      if l' = l then io_ret (c, our)
      else io_bind (io_lift (overwrite_child_link c (champ_mask h d bw) l')) (write_node sput)) st"
  using assms by (simp add: Let_def)

context block_store
begin

definition store_err :: "error \<Rightarrow> bool" where
  "store_err e \<longleftrightarrow> (\<exists>b st st'. sput b st = (Inl e, st'))"

abbreviation tree :: "'s \<Rightarrow> (bytes \<Rightarrow> bytes) \<Rightarrow> nat \<Rightarrow> nat \<Rightarrow> champ \<Rightarrow> (bytes \<rightharpoonup> cbor option) \<Rightarrow> bool" where
  "tree st \<equiv> repr (sget st)"

lemma tree_later: "later st st' \<Longrightarrow> inv st \<Longrightarrow> ok st' \<Longrightarrow> tree st kh h d c m \<Longrightarrow> tree st' kh h d c m"
  by (rule repr_mono [of "sget st"]) (auto intro: later_get)

lemma holds_later: "later st st' \<Longrightarrow> inv st \<Longrightarrow> ok st' \<Longrightarrow> holds (sget st) l c \<Longrightarrow> holds (sget st') l c"
  by (auto simp: holds_def intro: later_get)

lemma slot_later:
  "later st st' \<Longrightarrow> inv st \<Longrightarrow> ok st' \<Longrightarrow> slot_repr (tree st kh h d) (sget st) x m \<Longrightarrow>
   slot_repr (tree st' kh h d) (sget st') x m"
  by (cases x rule: slot_cases) (auto intro: tree_later holds_later)

lemma write_node_correct:
  assumes "write_node sput c st = (r, st')" "wf_champ c" "inv st" "ok st'"
  shows "later st st' \<and> (case r of Inl e \<Rightarrow> store_err e | Inr (c', l) \<Rightarrow> c' = c \<and> holds (sget st') l c \<and> wf_cid l)"
proof -
  obtain x where x: "champ_to_cbor c = Inr x" "champ_from_cbor x = Inr c" "wf_cbor x"
    using champ_roundtrip [OF assms(2)] by blast
  have s: "champ_serialize c = Inr (to_bytes x)" using x(1) by (simp add: champ_serialize_def)
  show ?thesis
  proof (cases "sput (to_bytes x) st")
    case (Pair r1 st1)
    show ?thesis
    proof (cases r1)
      case (Inl e)
      then have "r = Inl e" "st' = st1" using assms(1) Pair s by (auto simp: write_node_def io_bind_def)
      moreover have "store_err e" using Pair Inl unfolding store_err_def by blast
      ultimately show ?thesis using put_later [OF Pair] by simp
    next
      case (Inr l)
      then have r: "r = Inr (c, l)" "st' = st1" using assms(1) Pair s by (auto simp: write_node_def io_bind_def)
      have p: "sput (to_bytes x) st = (Inr l, st')" using Pair Inr r by simp
      have "from_bytes (to_bytes x) = Inr x" using from_bytes_to_bytes [OF x(3)] put_size [OF p assms(4)] by simp
      then have "sget st' l = Inr (Some x)" using put_get [OF p assms(3,4)] by simp
      then show ?thesis using r x(2) put_later [OF p] put_cid [OF p] by (simp add: holds_def)
    qed
  qed
qed

text \<open>The result of inserting \<open>k\<close> with value \<open>v\<close> into a tree for \<open>m\<close>.\<close>

definition put_result ::
  "'s \<Rightarrow> (bytes \<Rightarrow> bytes) \<Rightarrow> nat \<Rightarrow> nat \<Rightarrow> (bytes \<rightharpoonup> cbor option) \<Rightarrow> bytes \<Rightarrow> cbor option \<Rightarrow> cbor option \<Rightarrow>
   error + champ \<times> cid \<Rightarrow> bool" where
  "put_result st' kh h d m k expected v r \<longleftrightarrow>
     (case r of
        Inr (c', l') \<Rightarrow> tree st' kh h d c' (m(k \<mapsto> v)) \<and> holds (sget st') l' c' \<and> wf_cid l' \<and>
          (\<forall>w. m k = Some w \<longrightarrow> w = expected)
      | Inl e \<Rightarrow> store_err e \<or>
          (e = Protocol ''champ CAS failed'' \<and> (\<exists>w. m k = Some w \<and> w \<noteq> expected)) \<or>
          (e = Protocol ''Hash collision!'' \<and> m k = None \<and> collide kh (insert k (dom m))))"

definition put_spec :: "'s putter \<Rightarrow> (bytes \<Rightarrow> bytes) \<Rightarrow> nat \<Rightarrow> nat \<Rightarrow> bool" where
  "put_spec P kh h d \<longleftrightarrow>
     (\<forall>c m k expected v our st r st'.
        tree st kh h d c m \<longrightarrow> inv st \<longrightarrow> val_ok v \<longrightarrow> holds (sget st) our c \<longrightarrow> wf_cid our \<longrightarrow>
        same_prefix kh d k (dom m) \<longrightarrow> P c k (kh k) d expected v our st = (r, st') \<longrightarrow> ok st' \<longrightarrow>
        put_result st' kh h d m k expected v r)"

lemma put_specD:
  assumes "put_spec P kh h d" "tree st kh h d c m" "inv st" "val_ok v" "holds (sget st) our c" "wf_cid our"
    "same_prefix kh d k (dom m)" "P c k (kh k) d expected v our st = (r, st')" "ok st'"
  shows "put_result st' kh h d m k expected v r"
  using assms unfolding put_spec_def by blast

text \<open>Writing an edited node finishes an insertion.\<close>

lemma write_edit:
  assumes "io_bind (io_lift e) (write_node sput) st = (r, st')" "inv st" "ok st'"
    "is_node c s" "wf_champ c"
    "\<And>i. i < 8 \<Longrightarrow> slot_repr (tree st kh h (Suc d)) (sget st) (s i) (m |` slot_keys_of kh d i)"
    "edits c s (champ_mask (kh k) d 3) x e" "\<And>p. x = Some p \<Longrightarrow> wf_payload p"
    "slot_repr (tree st kh h (Suc d)) (sget st) x ((m |` slot_keys_of kh d (champ_mask (kh k) d 3))(k := w))"
  shows "case r of Inl e \<Rightarrow> store_err e
    | Inr (c', l') \<Rightarrow> tree st' kh (Suc h) d c' (m(k := w)) \<and> holds (sget st') l' c' \<and> wf_cid l'"
proof -
  obtain c' where c': "e = Inr c'" using assms(7) by (auto simp: edits_def)
  then have t: "tree st kh (Suc h) d c' (m(k := w))"
    using edits_repr [OF assms(4,5,6) _ assms(8,9)] assms(7) by simp
  have wr: "write_node sput c' st = (r, st')" using assms(1) c' by (simp add: io_bind_def)
  have "later st st'" and *: "case r of Inl e \<Rightarrow> store_err e | Inr (c1, l) \<Rightarrow> c1 = c' \<and> holds (sget st') l c' \<and> wf_cid l"
    using write_node_correct [OF wr repr_wf [OF t] assms(2,3)] by auto
  from this(1) have "tree st' kh (Suc h) d c' (m(k := w))" using t by (rule tree_later [OF _ assms(2,3)])
  with * show ?thesis by (cases r) (auto simp del: repr.simps)
qed

text \<open>Inserting the old mappings one by one into the new child.\<close>

abbreviation reinsert :: "'s putter \<Rightarrow> (bytes \<Rightarrow> bytes) \<Rightarrow> nat \<Rightarrow> champ \<times> cid \<Rightarrow> key_element \<Rightarrow> ('s, error, champ \<times> cid) io" where
  "reinsert P kh d \<equiv> \<lambda>(cur, l) e. P cur (ke_key e) (kh (ke_key e)) d None (ke_value e) l"

definition pushed :: "'s \<Rightarrow> (bytes \<Rightarrow> bytes) \<Rightarrow> nat \<Rightarrow> nat \<Rightarrow> (bytes \<rightharpoonup> cbor option) \<Rightarrow> error + champ \<times> cid \<Rightarrow> bool" where
  "pushed st' kh h d m r \<longleftrightarrow>
     (case r of
        Inr (c', l') \<Rightarrow> tree st' kh h d c' m \<and> holds (sget st') l' c' \<and> wf_cid l'
      | Inl e \<Rightarrow> store_err e \<or> e = Protocol ''Hash collision!'' \<and> collide kh (dom m))"

lemma reinsert_correct:
  assumes "put_spec P kh h d" "\<And>c k h d e v l. mono_io (P c k h d e v l)"
    "io_fold (reinsert P kh d) (cur, l) ms st = (r, st')" "inv st" "ok st'"
    "tree st kh h d cur m" "holds (sget st) l cur" "wf_cid l"
    "ke_distinct ms" "dom m \<inter> ke_key ` set ms = {}" "\<forall>e \<in> set ms. val_ok (ke_value e)"
    "\<forall>a \<in> dom m \<union> ke_key ` set ms. \<forall>b \<in> dom m \<union> ke_key ` set ms. \<forall>j < d. champ_mask (kh a) j 3 = champ_mask (kh b) j 3"
  shows "pushed st' kh h d (m ++ ke_map ms) r"
  using assms(3-)
proof (induction ms arbitrary: cur l m st)
  case Nil
  then show ?case by (auto simp: pushed_def)
next
  case (Cons e ms)
  have fresh: "m (ke_key e) = None" using Cons.prems(8) by auto
  have pre: "same_prefix kh d (ke_key e) (dom m)" using Cons.prems(10) by (auto simp: same_prefix_def)
  have val: "val_ok (ke_value e)" using Cons.prems(9) by simp
  have eq: "m ++ ke_map (e # ms) = m(ke_key e \<mapsto> ke_value e) ++ ke_map ms"
  proof -
    have "ke_map ms (ke_key e) = None" using Cons.prems(7) by (simp add: ke_map_None)
    then show ?thesis by (auto simp: fun_eq_iff map_add_def split: option.split)
  qed
  have sub: "insert (ke_key e) (dom m) \<subseteq> dom (m ++ ke_map (e # ms))" by (auto simp: dom_ke_map)
  from Cons.prems(1) have b: "io_bind (P cur (ke_key e) (kh (ke_key e)) d None (ke_value e) l)
      (\<lambda>b. io_fold (reinsert P kh d) b ms) st = (r, st')" by simp
  then show ?case
  proof (cases rule: io_bind_cases)
    case (err x)
    have "put_result st' kh h d m (ke_key e) None (ke_value e) (Inl x)"
      using put_specD [OF assms(1) Cons.prems(4,2) val Cons.prems(5,6) pre err(1) Cons.prems(3)] .
    then have "store_err x \<or> x = Protocol ''Hash collision!'' \<and> collide kh (insert (ke_key e) (dom m))"
      using fresh by (auto simp: put_result_def)
    then show ?thesis unfolding pushed_def err(2) sum.case using collide_mono [OF _ sub] by blast
  next
    case (val p st1)
    obtain c1 l1 where p: "p = (c1, l1)" by (cases p)
    have mono: "later st st1" "later st1 st'"
      using mono_ioD [OF assms(2) val(1)] val(2) p assms(2)
        mono_ioD [OF mono_fold [of "reinsert P kh d"]] by (auto split: prod.splits)
    have st1: "inv st1" "ok st1" using mono later_inv later_ok Cons.prems(2,3) by blast+
    have "put_result st1 kh h d m (ke_key e) None (ke_value e) (Inr (c1, l1))"
      using put_specD [OF assms(1) Cons.prems(4,2) \<open>val_ok (ke_value e)\<close> Cons.prems(5,6) pre val(1) [unfolded p] st1(2)] .
    then have t: "tree st1 kh h d c1 (m(ke_key e \<mapsto> ke_value e))" "holds (sget st1) l1 c1" "wf_cid l1"
      by (auto simp: put_result_def)
    have dk: "dom (m(ke_key e \<mapsto> ke_value e)) = insert (ke_key e) (dom m)" by simp
    have disj: "dom (m(ke_key e \<mapsto> ke_value e)) \<inter> ke_key ` set ms = {}"
      unfolding dk using Cons.prems(7,8) by auto
    have all: "dom (m(ke_key e \<mapsto> ke_value e)) \<union> ke_key ` set ms = dom m \<union> ke_key ` set (e # ms)"
      unfolding dk by auto
    have "ke_distinct ms" "\<forall>e \<in> set ms. val_ok (ke_value e)" using Cons.prems(7,9) by auto
    then show ?thesis
      unfolding eq
      using Cons.IH [OF val(2) [unfolded p] st1(1) Cons.prems(3) t _ disj _ Cons.prems(10) [folded all]] by blast
  qed
qed

lemma push_correct:
  assumes "put_spec P kh h d" "\<And>c k h d e v l. mono_io (P c k h d e v l)" "h \<noteq> 0 \<longleftrightarrow> d < 32"
    "push_mappings_down_a_level P sput kh c ms k (kh k) v d st = (r, st')" "inv st" "ok st'"
    "wf_champ c" "ke_distinct ms" "k \<notin> ke_key ` set ms" "4 \<le> length ms" "val_ok v" "\<forall>e \<in> set ms. val_ok (ke_value e)"
    "same_prefix kh d k (ke_key ` set ms)" "d \<le> 32"
  shows "pushed st' kh h d ((ke_map ms)(k \<mapsto> v)) r"
proof (cases "d \<ge> 32")
  case True
  let ?K = "insert k (ke_key ` set ms)"
  have "card (ke_key ` set ms) = length ms" using assms(8) distinct_card [of "map ke_key ms"] by simp
  then have "5 \<le> card ?K" using assms(9,10) by simp
  then obtain S where S: "S \<subseteq> ?K" "card S = 5" by (meson obtain_subset_with_card_n)
  have "champ_mask (kh a) j 3 = champ_mask (kh k) j 3" if "a \<in> ?K" "j < 32" for a j
    using assms(13) that True by (auto simp: same_prefix_def)
  then have "champ_mask (kh a) j 3 = champ_mask (kh b) j 3" if "a \<in> S" "b \<in> S" "j < 32" for a b j
    using that S(1) by (metis subsetD)
  then have "collide kh ?K" using S unfolding collide_def by blast
  then show ?thesis
    using True assms(4) by (auto simp: push_mappings_down_a_level_def pushed_def dom_ke_map)
next
  case False
  then obtain h' where h: "h = Suc h'" using assms(3) by (cases h) auto
  let ?E = "with_bat champ_empty (mirror_bat c)"
  have wfE: "wf_champ ?E" using assms(7) by (simp add: wf_champ_def with_bat_def champ_empty_def)
  have allm: "\<forall>a \<in> insert k (ke_key ` set ms). \<forall>b \<in> insert k (ke_key ` set ms). \<forall>j < d.
      champ_mask (kh a) j 3 = champ_mask (kh b) j 3"
    using assms(13) by (auto simp: same_prefix_def)
  from assms(4) False have "io_bind (write_node sput ?E) (\<lambda>(empty, empty_hash).
      io_bind (P empty k (kh k) d None v empty_hash) (\<lambda>start. io_fold (reinsert P kh d) start ms)) st = (r, st')"
    by (simp add: push_mappings_down_a_level_def)
  then show ?thesis
  proof (cases rule: io_bind_cases)
    case (err x)
    then show ?thesis using write_node_correct [OF err(1) wfE assms(5,6)] by (simp add: pushed_def)
  next
    case (val p st1)
    obtain e le where p: "p = (e, le)" by (cases p)
    have fold_mono: "mono_io (io_fold (reinsert P kh d) start ms)" for start
      using assms(2) by (intro mono_fold) (auto split: prod.split)
    have l1: "later st st1" "later st1 st'"
      using mono_ioD [OF mono_write val(1)] val(2) p
        mono_ioD [OF mono_bind [OF assms(2) fold_mono]] by auto
    have st1: "inv st1" "ok st1" using l1 later_inv later_ok assms(5,6) by blast+
    have e: "e = ?E" "holds (sget st1) le e" "wf_cid le"
      using write_node_correct [OF val(1) wfE assms(5) st1(2)] p by auto
    have te: "tree st1 kh h d e Map.empty" unfolding h e(1) by (rule repr_empty [OF wfE])
    from val(2) p have "io_bind (P e k (kh k) d None v le) (\<lambda>start. io_fold (reinsert P kh d) start ms) st1 = (r, st')"
      by simp
    then show ?thesis
    proof (cases rule: io_bind_cases)
      case (err x)
      have "put_result st' kh h d Map.empty k None v (Inl x)"
        using put_specD [OF assms(1) te st1(1) assms(11) e(2,3) _ err(1) assms(6)] by (simp add: same_prefix_def)
      then show ?thesis
        using err(2) collide_mono [of kh "{k}" "dom ((ke_map ms)(k \<mapsto> v))"] by (auto simp: put_result_def pushed_def)
    next
      case (val p2 st2)
      obtain c2 l2 where p2: "p2 = (c2, l2)" by (cases p2)
      have l2: "later st1 st2" "later st2 st'"
        using mono_ioD [OF assms(2) val(1)] mono_ioD [OF fold_mono val(2)] by auto
      have st2: "inv st2" "ok st2" using l2 later_inv later_ok st1(1) assms(6) by blast+
      have "put_result st2 kh h d Map.empty k None v (Inr (c2, l2))"
        using put_specD [OF assms(1) te st1(1) assms(11) e(2,3) _ val(1) [unfolded p2] st2(2)]
        by (simp add: same_prefix_def)
      then have t2: "tree st2 kh h d c2 [k \<mapsto> v]" "holds (sget st2) l2 c2" "wf_cid l2" by (auto simp: put_result_def)
      have dk: "dom [k \<mapsto> v] = {k}" by simp
      have disj: "dom [k \<mapsto> v] \<inter> ke_key ` set ms = {}" unfolding dk using assms(9) by blast
      have pre: "\<forall>a \<in> dom [k \<mapsto> v] \<union> ke_key ` set ms. \<forall>b \<in> dom [k \<mapsto> v] \<union> ke_key ` set ms. \<forall>j < d.
          champ_mask (kh a) j 3 = champ_mask (kh b) j 3"
        using allm unfolding dk insert_is_Un [of k "ke_key ` set ms"] .
      have "pushed st' kh h d ([k \<mapsto> v] ++ ke_map ms) r"
        by (rule reinsert_correct [OF assms(1,2) val(2) [unfolded p2] st2(1) assms(6) t2 assms(8) disj assms(12) pre])
      moreover have "[k \<mapsto> v] ++ ke_map ms = (ke_map ms)(k \<mapsto> v)"
      proof -
        have "ke_map ms k = None" using assms(9) by (simp add: ke_map_None)
        then show ?thesis by (auto simp: fun_eq_iff map_add_def split: option.split)
      qed
      ultimately show ?thesis by simp
    qed
  qed
qed

text \<open>The three cases of \<open>put\<close>: an empty slot, a bucket, a child.\<close>

lemma finish_put:
  assumes "case r of Inl e \<Rightarrow> store_err e
      | Inr (c', l') \<Rightarrow> tree st' kh h d c' (m(k \<mapsto> v)) \<and> holds (sget st') l' c' \<and> wf_cid l'"
    "\<forall>w. m k = Some w \<longrightarrow> w = expected"
  shows "put_result st' kh h d m k expected v r"
  using assms by (auto simp: put_result_def split: sum.splits)

lemma put_bucket:
  assumes IH: "put_spec (champ_put sget sput kh 3 4 fuel) kh h (Suc d)"
    and n: "is_node c s" "wf_champ c"
    and sl: "\<And>i. i < 8 \<Longrightarrow> slot_repr (tree st kh h (Suc d)) (sget st) (s i) (m |` slot_keys_of kh d i)"
    and x: "s (champ_mask (kh k) d 3) = Some (Mappings ms)"
    and st: "inv st" "ok st'" "val_ok v" "same_prefix kh d k (dom m)" "Suc d + h = 32"
    and run: "champ_put sget sput kh 3 4 (Suc fuel) c k (kh k) d expected v our st = (r, st')"
  shows "put_result st' kh (Suc h) d m k expected v r"
proof -
  let ?i = "champ_mask (kh k) d 3" and ?m = "m |` slot_keys_of kh d (champ_mask (kh k) d 3)"
  have i: "?i < 8" by simp
  have ms: "ms \<noteq> []" "length ms \<le> 4" "ke_distinct ms" "ke_map ms = ?m" using sl [OF i] x by auto
  have wfm: "\<forall>e \<in> set ms. val_ok (ke_value e)"
    using n(2) x i unfolding wf_champ_slots [OF n(1)] by (metis wf_payload_mappings)
  have bits: "bit_get (data_map c) ?i" using is_node_bits(1) [OF n(1) i] x by blast
  note run' = run [unfolded champ_put_data [OF bits node_data [OF n(1) i x]]]
  show ?thesis
  proof (cases "find_mapping k 0 ms")
    case None
    then have kn: "ke_map ms k = None" using find_mapping_None by blast
    then have mn: "m k = None" unfolding ms(4) by simp
    show ?thesis
    proof (cases "length ms < 4")
      case True
      let ?ms = "sort_by (\<lambda>a b. byte_array_compare (ke_key a) (ke_key b)) (ms @ [\<lparr>ke_key = k, ke_value = v\<rparr>])"
      have d: "ke_distinct (ms @ [\<lparr>ke_key = k, ke_value = v\<rparr>])" using ms(3) kn by (auto simp: ke_map_None)
      have perm: "ke_map ?ms = ?m(k \<mapsto> v)" "ke_distinct ?ms"
        using ke_map_perm [OF d, of ?ms] ke_map_snoc [OF kn] ms(4) by auto
      note w = run' [unfolded None option.case if_P [OF True]]
      have ne: "?ms \<noteq> []" by (metis length_sort_by length_append_singleton list.size(3) nat.distinct(1))
      show ?thesis
      proof (rule finish_put [OF write_edit [OF w st(1,2) n sl insert_into_prefix_edits [OF n(1) i x]]])
        show "wf_payload p" if "Some (Mappings ?ms) = Some p" for p using that wfm st(3) by auto
        show "slot_repr (tree st kh h (Suc d)) (sget st) (Some (Mappings ?ms)) (?m(k \<mapsto> v))"
          using perm True ne by (simp only: slot_repr_simps length_sort_by) simp
        show "\<forall>w. m k = Some w \<longrightarrow> w = expected" using mn by simp
      qed
    next
      case False
      let ?push = "push_mappings_down_a_level (champ_put sget sput kh 3 4 fuel) sput kh c ms k (kh k) v (Suc d)"
      have len: "4 \<le> length ms" using False by simp
      have dom: "ke_key ` set ms = dom ?m" using ms(4) by (simp flip: dom_ke_map)
      have kfresh: "k \<notin> ke_key ` set ms" using kn by (simp add: ke_map_None)
      have pre: "same_prefix kh (Suc d) k (ke_key ` set ms)" unfolding dom by (rule same_prefix_slot [OF st(4)])
      have hd: "h \<noteq> 0 \<longleftrightarrow> Suc d < 32" "Suc d \<le> 32" using st(5) by auto
      have pushed: "pushed st1 kh h (Suc d) (?m(k \<mapsto> v)) r1" if "?push st = (r1, st1)" "ok st1" for r1 st1
        using push_correct [OF IH mono_champ_put hd(1) that(1) st(1) that(2) n(2) ms(3) kfresh len st(3) wfm pre hd(2)]
        unfolding ms(4) .
      have "io_bind ?push (\<lambda>(child, child_hash).
          io_bind (io_lift (copy_and_migrate_from_inline_to_node c ?i child_hash)) (write_node sput)) st = (r, st')"
        using run' [unfolded None option.case if_not_P [OF False]] .
      then show ?thesis
      proof (cases rule: io_bind_cases)
        case (err e)
        have "store_err e \<or> e = Protocol ''Hash collision!'' \<and> collide kh (dom (?m(k \<mapsto> v)))"
          using pushed [OF err(1) st(2)] by (simp add: pushed_def)
        moreover have "dom (?m(k \<mapsto> v)) \<subseteq> insert k (dom m)" by auto
        ultimately show ?thesis unfolding put_result_def err(2) sum.case using collide_mono mn by blast
      next
        case (val p st1)
        obtain c1 l1 where p: "p = (c1, l1)" by (cases p)
        have w: "io_bind (io_lift (copy_and_migrate_from_inline_to_node c ?i l1)) (write_node sput) st1 = (r, st')"
          using val(2) p by simp
        have later: "later st st1" "later st1 st'"
          using mono_ioD [OF mono_push [OF mono_champ_put] val(1)] mono_ioD [OF mono_bind [OF mono_ret(2) mono_write] w] .
        have st1: "inv st1" "ok st1" using later later_inv later_ok st(1,2) by blast+
        have t1: "tree st1 kh h (Suc d) c1 (?m(k \<mapsto> v))" "holds (sget st1) l1 c1" "wf_cid l1"
          using pushed [OF val(1) st1(2)] p by (simp_all add: pushed_def)
        have "card (dom (?m(k \<mapsto> v))) = Suc (card (dom ?m))"
          using kfresh unfolding dom_fun_upd dom [symmetric] by simp
        moreover have "card (dom ?m) = length ms" using card_ke_map [OF ms(3)] ms(4) by simp
        ultimately have card: "4 < card (dom (?m(k \<mapsto> v)))" using len by simp
        show ?thesis
        proof (rule finish_put [OF write_edit [OF w st1(1) st(2) n slot_later [OF later(1) st(1) st1(2) sl]
                inline_to_node_edits [OF n(1) i x]]])
          show "wf_payload p" if "Some (Link l1) = Some p" for p using that t1(3) by auto
          show "slot_repr (tree st1 kh h (Suc d)) (sget st1) (Some (Link l1)) (?m(k \<mapsto> v))"
            unfolding slot_repr_simps using card t1 by blast
          show "\<forall>w. m k = Some w \<longrightarrow> w = expected" using mn by simp
        qed
      qed
    qed
  next
    case (Some pm)
    obtain p e where pm: "pm = (p, e)" by (cases pm)
    then have f: "p < length ms" "ms ! p = e" "ke_key e = k" "ke_map ms k = Some (ke_value e)"
      using find_mapping_Some [of k 0 ms p e] Some by auto
    have mk': "m k = Some (ke_value e)" using f(4) unfolding ms(4) by simp
    show ?thesis
    proof (cases "ke_value e = expected")
      case False
      then have "r = Inl (Protocol ''champ CAS failed'')" using run' Some pm by simp
      then show ?thesis using mk' False by (simp add: put_result_def)
    next
      case True
      let ?ms = "ms[p := (ms ! p)\<lparr>ke_value := v\<rparr>]"
      have w: "io_bind (io_lift (copy_and_set_value c (get_index (data_map c) ?i) p v)) (write_node sput) st = (r, st')"
        using run' Some pm True by simp
      have km: "ke_map ?ms = ?m(k \<mapsto> v)" "ke_distinct ?ms"
        using ke_map_set [OF ms(3) f(1), of v] f(2,3) ms(3,4) by simp_all
      show ?thesis
      proof (rule finish_put [OF write_edit [OF w st(1,2) n sl copy_and_set_value_edits [OF n(1) i x f(1)]]])
        show "wf_payload q" if "Some (Mappings ?ms) = Some q" for q
        proof -
          have "\<forall>a \<in> set ?ms. val_ok (ke_value a)" using wfm st(3) by (auto dest!: set_update_subset_insert [THEN subsetD])
          then show ?thesis using that by auto
        qed
        show "slot_repr (tree st kh h (Suc d)) (sget st) (Some (Mappings ?ms)) (?m(k \<mapsto> v))"
          unfolding slot_repr_simps using km ms(1,2) by simp
        show "\<forall>w. m k = Some w \<longrightarrow> w = expected" using mk' True by simp
      qed
    qed
  qed
qed

lemma get_child_with_hash_link:
  assumes "is_node c s" "s (champ_mask hk d 3) = Some (Link l)" "holds sg l child"
  shows "get_child_with_hash sg c hk d 3 = Inr (l, child)"
  using node_link_index [OF assms(1) champ_mask_3 assms(2)] load_child_holds [OF assms(3)]
  by (auto simp: get_child_with_hash_def child_link_def)

lemma put_child:
  assumes IH: "put_spec (champ_put sget sput kh 3 4 fuel) kh h (Suc d)"
    and n: "is_node c s" "wf_champ c"
    and sl: "\<And>i. i < 8 \<Longrightarrow> slot_repr (tree st kh h (Suc d)) (sget st) (s i) (m |` slot_keys_of kh d i)"
    and x: "s (champ_mask (kh k) d 3) = Some (Link l)"
    and st: "inv st" "ok st'" "val_ok v" "same_prefix kh d k (dom m)"
    and our: "tree st kh (Suc h) d c m" "holds (sget st) our c" "wf_cid our"
    and run: "champ_put sget sput kh 3 4 (Suc fuel) c k (kh k) d expected v our st = (r, st')"
  shows "put_result st' kh (Suc h) d m k expected v r"
proof -
  let ?i = "champ_mask (kh k) d 3" and ?m = "m |` slot_keys_of kh d (champ_mask (kh k) d 3)"
  have i: "?i < 8" by simp
  obtain child where child: "4 < card (dom ?m)" "holds (sget st) l child" "tree st kh h (Suc d) child ?m"
    using sl [OF i] x by auto
  have wfl: "wf_cid l" using n(2) x i unfolding wf_champ_slots [OF n(1)] by (metis wf_payload.simps(1))
  have bits: "\<not> bit_get (data_map c) ?i" "bit_get (node_map c) ?i" using is_node_bits [OF n(1) i] x by auto
  note pre = same_prefix_slot [OF st(4)]
  note run' = run [unfolded champ_put_node [where sget = sget and st = st, OF bits get_child_with_hash_link [OF n(1) x child(2)]]]
  note call = put_specD [OF IH child(3) st(1,3) child(2) wfl pre]
  from run' show ?thesis
  proof (cases rule: io_bind_cases)
    case (err e)
    have "put_result st' kh h (Suc d) ?m k expected v (Inl e)" using call [OF err(1) st(2)] .
    moreover have "insert k (dom ?m) \<subseteq> insert k (dom m)" by auto
    ultimately show ?thesis
      unfolding put_result_def err(2) sum.case using collide_mono by (auto simp del: dom_restrict)
  next
    case (val p st1)
    obtain c1 l1 where p: "p = (c1, l1)" by (cases p)
    have later: "later st st1" using mono_ioD [OF mono_champ_put val(1)] .
    have later': "later st1 st'"
      using mono_ioD [OF mono_if [OF mono_ret(1) mono_bind [OF mono_ret(2) mono_write]] val(2) [unfolded p prod.case]] .
    have st1: "inv st1" "ok st1" using later later' later_inv later_ok st(1,2) by blast+
    have res: "tree st1 kh h (Suc d) c1 (?m(k \<mapsto> v))" "holds (sget st1) l1 c1" "wf_cid l1"
        "\<forall>w. m k = Some w \<longrightarrow> w = expected"
      using call [OF val(1) [unfolded p] st1(2)] by (auto simp: put_result_def)
    have fin: "finite (dom ?m)" using repr_finite [OF child(3)] .
    show ?thesis
    proof (cases "l1 = l")
      case True
      then have r: "r = Inr (c, our)" "st' = st1" using val(2) p by auto
      have "c1 = child" using res(2) holds_later [OF later st(1) st1(2) child(2)] True holds_unique by blast
      then have "?m = ?m(k \<mapsto> v)" using res(1) tree_later [OF later st(1) st1(2) child(3)] repr_unique by blast
      then have "?m k = Some v" by (metis fun_upd_same)
      then have same: "m(k \<mapsto> v) = m" by (auto simp: fun_eq_iff restrict_map_def split: if_splits)
      show ?thesis
        using r res(4) our(3) same tree_later [OF later st(1) st1(2) our(1)] holds_later [OF later st(1) st1(2) our(2)]
        by (simp add: put_result_def del: repr.simps)
    next
      case False
      have w: "io_bind (io_lift (overwrite_child_link c ?i l1)) (write_node sput) st1 = (r, st')"
        using val(2) p False by simp
      have "card (dom ?m) \<le> card (dom (?m(k \<mapsto> v)))" 
        unfolding dom_fun_upd using fin by (auto intro: card_mono simp del: dom_restrict)
      then have card: "4 < card (dom (?m(k \<mapsto> v)))" using child(1) by simp
      show ?thesis
      proof (rule finish_put [OF write_edit [OF w st1(1) st(2) n slot_later [OF later st(1) st1(2) sl]
              overwrite_child_link_edits [OF n(1) i x]] res(4)])
        show "wf_payload q" if "Some (Link l1) = Some q" for q using that res(3) by auto
        show "slot_repr (tree st1 kh h (Suc d)) (sget st1) (Some (Link l1)) (?m(k \<mapsto> v))"
          unfolding slot_repr_simps using card res(1,2) by blast
      qed
    qed
  qed
qed

lemma champ_put_spec: "d + h = 32 \<Longrightarrow> h \<le> fuel \<Longrightarrow> put_spec (champ_put sget sput kh 3 4 fuel) kh h d"
proof (induction fuel arbitrary: h d)
  case 0
  then show ?case by (simp add: put_spec_def)
next
  case (Suc fuel)
  show ?case
  proof (cases h)
    case 0
    then show ?thesis by (simp add: put_spec_def)
  next
    case (Suc h')
    have IH: "put_spec (champ_put sget sput kh 3 4 fuel) kh h' (Suc d)" using Suc.IH Suc.prems Suc by simp
    show ?thesis
      unfolding put_spec_def Suc
    proof (intro allI impI)
      fix c m k expected v our st r st'
      assume t: "tree st kh (Suc h') d c m" and a: "inv st" "val_ok v" "holds (sget st) our c" "wf_cid our"
        "same_prefix kh d k (dom m)" "champ_put sget sput kh 3 4 (Suc fuel) c k (kh k) d expected v our st = (r, st')" "ok st'"
      obtain s where n: "is_node c s" "wf_champ c"
          and sl: "\<And>i. i < 8 \<Longrightarrow> slot_repr (tree st kh h' (Suc d)) (sget st) (s i) (m |` slot_keys_of kh d i)"
        using repr_slot [OF t] by blast
      have dh: "Suc d + h' = 32" using Suc.prems Suc by simp
      let ?i = "champ_mask (kh k) d 3"
      have i: "?i < 8" by simp
      show "put_result st' kh (Suc h') d m k expected v r"
      proof (cases "s ?i" rule: slot_cases)
        case none
        have bits: "\<not> bit_get (data_map c) ?i" "\<not> bit_get (node_map c) ?i" using is_node_bits [OF n(1) i] none by auto
        note w = a(6) [unfolded champ_put_empty [OF bits]]
        have "m |` slot_keys_of kh d ?i = Map.empty" using sl [OF i] none by simp
        then have e: "(m |` slot_keys_of kh d ?i)(k \<mapsto> v) = [k \<mapsto> v]" "m k = None"
          by (auto simp: fun_eq_iff restrict_map_def split: if_splits)
        show ?thesis
        proof (rule finish_put [OF write_edit [OF w a(1,7) n sl add_new_prefix_edits [OF n(1) i none]]])
          show "wf_payload p" if "Some (Mappings [\<lparr>ke_key = k, ke_value = v\<rparr>]) = Some p" for p
            using that a(2) by auto
          show "slot_repr (tree st kh h' (Suc d)) (sget st) (Some (Mappings [\<lparr>ke_key = k, ke_value = v\<rparr>]))
              ((m |` slot_keys_of kh d ?i)(k \<mapsto> v))"
            unfolding e(1) by simp
          show "\<forall>w. m k = Some w \<longrightarrow> w = expected" using e(2) by simp
        qed
      next
        case (data ms)
        show ?thesis by (rule put_bucket [OF IH n sl data a(1,7,2,5) dh a(6)])
      next
        case (link l)
        show ?thesis by (rule put_child [OF IH n sl link a(1,7,2,5) t a(3,4,6)])
      qed
    qed
  qed
qed

end

end
