(* ===== verification/Champ_Remove.thy ===== *)
theory Champ_Remove
  imports Champ_Put
begin

text \<open>
  Counting, size and collection of a tree, and removal: it is the deletion from the map, and a subtree
  that is left with four keys collapses into a single bucket, so that again no child holds four keys or fewer.
\<close>

section \<open>Counting keys\<close>

text \<open>The node \<open>c\<close> with slots \<open>s\<close>, at depth \<open>d\<close>, stands for \<open>m\<close>.\<close>

definition node_repr ::
  "(cid \<Rightarrow> error + cbor option) \<Rightarrow> (bytes \<Rightarrow> bytes) \<Rightarrow> nat \<Rightarrow> nat \<Rightarrow> champ \<Rightarrow> slots \<Rightarrow> (bytes \<rightharpoonup> cbor option) \<Rightarrow> bool" where
  "node_repr sg kh h d c s m \<longleftrightarrow>
     is_node c s \<and> (\<forall>i<8. slot_repr (repr sg kh h (Suc d)) sg (s i) (m |` slot_keys_of kh d i))"

lemma node_reprD:
  assumes "node_repr sg kh h d c s m"
  shows "is_node c s" "\<And>i. i < 8 \<Longrightarrow> slot_repr (repr sg kh h (Suc d)) sg (s i) (m |` slot_keys_of kh d i)"
  using assms by (simp_all add: node_repr_def)

lemma repr_node:
  assumes "repr sg kh h d c m"
  obtains h' s where "h = Suc h'" "node_repr sg kh h' d c s m" "wf_champ c"
  using assms by (cases h) (auto simp: node_repr_def)

lemma card_bucket:
  assumes "slot_repr R sg (Some (Mappings ms)) m"
  shows "card (dom m) = length ms"
  using assms card_ke_map by auto

lemma card_sum:
  assumes "node_repr sg kh h d c s m"
  shows "card (dom m) = (\<Sum>i<8. card (dom (m |` slot_keys_of kh d i)))"
  by (rule card_slots [OF slot_repr_finite [OF node_reprD(2) [OF assms]]])

lemma slot_count:
  assumes "slot_repr R sg x m"
  shows "5 * slot_nodes x + slot_keys x \<le> card (dom m)" "slot_nodes x = 0 \<Longrightarrow> card (dom m) = slot_keys x"
  using assms card_bucket [of R sg _ m] by (cases x rule: slot_cases; fastforce)+

lemma count_ge:
  assumes "node_repr sg kh h d c s m"
  shows "5 * node_count c + key_count c \<le> card (dom m)"
proof -
  note n = node_reprD [OF assms]
  have "5 * node_count c + key_count c = (\<Sum>i<8. 5 * slot_nodes (s i) + slot_keys (s i))"
    unfolding node_count_slots [OF n(1)] key_count_slots [OF n(1)] sum.distrib sum_distrib_left ..
  also have "\<dots> \<le> card (dom m)"
    unfolding card_sum [OF assms] using slot_count(1) [OF n(2)] by (intro sum_mono) simp
  finally show ?thesis .
qed

lemma count_leaf:
  assumes "node_repr sg kh h d c s m" "node_count c = 0"
  shows "card (dom m) = key_count c"
proof -
  note n = node_reprD [OF assms(1)]
  have "slot_nodes (s i) = 0" if "i < 8" for i using assms(2) that unfolding node_count_slots [OF n(1)] by simp
  then show ?thesis
    unfolding key_count_slots [OF n(1)] card_sum [OF assms(1)] using slot_count(2) [OF n(2)] by (intro sum.cong) simp_all
qed

lemma link_counted: "is_node c s \<Longrightarrow> i < 8 \<Longrightarrow> s i = Some (Link l) \<Longrightarrow> 1 \<le> node_count c"
  using member_le_sum [of i "{..<8}" "\<lambda>i. slot_nodes (s i)"] by (simp add: node_count_slots)

lemma single_link:
  assumes "node_repr sg kh h d c s m" "i < 8" "s i = Some (Link l)" "key_count c = 0" "node_count c = 1"
  shows "m |` slot_keys_of kh d i = m"
proof (rule map_by_slots [where kh = kh and d = d])
  note n = node_reprD [OF assms(1)]
  fix j :: nat
  assume j: "j < 8"
  show "m |` slot_keys_of kh d i |` slot_keys_of kh d j = m |` slot_keys_of kh d j"
  proof (cases "j = i")
    case False
    have "slot_nodes (s i) + slot_nodes (s j) \<le> node_count c"
      unfolding node_count_slots [OF n(1)] using False assms(2) j
        sum_mono2 [of "{..<8}" "{i, j}" "\<lambda>i. slot_nodes (s i)"] by simp
    moreover have "slot_keys (s j) \<le> key_count c"
      unfolding key_count_slots [OF n(1)] using member_le_sum [of j "{..<8}" "\<lambda>i. slot_keys (s i)"] j by simp
    ultimately have "card (dom (m |` slot_keys_of kh d j)) = 0"
      using slot_count(2) [OF n(2) [OF j]] assms(3-5) by simp
    then have "m |` slot_keys_of kh d j = Map.empty"
      using slot_repr_finite [OF n(2) [OF j]] by (simp del: dom_restrict)
    then show ?thesis using False by (auto simp: restrict_map_def fun_eq_iff)
  qed simp
qed

text \<open>Lists of the mappings of each slot, one after the other, are the mappings of the node.\<close>

lemma concat_slots:
  assumes "\<And>i. i < 8 \<Longrightarrow> ke_distinct (e i) \<and> ke_map (e i) = m |` slot_keys_of kh d i"
  shows "ke_map (concat (map e [0..<8])) = m" "ke_distinct (concat (map e [0..<8]))"
proof -
  let ?ms = "concat (map e [0..<8])"
  have in_set: "x \<in> set ?ms \<longleftrightarrow> (\<exists>i<8. x \<in> set (e i))" for x by (auto simp del: upt.simps)
  have val: "m (ke_key x) = Some (ke_value x)" if x: "x \<in> set ?ms" for x
  proof -
    obtain i where i: "i < 8" "x \<in> set (e i)" using x in_set by blast
    then have "(m |` slot_keys_of kh d i) (ke_key x) = Some (ke_value x)"
      using assms [OF i(1)] ke_map_in [of "e i" x] by simp
    then show ?thesis by (auto simp: restrict_map_def split: if_splits)
  qed
  have "k \<in> ke_key ` set ?ms" if k: "k \<in> dom m" for k
  proof -
    let ?i = "champ_mask (kh k) d 3"
    have "k \<in> dom (ke_map (e ?i))" using k assms [of ?i] by auto
    then show ?thesis unfolding dom_ke_map using in_set champ_mask_3 by blast
  qed
  then have keys: "dom m = ke_key ` set ?ms" using val by (blast intro: domI)
  have card: "card (dom (m |` slot_keys_of kh d i)) = length (e i)" "finite (dom (m |` slot_keys_of kh d i))" if "i < 8" for i
    using assms [OF that] card_ke_map [of "e i"] dom_ke_map [of "e i"] by (simp_all del: dom_restrict)
  have "length ?ms = sum_list (map (\<lambda>i. length (e i)) [0..<8])" by (simp add: length_concat comp_def del: upt.simps)
  also have "\<dots> = (\<Sum>i<8. length (e i))" by (simp only: interv_sum_list_conv_sum_set_nat set_upt atLeast0LessThan)
  also have "\<dots> = card (dom m)" using card_slots [of m kh d] card by (simp del: dom_restrict)
  finally show "ke_distinct ?ms" using keys by (intro card_distinct) simp
  show "ke_map ?ms = m"
  proof
    fix k
    show "ke_map ?ms k = m k"
    proof (cases "ke_map ?ms k")
      case None
      then show ?thesis using keys by (metis domIff ke_map_None)
    next
      case (Some v)
      then show ?thesis using val ke_map_Some by fastforce
    qed
  qed
qed

lemma leaf_mappings:
  assumes "node_repr sg kh h d c s m" "node_count c = 0"
  defines "ms \<equiv> concat (List.map_filter as_mappings (contents c))"
  shows "ke_map ms = m" "ke_distinct ms" "\<And>e. e \<in> set ms \<Longrightarrow> \<exists>i<8. \<exists>b. s i = Some (Mappings b) \<and> e \<in> set b"
proof -
  note n = node_reprD [OF assms(1)]
  let ?e = "\<lambda>i. case s i of Some (Mappings b) \<Rightarrow> b | _ \<Rightarrow> []"
  have "concat (concat (map (\<lambda>i. case s i of Some (Mappings ms) \<Rightarrow> [ms] | _ \<Rightarrow> []) xs)) = concat (map ?e xs)" for xs
  proof (induction xs)
    case (Cons i xs)
    then show ?case by (cases "s i" rule: slot_cases) auto
  qed simp
  then have ms: "ms = concat (map ?e [0..<8])" unfolding ms_def node_mappings [OF n(1)] .
  have slot: "ke_distinct (?e i) \<and> ke_map (?e i) = m |` slot_keys_of kh d i" if i: "i < 8" for i
  proof -
    have "slot_nodes (s i) = 0" using assms(2) i unfolding node_count_slots [OF n(1)] by simp
    then show ?thesis using n(2) [OF i] by (cases "s i" rule: slot_cases) auto
  qed
  show "ke_map ms = m" "ke_distinct ms" unfolding ms by (rule concat_slots [OF slot], assumption)+
  show "\<exists>i<8. \<exists>b. s i = Some (Mappings b) \<and> e \<in> set b" if e: "e \<in> set ms" for e
  proof -
    obtain i where i: "i < 8" "e \<in> set (?e i)" using e unfolding ms set_concat set_map set_upt by force
    then show ?thesis by (intro exI [of _ i]) (cases "s i" rule: slot_cases; auto)
  qed
qed

section \<open>Collapsed subtrees\<close>

text \<open>A single bucket of four mappings, filed under the index of \<open>k\<close> at the root.\<close>

definition folded :: "(bytes \<Rightarrow> bytes) \<Rightarrow> bytes \<Rightarrow> champ \<Rightarrow> (bytes \<rightharpoonup> cbor option) \<Rightarrow> bool" where
  "folded kh k c m \<longleftrightarrow> wf_champ c \<and>
     (\<exists>ms. is_node c [champ_mask (kh k) 0 3 \<mapsto> Mappings ms] \<and> length ms = 4 \<and> ke_distinct ms \<and> ke_map ms = m)"

lemma single_contents:
  assumes "is_node c [i \<mapsto> Mappings ms]" "i < 8"
  shows "contents c = [Mappings ms]"
proof -
  have "node_contents ((\<lambda>_. None)(i := Some (Mappings ms))) = [Mappings ms]"
    by (rule node_split [OF is_node_empty [of None] assms(2)]) (simp add: with_bat_def champ_empty_def)
  then show ?thesis using assms(1) by (simp add: is_node_def)
qed

lemma folded_counts:
  assumes "folded kh k c m"
  shows "node_count c = 0" "key_count c = 4" "contents c \<noteq> []" "card (dom m) = 4"
    "\<exists>ms. contents c = [Mappings ms] \<and> length ms = 4 \<and> ke_distinct ms \<and> ke_map ms = m \<and> wf_payload (Mappings ms)"
proof -
  obtain ms where ms: "is_node c [champ_mask (kh k) 0 3 \<mapsto> Mappings ms]" "length ms = 4" "ke_distinct ms" "ke_map ms = m"
    using assms by (auto simp: folded_def)
  have c: "contents c = [Mappings ms]" using single_contents [OF ms(1)] by simp
  then show "node_count c = 0" "key_count c = 4" "contents c \<noteq> []"
    using ms(2) by (simp_all add: node_count_def key_count_def List.map_filter_simps)
  show "card (dom m) = 4" using card_ke_map [OF ms(3)] ms(2,4) by simp
  have "wf_payload (Mappings ms)" using assms c by (simp add: folded_def wf_champ_def del: wf_payload_mappings)
  then show "\<exists>ms. contents c = [Mappings ms] \<and> length ms = 4 \<and> ke_distinct ms \<and> ke_map ms = m \<and> wf_payload (Mappings ms)"
    using c ms by blast
qed

lemma folded_repr:
  assumes "folded kh k c m" "dom m \<subseteq> slot_keys_of kh 0 (champ_mask (kh k) 0 3)"
  shows "repr sg kh (Suc h) 0 c m"
proof -
  obtain ms where ms: "is_node c [champ_mask (kh k) 0 3 \<mapsto> Mappings ms]" "length ms = 4" "ke_distinct ms" "ke_map ms = m"
      and wf: "wf_champ c"
    using assms by (auto simp: folded_def)
  show ?thesis
  proof (rule reprI [OF wf ms(1)])
    fix i :: nat
    have "m |` slot_keys_of kh 0 i = (if i = champ_mask (kh k) 0 3 then m else Map.empty)"
      using assms(2) by (auto simp: restrict_map_def fun_eq_iff) (metis (mono_tags) domIff mem_Collect_eq subsetD)+
    then show "slot_repr (repr sg kh h (Suc 0)) sg ([champ_mask (kh k) 0 3 \<mapsto> Mappings ms] i) (m |` slot_keys_of kh 0 i)"
      using ms by auto
  qed
qed

lemma collapse_folded:
  assumes "node_repr sg kh h d c s m" "wf_champ c" "node_count c = 0" "key_count c = 5" "k \<in> dom m"
  shows "folded kh k (collapsed_node c k (kh k) 3) (m(k := None))"
proof -
  let ?all = "concat (List.map_filter as_mappings (contents c))" and ?i = "champ_mask (kh k) 0 3"
  let ?f = "filter (\<lambda>m. ke_key m \<noteq> k) ?all"
  let ?ms = "sort_by (\<lambda>a b. byte_array_compare (ke_key a) (ke_key b)) ?f"
  note n = node_reprD [OF assms(1)]
  note all = leaf_mappings [OF assms(1,3)]
  have d: "ke_distinct ?f" using all(2) by (simp add: distinct_map_filter)
  have map: "ke_map ?ms = m(k := None)" and dm: "ke_distinct ?ms"
    using ke_map_perm [OF d, of ?ms] ke_map_filter [of k ?all] all(1) by simp_all
  have fin: "finite (dom m)" using all(1) dom_ke_map [of ?all] by auto
  have "card (dom (m(k := None))) = 4"
    using count_leaf [OF assms(1,3)] assms(4,5) fin by simp
  then have len: "length ?ms = 4" using card_ke_map [OF dm] map by simp
  have wf: "val_ok (ke_value e)" if "e \<in> set ?ms" for e
  proof -
    have "e \<in> set ?all" using that by auto
    then obtain i b where b: "i < 8" "s i = Some (Mappings b)" "e \<in> set b" using all(3) by blast
    then have "wf_payload (Mappings b)" using assms(2) unfolding wf_champ_slots [OF n(1)] by blast
    then show ?thesis using b(3) by simp
  qed
  have "is_node (collapsed_node c k (kh k) 3) ((\<lambda>_. None)(?i := Some (Mappings ?ms)))"
  proof (rule is_node_update [OF is_node_empty [of None]])
    show "contents (collapsed_node c k (kh k) 3) = node_contents ((\<lambda>_. None)(?i := Some (Mappings ?ms)))"
      by (rule node_split [OF is_node_empty [of None] champ_mask_3 [of "kh k" 0]])
        (simp add: with_bat_def champ_empty_def collapsed_node_def)
  qed (auto simp: collapsed_node_def with_bat_def champ_empty_def bit_get_set)
  moreover have "wf_champ (collapsed_node c k (kh k) 3)"
    using assms(2) wf by (simp add: wf_champ_def collapsed_node_def)
  ultimately show ?thesis unfolding folded_def using len dm map by blast
qed

section \<open>Removal\<close>

lemma champ_remove_data:
  assumes "bit_get (data_map c) (champ_mask h d bw)"
    "vec_at (contents c) (get_index (data_map c) (champ_mask h d bw)) = Inr (Mappings ms)"
  shows "champ_remove sget sput bw mc (Suc fuel) c k h d expected our =
    (case find_mapping k 0 ms of
       Some (p, m) \<Rightarrow>
         if ke_value m \<noteq> expected then io_lift (Inl (Protocol ''champ CAS failed on remove''))
         else io_bind (io_lift (if key_count c = mc + 1 \<and> node_count c = 0 \<and> d > 0 then Inr (collapsed_node c k h bw)
                else remove_mapping c (champ_mask h d bw) p)) (write_node sput)
     | None \<Rightarrow> io_lift (Inl (Protocol ''champ CAS failed: key not present'')))"
  using assms by (cases "find_mapping k 0 ms") (auto simp: Let_def)

lemma champ_remove_node:
  assumes "\<not> bit_get (data_map c) (champ_mask h d bw)" "bit_get (node_map c) (champ_mask h d bw)"
    "get_child_with_hash (sget st) c h d bw = Inr (l, child)"
  shows "champ_remove sget sput bw mc (Suc fuel) c k h d expected our st =
    io_bind (champ_remove sget sput bw mc fuel child k h (Suc d) expected l) (\<lambda>(new_child, l').
      if l' = l then io_ret (c, our)
      else if contents new_child = [] then io_lift (Inl (Protocol ''Sub-node must have at least one element''))
      else if node_count new_child = 0 \<and> key_count new_child = mc then
        (if key_count c = 0 \<and> node_count c = 1 then io_ret (new_child, l')
         else io_bind (io_lift (copy_and_migrate_from_node_to_inline c (champ_mask h d bw) new_child)) (write_node sput))
      else io_bind (io_lift (overwrite_child_link c (champ_mask h d bw) l')) (write_node sput)) st"
  using assms by (simp add: Let_def)

lemma card_delete: "finite (dom m) \<Longrightarrow> k \<in> dom m \<Longrightarrow> card (dom (m(k := None))) = card (dom m) - 1"
  by simp

lemma slot_delete_le:
  assumes "finite (dom m)"
  shows "card (dom ((m |` S)(k := None))) \<le> card (dom (m(k := None)))"
  using assms by (intro card_mono) (auto split: if_splits)

context block_store
begin

text \<open>The result of removing \<open>k\<close> from the node \<open>c\<close> of a tree for \<open>m\<close>.\<close>

definition remove_result ::
  "'s \<Rightarrow> (bytes \<Rightarrow> bytes) \<Rightarrow> nat \<Rightarrow> nat \<Rightarrow> champ \<Rightarrow> cid \<Rightarrow> (bytes \<rightharpoonup> cbor option) \<Rightarrow> bytes \<Rightarrow> cbor option \<Rightarrow>
   error + champ \<times> cid \<Rightarrow> bool" where
  "remove_result st' kh h d c our m k expected r \<longleftrightarrow>
     (case r of
        Inr (c', l') \<Rightarrow> holds (sget st') l' c' \<and> wf_cid l' \<and>
          (m k = None \<and> c' = c \<and> l' = our \<or>
           m k = Some expected \<and>
             (tree st' kh h d c' (m(k := None)) \<and> (0 < d \<longrightarrow> 4 < card (dom (m(k := None)))) \<or>
              0 < d \<and> folded kh k c' (m(k := None))))
      | Inl e \<Rightarrow> store_err e \<or>
          (e = Protocol ''champ CAS failed on remove'' \<and> (\<exists>w. m k = Some w \<and> w \<noteq> expected)) \<or>
          (e = Protocol ''champ CAS failed: key not present'' \<and> m k = None))"

definition remove_spec ::
  "(champ \<Rightarrow> bytes \<Rightarrow> bytes \<Rightarrow> nat \<Rightarrow> cbor option \<Rightarrow> cid \<Rightarrow> ('s, error, champ \<times> cid) io) \<Rightarrow> (bytes \<Rightarrow> bytes) \<Rightarrow> nat \<Rightarrow> nat \<Rightarrow> bool" where
  "remove_spec P kh h d \<longleftrightarrow>
     (\<forall>c m k expected our st r st'.
        tree st kh h d c m \<longrightarrow> inv st \<longrightarrow> holds (sget st) our c \<longrightarrow> wf_cid our \<longrightarrow> (0 < d \<longrightarrow> 4 < card (dom m)) \<longrightarrow>
        P c k (kh k) d expected our st = (r, st') \<longrightarrow> ok st' \<longrightarrow>
        remove_result st' kh h d c our m k expected r)"

lemma remove_specD:
  assumes "remove_spec P kh h d" "tree st kh h d c m" "inv st" "holds (sget st) our c" "wf_cid our"
    "0 < d \<longrightarrow> 4 < card (dom m)" "P c k (kh k) d expected our st = (r, st')" "ok st'"
  shows "remove_result st' kh h d c our m k expected r"
  using assms unfolding remove_spec_def by blast

lemma finish_remove:
  assumes "case r of Inl e \<Rightarrow> store_err e
      | Inr (c', l') \<Rightarrow> tree st' kh h d c' (m(k := None)) \<and> holds (sget st') l' c' \<and> wf_cid l'"
    "m k = Some expected" "0 < d \<Longrightarrow> 5 < card (dom m)" "finite (dom m)"
  shows "remove_result st' kh h d c our m k expected r"
proof -
  have "0 < d \<longrightarrow> 4 < card (dom (m(k := None)))"
    using assms(2-4) card_delete [of m k] by (auto simp: domI)
  then show ?thesis using assms(1,2) by (auto simp: remove_result_def split: sum.splits)
qed

lemma remove_bucket:
  assumes n: "node_repr (sget st) kh h d c s m" "wf_champ c"
    and x: "s (champ_mask (kh k) d 3) = Some (Mappings ms)"
    and st: "inv st" "ok st'" "0 < d \<longrightarrow> 4 < card (dom m)"
    and run: "champ_remove sget sput 3 4 (Suc fuel) c k (kh k) d expected our st = (r, st')"
    and fin: "finite (dom m)"
  shows "remove_result st' kh (Suc h) d c our m k expected r"
proof -
  let ?i = "champ_mask (kh k) d 3" and ?m = "m |` slot_keys_of kh d (champ_mask (kh k) d 3)"
  have i: "?i < 8" by simp
  note nd = node_reprD [OF n(1)]
  have ms: "ms \<noteq> []" "length ms \<le> 4" "ke_distinct ms" "ke_map ms = ?m" using nd(2) [OF i] x by auto
  have wfm: "wf_payload (Mappings ms)" using n(2) x i unfolding wf_champ_slots [OF nd(1)] by blast
  have bits: "bit_get (data_map c) ?i" using is_node_bits(1) [OF nd(1) i] x by blast
  note run' = run [unfolded champ_remove_data [OF bits node_data [OF nd(1) i x]]]
  show ?thesis
  proof (cases "find_mapping k 0 ms")
    case None
    then have "m k = None" using find_mapping_None [of k 0 ms] unfolding ms(4) by simp
    then show ?thesis using run' None by (auto simp: remove_result_def)
  next
    case (Some pm)
    obtain p e where pm: "pm = (p, e)" by (cases pm)
    then have f: "p < length ms" "ms ! p = e" "ke_key e = k" "ke_map ms k = Some (ke_value e)"
      using find_mapping_Some [of k 0 ms p e] Some by auto
    have mk: "m k = Some (ke_value e)" using f(4) unfolding ms(4) by simp
    show ?thesis
    proof (cases "ke_value e = expected")
      case False
      then show ?thesis using mk run' Some pm by (auto simp: remove_result_def)
    next
      case True
      show ?thesis
      proof (cases "key_count c = 5 \<and> node_count c = 0 \<and> 0 < d")
        case fold: True
        have F: "folded kh k (collapsed_node c k (kh k) 3) (m(k := None))"
          using collapse_folded [OF n] fold mk by (auto simp: domI)
        have w: "write_node sput (collapsed_node c k (kh k) 3) st = (r, st')"
          using run' Some pm True fold by simp
        have "wf_champ (collapsed_node c k (kh k) 3)" using F by (simp add: folded_def)
        from write_node_correct [OF w this st(1,2)] show ?thesis
          using F fold mk True by (auto simp: remove_result_def split: sum.splits)
      next
        case nofold: False
        have w: "io_bind (io_lift (remove_mapping c ?i p)) (write_node sput) st = (r, st')"
          using run' Some pm True nofold by simp
        let ?x = "if length ms = 1 then None else Some (Mappings (take p ms @ drop (Suc p) ms))"
        have del: "ke_map (take p ms @ drop (Suc p) ms) = ?m(k := None)" "ke_distinct (take p ms @ drop (Suc p) ms)"
          using ke_map_delete [OF ms(3) f(1)] f(2,3) ms(4) by simp_all
        show ?thesis
        proof (rule finish_remove [OF write_edit [OF w st(1,2) nd(1) n(2) nd(2) remove_mapping_edits [OF nd(1) i x f(1)]] _ _ fin])
          show "wf_payload q" if "?x = Some q" for q
            using that wfm by (auto split: if_splits) (meson in_set_takeD in_set_dropD)+
          show "slot_repr (tree st kh h (Suc d)) (sget st) ?x (?m(k := None))"
          proof (cases "length ms = 1")
            case one: True
            then have "take p ms @ drop (Suc p) ms = []" using f(1) by simp
            then have "?m(k := None) = Map.empty" using del(1) by (metis ke_map_simps(1))
            then show ?thesis unfolding if_P [OF one] slot_repr_simps .
          next
            case many: False
            have "length (take p ms @ drop (Suc p) ms) = length ms - 1" using f(1) by simp
            moreover have "2 \<le> length ms" using many ms(1) by (cases ms) (auto simp: Suc_le_eq)
            ultimately have "length (take p ms @ drop (Suc p) ms) \<noteq> 0" "length (take p ms @ drop (Suc p) ms) \<le> 4"
              using ms(2) by linarith+
            moreover from this(1) have "take p ms @ drop (Suc p) ms \<noteq> []" by (metis list.size(3))
            ultimately show ?thesis unfolding if_not_P [OF many] slot_repr_simps using del by blast
          qed
          show "m k = Some expected" using mk True by simp
          show "5 < card (dom m)" if d: "0 < d"
          proof (cases "node_count c = 0")
            case True
            then show ?thesis using count_leaf [OF n(1)] nofold d st(3) by auto
          next
            case False
            have "slot_keys (s ?i) \<le> key_count c"
              unfolding key_count_slots [OF nd(1)] using member_le_sum [of ?i "{..<8}" "\<lambda>i. slot_keys (s i)"] by simp
            then show ?thesis using count_ge [OF n(1)] False x ms(1) by (cases "length ms") auto
          qed
        qed
      qed
    qed
  qed
qed

text \<open>An unchanged link means that the child was not changed, so the key is not there.\<close>

lemma same_child:
  assumes "tree st kh h d child m" "4 < card (dom m)" "later st st'" "inv st" "ok st'" "holds (sget st) l child"
    "remove_result st' kh h d child l m k expected (Inr (c', l))"
  shows "m k = None"
proof (rule ccontr)
  assume "m k \<noteq> None"
  then have mk: "k \<in> dom m" by auto
  then have r: "tree st' kh h d c' (m(k := None)) \<or> folded kh k c' (m(k := None))" and "holds (sget st') l c'"
    using assms(7) by (auto simp: remove_result_def)
  then have c': "c' = child" using holds_later [OF assms(3-6)] holds_unique by blast
  have t: "tree st' kh h d child m" by (rule tree_later [OF assms(3-5,1)])
  have "\<not> tree st' kh h d c' (m(k := None))" using repr_unique [OF t] c' mk by (metis domIff fun_upd_same)
  moreover have False if "folded kh k c' (m(k := None))"
  proof -
    obtain h' s where "node_repr (sget st') kh h' d child s m" using repr_node [OF t] by blast
    then have "card (dom m) = key_count child" using folded_counts(1) [OF that] c' count_leaf by blast
    then show False using folded_counts(2) [OF that] c' assms(2) by simp
  qed
  ultimately show False using r by blast
qed

lemma remove_child:
  assumes IH: "remove_spec (champ_remove sget sput 3 4 fuel) kh h (Suc d)"
    and n: "node_repr (sget st) kh h d c s m" "wf_champ c"
    and x: "s (champ_mask (kh k) d 3) = Some (Link l)"
    and st: "inv st" "ok st'"
    and our: "holds (sget st) our c" "wf_cid our"
    and run: "champ_remove sget sput 3 4 (Suc fuel) c k (kh k) d expected our st = (r, st')"
    and fin: "finite (dom m)"
  shows "remove_result st' kh (Suc h) d c our m k expected r"
proof -
  let ?i = "champ_mask (kh k) d 3" and ?m = "m |` slot_keys_of kh d (champ_mask (kh k) d 3)"
  have i: "?i < 8" by simp
  note nd = node_reprD [OF n(1)]
  obtain child where child: "4 < card (dom ?m)" "holds (sget st) l child" "tree st kh h (Suc d) child ?m"
    using nd(2) [OF i] x by auto
  have wfl: "wf_cid l" using n(2) x i unfolding wf_champ_slots [OF nd(1)] by (metis wf_payload.simps(1))
  have bits: "\<not> bit_get (data_map c) ?i" "bit_get (node_map c) ?i" using is_node_bits [OF nd(1) i] x by auto
  have mk: "?m k = m k" by simp
  note run' = run [unfolded champ_remove_node [where sget = sget and st = st, OF bits get_child_with_hash_link [OF nd(1) x child(2)]]]
  have ge: "0 < Suc d \<longrightarrow> 4 < card (dom ?m)" using child(1) by simp
  note call = remove_specD [OF IH child(3) st(1) child(2) wfl ge]
  from run' show ?thesis
  proof (cases rule: io_bind_cases)
    case (err e)
    have "remove_result st' kh h (Suc d) child l ?m k expected (Inl e)" using call [OF err(1) st(2)] .
    then show ?thesis unfolding remove_result_def err(2) sum.case mk .
  next
    case (val p st1)
    obtain c1 l1 where p: "p = (c1, l1)" by (cases p)
    have later: "later st st1" using mono_ioD [OF mono_champ_remove val(1)] .
    have later': "later st1 st'"
      using val(2) unfolding p prod.case by (rule mono_ioD [rotated]) (intro mono_intros mono_write)
    have st1: "inv st1" "ok st1" using later later' later_inv later_ok st(1,2) by blast+
    have res: "remove_result st1 kh h (Suc d) child l ?m k expected (Inr (c1, l1))"
      using call [OF val(1) [unfolded p] st1(2)] .
    then have c1: "holds (sget st1) l1 c1" "wf_cid l1" by (simp_all add: remove_result_def)
    show ?thesis
    proof (cases "l1 = l")
      case True
      then have r: "r = Inr (c, our)" "st' = st1" using val(2) p by auto
      have "m k = None" using same_child [OF child(3,1) later st(1) st1(2) child(2)] res True mk by metis
      then show ?thesis using r our(2) holds_later [OF later st(1) st1(2) our(1)] by (simp add: remove_result_def)
    next
      case False
      then have mk': "m k = Some expected" and
          c: "tree st1 kh h (Suc d) c1 (?m(k := None)) \<and> 4 < card (dom (?m(k := None))) \<or> folded kh k c1 (?m(k := None))"
        using res mk by (auto simp: remove_result_def simp del: restrict_upd_same)
      have km: "k \<in> dom ?m" using mk' by auto
      have finm: "finite (dom ?m)" using repr_finite [OF child(3)] .
      show ?thesis
      proof (cases "folded kh k c1 (?m(k := None))")
        case fold: True
        note counts = folded_counts [OF fold]
        show ?thesis
        proof (cases "key_count c = 0 \<and> node_count c = 1")
          case True
          then have r: "r = Inr (c1, l1)" "st' = st1" using val(2) p False counts by auto
          have m: "?m = m" using single_link [OF n(1) i x conjunct1 [OF True] conjunct2 [OF True]] .
          have "tree st' kh (Suc h) d c1 (m(k := None))" if "d = 0"
          proof -
            have "dom m \<subseteq> slot_keys_of kh 0 (champ_mask (kh k) 0 3)" using m that by (metis Int_iff dom_restrict subsetI)
            then have "dom (m(k := None)) \<subseteq> slot_keys_of kh 0 (champ_mask (kh k) 0 3)" by auto
            then show ?thesis using folded_repr [OF fold [unfolded m]] that by (simp del: repr.simps)
          qed
          then show ?thesis using r c1 mk' fold [unfolded m] by (cases d) (auto simp: remove_result_def simp del: repr.simps)
        next
          case nosingle: False
          have w: "io_bind (io_lift (copy_and_migrate_from_node_to_inline c ?i c1)) (write_node sput) st1 = (r, st')"
            using val(2) p False counts nosingle by auto
          obtain ms where ms: "contents c1 = [Mappings ms]" "length ms = 4" "ke_distinct ms" "ke_map ms = ?m(k := None)"
              "wf_payload (Mappings ms)"
            using counts(5) by blast
          have sl: "slot_repr (tree st1 kh h (Suc d)) (sget st1) (s j) (m |` slot_keys_of kh d j)" if "j < 8" for j
            by (rule slot_later [OF later st(1) st1(2) nd(2) [OF that]])
          show ?thesis
          proof (rule finish_remove [OF write_edit [OF w st1(1) st(2) nd(1) n(2) sl node_to_inline_edits [OF nd(1) i x ms(1)]]
                  mk' _ fin])
            show "wf_payload q" if "Some (Mappings ms) = Some q" for q using that ms(5) by auto
            show "slot_repr (tree st1 kh h (Suc d)) (sget st1) (Some (Mappings ms)) (?m(k := None))"
              unfolding slot_repr_simps using ms by auto
            show "5 < card (dom m)"
              using count_ge [OF n(1)] link_counted [OF nd(1) i x] nosingle
              by (cases "key_count c"; cases "node_count c") auto
          qed
        qed
      next
        case nofold: False
        with c have t1: "tree st1 kh h (Suc d) c1 (?m(k := None))" "4 < card (dom (?m(k := None)))" by blast+
        obtain h' s1 where n1: "node_repr (sget st1) kh h' (Suc d) c1 s1 (?m(k := None))"
          using repr_node [OF t1(1)] by blast
        have "4 < key_count c1" if "node_count c1 = 0"
          using t1(2) unfolding count_leaf [OF n1 that] .
        moreover have "contents c1 = [] \<Longrightarrow> node_count c1 = 0 \<and> key_count c1 = 0"
          by (simp add: node_count_def key_count_def List.map_filter_simps)
        ultimately have ne: "contents c1 \<noteq> []" "\<not> (node_count c1 = 0 \<and> key_count c1 = 4)" by (metis not_less0, linarith)
        have w: "io_bind (io_lift (overwrite_child_link c ?i l1)) (write_node sput) st1 = (r, st')"
          using val(2) unfolding p prod.case if_not_P [OF False] if_not_P [OF ne(1)] if_not_P [OF ne(2)] .
        have sl: "slot_repr (tree st1 kh h (Suc d)) (sget st1) (s j) (m |` slot_keys_of kh d j)" if "j < 8" for j
          by (rule slot_later [OF later st(1) st1(2) nd(2) [OF that]])
        show ?thesis
        proof (rule finish_remove [OF write_edit [OF w st1(1) st(2) nd(1) n(2) sl overwrite_child_link_edits [OF nd(1) i x]]
                mk' _ fin])
          show "wf_payload q" if "Some (Link l1) = Some q" for q using that c1(2) by auto
          show "slot_repr (tree st1 kh h (Suc d)) (sget st1) (Some (Link l1)) (?m(k := None))"
            unfolding slot_repr_simps using t1 c1(1) by blast
          have "card (dom ?m) \<le> card (dom m)" using fin by (intro card_mono) auto
          then show "5 < card (dom m)" using t1(2) card_delete [OF finm km] by linarith
        qed
      qed
    qed
  qed
qed

lemma champ_remove_spec: "h \<le> fuel \<Longrightarrow> remove_spec (champ_remove sget sput 3 4 fuel) kh h d"
proof (induction fuel arbitrary: h d)
  case 0
  then show ?case by (simp add: remove_spec_def)
next
  case (Suc fuel h d)
  show ?case
  proof (cases h)
    case 0
    then show ?thesis by (simp add: remove_spec_def)
  next
    case (Suc h')
    have IH: "remove_spec (champ_remove sget sput 3 4 fuel) kh h' (Suc d)" using Suc.IH Suc.prems Suc by simp
    show ?thesis
      unfolding remove_spec_def Suc
    proof (intro allI impI)
      fix c m k expected our st r st'
      assume t: "tree st kh (Suc h') d c m" and a: "inv st" "holds (sget st) our c" "wf_cid our" "0 < d \<longrightarrow> 4 < card (dom m)"
        "champ_remove sget sput 3 4 (Suc fuel) c k (kh k) d expected our st = (r, st')" "ok st'"
      obtain s where n: "node_repr (sget st) kh h' d c s m" and wf: "wf_champ c"
        using repr_node [OF t] by blast
      note nd = node_reprD [OF n]
      let ?i = "champ_mask (kh k) d 3"
      have i: "?i < 8" by simp
      show "remove_result st' kh (Suc h') d c our m k expected r"
      proof (cases "s ?i" rule: slot_cases)
        case none
        have bits: "\<not> bit_get (data_map c) ?i" "\<not> bit_get (node_map c) ?i" using is_node_bits [OF nd(1) i] none by auto
        have "(m |` slot_keys_of kh d ?i) k = None" using nd(2) [OF i] none by (metis slot_repr_simps(1))
        then show ?thesis using a bits by (auto simp: Let_def remove_result_def)
      next
        case (data ms)
        show ?thesis by (rule remove_bucket [OF n wf data a(1,6,4,5) repr_finite [OF t]])
      next
        case (link l)
        show ?thesis by (rule remove_child [OF IH n wf link a(1,6,2,3,5) repr_finite [OF t]])
      qed
    qed
  qed
qed

end

end
