(* ===== verification/Champ_Wrapper.thy ===== *)
theory Champ_Wrapper
  imports Champ_Remove
begin

text \<open>
  What a user of \<open>ChampWrapper\<close> over \<open>RamStorage\<close> relies on: the wrapper is a compare-and-set map, its
  nodes survive being written and read back, and it can be reopened from its root hash.
\<close>

section \<open>Collection and size\<close>

lemma champ_size_collect: "collect_mappings sg fuel c = Inr es \<Longrightarrow> champ_size sg fuel c = Inr (length es)"
proof (induction fuel arbitrary: c es)
  case (Suc fuel)
  let ?f = "\<lambda>p. case p of Mappings ms \<Rightarrow> Inr ms | Link l \<Rightarrow> and_then (load_child sg l) (collect_mappings sg fuel)"
  let ?g = "\<lambda>p. case p of Mappings ms \<Rightarrow> Inr 0 | Link l \<Rightarrow> and_then (load_child sg l) (champ_size sg fuel)"
  have parts: "\<exists>ns. collect_results ?g ps = Inr ns \<and>
      length (concat parts) = sum_list (map length (List.map_filter as_mappings ps)) + sum_list ns"
    if "collect_results ?f ps = Inr parts" for ps parts
    using that
  proof (induction ps arbitrary: parts)
    case (Cons p ps)
    from Cons.prems obtain y rest where y: "?f p = Inr y" "collect_results ?f ps = Inr rest" "parts = y # rest"
      by (auto simp: and_then_Inr_iff)
    obtain ns where ns: "collect_results ?g ps = Inr ns"
        "length (concat rest) = sum_list (map length (List.map_filter as_mappings ps)) + sum_list ns"
      using Cons.IH [OF y(2)] by blast
    have "\<exists>n. ?g p = Inr n \<and> length y + k = sum_list (map length (List.map_filter as_mappings [p])) + (n + k)" for k
      using y(1) Suc.IH by (cases p) (auto simp: List.map_filter_simps and_then_Inr_iff)
    then obtain n where n: "?g p = Inr n" "length y = sum_list (map length (List.map_filter as_mappings [p])) + n"
      by (metis add.assoc add_right_cancel)
    show ?case
      using n ns y(3) by (intro exI [of _ "n # ns"]) (cases p; simp add: List.map_filter_simps)
  qed simp
  obtain ps where ps: "collect_results ?f (contents c) = Inr ps" "es = concat ps"
    using Suc.prems by (auto simp: and_then_Inr_iff)
  show ?case using parts [OF ps(1)] ps(2) by (auto simp: key_count_def)
qed simp

lemma mset_contents:
  "mset (concat (map g (node_contents s))) = mset (concat (map (\<lambda>i. case s i of Some p \<Rightarrow> g p | None \<Rightarrow> []) [0..<8]))"
proof -
  have r: "mset (concat (map g (rev xs))) = mset (concat (map g xs))" for xs
    by (induction xs) (auto simp: union_commute)
  have "mset (concat (map g (concat (map (\<lambda>i. dat (s i)) xs)))) + mset (concat (map g (concat (map (\<lambda>i. lnk (s i)) xs))))
      = mset (concat (map (\<lambda>i. case s i of Some p \<Rightarrow> g p | None \<Rightarrow> []) xs))" for xs
  proof (induction xs)
    case (Cons i xs)
    then show ?case by (cases "s i" rule: slot_cases) (auto simp: ac_simps)
  qed simp
  then show ?thesis unfolding node_contents_def map_append concat_append mset_append r .
qed

lemma collect_mappings_repr:
  "repr sg kh h d c m \<Longrightarrow> h \<le> fuel \<Longrightarrow>
   \<exists>es. collect_mappings sg fuel c = Inr es \<and> ke_distinct es \<and> ke_map es = m"
proof (induction h arbitrary: fuel d c m)
  case (Suc h)
  then obtain f where f: "fuel = Suc f" "h \<le> f" by (cases fuel) auto
  obtain s where n: "is_node c s"
      and sl: "\<And>i. i < 8 \<Longrightarrow> slot_repr (repr sg kh h (Suc d)) sg (s i) (m |` slot_keys_of kh d i)"
    using repr_slot [OF Suc.prems(1)] by blast
  let ?f = "\<lambda>p. case p of Mappings ms \<Rightarrow> Inr ms | Link l \<Rightarrow> and_then (load_child sg l) (collect_mappings sg f)"
  define g where "g p = (case ?f p of Inr es \<Rightarrow> es | Inl e \<Rightarrow> [])" for p
  have part: "?f p = Inr (g p) \<and> ke_distinct (g p) \<and> ke_map (g p) = m |` slot_keys_of kh d i"
    if i: "i < 8" "s i = Some p" for i p
  proof (cases p)
    case (Mappings ms)
    then show ?thesis using sl [OF i(1)] i(2) by (simp add: g_def)
  next
    case (Link l)
    then obtain c' where "load_child sg l = Inr c'" "repr sg kh h (Suc d) c' (m |` slot_keys_of kh d i)"
      using sl [OF i(1)] i(2) load_child_holds by auto
    then show ?thesis using Suc.IH [OF _ f(2)] Link by (fastforce simp: g_def)
  qed
  have coll: "collect_results ?f (contents c) = Inr (map g (contents c))"
    using part slots_of_node [OF n] by (intro collect_results_all) blast
  let ?e = "\<lambda>i. case s i of Some p \<Rightarrow> g p | None \<Rightarrow> []"
  have "ke_distinct (?e i) \<and> ke_map (?e i) = m |` slot_keys_of kh d i" if "i < 8" for i
    using part [OF that] sl [OF that] by (cases "s i") auto
  note slots = concat_slots [OF this]
  have "mset (concat (map g (contents c))) = mset (concat (map ?e [0..<8]))"
    using n mset_contents by (simp add: is_node_def)
  from ke_map_perm [OF slots(2) this] have "ke_map (concat (map g (contents c))) = m" "ke_distinct (concat (map g (contents c)))"
    using slots(1) by simp_all
  then show ?case using coll f(1) by simp
qed simp

section \<open>The wrapper as a map\<close>

lemma no_store_err: "hash_params sha256 sign \<Longrightarrow> \<not> ram.store_err sha256 sign e"
  by (simp add: ram.store_err_def logged_put_eq)

text \<open>\<open>represents\<close>: in the store \<open>st\<close> the wrapper \<open>w\<close> stands for the map \<open>m\<close>.\<close>

definition represents ::
  "(bytes \<Rightarrow> bytes) \<Rightarrow> (bytes \<Rightarrow> bytes) \<Rightarrow> logged \<Rightarrow> champ_wrapper \<Rightarrow> (bytes \<rightharpoonup> cbor option) \<Rightarrow> bool" where
  "represents sha256 kh st w m \<longleftrightarrow>
     addressed sha256 st \<and> repr (logged_get st) kh 32 0 (root w) m \<and>
     holds (logged_get st) (root_hash w) (root w) \<and> wf_cid (root_hash w)"

text \<open>An empty tree is started by writing an empty node, as the callers of \<open>create\<close> do.\<close>

definition empty_wrapper :: "(bytes \<Rightarrow> bytes) \<Rightarrow> (bytes \<Rightarrow> error + bytes) \<Rightarrow> (logged, error, champ_wrapper) io" where
  "empty_wrapper sha256 sign =
     io_bind (write_node (logged_put sha256 sign) champ_empty) (\<lambda>(c, l). io_ret \<lparr>root = c, root_hash = l\<rparr>)"

lemma represents_empty:
  assumes "hash_params sha256 sign" "addressed sha256 st" "empty_wrapper sha256 sign st = (r, st')"
    "no_collision sha256 (snd st')"
  shows "\<exists>w. r = Inr w \<and> represents sha256 kh st' w Map.empty"
proof -
  have E: "with_bat champ_empty None = champ_empty" by (simp add: with_bat_def champ_empty_def)
  have wf: "wf_champ champ_empty" by (simp add: wf_champ_def champ_empty_def)
  from assms(3) show ?thesis
    unfolding empty_wrapper_def
  proof (cases rule: io_bind_cases)
    case (err e)
    then show ?thesis using ram.write_node_correct [OF err(1) wf assms(2,4)] no_store_err [OF assms(1)] by simp
  next
    case (val p st1)
    obtain c l where p: "p = (c, l)" by (cases p)
    have st: "st' = st1" "r = Inr \<lparr>root = c, root_hash = l\<rparr>" using val(2) p by auto
    have "ram.later sha256 st st' \<and> c = champ_empty \<and> holds (logged_get st') l c \<and> wf_cid l"
      using ram.write_node_correct [OF val(1) [folded st(1)] wf assms(2,4)] p by simp
    moreover have "repr (logged_get st') kh (Suc 31) 0 champ_empty Map.empty"
      using repr_empty [of None "logged_get st'" kh 31 0] wf unfolding E by blast
    moreover have "addressed sha256 st'"
      using ram.later_inv assms(2) calculation(1) by blast
    ultimately show ?thesis using st by (auto simp: represents_def simp del: repr.simps)
  qed
qed

lemma wrapper_put_step:
  assumes "hash_params sha256 sign" "represents sha256 kh st w m" "val_ok v"
    "wrapper_put logged_get (logged_put sha256 sign) kh w k expected v st = (r, st')" "no_collision sha256 (snd st')"
  shows "case r of
      Inr w' \<Rightarrow> represents sha256 kh st' w' (m(k \<mapsto> v)) \<and> (\<forall>u. m k = Some u \<longrightarrow> u = expected)
    | Inl e \<Rightarrow> e = Protocol ''champ CAS failed'' \<and> (\<exists>u. m k = Some u \<and> u \<noteq> expected) \<or>
        e = Protocol ''Hash collision!'' \<and> m k = None \<and> collide kh (insert k (dom m))"
proof -
  note rep = assms(2) [unfolded represents_def]
  have spec: "ram.put_result sha256 sign st1 kh 32 0 m k expected v r1"
    if "champ_put logged_get (logged_put sha256 sign) kh 3 4 champ_fuel (root w) k (kh k) 0 expected v (root_hash w) st = (r1, st1)"
      "no_collision sha256 (snd st1)" for r1 st1
    using rep that assms(3)
    by (intro ram.put_specD [OF ram.champ_put_spec [where fuel = champ_fuel]]) (auto simp: champ_fuel_def same_prefix_def)
  from assms(4) show ?thesis
    unfolding wrapper_put_def
  proof (cases rule: io_bind_cases)
    case (err e)
    then show ?thesis using spec [OF err(1) assms(5)] no_store_err [OF assms(1)] by (auto simp: ram.put_result_def)
  next
    case (val p st1)
    obtain c l where p: "p = (c, l)" by (cases p)
    have st: "st' = st1" "r = Inr \<lparr>root = c, root_hash = l\<rparr>" using val(2) p by auto
    have "addressed sha256 st'"
      using ram.mono_ioD [OF ram.mono_champ_put val(1)] ram.later_inv rep st(1) by blast
    then show ?thesis
      using spec [OF val(1) assms(5) [unfolded st(1)]] st p
      by (simp add: ram.put_result_def represents_def del: repr.simps)
  qed
qed

lemma wrapper_remove_step:
  assumes "hash_params sha256 sign" "represents sha256 kh st w m"
    "wrapper_remove logged_get (logged_put sha256 sign) kh w k expected st = (r, st')" "no_collision sha256 (snd st')"
  shows "case r of
      Inr w' \<Rightarrow> represents sha256 kh st' w' (m(k := None)) \<and> (\<forall>u. m k = Some u \<longrightarrow> u = expected)
    | Inl e \<Rightarrow> e = Protocol ''champ CAS failed on remove'' \<and> (\<exists>u. m k = Some u \<and> u \<noteq> expected) \<or>
        e = Protocol ''champ CAS failed: key not present'' \<and> m k = None"
proof -
  note rep = assms(2) [unfolded represents_def]
  have spec: "ram.remove_result sha256 sign st1 kh 32 0 (root w) (root_hash w) m k expected r1"
    if "champ_remove logged_get (logged_put sha256 sign) 3 4 champ_fuel (root w) k (kh k) 0 expected (root_hash w) st = (r1, st1)"
      "no_collision sha256 (snd st1)" for r1 st1
    using rep that
    by (intro ram.remove_specD [OF ram.champ_remove_spec [where fuel = champ_fuel]]) (auto simp: champ_fuel_def)
  from assms(3) show ?thesis
    unfolding wrapper_remove_def
  proof (cases rule: io_bind_cases)
    case (err e)
    then show ?thesis using spec [OF err(1) assms(4)] no_store_err [OF assms(1)] by (auto simp: ram.remove_result_def)
  next
    case (val p st1)
    obtain c l where p: "p = (c, l)" by (cases p)
    have st: "st' = st1" "r = Inr \<lparr>root = c, root_hash = l\<rparr>" using val(2) p by auto
    have later: "ram.later sha256 st st'" using ram.mono_ioD [OF ram.mono_champ_remove val(1)] st(1) by simp
    have ad: "addressed sha256 st'" using later ram.later_inv rep by blast
    have res: "ram.remove_result sha256 sign st' kh 32 0 (root w) (root_hash w) m k expected (Inr (c, l))"
      using spec [OF val(1) assms(4) [unfolded st(1)]] p st(1) by simp
    have unch: "m(k := None) = m" if "m k = None" using that by auto
    have "repr (logged_get st') kh 32 0 (root w) m" using rep assms(4) later by (blast intro: ram.tree_later)
    then show ?thesis
      using res ad st unch by (auto simp: ram.remove_result_def represents_def simp del: repr.simps)
  qed
qed

section \<open>Runs of operations\<close>

text \<open>
  The specification of a compare-and-set map: an update succeeds when the key is absent or holds the
  expected value; a removal succeeds when the key holds it, or leaves a map without the key as it is.
\<close>

datatype champ_op =
    PutOp bytes "cbor option" "cbor option"
  | RemoveOp bytes "cbor option"

fun op_ok :: "champ_op \<Rightarrow> bool" where
  "op_ok (PutOp k e v) \<longleftrightarrow> val_ok v"
| "op_ok (RemoveOp k e) \<longleftrightarrow> True"

fun spec_op :: "champ_op \<Rightarrow> (bytes \<rightharpoonup> cbor option) \<Rightarrow> bytes \<rightharpoonup> cbor option" where
  "spec_op (PutOp k e v) m = m(k \<mapsto> v)"
| "spec_op (RemoveOp k e) m = m(k := None)"

fun spec_allows :: "champ_op \<Rightarrow> (bytes \<rightharpoonup> cbor option) \<Rightarrow> bool" where
  "spec_allows (PutOp k e v) m \<longleftrightarrow> m k = None \<or> m k = Some e"
| "spec_allows (RemoveOp k e) m \<longleftrightarrow> m k = None \<or> m k = Some e"

fun spec_run :: "champ_op list \<Rightarrow> (bytes \<rightharpoonup> cbor option) \<Rightarrow> (bytes \<rightharpoonup> cbor option) option" where
  "spec_run [] m = Some m"
| "spec_run (x # xs) m = (if spec_allows x m then spec_run xs (spec_op x m) else None)"

fun wrapper_op ::
  "('s \<Rightarrow> cid \<Rightarrow> error + cbor option) \<Rightarrow> (bytes \<Rightarrow> ('s, error, cid) io) \<Rightarrow> (bytes \<Rightarrow> bytes) \<Rightarrow>
   champ_wrapper \<Rightarrow> champ_op \<Rightarrow> ('s, error, champ_wrapper) io" where
  "wrapper_op sget sput kh w (PutOp k e v) = wrapper_put sget sput kh w k e v"
| "wrapper_op sget sput kh w (RemoveOp k e) = wrapper_remove sget sput kh w k e"

lemma ram_mono_wrapper: "ram.mono_io sha256 (wrapper_op logged_get (logged_put sha256 sign) kh w x)"
  by (cases x) (auto simp: wrapper_put_def wrapper_remove_def
      intro!: ram.mono_intros ram.mono_champ_put ram.mono_champ_remove)

lemma wrapper_op_step:
  assumes "hash_params sha256 sign" "represents sha256 kh st w m" "op_ok x"
    "wrapper_op logged_get (logged_put sha256 sign) kh w x st = (Inr w', st')" "no_collision sha256 (snd st')"
  shows "represents sha256 kh st' w' (spec_op x m)" "spec_allows x m"
proof -
  have "represents sha256 kh st' w' (spec_op x m) \<and> spec_allows x m"
  proof (cases x)
    case (PutOp k e v)
    then show ?thesis using wrapper_put_step [of sha256 sign kh st w m v k e "Inr w'" st'] assms by (cases "m k") auto
  next
    case (RemoveOp k e)
    then show ?thesis using wrapper_remove_step [of sha256 sign kh st w m k e "Inr w'" st'] assms by (cases "m k") auto
  qed
  then show "represents sha256 kh st' w' (spec_op x m)" "spec_allows x m" by auto
qed

lemma wrapper_run:
  assumes "hash_params sha256 sign" "represents sha256 kh st w m" "\<forall>x \<in> set xs. op_ok x"
    "io_fold (wrapper_op logged_get (logged_put sha256 sign) kh) w xs st = (Inr w', st')" "no_collision sha256 (snd st')"
  shows "\<exists>m'. spec_run xs m = Some m' \<and> represents sha256 kh st' w' m'"
  using assms(2-)
proof (induction xs arbitrary: w m st)
  case (Cons x xs)
  from Cons.prems(3) have "io_bind (wrapper_op logged_get (logged_put sha256 sign) kh w x)
      (\<lambda>w. io_fold (wrapper_op logged_get (logged_put sha256 sign) kh) w xs) st = (Inr w', st')" by simp
  then show ?case
  proof (cases rule: io_bind_cases)
    case (val w1 st1)
    have l: "ram.later sha256 st st1" "ram.later sha256 st1 st'"
      using ram.mono_ioD [OF ram_mono_wrapper val(1)] ram.mono_ioD [OF ram.mono_fold [OF ram_mono_wrapper] val(2)] .
    have ad: "addressed sha256 st" using Cons.prems(1) by (simp add: represents_def)
    have ok: "no_collision sha256 (snd st1)"
      using ram.later_ok [OF l(2) ram.later_inv [OF l(1) ad]] Cons.prems(4) by blast
    have "op_ok x" using Cons.prems(2) by simp
    note step = wrapper_op_step [OF assms(1) Cons.prems(1) this val(1) ok]
    then show ?thesis using Cons.IH [OF step(1) _ val(2) Cons.prems(4)] Cons.prems(2) by auto
  qed auto
qed auto

end
