(* ===== verification/Champ_Props.thy ===== *)
theory Champ_Props
  imports Champ_Wrapper
begin

text \<open>
  The properties of the block store and of the CHAMP, each with an instance.  The instances use a
  stand-in for SHA-256 that keeps the last 32 bytes of a block, and a signature that is the block's hash.
\<close>

section \<open>An instance of the parameters\<close>

definition demo_sha :: "bytes \<Rightarrow> bytes" where
  "demo_sha b = take 32 (rev b @ replicate 32 0)"

definition demo_sign :: "bytes \<Rightarrow> error + bytes" where
  "demo_sign b = Inr b"

lemma demo_params: "hash_params demo_sha demo_sign"
  by (auto simp: hash_params_def demo_sha_def demo_sign_def min_def)

abbreviation demo_put :: "bytes \<Rightarrow> (logged, error, cid) io" where
  "demo_put \<equiv> logged_put demo_sha demo_sign"

definition demo_empty :: logged where
  "demo_empty = (ram_new, [])"

lemma demo_addressed: "addressed demo_sha demo_empty"
  by (simp add: addressed_def demo_empty_def ram_new_def)

text \<open>A wrapper around an empty tree, and the store that holds it.\<close>

definition demo_start :: "champ_wrapper \<times> logged" where
  "demo_start = (case empty_wrapper demo_sha demo_sign demo_empty of (Inr w, st) \<Rightarrow> (w, st) | (_, st) \<Rightarrow> (\<lparr>root = champ_empty, root_hash = undefined\<rparr>, st))"

lemma demo_start_represents: "represents demo_sha kh (snd demo_start) (fst demo_start) Map.empty"
proof -
  obtain r st where run: "empty_wrapper demo_sha demo_sign demo_empty = (r, st)" by (meson surj_pair)
  have "snd (snd (empty_wrapper demo_sha demo_sign demo_empty)) = [[131, 64, 64, 128]]" by code_simp
  then have "no_collision demo_sha (snd st)" using run by (simp add: no_collision_def)
  from represents_empty [OF demo_params demo_addressed run this, of kh]
  show ?thesis using run by (auto simp: demo_start_def)
qed

definition demo_log_ok :: "bytes list \<Rightarrow> bool" where
  "demo_log_ok log \<longleftrightarrow> list_all (\<lambda>b. length b < 1000) log \<and> list_all (\<lambda>b. list_all (\<lambda>b'. demo_sha b = demo_sha b' \<longrightarrow> b = b') log) log"

lemma demo_log: "demo_log_ok log \<Longrightarrow> no_collision demo_sha log"
  by (fastforce simp: demo_log_ok_def no_collision_def list_all_iff)

abbreviation demo_insert :: "(logged, error, champ_wrapper) io" where
  "demo_insert \<equiv> wrapper_put logged_get demo_put identity_key_hasher (fst demo_start) [1] None (Some (CLong 7))"

lemma demo_insert_runs: "\<exists>w' st'. demo_insert (snd demo_start) = (Inr w', st') \<and> no_collision demo_sha (snd st')"
proof -
  have "case demo_insert (snd demo_start) of (Inr _, st) \<Rightarrow> demo_log_ok (snd st) | _ \<Rightarrow> False" by code_simp
  then show ?thesis by (auto split: prod.splits sum.splits dest: demo_log)
qed

section \<open>Block store\<close>

text \<open>
  C15. Content addressing: putting a block into \<open>RamStorage\<close> through \<open>put_block_signed\<close> always succeeds and
  returns the dag-cbor CID of its hash; afterwards that CID reads back as the decoded block, and every
  block that could be read before is still read unchanged, provided no two stored blocks have one hash.
\<close>

theorem ram_put_get:
  assumes "hash_params sha256 sign" "addressed sha256 st" "no_collision sha256 (b # snd st)" "from_bytes b = Inr x"
  shows "\<exists>st'. logged_put sha256 sign b st = (Inr (block_cid sha256 False b), st') \<and>
    logged_get st' (block_cid sha256 False b) = Inr (Some x) \<and>
    (\<forall>g y. logged_get st g = Inr (Some y) \<longrightarrow> logged_get st' g = Inr (Some y)) \<and> addressed sha256 st'"
proof -
  note p = logged_put_eq [OF assms(1), of b st]
  show ?thesis
    using p ram.put_get [OF p] ram.put_keeps [OF p] ram.put_inv [OF p] assms(2-4) by auto
qed

theorem ram_put_get_witness:
  "\<exists>st'. logged_put demo_sha demo_sign (to_bytes (CLong 5)) demo_empty = (Inr (block_cid demo_sha False (to_bytes (CLong 5))), st') \<and>
    logged_get st' (block_cid demo_sha False (to_bytes (CLong 5))) = Inr (Some (CLong 5))"
proof -
  have "from_bytes (to_bytes (CLong 5)) = Inr (CLong 5)" "demo_log_ok [to_bytes (CLong 5)]" by code_simp+
  then show ?thesis
    using ram_put_get [OF demo_params demo_addressed, of "to_bytes (CLong 5)" "CLong 5"] demo_log [of "[to_bytes (CLong 5)]"]
    by (auto simp: demo_empty_def)
qed

section \<open>CHAMP\<close>

text \<open>
  The index of a hash at a depth is exactly its \<open>nbits\<close> bits from bit \<open>depth * nbits\<close> on, across
  the byte boundary and past the end of the hash, where the missing bits are zero; it is below \<open>2 ^ nbits\<close>.
\<close>

theorem champ_mask_digits:
  assumes "nbits \<le> 8"
  shows "(\<forall>j. bit (champ_mask h depth nbits) j \<longleftrightarrow>
      j < nbits \<and> (depth * nbits + j) div 8 < length h \<and> bit (h ! ((depth * nbits + j) div 8)) ((depth * nbits + j) mod 8)) \<and>
    champ_mask h depth nbits < 2 ^ nbits"
  using champ_mask_bits [OF assms] champ_mask_less [OF assms] by (auto simp: hash_bit_def)

theorem champ_mask_digits_witness: "champ_mask [0x80, 0x01] 2 3 = 6 \<and> champ_mask [0x80, 0x01] 2 3 < 8"
proof -
  have "champ_mask [0x80, 0x01] 2 3 = 6" by code_simp
  then show ?thesis using champ_mask_digits [of 3 "[0x80, 0x01]" 2] by simp
qed

text \<open>
  C27. A CHAMP node survives storage: a well-formed node serialises, and the bytes, as long as they fit
  in memory, decode to a CBOR value from which the same node is read back, mirror BAT included.
\<close>

theorem champ_node_roundtrip:
  assumes "wf_champ c"
  shows "\<exists>bs. champ_serialize c = Inr bs \<and>
    (length bs < 2 ^ 64 \<longrightarrow> (\<exists>x. from_bytes bs = Inr x \<and> champ_from_cbor x = Inr c))"
proof -
  obtain x where x: "champ_to_cbor c = Inr x" "champ_from_cbor x = Inr c" "wf_cbor x"
    using champ_roundtrip [OF assms] by blast
  then show ?thesis using from_bytes_to_bytes [OF x(3)] by (simp add: champ_serialize_def)
qed

theorem champ_node_roundtrip_witness:
  "\<exists>bs. champ_serialize \<lparr>data_map = [5], node_map = [], contents = [Mappings [\<lparr>ke_key = [1], ke_value = None\<rparr>],
      Mappings [\<lparr>ke_key = [2], ke_value = Some (CLong 4)\<rparr>]], mirror_bat = None\<rparr> = Inr bs"
  using champ_node_roundtrip [of "\<lparr>data_map = [5], node_map = [], contents = [Mappings [\<lparr>ke_key = [1], ke_value = None\<rparr>],
      Mappings [\<lparr>ke_key = [2], ke_value = Some (CLong 4)\<rparr>]], mirror_bat = None\<rparr>"]
  by (auto simp: wf_champ_def val_ok_def)

text \<open>
  C26. Lookup: on a wrapper that stands for a map, \<open>get\<close> never fails and returns the stored value, and
  nothing both for an absent key and for a key stored without a value.
\<close>

theorem wrapper_get_lookup:
  assumes "represents sha256 kh st w m"
  shows "wrapper_get (logged_get st) kh w k = Inr (case m k of Some v \<Rightarrow> v | None \<Rightarrow> None)"
  using champ_get_correct [of "logged_get st" kh 32 0 "root w" m champ_fuel k] assms
  by (simp add: wrapper_get_def represents_def champ_fuel_def flat_def)

theorem wrapper_get_lookup_witness: "wrapper_get (logged_get (snd demo_start)) identity_key_hasher (fst demo_start) [1] = Inr None"
  using wrapper_get_lookup [OF demo_start_represents [of identity_key_hasher]] by simp

text \<open>
  C1. Insertion refines a compare-and-set map update: on success the new wrapper stands for the updated
  map and the key was absent or held the expected value; the only failures are a differing current
  value, and a new key that shares all thirty-two indices with four others.  In particular the
  recursion always ends within the levels of the tree.
\<close>

theorem wrapper_put_cas:
  assumes "hash_params sha256 sign" "represents sha256 kh st w m" "val_ok v"
    "wrapper_put logged_get (logged_put sha256 sign) kh w k expected v st = (r, st')" "no_collision sha256 (snd st')"
  shows "case r of
      Inr w' \<Rightarrow> represents sha256 kh st' w' (m(k \<mapsto> v)) \<and> (\<forall>u. m k = Some u \<longrightarrow> u = expected)
    | Inl e \<Rightarrow> e = Protocol ''champ CAS failed'' \<and> (\<exists>u. m k = Some u \<and> u \<noteq> expected) \<or>
        e = Protocol ''Hash collision!'' \<and> m k = None \<and> collide kh (insert k (dom m))"
  by (rule wrapper_put_step [OF assms])

theorem wrapper_put_cas_witness:
  "\<exists>w' st'. demo_insert (snd demo_start) = (Inr w', st') \<and>
    represents demo_sha identity_key_hasher st' w' [[1] \<mapsto> Some (CLong 7)]"
proof -
  obtain w' st' where run: "demo_insert (snd demo_start) = (Inr w', st')" and ok: "no_collision demo_sha (snd st')"
    using demo_insert_runs by blast
  have "val_ok (Some (CLong 7))" by (simp add: val_ok_def)
  from wrapper_put_cas [OF demo_params demo_start_represents this run ok] run show ?thesis by auto
qed

text \<open>
  C2. Removal refines a compare-and-set deletion: on success the new wrapper stands for the map without the key, in a tree
  whose buckets hold at most four keys and whose children hold more, and the key was absent or held the expected value;
  the only failures are a differing current value and an absent key whose slot holds other mappings.
\<close>

theorem wrapper_remove_cas:
  assumes "hash_params sha256 sign" "represents sha256 kh st w m"
    "wrapper_remove logged_get (logged_put sha256 sign) kh w k expected st = (r, st')" "no_collision sha256 (snd st')"
  shows "case r of
      Inr w' \<Rightarrow> represents sha256 kh st' w' (m(k := None)) \<and> (\<forall>u. m k = Some u \<longrightarrow> u = expected)
    | Inl e \<Rightarrow> e = Protocol ''champ CAS failed on remove'' \<and> (\<exists>u. m k = Some u \<and> u \<noteq> expected) \<or>
        e = Protocol ''champ CAS failed: key not present'' \<and> m k = None"
  by (rule wrapper_remove_step [OF assms])

definition demo_remove :: "(logged, error, champ_wrapper) io" where
  "demo_remove = io_bind demo_insert (\<lambda>w. wrapper_remove logged_get demo_put identity_key_hasher w [1] (Some (CLong 7)))"

lemma demo_remove_log: "case demo_remove (snd demo_start) of (Inr _, st) \<Rightarrow> demo_log_ok (snd st) | _ \<Rightarrow> False"
  by code_simp

theorem wrapper_remove_cas_witness:
  "\<exists>w st w' st'. demo_insert (snd demo_start) = (Inr w, st) \<and> represents demo_sha identity_key_hasher st w [[1] \<mapsto> Some (CLong 7)] \<and>
    wrapper_remove logged_get demo_put identity_key_hasher w [1] (Some (CLong 7)) st = (Inr w', st') \<and>
    represents demo_sha identity_key_hasher st' w' Map.empty"
proof -
  obtain r2 st' where run2: "demo_remove (snd demo_start) = (r2, st')" by (meson surj_pair)
  obtain w' where w': "r2 = Inr w'" using demo_remove_log unfolding run2 by (cases r2) simp_all
  have ok: "no_collision demo_sha (snd st')" using demo_remove_log demo_log unfolding run2 w' by simp
  obtain w st where run: "demo_insert (snd demo_start) = (Inr w, st)"
      "wrapper_remove logged_get demo_put identity_key_hasher w [1] (Some (CLong 7)) st = (Inr w', st')"
    using run2 unfolding demo_remove_def w' by (elim io_bind_cases) auto
  have "\<exists>w st. demo_insert (snd demo_start) = (Inr w, st) \<and> no_collision demo_sha (snd st)" using demo_insert_runs by blast
  then have ok1: "no_collision demo_sha (snd st)" using run(1) by auto
  have "val_ok (Some (CLong 7))" by (simp add: val_ok_def)
  from wrapper_put_step [OF demo_params demo_start_represents this run(1) ok1]
  have rep: "represents demo_sha identity_key_hasher st w [[1] \<mapsto> Some (CLong 7)]" by simp
  have "[[1] \<mapsto> Some (CLong 7)]([1] := None) = (Map.empty :: bytes \<rightharpoonup> cbor option)" by auto
  then have "represents demo_sha identity_key_hasher st' w' Map.empty" using wrapper_remove_cas [OF demo_params rep run(2) ok] by simp
  then show ?thesis using run rep by blast
qed

text \<open>
  C3. Refinement over whole runs: starting from an empty tree, whenever a sequence of insertions and
  removals goes through, the compare-and-set specification allows each of them in turn, and every
  lookup afterwards returns what the specification's map holds.
\<close>

theorem wrapper_runs_refine:
  assumes "hash_params sha256 sign" "addressed sha256 st" "empty_wrapper sha256 sign st = (Inr w, st1)"
    "\<forall>x \<in> set xs. op_ok x"
    "io_fold (wrapper_op logged_get (logged_put sha256 sign) kh) w xs st1 = (Inr w', st2)" "no_collision sha256 (snd st2)"
  shows "\<exists>m. spec_run xs Map.empty = Some m \<and> (\<forall>k. wrapper_get (logged_get st2) kh w' k = Inr (flat (m k)))"
proof -
  have l: "ram.later sha256 st1 st2" using ram.mono_ioD [OF ram.mono_fold [OF ram_mono_wrapper] assms(5)] .
  have "ram.mono_io sha256 (empty_wrapper sha256 sign)"
    unfolding empty_wrapper_def by (intro ram.mono_intros ram.mono_write)
  then have "addressed sha256 st1" using ram.mono_ioD assms(3) ram.later_inv assms(2) by blast
  then have "no_collision sha256 (snd st1)" using ram.later_ok [OF l] assms(6) by blast
  from represents_empty [OF assms(1-3) this] have "represents sha256 kh st1 w Map.empty" by simp
  from wrapper_run [OF assms(1) this assms(4-6)] obtain m where
    m: "spec_run xs Map.empty = Some m" "represents sha256 kh st2 w' m" by blast
  have "wrapper_get (logged_get st2) kh w' k = Inr (flat (m k))" for k
    using champ_get_correct [of "logged_get st2" kh 32 0 "root w'" m champ_fuel k] m(2)
    by (simp add: wrapper_get_def represents_def champ_fuel_def)
  with m(1) show ?thesis by blast
qed

theorem wrapper_runs_refine_witness:
  "\<exists>w st1 w' st2. empty_wrapper demo_sha demo_sign demo_empty = (Inr w, st1) \<and>
    io_fold (wrapper_op logged_get demo_put identity_key_hasher) w [PutOp [1] None (Some (CLong 7))] st1 = (Inr w', st2) \<and>
    wrapper_get (logged_get st2) identity_key_hasher w' [1] = Inr (Some (CLong 7))"
proof -
  let ?xs = "[PutOp [1] None (Some (CLong 7))]"
  have start: "empty_wrapper demo_sha demo_sign demo_empty = (Inr (fst demo_start), snd demo_start)"
  proof -
    have "case fst (empty_wrapper demo_sha demo_sign demo_empty) of Inr _ \<Rightarrow> True | _ \<Rightarrow> False" by code_simp
    then show ?thesis
      by (cases "empty_wrapper demo_sha demo_sign demo_empty") (auto simp: demo_start_def split: sum.splits)
  qed
  obtain w' st2 where "demo_insert (snd demo_start) = (Inr w', st2)" and ok: "no_collision demo_sha (snd st2)"
    using demo_insert_runs by blast
  then have run: "io_fold (wrapper_op logged_get demo_put identity_key_hasher) (fst demo_start) ?xs (snd demo_start) = (Inr w', st2)"
    by (simp add: io_bind_def)
  have ops: "\<forall>x \<in> set ?xs. op_ok x" by (simp add: val_ok_def)
  show ?thesis
    using wrapper_runs_refine [OF demo_params demo_addressed start ops run ok] start run by (fastforce simp: flat_def)
qed

text \<open>
  Size and collection: on a wrapper that stands for a map, \<open>collect_mappings\<close> lists every mapping of
  the map exactly once, and \<open>size\<close> is the number of keys.
\<close>

theorem wrapper_size_card:
  assumes "represents sha256 kh st w m"
  shows "\<exists>es. collect_mappings (logged_get st) champ_fuel (root w) = Inr es \<and> distinct (map ke_key es) \<and>
    map_of (map (\<lambda>e. (ke_key e, ke_value e)) es) = m \<and> wrapper_size (logged_get st) w = Inr (card (dom m))"
proof -
  obtain es where es: "collect_mappings (logged_get st) champ_fuel (root w) = Inr es" "ke_distinct es" "ke_map es = m"
    using collect_mappings_repr [of "logged_get st" kh 32 0 "root w" m champ_fuel] assms
    by (auto simp: represents_def champ_fuel_def)
  then show ?thesis
    using champ_size_collect [OF es(1)] card_ke_map [OF es(2)] by (auto simp: wrapper_size_def ke_map_def)
qed

theorem wrapper_size_card_witness: "wrapper_size (logged_get (snd demo_start)) (fst demo_start) = Inr 0"
  using wrapper_size_card [OF demo_start_represents] by simp

text \<open>
  Reopening: the wrapper created from the root hash of a written tree is the wrapper itself.
\<close>

theorem wrapper_reopen:
  assumes "represents sha256 kh st w m"
  shows "wrapper_create (logged_get st) (root_hash w) = Inr w"
  using assms by (auto simp: represents_def holds_def wrapper_create_def)

theorem wrapper_reopen_witness:
  "wrapper_create (logged_get (snd demo_start)) (root_hash (fst demo_start)) = Inr (fst demo_start)"
  by (rule wrapper_reopen [OF demo_start_represents])

end
