(* ===== verification/Codec.thy ===== *)
theory Codec
  imports Champ_Codec
begin

text \<open>
  CBOR codecs of data types.  A type's \<open>to_cbor\<close> and \<open>from_cbor\<close> form a \<open>cbor_codec\<close> when decoding what
  was encoded gives the value back; lists and byte strings of such values then do so too.  The first
  section has what the map builder promises to a decoder that looks fields up by name.
\<close>

section \<open>Fields of a built map\<close>

lemma ascii_valid: "list_all (\<lambda>c. of_char c < (128 :: nat)) s \<Longrightarrow> valid_utf8 s"
  using utf8_ascii [of "map of_char s"] by (auto simp: valid_utf8_def list_all_iff)

definition fields :: "(cbor_string, cbor) btree \<Rightarrow> bool" where
  "fields m \<longleftrightarrow> bt_sorted cmp_cbor_string m \<and> list_all valid_utf8 (map fst m)"

lemma fields_empty [simp]: "fields map_builder"
  by (simp add: fields_def map_builder_def)

lemma fields_put [simp]: "fields m \<Longrightarrow> valid_utf8 k \<Longrightarrow> fields (put k v m)"
  using cbor_key.sorted_bt_insert [of k m v] cbor_key.keys_ok_bt_insert [of k m v] by (simp add: fields_def put_def)

lemma fields_put_opt [simp]: "fields m \<Longrightarrow> valid_utf8 k \<Longrightarrow> fields (put_opt k v m)"
  by (cases v) (simp_all add: put_opt_def)

lemma get_empty [simp]: "cbor_get (build map_builder) k = None"
  by (simp add: cbor_get_def build_def map_builder_def)

lemma get_put [simp]:
  "fields m \<Longrightarrow> valid_utf8 k \<Longrightarrow> valid_utf8 k' \<Longrightarrow>
   cbor_get (build (put k v m)) k' = (if k' = k then Some v else cbor_get (build m) k')"
  using cbor_key.bt_get_insert [of k' k m v] by (simp add: cbor_get_def build_def put_def fields_def)

lemma get_put_opt [simp]:
  "fields m \<Longrightarrow> valid_utf8 k \<Longrightarrow> valid_utf8 k' \<Longrightarrow> cbor_get (build m) k = None \<Longrightarrow>
   cbor_get (build (put_opt k v m)) k' = (if k' = k then v else cbor_get (build m) k')"
  by (cases v) (simp_all add: put_opt_def)

lemma wf_build_empty [simp]: "wf_cbor (build map_builder)"
  by (simp add: build_def map_builder_def)

lemma wf_build_put [simp]: "wf_cbor (build m) \<Longrightarrow> valid_utf8 k \<Longrightarrow> wf_cbor v \<Longrightarrow> wf_cbor (build (put k v m))"
  using wf_bt_insert [of m k v] by (simp add: build_def put_def)

lemma wf_build_put_opt [simp]:
  "wf_cbor (build m) \<Longrightarrow> valid_utf8 k \<Longrightarrow> (\<And>x. v = Some x \<Longrightarrow> wf_cbor x) \<Longrightarrow> wf_cbor (build (put_opt k v m))"
  by (cases v) (simp_all add: put_opt_def)

text \<open>Field names are ASCII literals.\<close>

lemma valid_literal [simp]:
  "valid_utf8 []" "of_char c < (128 :: nat) \<Longrightarrow> list_all (\<lambda>c. of_char c < (128 :: nat)) s \<Longrightarrow> valid_utf8 (c # s)"
  by (rule ascii_valid, simp)+

section \<open>Codecs\<close>

definition serialize :: "('a \<Rightarrow> error + cbor) \<Rightarrow> 'a \<Rightarrow> error + bytes" where
  "serialize enc a = and_then (enc a) (\<lambda>x. Inr (to_bytes x))"

definition parse :: "(cbor \<Rightarrow> error + 'a) \<Rightarrow> bytes \<Rightarrow> error + 'a" where
  "parse dec bs = and_then (map_err CborErr (from_bytes bs)) dec"

definition parse_prefix :: "(cbor \<Rightarrow> error + 'a) \<Rightarrow> bytes \<Rightarrow> error + 'a" where
  "parse_prefix dec bs = and_then (map_err CborErr (from_bytes_prefix bs)) dec"

lemma from_bytes_prefix_to_bytes:
  assumes "wf_cbor x" "length (to_bytes x @ ys) < 2 ^ 64"
  shows "from_bytes_prefix (to_bytes x @ ys) = Inr x"
proof -
  have "to_bytes x @ ys \<noteq> []" using to_bytes_nonempty [of x] by simp
  then show ?thesis using deserialize_stream [OF assms] by (auto simp: from_bytes_prefix_def)
qed

locale cbor_codec =
  fixes enc :: "'a \<Rightarrow> error + cbor" and dec :: "cbor \<Rightarrow> error + 'a" and wf :: "'a \<Rightarrow> bool"
  assumes roundtrip: "wf a \<Longrightarrow> \<exists>x. enc a = Inr x \<and> dec x = Inr a \<and> wf_cbor x"
begin

lemma encodes:
  assumes "wf a"
  obtains x where "enc a = Inr x" "dec x = Inr a" "wf_cbor x"
  using roundtrip [OF assms] by blast

lemma enc_inject: "wf a \<Longrightarrow> wf b \<Longrightarrow> enc a = enc b \<Longrightarrow> a = b"
  using roundtrip by (metis sum.inject(2))

lemma list_roundtrip:
  "list_all wf as \<Longrightarrow> \<exists>xs. collect_results enc as = Inr xs \<and> collect_results dec xs = Inr as \<and> list_all wf_cbor xs"
proof (induction as)
  case (Cons a as)
  then obtain x xs where "enc a = Inr x" "dec x = Inr a" "wf_cbor x"
      "collect_results enc as = Inr xs" "collect_results dec xs = Inr as" "list_all wf_cbor xs"
    using roundtrip by fastforce
  then show ?case by (intro exI [of _ "x # xs"]) simp
qed simp

lemma encodes_list:
  assumes "list_all wf as"
  obtains xs where "collect_results enc as = Inr xs" "collect_results dec xs = Inr as" "list_all wf_cbor xs"
  using list_roundtrip [OF assms] by blast

lemma bytes_roundtrip:
  assumes "wf a"
  shows "\<exists>bs. serialize enc a = Inr bs \<and> (length bs < 2 ^ 64 \<longrightarrow> parse dec bs = Inr a)"
proof -
  obtain x where "enc a = Inr x" "dec x = Inr a" "wf_cbor x" using assms by (rule encodes)
  then show ?thesis using from_bytes_to_bytes [of x] by (auto simp: serialize_def parse_def)
qed

lemma padded_roundtrip:
  assumes "wf a"
  shows "\<exists>bs. serialize enc a = Inr bs \<and> (\<forall>ys. length (bs @ ys) < 2 ^ 64 \<longrightarrow> parse_prefix dec (bs @ ys) = Inr a)"
proof -
  obtain x where "enc a = Inr x" "dec x = Inr a" "wf_cbor x" using assms by (rule encodes)
  then show ?thesis using from_bytes_prefix_to_bytes [of x] by (auto simp: serialize_def parse_prefix_def)
qed

end

interpretation champ: cbor_codec champ_to_cbor champ_from_cbor wf_champ
  by unfold_locales (rule champ_roundtrip)

definition list_get :: "'a list \<Rightarrow> nat \<Rightarrow> 'a option" where
  "list_get xs i = (if i < length xs then Some (xs ! i) else None)"

lemma list_get_simps [simp]:
  "list_get [] i = None" "list_get (x # xs) 0 = Some x" "list_get (x # xs) (Suc i) = list_get xs i"
  by (simp_all add: list_get_def)

text \<open>A required field of a map.\<close>

definition field :: "string \<Rightarrow> cbor \<Rightarrow> string \<Rightarrow> error + cbor" where
  "field msg c k = ok_or (CborMsg msg) (cbor_get c k)"

text \<open>\<open>map(f).transpose()\<close> on an optional field.\<close>

definition opt_field :: "(cbor \<Rightarrow> error + 'a) \<Rightarrow> cbor \<Rightarrow> string \<Rightarrow> error + 'a option" where
  "opt_field f c k = (case cbor_get c k of Some x \<Rightarrow> and_then (f x) (\<lambda>a. Inr (Some a)) | None \<Rightarrow> Inr None)"

definition opt_enc :: "('a \<Rightarrow> error + cbor) \<Rightarrow> 'a option \<Rightarrow> error + cbor option" where
  "opt_enc f a = (case a of Some a \<Rightarrow> and_then (f a) (\<lambda>x. Inr (Some x)) | None \<Rightarrow> Inr None)"

context cbor_codec
begin

lemma encodes_opt:
  assumes "\<And>b. a = Some b \<Longrightarrow> wf b"
  obtains x where "opt_enc enc a = Inr x" "\<And>y. x = Some y \<Longrightarrow> wf_cbor y"
    "\<And>c k. cbor_get c k = x \<Longrightarrow> opt_field dec c k = Inr a"
proof (cases a)
  case None
  show thesis by (rule that [of None]) (simp_all add: None opt_enc_def opt_field_def)
next
  case (Some b)
  then obtain x where x: "enc b = Inr x" "dec x = Inr b" "wf_cbor x" using assms encodes by blast
  show thesis by (rule that [of "Some x"]) (simp_all add: Some x opt_enc_def opt_field_def)
qed

end

end
