(* ===== verification/Keys.thy ===== *)
theory Keys
  imports Codec
begin

text \<open>
  Signing keys (\<open>peergos-crypto/src/sign.rs\<close>, \<open>peergos-core/src/keys.rs\<close>): NaCl attached signatures, key
  hashes, ownership proofs, and \<open>get_signing_key\<close> of \<open>storage.rs\<close>.  The Ed25519 primitives are a parameter.
\<close>

section \<open>Attached signatures\<close>

text \<open>The functions of \<open>ed25519_dalek\<close> that the code calls, on a 32-byte seed.\<close>

record ed25519 =
  ed_public :: "bytes \<Rightarrow> bytes"
  ed_sign :: "bytes \<Rightarrow> bytes \<Rightarrow> bytes"
  ed_key_ok :: "bytes \<Rightarrow> bool"
  ed_verify :: "bytes \<Rightarrow> bytes \<Rightarrow> bytes \<Rightarrow> bool"

abbreviation (input) PUBLIC_KEY_BYTES :: nat where "PUBLIC_KEY_BYTES \<equiv> 32"
abbreviation (input) SECRET_KEY_BYTES :: nat where "SECRET_KEY_BYTES \<equiv> 64"
abbreviation (input) SIGNATURE_BYTES :: nat where "SIGNATURE_BYTES \<equiv> 64"

definition crypto_sign :: "ed25519 \<Rightarrow> bytes \<Rightarrow> bytes \<Rightarrow> error + bytes" where
  "crypto_sign E message secret_key =
     (if length secret_key \<noteq> SECRET_KEY_BYTES then Inl (Crypto ''signing secret key must be 64 bytes'')
      else Inr (ed_sign E (take 32 secret_key) message @ message))"

definition crypto_sign_open :: "ed25519 \<Rightarrow> bytes \<Rightarrow> bytes \<Rightarrow> error + bytes" where
  "crypto_sign_open E sm public_key =
     (if length public_key \<noteq> PUBLIC_KEY_BYTES then Inl (Crypto ''signing public key must be 32 bytes'')
      else if length sm < SIGNATURE_BYTES then Inl (Crypto ''sm message shorter than signature'')
      else if \<not> ed_key_ok E public_key then Inl (Crypto ''signature error'')
      else if \<not> ed_verify E public_key (drop SIGNATURE_BYTES sm) (take SIGNATURE_BYTES sm)
        then Inl (Crypto ''signature verification failed'')
      else Inr (drop SIGNATURE_BYTES sm))"

definition keypair_from_seed :: "ed25519 \<Rightarrow> bytes \<Rightarrow> error + bytes \<times> bytes" where
  "keypair_from_seed E seed =
     (if length seed \<noteq> 32 then Inl (Crypto ''signing seed must be 32 bytes'')
      else Inr (ed_public E seed, seed @ ed_public E seed))"

definition public_from_secret :: "ed25519 \<Rightarrow> bytes \<Rightarrow> error + bytes" where
  "public_from_secret E secret_key =
     (if length secret_key \<noteq> SECRET_KEY_BYTES then Inl (Crypto ''signing secret key must be 64 bytes'')
      else Inr (ed_public E (take 32 secret_key)))"

text \<open>What Ed25519 promises: sizes, and that a signature verifies under the key of its seed.\<close>

definition ed25519_ok :: "ed25519 \<Rightarrow> bool" where
  "ed25519_ok E \<longleftrightarrow>
     (\<forall>seed. length (ed_public E seed) = 32 \<and> ed_key_ok E (ed_public E seed) \<and>
       (\<forall>msg. length (ed_sign E seed msg) = 64 \<and> ed_verify E (ed_public E seed) msg (ed_sign E seed msg)))"

section \<open>Key hashes and keys\<close>

abbreviation (input) ED25519 :: i64 where "ED25519 \<equiv> 1"

definition cid_bytes :: "cid \<Rightarrow> error + bytes" where
  "cid_bytes c = map_err Multiformat (cid_to_bytes c)"

record public_key_hash =
  pkh_target :: cid

definition pkh_new :: "cid \<Rightarrow> error + public_key_hash" where
  "pkh_new target =
     (if hash_type (cid_multihash target) \<noteq> Sha2_256 \<and> hash_type (cid_multihash target) \<noteq> Id_hash
      then Inl (Protocol ''Must use a safe hash for a public key!'')
      else Inr \<lparr>pkh_target = target\<rparr>)"

definition pkh_identity :: "bytes \<Rightarrow> error + public_key_hash" where
  "pkh_identity raw = and_then (map_err Multiformat (cid_new CID_V1 DagCbor Id_hash raw)) pkh_new"

definition pkh_is_identity :: "public_key_hash \<Rightarrow> bool" where
  "pkh_is_identity h = is_identity (cid_multihash (pkh_target h))"

definition pkh_from_cbor :: "cbor \<Rightarrow> error + public_key_hash" where
  "pkh_from_cbor c =
     (case as_link c of
        Some bs \<Rightarrow> and_then (map_err Multiformat (cid_cast bs)) pkh_new
      | None \<Rightarrow> Inl (CborMsg ''Invalid cbor for PublicKeyHash''))"

definition pkh_to_cbor :: "public_key_hash \<Rightarrow> error + cbor" where
  "pkh_to_cbor h = and_then (cid_bytes (pkh_target h)) (\<lambda>bs. Inr (CMerkleLink bs))"

record public_signing_key =
  psk_bytes :: bytes

definition psk_to_cbor :: "public_signing_key \<Rightarrow> error + cbor" where
  "psk_to_cbor k = Inr (CList [CLong ED25519, CByteString (psk_bytes k)])"

definition psk_from_cbor :: "cbor \<Rightarrow> error + public_signing_key" where
  "psk_from_cbor c =
     and_then (ok_or (CborMsg ''Invalid cbor for PublicSigningKey'') (as_list c)) (\<lambda>l.
     and_then (ok_or (CborMsg ''missing ed25519 public key bytes'') (Option.bind (list_get l 1) as_byte_string)) (\<lambda>k.
       Inr \<lparr>psk_bytes = k\<rparr>))"

definition psk_hash :: "public_signing_key \<Rightarrow> error + public_key_hash" where
  "psk_hash k = and_then (serialize psk_to_cbor k) pkh_identity"

definition unsign_message :: "ed25519 \<Rightarrow> public_signing_key \<Rightarrow> bytes \<Rightarrow> error + bytes" where
  "unsign_message E k sm = crypto_sign_open E sm (psk_bytes k)"

record secret_signing_key =
  ssk_bytes :: bytes

definition sign_message :: "ed25519 \<Rightarrow> secret_signing_key \<Rightarrow> bytes \<Rightarrow> error + bytes" where
  "sign_message E k message = crypto_sign E message (ssk_bytes k)"

definition signature_only :: "ed25519 \<Rightarrow> secret_signing_key \<Rightarrow> bytes \<Rightarrow> error + bytes" where
  "signature_only E k message =
     and_then (sign_message E k message) (\<lambda>sm.
       if length sm < SIGNATURE_BYTES then Inl Panicked else Inr (take SIGNATURE_BYTES sm))"

definition ssk_to_cbor :: "secret_signing_key \<Rightarrow> error + cbor" where
  "ssk_to_cbor k = Inr (CList [CLong ED25519, CByteString (ssk_bytes k)])"

definition ssk_from_cbor :: "cbor \<Rightarrow> error + secret_signing_key" where
  "ssk_from_cbor c =
     and_then (ok_or (CborMsg ''Invalid cbor for SecretSigningKey'') (as_list c)) (\<lambda>l.
     and_then (ok_or (CborMsg ''missing ed25519 secret key bytes'') (Option.bind (list_get l 1) as_byte_string)) (\<lambda>k.
       Inr \<lparr>ssk_bytes = k\<rparr>))"

record signing_private_key_and_public_hash =
  spk_public_key_hash :: public_key_hash
  spk_secret :: secret_signing_key

definition spk_from_cbor :: "cbor \<Rightarrow> error + signing_private_key_and_public_hash" where
  "spk_from_cbor c =
     and_then (field ''missing 'p' in SigningPrivateKeyAndPublicHash'' c ''p'') (\<lambda>p.
     and_then (field ''missing 's' in SigningPrivateKeyAndPublicHash'' c ''s'') (\<lambda>s.
     and_then (pkh_from_cbor p) (\<lambda>h.
     and_then (ssk_from_cbor s) (\<lambda>k.
       Inr \<lparr>spk_public_key_hash = h, spk_secret = k\<rparr>))))"

definition spk_to_cbor :: "signing_private_key_and_public_hash \<Rightarrow> error + cbor" where
  "spk_to_cbor k =
     and_then (pkh_to_cbor (spk_public_key_hash k)) (\<lambda>p.
     and_then (ssk_to_cbor (spk_secret k)) (\<lambda>s.
       Inr (build (put ''s'' s (put ''p'' p map_builder)))))"

record signing_key_pair =
  skp_public :: public_signing_key
  skp_secret :: secret_signing_key

definition skp_from_secret :: "ed25519 \<Rightarrow> bytes \<Rightarrow> error + signing_key_pair" where
  "skp_from_secret E secret_key =
     and_then (public_from_secret E secret_key) (\<lambda>p.
       Inr \<lparr>skp_public = \<lparr>psk_bytes = p\<rparr>, skp_secret = \<lparr>ssk_bytes = secret_key\<rparr>\<rparr>)"

text \<open>\<open>random\<close> with the 32 random bytes as its argument.\<close>

definition skp_random :: "ed25519 \<Rightarrow> bytes \<Rightarrow> error + signing_key_pair" where
  "skp_random E seed = and_then (keypair_from_seed E seed) (\<lambda>(_, secret64). skp_from_secret E secret64)"

definition to_private_and_hash :: "signing_key_pair \<Rightarrow> error + signing_private_key_and_public_hash" where
  "to_private_and_hash k =
     and_then (psk_hash (skp_public k)) (\<lambda>h. Inr \<lparr>spk_public_key_hash = h, spk_secret = skp_secret k\<rparr>)"

definition skp_from_cbor :: "cbor \<Rightarrow> error + signing_key_pair" where
  "skp_from_cbor c =
     and_then (ok_or (CborMsg ''Invalid cbor for SigningKeyPair'') (as_list c)) (\<lambda>l.
     and_then (and_then (ok_or (CborMsg ''SigningKeyPair missing public key'') (list_get l 0)) psk_from_cbor) (\<lambda>p.
     and_then (and_then (ok_or (CborMsg ''SigningKeyPair missing secret key'') (list_get l 1)) ssk_from_cbor) (\<lambda>s.
       Inr \<lparr>skp_public = p, skp_secret = s\<rparr>)))"

definition skp_to_cbor :: "signing_key_pair \<Rightarrow> error + cbor" where
  "skp_to_cbor k =
     and_then (psk_to_cbor (skp_public k)) (\<lambda>p. and_then (ssk_to_cbor (skp_secret k)) (\<lambda>s. Inr (CList [p, s])))"

section \<open>Ownership proofs\<close>

definition get_signing_key :: "(cid \<Rightarrow> error + cbor option) \<Rightarrow> public_key_hash \<Rightarrow> error + public_signing_key option" where
  "get_signing_key sg h =
     (if pkh_is_identity h then
        and_then (parse psk_from_cbor (hash (cid_multihash (pkh_target h)))) (\<lambda>k. Inr (Some k))
      else and_then (sg (pkh_target h)) (\<lambda>found.
        case found of Some c \<Rightarrow> and_then (psk_from_cbor c) (\<lambda>k. Inr (Some k)) | None \<Rightarrow> Inr None))"

record owner_proof =
  owned_key :: public_key_hash
  signed_owner :: bytes

definition proof_build :: "ed25519 \<Rightarrow> signing_private_key_and_public_hash \<Rightarrow> public_key_hash \<Rightarrow> error + owner_proof" where
  "proof_build E owned_keypair owner =
     and_then (serialize pkh_to_cbor owner) (\<lambda>bs.
     and_then (sign_message E (spk_secret owned_keypair) bs) (\<lambda>sm.
       Inr \<lparr>owned_key = spk_public_key_hash owned_keypair, signed_owner = sm\<rparr>))"

definition get_and_verify_owner ::
  "ed25519 \<Rightarrow> (cid \<Rightarrow> error + cbor option) \<Rightarrow> owner_proof \<Rightarrow> error + public_key_hash" where
  "get_and_verify_owner E sg p =
     and_then (get_signing_key sg (owned_key p)) (\<lambda>found.
     and_then (ok_or (Protocol ''Couldn't retrieve owned key'') found) (\<lambda>signer.
     and_then (unsign_message E signer (signed_owner p)) (parse_prefix pkh_from_cbor)))"

definition proof_from_cbor :: "cbor \<Rightarrow> error + owner_proof" where
  "proof_from_cbor c =
     and_then (and_then (field ''OwnerProof missing o'' c ''o'') pkh_from_cbor) (\<lambda>owned.
     and_then (ok_or (CborMsg ''OwnerProof missing p'') (Option.bind (cbor_get c ''p'') as_byte_string)) (\<lambda>sm.
       Inr \<lparr>owned_key = owned, signed_owner = sm\<rparr>))"

definition proof_to_cbor :: "owner_proof \<Rightarrow> error + cbor" where
  "proof_to_cbor p =
     and_then (pkh_to_cbor (owned_key p)) (\<lambda>owned.
       Inr (build (put ''p'' (CByteString (signed_owner p)) (put ''o'' owned map_builder))))"

section \<open>Round trips\<close>

definition wf_pkh :: "public_key_hash \<Rightarrow> bool" where
  "wf_pkh h \<longleftrightarrow> wf_cid (pkh_target h) \<and> hash_type (cid_multihash (pkh_target h)) \<in> {Sha2_256, Id_hash}"

definition wf_spk :: "signing_private_key_and_public_hash \<Rightarrow> bool" where
  "wf_spk k \<longleftrightarrow> wf_pkh (spk_public_key_hash k)"

definition wf_proof :: "owner_proof \<Rightarrow> bool" where
  "wf_proof p \<longleftrightarrow> wf_pkh (owned_key p)"

interpretation pkh: cbor_codec pkh_to_cbor pkh_from_cbor wf_pkh
proof
  fix h :: public_key_hash
  assume wf: "wf_pkh h"
  then obtain bs where "cid_to_bytes (pkh_target h) = Inr bs" "cid_cast bs = Inr (pkh_target h)"
    using cid_bytes_roundtrip by (auto simp: wf_pkh_def)
  moreover have "pkh_new (pkh_target h) = Inr h" using wf by (auto simp: wf_pkh_def pkh_new_def)
  ultimately show "\<exists>x. pkh_to_cbor h = Inr x \<and> pkh_from_cbor x = Inr h \<and> wf_cbor x"
    by (intro exI [of _ "CMerkleLink bs"]) (simp add: pkh_to_cbor_def pkh_from_cbor_def cid_bytes_def)
qed

interpretation psk: cbor_codec psk_to_cbor psk_from_cbor "\<lambda>_. True"
  by unfold_locales (simp add: psk_to_cbor_def psk_from_cbor_def)

interpretation ssk: cbor_codec ssk_to_cbor ssk_from_cbor "\<lambda>_. True"
  by unfold_locales (simp add: ssk_to_cbor_def ssk_from_cbor_def)

interpretation spk: cbor_codec spk_to_cbor spk_from_cbor wf_spk
proof
  fix k
  assume "wf_spk k"
  then obtain p s where "pkh_to_cbor (spk_public_key_hash k) = Inr p" "pkh_from_cbor p = Inr (spk_public_key_hash k)" "wf_cbor p"
      "ssk_to_cbor (spk_secret k) = Inr s" "ssk_from_cbor s = Inr (spk_secret k)" "wf_cbor s"
    using pkh.encodes ssk.encodes by (metis wf_spk_def)
  then show "\<exists>x. spk_to_cbor k = Inr x \<and> spk_from_cbor x = Inr k \<and> wf_cbor x"
    by (simp add: spk_to_cbor_def spk_from_cbor_def field_def)
qed

interpretation skp: cbor_codec skp_to_cbor skp_from_cbor "\<lambda>_. True"
  by unfold_locales (simp add: skp_to_cbor_def skp_from_cbor_def psk_to_cbor_def psk_from_cbor_def ssk_to_cbor_def ssk_from_cbor_def)

interpretation owner_proof: cbor_codec proof_to_cbor proof_from_cbor wf_proof
proof
  fix p
  assume "wf_proof p"
  then obtain x where "pkh_to_cbor (owned_key p) = Inr x" "pkh_from_cbor x = Inr (owned_key p)" "wf_cbor x"
    using pkh.encodes by (metis wf_proof_def)
  then show "\<exists>x. proof_to_cbor p = Inr x \<and> proof_from_cbor x = Inr p \<and> wf_cbor x"
    by (simp add: proof_to_cbor_def proof_from_cbor_def field_def)
qed

section \<open>Signatures verify\<close>

lemma crypto_sign_open_sign:
  assumes "ed25519_ok E" "crypto_sign E msg sk = Inr sm" "public_from_secret E sk = Inr pk"
  shows "crypto_sign_open E sm pk = Inr msg"
  using assms
  by (auto simp: ed25519_ok_def crypto_sign_def public_from_secret_def crypto_sign_open_def split: if_splits)

lemma psk_hash_lookup:
  assumes "psk_hash k = Inr h"
  shows "get_signing_key sg h = Inr (Some k)" "wf_pkh h"
proof -
  let ?x = "CList [CLong ED25519, CByteString (psk_bytes k)]"
  have ser: "serialize psk_to_cbor k = Inr (to_bytes ?x)" by (simp add: serialize_def psk_to_cbor_def)
  from assms have len: "length (to_bytes ?x) \<le> 4112" and
      h: "h = \<lparr>pkh_target = \<lparr>version = CID_V1, cid_codec = DagCbor, cid_multihash = \<lparr>hash_type = Id_hash, hash = to_bytes ?x\<rparr>\<rparr>\<rparr>"
    by (auto simp: psk_hash_def ser pkh_identity_def cid_new_def multihash_new_def pkh_new_def split: if_splits)
  have "from_bytes (to_bytes ?x) = Inr ?x" using len by (intro from_bytes_to_bytes) simp_all
  then show "get_signing_key sg h = Inr (Some k)"
    by (simp add: h get_signing_key_def pkh_is_identity_def is_identity_def parse_def psk_from_cbor_def)
  show "wf_pkh h" using len by (simp add: h wf_pkh_def wf_cid_def wf_multihash_def multihash_new_def)
qed

text \<open>
  C20. Ownership proofs: a proof built with a key pair for an owner verifies, whatever the block store
  holds, and yields exactly that owner; and a proof that verifies at all carries a signature that
  Ed25519 accepts under the owned key, over the owner it yields.
\<close>

theorem owner_proof_verifies:
  assumes "ed25519_ok E" "skp_from_secret E sk = Inr kp" "to_private_and_hash kp = Inr spk" "wf_pkh owner"
    "proof_build E spk owner = Inr p" "length (signed_owner p) < 2 ^ 64"
  shows "get_and_verify_owner E sg p = Inr owner \<and>
    (\<forall>q claimed. get_and_verify_owner E sg q = Inr claimed \<longrightarrow>
      (\<exists>k. get_signing_key sg (owned_key q) = Inr (Some k) \<and>
        ed_verify E (psk_bytes k) (drop 64 (signed_owner q)) (take 64 (signed_owner q)) \<and>
        parse_prefix pkh_from_cbor (drop 64 (signed_owner q)) = Inr claimed))"
proof (intro conjI allI impI)
  obtain pk where pk: "public_from_secret E sk = Inr pk" "kp = \<lparr>skp_public = \<lparr>psk_bytes = pk\<rparr>, skp_secret = \<lparr>ssk_bytes = sk\<rparr>\<rparr>"
    using assms(2) by (auto simp: skp_from_secret_def and_then_Inr_iff)
  obtain h where h: "psk_hash \<lparr>psk_bytes = pk\<rparr> = Inr h" "spk = \<lparr>spk_public_key_hash = h, spk_secret = \<lparr>ssk_bytes = sk\<rparr>\<rparr>"
    using assms(3) pk(2) by (auto simp: to_private_and_hash_def and_then_Inr_iff)
  obtain x where x: "pkh_to_cbor owner = Inr x" "pkh_from_cbor x = Inr owner" "wf_cbor x" using assms(4) by (rule pkh.encodes)
  then obtain sm where sm: "crypto_sign E (to_bytes x) sk = Inr sm" "p = \<lparr>owned_key = h, signed_owner = sm\<rparr>"
    using assms(5) h(2) by (auto simp: proof_build_def serialize_def sign_message_def and_then_Inr_iff)
  have "length (to_bytes x) \<le> length sm" using sm(1) by (auto simp: crypto_sign_def split: if_splits)
  then have "from_bytes_prefix (to_bytes x @ []) = Inr x"
    using assms(6) sm(2) x(3) by (intro from_bytes_prefix_to_bytes) simp_all
  then show "get_and_verify_owner E sg p = Inr owner"
    using psk_hash_lookup [OF h(1)] crypto_sign_open_sign [OF assms(1) sm(1) pk(1)] x(2)
    by (simp add: get_and_verify_owner_def sm(2) unsign_message_def parse_prefix_def)
next
  fix q claimed
  assume "get_and_verify_owner E sg q = Inr claimed"
  then show "\<exists>k. get_signing_key sg (owned_key q) = Inr (Some k) \<and>
      ed_verify E (psk_bytes k) (drop 64 (signed_owner q)) (take 64 (signed_owner q)) \<and>
      parse_prefix pkh_from_cbor (drop 64 (signed_owner q)) = Inr claimed"
    by (auto simp: get_and_verify_owner_def unsign_message_def crypto_sign_open_def and_then_Inr_iff ok_or_Inr_iff split: if_splits)
qed

definition demo_ed :: ed25519 where
  "demo_ed = \<lparr>ed_public = (\<lambda>s. take 32 (s @ replicate 32 0)),
     ed_sign = (\<lambda>s m. take 32 (s @ replicate 32 0) @ take 32 (m @ replicate 32 0)), ed_key_ok = (\<lambda>k. True),
     ed_verify = (\<lambda>k m sg. sg = k @ take 32 (m @ replicate 32 0))\<rparr>"

lemma demo_ed_ok: "ed25519_ok demo_ed"
  by (auto simp: ed25519_ok_def demo_ed_def min_def)

definition demo_owner :: public_key_hash where
  "demo_owner = \<lparr>pkh_target = \<lparr>version = CID_V1, cid_codec = DagCbor, cid_multihash = \<lparr>hash_type = Id_hash, hash = [1, 2]\<rparr>\<rparr>\<rparr>"

lemma demo_owner_wf: "wf_pkh demo_owner"
  by (simp add: demo_owner_def wf_pkh_def wf_cid_def wf_multihash_def multihash_new_def)

definition demo_proof :: "error + owner_proof" where
  "demo_proof = and_then (skp_from_secret demo_ed (replicate 64 7)) (\<lambda>kp.
     and_then (to_private_and_hash kp) (\<lambda>spk. proof_build demo_ed spk demo_owner))"

theorem owner_proof_verifies_witness:
  "\<exists>p. demo_proof = Inr p \<and> get_and_verify_owner demo_ed (\<lambda>_. Inr None) p = Inr demo_owner"
proof -
  have "case demo_proof of Inr p \<Rightarrow> length (signed_owner p) < 2 ^ 64 | _ \<Rightarrow> False" by code_simp
  then obtain p where p: "demo_proof = Inr p" "length (signed_owner p) < 2 ^ 64" by (auto split: sum.splits)
  then obtain kp spk where "skp_from_secret demo_ed (replicate 64 7) = Inr kp" "to_private_and_hash kp = Inr spk"
      "proof_build demo_ed spk demo_owner = Inr p"
    by (auto simp: demo_proof_def and_then_Inr_iff)
  from owner_proof_verifies [OF demo_ed_ok this(1,2) demo_owner_wf this(3) p(2)] p(1) show ?thesis by blast
qed

end
