(* ===== verification/Capability.thy ===== *)
theory Capability
  imports Keys Strings
begin

text \<open>
  Symmetric encryption (\<open>peergos-crypto/src/symmetric.rs\<close>, \<open>peergos-core/src/symmetric.rs\<close>), block access
  tokens (\<open>peergos-core/src/auth.rs\<close>), capabilities and secret links (\<open>peergos-fs/src/capability.rs\<close>).
  XSalsa20-Poly1305 and scrypt are parameters.
\<close>

section \<open>Secretbox\<close>

text \<open>Encryption of a buffer in place with a detached tag, under a 32-byte key and a 24-byte nonce.\<close>

record secretbox_lib =
  box_seal :: "bytes \<Rightarrow> bytes \<Rightarrow> bytes \<Rightarrow> (bytes \<times> bytes) option"
  box_unseal :: "bytes \<Rightarrow> bytes \<Rightarrow> bytes \<Rightarrow> bytes \<Rightarrow> bytes option"

abbreviation (input) KEY_BYTES :: nat where "KEY_BYTES \<equiv> 32"
abbreviation (input) NONCE_BYTES :: nat where "NONCE_BYTES \<equiv> 24"
abbreviation (input) MAC_BYTES :: nat where "MAC_BYTES \<equiv> 16"

definition secretbox :: "secretbox_lib \<Rightarrow> bytes \<Rightarrow> bytes \<Rightarrow> bytes \<Rightarrow> error + bytes" where
  "secretbox B data nonce key =
     (if length nonce \<noteq> NONCE_BYTES then Inl (Crypto ''nonce must be 24 bytes'')
      else if length key \<noteq> KEY_BYTES then Inl (Crypto ''secretbox key must be 32 bytes'')
      else case box_seal B key nonce data of
             Some (tag, buffer) \<Rightarrow> Inr (tag @ buffer)
           | None \<Rightarrow> Inl (Crypto ''secretbox encrypt failed''))"

definition secretbox_open :: "secretbox_lib \<Rightarrow> bytes \<Rightarrow> bytes \<Rightarrow> bytes \<Rightarrow> error + bytes" where
  "secretbox_open B cipher_bytes nonce key =
     (if length nonce \<noteq> NONCE_BYTES then Inl (Crypto ''nonce must be 24 bytes'')
      else if length cipher_bytes < MAC_BYTES then Inl (Crypto ''ciphertext shorter than MAC'')
      else if length key \<noteq> KEY_BYTES then Inl (Crypto ''secretbox key must be 32 bytes'')
      else case box_unseal B key nonce (take MAC_BYTES cipher_bytes) (drop MAC_BYTES cipher_bytes) of
             Some buffer \<Rightarrow> Inr buffer
           | None \<Rightarrow> Inl (Crypto ''secretbox authentication failed''))"

text \<open>What the cipher promises: 16-byte tags, a buffer of the same length, and decryption of what was encrypted.\<close>

definition secretbox_ok :: "secretbox_lib \<Rightarrow> bool" where
  "secretbox_ok B \<longleftrightarrow>
     (\<forall>key nonce data tag buffer. box_seal B key nonce data = Some (tag, buffer) \<longrightarrow>
        length tag = 16 \<and> length buffer = length data \<and> box_unseal B key nonce tag buffer = Some data)"

section \<open>Symmetric keys and cipher texts\<close>

record symmetric_key =
  sym_key :: bytes
  is_dirty :: bool

definition sym_new :: "bytes \<Rightarrow> bool \<Rightarrow> error + symmetric_key" where
  "sym_new key dirty =
     (if length key \<noteq> KEY_BYTES then Inl (Crypto ''Incorrect key size!'') else Inr \<lparr>sym_key = key, is_dirty = dirty\<rparr>)"

definition encrypt :: "secretbox_lib \<Rightarrow> symmetric_key \<Rightarrow> bytes \<Rightarrow> bytes \<Rightarrow> error + bytes" where
  "encrypt B k data nonce = secretbox B data nonce (sym_key k)"

definition decrypt :: "secretbox_lib \<Rightarrow> symmetric_key \<Rightarrow> bytes \<Rightarrow> bytes \<Rightarrow> error + bytes" where
  "decrypt B k cipher nonce = secretbox_open B cipher nonce (sym_key k)"

definition sym_from_cbor :: "cbor \<Rightarrow> error + symmetric_key" where
  "sym_from_cbor c =
     and_then (ok_or (CborMsg ''Invalid cbor for SymmetricKey'') (as_list c)) (\<lambda>l.
     and_then (ok_or (CborMsg ''missing symmetric key bytes'') (Option.bind (list_get l 1) as_byte_string)) (\<lambda>key.
       sym_new key (case Option.bind (list_get l 2) as_bool of Some b \<Rightarrow> b | None \<Rightarrow> False)))"

definition sym_to_cbor :: "symmetric_key \<Rightarrow> error + cbor" where
  "sym_to_cbor k = Inr (CList [CLong 1, CByteString (sym_key k), CBoolean (is_dirty k)])"

definition sym_from_byte_array :: "bytes \<Rightarrow> error + symmetric_key" where
  "sym_from_byte_array raw = parse sym_from_cbor raw"

record cipher_text =
  ct_nonce :: bytes
  ct_cipher :: bytes

definition ct_from_cbor :: "cbor \<Rightarrow> error + cipher_text" where
  "ct_from_cbor c =
     and_then (ok_or (CborMsg ''Invalid cbor for cipher text'') (as_list c)) (\<lambda>parts.
     and_then (ok_or (CborMsg ''cipher text missing nonce'') (Option.bind (list_get parts 0) as_byte_string)) (\<lambda>nonce.
     and_then (ok_or (CborMsg ''cipher text missing ciphertext'') (Option.bind (list_get parts 1) as_byte_string)) (\<lambda>cipher.
       Inr \<lparr>ct_nonce = nonce, ct_cipher = cipher\<rparr>)))"

definition ct_to_cbor :: "cipher_text \<Rightarrow> error + cbor" where
  "ct_to_cbor c = Inr (CList [CByteString (ct_nonce c), CByteString (ct_cipher c)])"

text \<open>\<open>build\<close> with the nonce that \<open>create_nonce\<close> returns as an argument.\<close>

definition ct_build :: "secretbox_lib \<Rightarrow> bytes \<Rightarrow> symmetric_key \<Rightarrow> ('a \<Rightarrow> error + cbor) \<Rightarrow> 'a \<Rightarrow> error + cipher_text" where
  "ct_build B nonce key enc secret =
     and_then (serialize enc secret) (\<lambda>bs.
     and_then (encrypt B key bs nonce) (\<lambda>cipher. Inr \<lparr>ct_nonce = nonce, ct_cipher = cipher\<rparr>))"

definition ct_decrypt :: "secretbox_lib \<Rightarrow> cipher_text \<Rightarrow> symmetric_key \<Rightarrow> (cbor \<Rightarrow> error + 'a) \<Rightarrow> error + 'a" where
  "ct_decrypt B c key from_cbor = and_then (decrypt B key (ct_cipher c) (ct_nonce c)) (parse_prefix from_cbor)"

section \<open>Block access tokens\<close>

record bat =
  secret :: bytes

definition bat_new :: "bytes \<Rightarrow> error + bat" where
  "bat_new s = (if length s \<noteq> 32 then Inl (Protocol ''Invalid BAT length'') else Inr \<lparr>secret = s\<rparr>)"

definition encode_secret :: "bat \<Rightarrow> error + string" where
  "encode_secret b = map_err Multiformat (multibase_encode_base58btc (secret b))"

definition bat_from_string :: "string \<Rightarrow> error + bat" where
  "bat_from_string s = and_then (map_err Multiformat (multibase_decode s)) bat_new"

definition token_from_cbor :: "cbor \<Rightarrow> error + bat" where
  "token_from_cbor c =
     and_then (ok_or (CborMsg ''Incorrect cbor for Bat'') (Option.bind (cbor_get c ''s'') as_byte_string)) bat_new"

definition token_to_cbor :: "bat \<Rightarrow> error + cbor" where
  "token_to_cbor b = Inr (build (put ''s'' (CByteString (secret b)) map_builder))"

definition calculate_id :: "(bytes \<Rightarrow> bytes) \<Rightarrow> bat \<Rightarrow> error + bat_id" where
  "calculate_id sha256 b =
     and_then (serialize token_to_cbor b) (\<lambda>bs.
     and_then (map_err Multiformat (cid_new CID_V1 Raw Sha2_256 (sha256 bs))) (\<lambda>c. Inr \<lparr>bat_cid = c\<rparr>))"

definition get_inline :: "bat_id \<Rightarrow> bat option" where
  "get_inline i =
     (if bat_is_inline i then
        (case bat_new (hash (cid_multihash (bat_cid i))) of Inr b \<Rightarrow> Some b | Inl _ \<Rightarrow> None)
      else None)"

record bat_with_id =
  bwi_bat :: bat
  bwi_id :: cid

definition bwi_new :: "bat \<Rightarrow> cid \<Rightarrow> error + bat_with_id" where
  "bwi_new b i =
     (if is_identity (cid_multihash i) then Inl (Protocol ''Cannot use identity cid here!'')
      else if cid_codec i \<noteq> Raw then Inl (Protocol ''BatId codec must be Raw!'')
      else Inr \<lparr>bwi_bat = b, bwi_id = i\<rparr>)"

definition bwi_from_cbor :: "cbor \<Rightarrow> error + bat_with_id" where
  "bwi_from_cbor c =
     and_then (and_then (field ''Incorrect cbor for BatWithId'' c ''b'') token_from_cbor) (\<lambda>b.
     and_then (ok_or (CborMsg ''missing 'i' in BatWithId'') (Option.bind (cbor_get c ''i'') as_byte_string)) (\<lambda>bs.
     and_then (map_err Multiformat (cid_cast bs)) (bwi_new b)))"

definition bwi_to_cbor :: "bat_with_id \<Rightarrow> error + cbor" where
  "bwi_to_cbor b =
     and_then (token_to_cbor (bwi_bat b)) (\<lambda>t.
     and_then (cid_bytes (bwi_id b)) (\<lambda>bs. Inr (build (put ''i'' (CByteString bs) (put ''b'' t map_builder)))))"

definition bwi_encode :: "bat_with_id \<Rightarrow> error + string" where
  "bwi_encode b = and_then (serialize bwi_to_cbor b) (\<lambda>bs. map_err Multiformat (multibase_encode_base58btc bs))"

definition bwi_decode :: "string \<Rightarrow> error + bat_with_id" where
  "bwi_decode s = and_then (map_err Multiformat (multibase_decode s)) (parse bwi_from_cbor)"

section \<open>Capabilities\<close>

abbreviation (input) MAP_KEY_LENGTH :: nat where "MAP_KEY_LENGTH \<equiv> 32"

record fs_location =
  loc_owner :: public_key_hash
  loc_writer :: public_key_hash
  loc_map_key :: bytes

record absolute_capability =
  cap_owner :: public_key_hash
  cap_writer :: public_key_hash
  map_key :: bytes
  cap_bat :: "bat option"
  r_base_key :: symmetric_key
  w_base_key :: "symmetric_key option"

definition cap_new ::
  "public_key_hash \<Rightarrow> public_key_hash \<Rightarrow> bytes \<Rightarrow> bat option \<Rightarrow> symmetric_key \<Rightarrow> symmetric_key option \<Rightarrow>
   error + absolute_capability" where
  "cap_new ow wr mk b rk wk =
     (if length mk \<noteq> MAP_KEY_LENGTH then Inl (Protocol ''Invalid map key length'')
      else Inr \<lparr>cap_owner = ow, cap_writer = wr, map_key = mk, cap_bat = b, r_base_key = rk, w_base_key = wk\<rparr>)"

definition cap_location :: "absolute_capability \<Rightarrow> fs_location" where
  "cap_location c = \<lparr>loc_owner = cap_owner c, loc_writer = cap_writer c, loc_map_key = map_key c\<rparr>"

definition is_writable :: "absolute_capability \<Rightarrow> bool" where
  "is_writable c \<longleftrightarrow> w_base_key c \<noteq> None"

definition read_only :: "absolute_capability \<Rightarrow> absolute_capability" where
  "read_only c = c\<lparr>w_base_key := None\<rparr>"

definition cap_from_cbor :: "cbor \<Rightarrow> error + absolute_capability" where
  "cap_from_cbor c =
     and_then (and_then (field ''cap missing o'' c ''o'') pkh_from_cbor) (\<lambda>ow.
     and_then (and_then (field ''cap missing w'' c ''w'') pkh_from_cbor) (\<lambda>wr.
     and_then (ok_or (CborMsg ''cap missing m'') (Option.bind (cbor_get c ''m'') as_byte_string)) (\<lambda>mk.
     and_then (opt_field token_from_cbor c ''a'') (\<lambda>b.
     and_then (and_then (field ''cap missing k'' c ''k'') sym_from_cbor) (\<lambda>rk.
     and_then (opt_field sym_from_cbor c ''b'') (\<lambda>wk.
       cap_new ow wr mk b rk wk))))))"

definition cap_to_cbor :: "absolute_capability \<Rightarrow> error + cbor" where
  "cap_to_cbor c =
     and_then (pkh_to_cbor (cap_owner c)) (\<lambda>ow.
     and_then (pkh_to_cbor (cap_writer c)) (\<lambda>wr.
     and_then (opt_enc token_to_cbor (cap_bat c)) (\<lambda>b.
     and_then (sym_to_cbor (r_base_key c)) (\<lambda>rk.
     and_then (opt_enc sym_to_cbor (w_base_key c)) (\<lambda>wk.
       Inr (build (put_opt ''b'' wk (put ''k'' rk (put_opt ''a'' b
         (put ''m'' (CByteString (map_key c)) (put ''w'' wr (put ''o'' ow map_builder)))))))))))) "

section \<open>Secret links\<close>

record secret_link =
  link_owner :: public_key_hash
  link_label :: i64
  link_password :: string

definition label_string :: "secret_link \<Rightarrow> string" where
  "label_string l = show_int (sint (link_label l))"

definition PASSWORD_CHARACTERS :: string where
  "PASSWORD_CHARACTERS = ''abcdefghijklmnopqrstuvwxyzABCDEFGHIJKLMNOPQRSTUVWXYZ0123456789''"

text \<open>\<open>create\<close> and \<open>create_link_password\<close> with their random bytes as arguments.\<close>

definition create_link_password :: "bytes \<Rightarrow> string" where
  "create_link_password bs = map (\<lambda>b. PASSWORD_CHARACTERS ! (unat b mod length PASSWORD_CHARACTERS)) bs"

definition link_create :: "bytes \<Rightarrow> bytes \<Rightarrow> public_key_hash \<Rightarrow> error + secret_link" where
  "link_create b password_bytes ow =
     (if length b < 4 then Inl Panicked else
      let l = (ucast (b ! 0) :: i64) OR push_bit 8 (ucast (b ! 1)) OR push_bit 16 (ucast (b ! 2)) OR push_bit 24 (ucast (b ! 3));
          l = (if l \<le>s 0 then 1 else l)
      in Inr \<lparr>link_owner = ow, link_label = l, link_password = create_link_password password_bytes\<rparr>)"

definition to_link :: "secret_link \<Rightarrow> error + string" where
  "to_link l =
     and_then (map_err Multiformat (cid_to_string (pkh_target (link_owner l)))) (\<lambda>ow.
       Inr (''secret/'' @ ow @ ''/'' @ label_string l @ ''#'' @ link_password l))"

definition from_link :: "string \<Rightarrow> error + secret_link" where
  "from_link link0 =
     (let link = (case find_sub ''secret/'' link0 of
                    Some i \<Rightarrow> drop i link0
                  | None \<Rightarrow> (if starts_with link0 ''/'' then drop 1 link0 else link0))
      in and_then (ok_or (Protocol ''Invalid secret link: no fragment'') (find_char CHR ''#'' link)) (\<lambda>hash_index.
         let fragment = drop (hash_index + 1) link;
             fragment = (case find_char CHR ''?'' fragment of Some q \<Rightarrow> take q fragment | None \<Rightarrow> fragment);
             parts = split_on CHR ''/'' (take hash_index link)
         in if length parts \<noteq> 3 then Inl (Protocol ''Invalid secret link'')
            else
              and_then (and_then (map_err Multiformat (cid_decode (parts ! 1))) pkh_new) (\<lambda>ow.
              and_then (ok_or (Protocol ''Invalid secret link label'') (parse_i64 (parts ! 2))) (\<lambda>l.
                if l \<le>s 0 then Inl (Protocol ''Link labels must be positive!'')
                else Inr \<lparr>link_owner = ow, link_label = l, link_password = fragment\<rparr>))))"

section \<open>Encrypted capabilities\<close>

text \<open>\<open>hash_to_key_bytes\<close> over \<open>sha256\<close> and the scrypt function (memory, cpu, parallelism, password, salt, length).\<close>

type_synonym scrypt_fn = "nat \<Rightarrow> nat \<Rightarrow> nat \<Rightarrow> bytes \<Rightarrow> bytes \<Rightarrow> nat \<Rightarrow> error + bytes"

definition hash_to_key_bytes ::
  "(bytes \<Rightarrow> bytes) \<Rightarrow> scrypt_fn \<Rightarrow> string \<Rightarrow> string \<Rightarrow> nat \<Rightarrow> nat \<Rightarrow> nat \<Rightarrow> nat \<Rightarrow> error + bytes" where
  "hash_to_key_bytes sha256 scrypt salt password memory_cost cpu_cost parallelism output_bytes =
     scrypt memory_cost cpu_cost parallelism (sha256 (as_bytes password)) (as_bytes salt) output_bytes"

record encrypted_capability =
  cap_payload :: cipher_text
  has_user_password :: bool

definition ec_from_cbor :: "cbor \<Rightarrow> error + encrypted_capability" where
  "ec_from_cbor c =
     and_then (and_then (field ''EncryptedCapability missing c'' c ''c'') ct_from_cbor) (\<lambda>p.
       Inr \<lparr>cap_payload = p, has_user_password = (case Option.bind (cbor_get c ''p'') as_bool of Some b \<Rightarrow> b | None \<Rightarrow> False)\<rparr>)"

definition ec_to_cbor :: "encrypted_capability \<Rightarrow> error + cbor" where
  "ec_to_cbor e =
     and_then (ct_to_cbor (cap_payload e)) (\<lambda>p.
       let b = put ''c'' p map_builder
       in Inr (if has_user_password e then build (put ''p'' (CBoolean True) b) else build b))"

definition derive_key :: "(bytes \<Rightarrow> bytes) \<Rightarrow> scrypt_fn \<Rightarrow> string \<Rightarrow> string \<Rightarrow> error + symmetric_key" where
  "derive_key sha256 scrypt label password =
     and_then (hash_to_key_bytes sha256 scrypt label password 15 8 1 32) (\<lambda>bs. sym_new bs False)"

text \<open>The closure of \<open>decrypt_from_password\<close>: a list of capabilities, or a single one.\<close>

definition caps_from_cbor :: "cbor \<Rightarrow> error + absolute_capability list" where
  "caps_from_cbor c =
     (case c of
        CList caps \<Rightarrow> collect_results cap_from_cbor caps
      | single \<Rightarrow> and_then (cap_from_cbor single) (\<lambda>x. Inr [x]))"

definition decrypt_from_password ::
  "(bytes \<Rightarrow> bytes) \<Rightarrow> scrypt_fn \<Rightarrow> secretbox_lib \<Rightarrow> encrypted_capability \<Rightarrow> string \<Rightarrow> string \<Rightarrow>
   error + absolute_capability list" where
  "decrypt_from_password sha256 scrypt B e salt password =
     and_then (derive_key sha256 scrypt salt password) (\<lambda>key. ct_decrypt B (cap_payload e) key caps_from_cbor)"

definition create_from_password ::
  "(bytes \<Rightarrow> bytes) \<Rightarrow> scrypt_fn \<Rightarrow> secretbox_lib \<Rightarrow> bytes \<Rightarrow> absolute_capability list \<Rightarrow> string \<Rightarrow> string \<Rightarrow> bool \<Rightarrow>
   error + encrypted_capability" where
  "create_from_password sha256 scrypt B nonce caps salt password user_password =
     and_then (derive_key sha256 scrypt salt password) (\<lambda>key.
     and_then (case caps of
         [] \<Rightarrow> Inl (Protocol ''A secret link must have at least one capability!'')
       | [single] \<Rightarrow> ct_build B nonce key cap_to_cbor single
       | many \<Rightarrow> and_then (collect_results cap_to_cbor many) (\<lambda>xs. ct_build B nonce key Inr (CList xs))) (\<lambda>p.
       Inr \<lparr>cap_payload = p, has_user_password = user_password\<rparr>))"

record secret_link_target =
  slt_cap :: encrypted_capability
  expiry_epoch_secs :: "i64 option"
  max_retrievals :: "i64 option"

definition slt_to_cbor :: "secret_link_target \<Rightarrow> error + cbor" where
  "slt_to_cbor t =
     and_then (ec_to_cbor (slt_cap t)) (\<lambda>c.
       Inr (build (put_opt ''max'' (map_option CLong (max_retrievals t))
         (put_opt ''expiry'' (map_option CLong (expiry_epoch_secs t)) (put ''cap'' c map_builder)))))"

end
