(* ===== verification/Capability_Props.thy ===== *)
theory Capability_Props
  imports Capability
begin

text \<open>
  Capabilities survive storage, encryption under a link password and printing as a secret link.
\<close>

section \<open>Codecs\<close>

definition wf_sym :: "symmetric_key \<Rightarrow> bool" where
  "wf_sym k \<longleftrightarrow> length (sym_key k) = 32"

definition wf_bat :: "bat \<Rightarrow> bool" where
  "wf_bat b \<longleftrightarrow> length (secret b) = 32"

definition wf_bwi :: "bat_with_id \<Rightarrow> bool" where
  "wf_bwi b \<longleftrightarrow> wf_bat (bwi_bat b) \<and> wf_cid (bwi_id b) \<and> \<not> is_identity (cid_multihash (bwi_id b)) \<and> cid_codec (bwi_id b) = Raw"

definition wf_cap :: "absolute_capability \<Rightarrow> bool" where
  "wf_cap c \<longleftrightarrow> wf_pkh (cap_owner c) \<and> wf_pkh (cap_writer c) \<and> length (map_key c) = 32 \<and>
     pred_option wf_bat (cap_bat c) \<and> wf_sym (r_base_key c) \<and> pred_option wf_sym (w_base_key c)"

interpretation sym: cbor_codec sym_to_cbor sym_from_cbor wf_sym
  by unfold_locales (auto simp: sym_to_cbor_def sym_from_cbor_def sym_new_def wf_sym_def numeral_2_eq_2)

interpretation cipher: cbor_codec ct_to_cbor ct_from_cbor "\<lambda>_. True"
  by unfold_locales (simp add: ct_to_cbor_def ct_from_cbor_def)

interpretation token: cbor_codec token_to_cbor token_from_cbor wf_bat
  by unfold_locales (simp add: token_to_cbor_def token_from_cbor_def wf_bat_def bat_new_def)

interpretation bwi: cbor_codec bwi_to_cbor bwi_from_cbor wf_bwi
proof
  fix b
  assume wf: "wf_bwi b"
  then obtain t where t: "token_to_cbor (bwi_bat b) = Inr t" "token_from_cbor t = Inr (bwi_bat b)" "wf_cbor t"
    using token.encodes by (metis wf_bwi_def)
  obtain bs where "cid_to_bytes (bwi_id b) = Inr bs" "cid_cast bs = Inr (bwi_id b)"
    using wf cid_bytes_roundtrip by (auto simp: wf_bwi_def)
  then show "\<exists>x. bwi_to_cbor b = Inr x \<and> bwi_from_cbor x = Inr b \<and> wf_cbor x"
    using t wf by (simp add: bwi_to_cbor_def bwi_from_cbor_def cid_bytes_def field_def bwi_new_def wf_bwi_def)
qed

interpretation cap: cbor_codec cap_to_cbor cap_from_cbor wf_cap
proof
  fix c
  assume wf: "wf_cap c"
  then have parts: "wf_pkh (cap_owner c)" "wf_pkh (cap_writer c)" "wf_sym (r_base_key c)"
      "\<And>b. cap_bat c = Some b \<Longrightarrow> wf_bat b" "\<And>k. w_base_key c = Some k \<Longrightarrow> wf_sym k"
    by (auto simp: wf_cap_def)
  obtain ow where ow: "pkh_to_cbor (cap_owner c) = Inr ow" "pkh_from_cbor ow = Inr (cap_owner c)" "wf_cbor ow"
    using parts(1) by (rule pkh.encodes)
  obtain wr where wr: "pkh_to_cbor (cap_writer c) = Inr wr" "pkh_from_cbor wr = Inr (cap_writer c)" "wf_cbor wr"
    using parts(2) by (rule pkh.encodes)
  obtain rk where rk: "sym_to_cbor (r_base_key c) = Inr rk" "sym_from_cbor rk = Inr (r_base_key c)" "wf_cbor rk"
    using parts(3) by (rule sym.encodes)
  obtain b where b: "opt_enc token_to_cbor (cap_bat c) = Inr b" "\<And>y. b = Some y \<Longrightarrow> wf_cbor y"
      "\<And>x k. cbor_get x k = b \<Longrightarrow> opt_field token_from_cbor x k = Inr (cap_bat c)"
    using token.encodes_opt [OF parts(4)] by blast
  obtain wk where wk: "opt_enc sym_to_cbor (w_base_key c) = Inr wk" "\<And>y. wk = Some y \<Longrightarrow> wf_cbor y"
      "\<And>x k. cbor_get x k = wk \<Longrightarrow> opt_field sym_from_cbor x k = Inr (w_base_key c)"
    using sym.encodes_opt [OF parts(5)] by blast
  show "\<exists>x. cap_to_cbor c = Inr x \<and> cap_from_cbor x = Inr c \<and> wf_cbor x"
    using ow wr rk b wk wf by (simp add: cap_to_cbor_def cap_from_cbor_def field_def cap_new_def wf_cap_def)
qed

interpretation enc_cap: cbor_codec ec_to_cbor ec_from_cbor "\<lambda>_. True"
proof
  fix e :: encrypted_capability
  obtain x where "ct_to_cbor (cap_payload e) = Inr x" "ct_from_cbor x = Inr (cap_payload e)" "wf_cbor x"
    using cipher.encodes by blast
  then show "\<exists>x. ec_to_cbor e = Inr x \<and> ec_from_cbor x = Inr e \<and> wf_cbor x"
    by (cases "has_user_password e") (simp_all add: ec_to_cbor_def ec_from_cbor_def field_def)
qed

section \<open>Encryption\<close>

lemma secretbox_open_secretbox:
  assumes "secretbox_ok B" "secretbox B data nonce key = Inr c"
  shows "secretbox_open B c nonce key = Inr data"
  using assms
  by (auto simp: secretbox_ok_def secretbox_def secretbox_open_def split: if_splits option.splits prod.splits)

lemma secretbox_length:
  "secretbox_ok B \<Longrightarrow> secretbox B data nonce key = Inr c \<Longrightarrow> length c = 16 + length data"
  by (auto simp: secretbox_ok_def secretbox_def split: if_splits option.splits prod.splits)

lemma ct_decrypt_build:
  assumes "secretbox_ok B" "enc a = Inr x" "wf_cbor x" "dec x = Inr r" "ct_build B nonce key enc a = Inr c" "length (to_bytes x) < 2 ^ 64"
  shows "ct_decrypt B c key dec = Inr r"
proof -
  obtain ci where ci: "secretbox B (to_bytes x) nonce (sym_key key) = Inr ci" "c = \<lparr>ct_nonce = nonce, ct_cipher = ci\<rparr>"
    using assms(2,5) by (auto simp: ct_build_def serialize_def encrypt_def and_then_Inr_iff)
  have "from_bytes_prefix (to_bytes x @ []) = Inr x" using assms(3,6) by (intro from_bytes_prefix_to_bytes) simp_all
  then show ?thesis
    using secretbox_open_secretbox [OF assms(1) ci(1)] ci(2) assms(4)
    by (simp add: ct_decrypt_def decrypt_def parse_prefix_def)
qed

text \<open>The encrypted list is a list, a single capability a map.\<close>

lemma cap_to_cbor_map: "cap_to_cbor c = Inr x \<Longrightarrow> \<exists>m. x = CMap m"
  by (auto simp: cap_to_cbor_def and_then_Inr_iff build_def)

lemma caps_encode:
  assumes "caps \<noteq> []" "list_all wf_cap caps"
  shows "\<exists>x. (case caps of [c] \<Rightarrow> cap_to_cbor c | _ \<Rightarrow> and_then (collect_results cap_to_cbor caps) (\<lambda>xs. Inr (CList xs))) = Inr x \<and>
    wf_cbor x \<and> caps_from_cbor x = Inr caps"
proof -
  obtain xs where xs: "collect_results cap_to_cbor caps = Inr xs" "collect_results cap_from_cbor xs = Inr caps" "list_all wf_cbor xs"
    using assms(2) by (rule cap.encodes_list)
  show ?thesis
  proof (cases "\<exists>c. caps = [c]")
    case True
    then obtain c where caps: "caps = [c]" "wf_cap c" using assms(2) by auto
    from caps(2) obtain x where c: "caps = [c]" "cap_to_cbor c = Inr x" "cap_from_cbor x = Inr c" "wf_cbor x"
      using caps(1) cap.encodes by metis
    moreover obtain m where "x = CMap m" using cap_to_cbor_map [OF c(2)] by blast
    ultimately show ?thesis by (simp add: caps_from_cbor_def)
  next
    case False
    then have "(case caps of [c] \<Rightarrow> cap_to_cbor c | _ \<Rightarrow> and_then (collect_results cap_to_cbor caps) (\<lambda>xs. Inr (CList xs))) = Inr (CList xs)"
      using assms(1) xs(1) by (auto split: list.splits)
    then show ?thesis using xs by (simp add: caps_from_cbor_def)
  qed
qed

section \<open>Links\<close>

lemma base58_chars: "base58_encode bs = Inr s \<Longrightarrow> c \<in> set s \<Longrightarrow> 49 \<le> (of_char c :: nat)"
proof -
  assume e: "base58_encode bs = Inr s" and c: "c \<in> set s"
  obtain ds where ds: "as_bytes s = map b58_char ds" "digits_below 58 ds"
    using base58_encode_correct [of bs] e by auto
  have "list_all (\<lambda>b. 49 \<le> unat b) B58_ALPHABET" by code_simp
  moreover have "of_char c \<in> set (as_bytes s)" using c by (simp add: as_bytes_def)
  ultimately have "49 \<le> unat (of_char c :: byte)"
    using ds length_B58 by (auto simp: list_all_iff)
  moreover have "of_char c = unat (of_char c :: byte)"
    by (metis byte_bound char_of_unat_of_char mod_less of_char_of)
  ultimately show ?thesis by simp
qed

lemma cid_string_chars:
  assumes "wf_cid c"
  obtains s where "cid_to_string c = Inr s" "cid_decode s = Inr c" "\<And>x. x \<in> set s \<Longrightarrow> 49 \<le> (of_char x :: nat)"
proof -
  obtain s where s: "cid_to_string c = Inr s" "cid_decode s = Inr c" using cid_string_roundtrip [OF assms] by blast
  have "49 \<le> (of_char x :: nat)" if "x \<in> set s" for x
    using s(1) that base58_chars
    by (auto simp: cid_to_string_def multihash_to_base58_def multibase_encode_base58btc_def and_then_Inr_iff split: if_splits)
  then show thesis using that s by blast
qed

lemma label_chars: "x \<in> set (label_string l) \<Longrightarrow> x \<noteq> CHR ''#'' \<and> x \<noteq> CHR ''/''"
  using show_nat_chars [of x] by (fastforce simp: label_string_def show_int_def split: if_splits)

lemma link_parses:
  assumes "wf_pkh (link_owner l)" "0 <s link_label l" "CHR ''?'' \<notin> set (link_password l)"
  shows "\<exists>s. to_link l = Inr s \<and> from_link s = Inr l"
proof -
  obtain ow where ow: "cid_to_string (pkh_target (link_owner l)) = Inr ow" "cid_decode ow = Inr (pkh_target (link_owner l))"
      "\<And>x. x \<in> set ow \<Longrightarrow> 49 \<le> (of_char x :: nat)"
    using assms(1) cid_string_chars by (metis wf_pkh_def)
  let ?path = "''secret'' @ CHR ''/'' # ow @ CHR ''/'' # label_string l"
  let ?s = "?path @ CHR ''#'' # link_password l"
  have no: "CHR ''#'' \<notin> set ow" "CHR ''/'' \<notin> set ow" using ow(3) by force+
  have nl: "CHR ''#'' \<notin> set (label_string l)" "CHR ''/'' \<notin> set (label_string l)" using label_chars by blast+
  have print: "to_link l = Inr ?s" using ow(1) by (simp add: to_link_def)
  have start: "find_sub ''secret/'' ?s = Some 0" by simp
  have hashpos: "find_char CHR ''#'' ?s = Some (length ?path)" using no nl by (intro find_char_append) auto
  have head: "split_on CHR ''/'' (''secret'' @ CHR ''/'' # t) = ''secret'' # split_on CHR ''/'' t" for t by simp
  have parts: "split_on CHR ''/'' ?path = [''secret'', ow, label_string l]"
    unfolding head split_on_append [OF no(2)] split_on_none [OF nl(2)] ..
  have pkh: "pkh_new (pkh_target (link_owner l)) = Inr (link_owner l)"
    using assms(1) by (auto simp: wf_pkh_def pkh_new_def)
  have label: "parse_i64 (label_string l) = Some (link_label l)" by (simp add: label_string_def)
  have pw: "find_char CHR ''?'' (link_password l) = None" using assms(3) by (simp add: find_char_None)
  have pos: "\<not> link_label l \<le>s 0" using assms(2) by (simp add: signed.not_le)
  have tk: "take (length ?path) ?s = ?path" "drop (length ?path + 1) ?s = link_password l" by simp_all
  have "from_link ?s = Inr l"
    unfolding from_link_def start hashpos option.case Let_def drop_0 ok_or_simps and_then.simps tk parts
    using ow(2) pkh label pw pos by simp
  then show ?thesis using print by blast
qed
text \<open>
  C22. Secret links: printing a link whose label is positive and whose password has no question mark
  never panics, and parsing what was printed gives the same link back, owner, label and password.
\<close>

theorem secret_link_roundtrip:
  assumes "wf_pkh (link_owner l)" "0 <s link_label l" "CHR ''?'' \<notin> set (link_password l)"
  shows "\<exists>s. to_link l = Inr s \<and> from_link s = Inr l"
  by (rule link_parses [OF assms])

theorem secret_link_roundtrip_witness:
  "\<exists>s. to_link \<lparr>link_owner = demo_owner, link_label = 42, link_password = ''pass#1''\<rparr> = Inr s \<and>
     from_link s = Inr \<lparr>link_owner = demo_owner, link_label = 42, link_password = ''pass#1''\<rparr>"
  using secret_link_roundtrip [of "\<lparr>link_owner = demo_owner, link_label = 42, link_password = ''pass#1''\<rparr>"] demo_owner_wf
  by (simp add: word_sless_alt)

lemma take_bit_uint:
  assumes "take_bit n (w :: 'a :: len word) = w"
  shows "uint w < 2 ^ n"
proof -
  have "uint (take_bit n w) = take_bit n (uint w)" by (rule unsigned_take_bit_eq)
  then show ?thesis using assms take_bit_int_less_exp [of n "uint w"] by simp
qed

lemma password_chars: "CHR ''?'' \<notin> set (create_link_password bs)"
proof -
  have "CHR ''?'' \<notin> set PASSWORD_CHARACTERS" "PASSWORD_CHARACTERS \<noteq> []" by code_simp+
  then show ?thesis unfolding create_link_password_def
    by (metis (no_types, lifting) imageE length_greater_0_conv list.set_map mod_less_divisor nth_mem)
qed

text \<open>
  C39. Fresh links: from any four random bytes \<open>create\<close> makes a positive label below two to the thirty-second, and
  the link it makes is printed and parsed back unchanged whatever the random password bytes are.
\<close>

theorem created_link_roundtrip:
  assumes "wf_pkh ow" "length b = 4"
  shows "\<exists>l s. link_create b pw ow = Inr l \<and> 0 <s link_label l \<and> uint (link_label l) < 2 ^ 32 \<and>
    length (link_password l) = length pw \<and> to_link l = Inr s \<and> from_link s = Inr l"
proof -
  let ?l = "(ucast (b ! 0) :: i64) OR push_bit 8 (ucast (b ! 1)) OR push_bit 16 (ucast (b ! 2)) OR push_bit 24 (ucast (b ! 3))"
  have part: "take_bit 32 (push_bit k (ucast x :: i64)) = push_bit k (ucast x)" if "k \<le> 24" for k and x :: byte
    using that by (intro bit_word_eqI) (auto simp: bit_simps dest: bit_imp_le_length)
  have "take_bit 32 ?l = ?l" using part [of 0] part [of 8] part [of 16] part [of 24] by (simp add: take_bit_or)
  then have lt: "uint ?l < 2 ^ 32" by (rule take_bit_uint)
  define l where "l = \<lparr>link_owner = ow, link_label = (if ?l \<le>s 0 then 1 else ?l), link_password = create_link_password pw\<rparr>"
  have l: "link_create b pw ow = Inr l" "link_owner l = ow" "link_password l = create_link_password pw"
      "link_label l = (if ?l \<le>s 0 then 1 else ?l)"
    using assms(2) by (simp_all add: link_create_def Let_def l_def)
  have pos: "0 <s link_label l" using l(4) by (auto simp: word_sless_alt word_sle_eq)
  have "uint (link_label l) < 2 ^ 32" using l(4) lt by simp
  moreover have "length (link_password l) = length pw" using l(3) by (simp add: create_link_password_def)
  moreover obtain s where "to_link l = Inr s" "from_link s = Inr l"
    using link_parses [of l] assms(1) pos password_chars l(2,3) by metis
  ultimately show ?thesis using l(1) pos by blast
qed

theorem created_link_roundtrip_witness:
  "\<exists>l s. link_create [1, 2, 3, 255] (replicate 12 9) demo_owner = Inr l \<and> to_link l = Inr s \<and> from_link s = Inr l"
  using created_link_roundtrip [OF demo_owner_wf, of "[1, 2, 3, 255]"] by fastforce

section \<open>Encrypted capabilities\<close>

text \<open>
  C21. Sharing by password: a non-empty list of well-formed capabilities encrypted under a label and
  password decrypts under the same label and password to exactly that list, one capability or many; an
  empty list is refused.
\<close>

theorem encrypted_capability_roundtrip:
  assumes "secretbox_ok B" "caps \<noteq> []" "list_all wf_cap caps"
    "create_from_password sha256 scrypt B nonce caps salt pw up = Inr e" "length (ct_cipher (cap_payload e)) < 2 ^ 64"
  shows "decrypt_from_password sha256 scrypt B e salt pw = Inr caps \<and> has_user_password e = up \<and>
    (\<exists>x. ec_to_cbor e = Inr x \<and> ec_from_cbor x = Inr e) \<and>
    (\<forall>key. derive_key sha256 scrypt salt pw = Inr key \<longrightarrow>
      create_from_password sha256 scrypt B nonce [] salt pw up = Inl (Protocol ''A secret link must have at least one capability!''))"
proof -
  obtain x where x: "(case caps of [c] \<Rightarrow> cap_to_cbor c | _ \<Rightarrow> and_then (collect_results cap_to_cbor caps) (\<lambda>xs. Inr (CList xs))) = Inr x"
      "wf_cbor x" "caps_from_cbor x = Inr caps"
    using caps_encode [OF assms(2,3)] by blast
  obtain key where key: "derive_key sha256 scrypt salt pw = Inr key"
    using assms(4) by (auto simp: create_from_password_def and_then_Inr_iff)
  have b: "ct_build B nonce key Inr x = Inr (cap_payload e) \<and> has_user_password e = up"
    using assms(4) key x(1) assms(2)
    by (auto simp: create_from_password_def and_then_Inr_iff ct_build_def serialize_def split: list.splits)
  obtain ci where "secretbox B (to_bytes x) nonce (sym_key key) = Inr ci" "cap_payload e = \<lparr>ct_nonce = nonce, ct_cipher = ci\<rparr>"
    using b by (auto simp: ct_build_def serialize_def encrypt_def and_then_Inr_iff)
  then have "length (to_bytes x) \<le> length (ct_cipher (cap_payload e))" using secretbox_length [OF assms(1)] by auto
  then have "ct_decrypt B (cap_payload e) key caps_from_cbor = Inr caps"
    using ct_decrypt_build [where enc = Inr and dec = caps_from_cbor, OF assms(1) refl x(2,3) conjunct1 [OF b]] assms(5) by simp
  moreover obtain y where "ec_to_cbor e = Inr y" "ec_from_cbor y = Inr e" using enc_cap.encodes by blast
  ultimately show ?thesis
    using b key by (auto simp: decrypt_from_password_def create_from_password_def)
qed

definition demo_box :: secretbox_lib where
  "demo_box = \<lparr>box_seal = (\<lambda>k n d. Some (replicate 16 5, d)),
     box_unseal = (\<lambda>k n t b. if t = replicate 16 5 then Some b else None)\<rparr>"

lemma demo_box_ok: "secretbox_ok demo_box"
  by (simp add: secretbox_ok_def demo_box_def)

definition demo_cap :: absolute_capability where
  "demo_cap = \<lparr>cap_owner = demo_owner, cap_writer = demo_owner, map_key = replicate 32 1, cap_bat = None,
     r_base_key = \<lparr>sym_key = replicate 32 2, is_dirty = True\<rparr>, w_base_key = None\<rparr>"

lemma demo_cap_wf: "wf_cap demo_cap"
  using demo_owner_wf by (simp add: wf_cap_def demo_cap_def wf_sym_def)

definition demo_scrypt :: scrypt_fn where
  "demo_scrypt m c p pw salt n = Inr (take n (pw @ salt @ replicate n 0))"

definition demo_shared :: "error + encrypted_capability" where
  "demo_shared = create_from_password (\<lambda>b. b) demo_scrypt demo_box (replicate 24 0) [demo_cap, read_only demo_cap] ''7'' ''pw'' True"

theorem encrypted_capability_roundtrip_witness:
  "\<exists>e. demo_shared = Inr e \<and> decrypt_from_password (\<lambda>b. b) demo_scrypt demo_box e ''7'' ''pw'' = Inr [demo_cap, read_only demo_cap]"
proof -
  have "case demo_shared of Inr e \<Rightarrow> length (ct_cipher (cap_payload e)) < 2 ^ 64 | _ \<Rightarrow> False" by code_simp
  then obtain e where e: "demo_shared = Inr e" "length (ct_cipher (cap_payload e)) < 2 ^ 64" by (auto split: sum.splits)
  have wf: "list_all wf_cap [demo_cap, read_only demo_cap]" using demo_cap_wf by (simp add: read_only_def wf_cap_def)
  from encrypted_capability_roundtrip [OF demo_box_ok _ wf e(1) [unfolded demo_shared_def] e(2)] e(1) show ?thesis by auto
qed

text \<open>
  Capabilities survive storage: a well-formed capability serialises to bytes that parse back to
  it; its read-only view differs in having no write key and locates the same node.
\<close>

theorem capability_roundtrip:
  assumes "wf_cap c"
  shows "(\<exists>bs. serialize cap_to_cbor c = Inr bs \<and> (length bs < 2 ^ 64 \<longrightarrow> parse cap_from_cbor bs = Inr c)) \<and>
    wf_cap (read_only c) \<and> \<not> is_writable (read_only c) \<and> cap_location (read_only c) = cap_location c \<and>
    (\<not> is_writable c \<longrightarrow> read_only c = c)"
  using cap.bytes_roundtrip [OF assms] assms
  by (auto simp: wf_cap_def read_only_def is_writable_def cap_location_def)

theorem capability_roundtrip_witness: "\<exists>bs. serialize cap_to_cbor demo_cap = Inr bs \<and> \<not> is_writable (read_only demo_cap)"
  using capability_roundtrip [OF demo_cap_wf] by blast

text \<open>
  Access tokens as query values: a block access token with its id is encoded as a multibase string
  that decodes to the same token and id, and an inline id gives the token back.
\<close>

theorem bat_encode_roundtrip:
  assumes "wf_bwi b"
  shows "\<exists>s. bwi_encode b = Inr s \<and>
    (\<forall>bs. serialize bwi_to_cbor b = Inr bs \<and> length bs < 2 ^ 64 \<longrightarrow> bwi_decode s = Inr b) \<and>
    (\<forall>i. bat_inline (secret (bwi_bat b)) = Inr i \<longrightarrow> get_inline i = Some (bwi_bat b))"
proof -
  obtain bs where bs: "serialize bwi_to_cbor b = Inr bs" "length bs < 2 ^ 64 \<longrightarrow> parse bwi_from_cbor bs = Inr b"
    using bwi.bytes_roundtrip [OF assms] by blast
  obtain e where e: "base58_encode bs = Inr e" "base58_decode e = Inr bs"
    using base58_decode_encode [of bs] by (auto simp: and_then_Inr_iff)
  have "get_inline i = Some (bwi_bat b)" if "bat_inline (secret (bwi_bat b)) = Inr i" for i
    using that assms
    by (auto simp: bat_inline_def and_then_Inr_iff map_err_Inr_iff cid_new_def multihash_new_def get_inline_def
        bat_is_inline_def is_identity_def bat_new_def wf_bwi_def wf_bat_def split: if_splits)
  then show ?thesis
    using bs e by (auto simp: bwi_encode_def bwi_decode_def multibase_encode_base58btc_def multibase_decode_def)
qed

theorem bat_encode_roundtrip_witness:
  "\<exists>s. bwi_encode \<lparr>bwi_bat = \<lparr>secret = replicate 32 3\<rparr>,
     bwi_id = \<lparr>version = 1, cid_codec = Raw, cid_multihash = \<lparr>hash_type = Sha2_256, hash = replicate 32 4\<rparr>\<rparr>\<rparr> = Inr s"
  using bat_encode_roundtrip [of "\<lparr>bwi_bat = \<lparr>secret = replicate 32 3\<rparr>,
     bwi_id = \<lparr>version = 1, cid_codec = Raw, cid_multihash = \<lparr>hash_type = Sha2_256, hash = replicate 32 4\<rparr>\<rparr>\<rparr>"]
  by (auto simp: wf_bwi_def wf_bat_def wf_cid_def wf_multihash_def multihash_new_def is_identity_def)

end
