(* ===== verification/Ordered_Maps.thy ===== *)
theory Ordered_Maps
  imports Codec Strings
begin

text \<open>
  More of \<open>BTreeMap\<close>: removal, rebuilding a map from its entries, maps and sets with string keys.
\<close>

section \<open>Ordered maps\<close>

context ord_key
begin

lemma bt_append_last:
  "ok k \<Longrightarrow> keys_ok m \<Longrightarrow> bt_sorted c (m @ [(k, v)]) \<Longrightarrow> bt_insert c k v m = m @ [(k, v)]"
proof (induction m)
  case (Cons e m)
  obtain k' v' where e: "e = (k', v')" by force
  with Cons.prems have "ok k'" "c k' k = Less" by auto
  then have "c k k' = Greater" using cmp_greater Cons.prems(1) by blast
  with Cons e show ?case by auto
qed simp

lemma bt_rebuild: "keys_ok m \<Longrightarrow> bt_sorted c m \<Longrightarrow> foldl (\<lambda>t (k, v). bt_insert c k v t) [] m = m"
proof (induction m rule: rev_induct)
  case (snoc e m)
  obtain k v where e: "e = (k, v)" by force
  have "bt_sorted c m" using snoc.prems(2) by (auto simp: bt_sorted_def sorted_wrt_append)
  then show ?case using snoc e by (simp add: bt_append_last)
qed simp

lemma keys_ok_bt_remove: "keys_ok m \<Longrightarrow> keys_ok (bt_remove c k m)"
  by (induction m) auto

lemma set_bt_remove: "set (bt_remove c k m) \<subseteq> set m"
proof (induction m)
  case (Cons e m)
  then show ?case by (cases e) auto
qed simp

lemma sorted_bt_remove: "bt_sorted c m \<Longrightarrow> bt_sorted c (bt_remove c k m)"
proof (induction m)
  case (Cons e m)
  then show ?case using set_bt_remove [of k m] by (cases e) fastforce
qed simp

lemma map_of_bt_remove:
  "ok k \<Longrightarrow> keys_ok m \<Longrightarrow> bt_sorted c m \<Longrightarrow> map_of (bt_remove c k m) = (map_of m)(k := None)"
proof (induction m)
  case (Cons e m)
  obtain k' v where e: "e = (k', v)" by force
  show ?case
  proof (cases "k = k'")
    case True
    have "k' \<notin> fst ` set m" using Cons.prems e sorted_distinct [of "e # m"] by auto
    then have "map_of m k' = None" by (simp add: map_of_eq_None_iff)
    then show ?thesis using e True Cons.prems by (auto simp: cmp_equal)
  qed (use Cons e in \<open>auto simp: cmp_equal fun_upd_twist\<close>)
qed simp

lemma bt_collect:
  assumes "keys_ok xs" "distinct (map fst xs)"
  shows "bt_sorted c (foldl (\<lambda>t (k, v). bt_insert c k v t) [] xs)" "keys_ok (foldl (\<lambda>t (k, v). bt_insert c k v t) [] xs)"
    "map_of (foldl (\<lambda>t (k, v). bt_insert c k v t) [] xs) = map_of xs"
proof -
  have "bt_sorted c t \<Longrightarrow> keys_ok t \<Longrightarrow>
      bt_sorted c (foldl (\<lambda>t (k, v). bt_insert c k v t) t xs) \<and> keys_ok (foldl (\<lambda>t (k, v). bt_insert c k v t) t xs) \<and>
      map_of (foldl (\<lambda>t (k, v). bt_insert c k v t) t xs) = map_of t ++ map_of xs" for t
    using assms
  proof (induction xs arbitrary: t)
    case (Cons e xs)
    obtain k v where e: "e = (k, v)" by force
    have "k \<notin> dom (map_of xs)" using Cons.prems(4) e by (simp add: dom_map_of_conv_image_fst)
    then show ?case
      using Cons e by (auto simp: sorted_bt_insert keys_ok_bt_insert map_of_bt_insert fun_eq_iff map_add_def split: option.splits)
  qed simp
  from this [of "[]"] show "bt_sorted c (foldl (\<lambda>t (k, v). bt_insert c k v t) [] xs)" "keys_ok (foldl (\<lambda>t (k, v). bt_insert c k v t) [] xs)"
    "map_of (foldl (\<lambda>t (k, v). bt_insert c k v t) [] xs) = map_of xs" by simp_all
qed

end

lemma list_all_True [simp]: "list_all (\<lambda>_. True) xs"
  by (simp add: list_all_iff)

section \<open>Strings as keys\<close>

definition cmp_str :: "string \<Rightarrow> string \<Rightarrow> ordering" where
  "cmp_str a b = cmp_slice cmp (map (of_char :: char \<Rightarrow> nat) a) (map of_char b)"

interpretation str_key: ord_key cmp_str "\<lambda>_. True"
proof
  fix a b d :: string
  have t: "list_all (\<lambda>_. True) xs" for xs :: "nat list" by simp
  have inj: "map (of_char :: char \<Rightarrow> nat) a = map of_char b \<longleftrightarrow> a = b" for a b :: string
    by (rule inj_map_eq_map) (simp add: inj_def)
  show "cmp_str a b = Equal \<longleftrightarrow> a = b"
    unfolding cmp_str_def linorder_key.slice_equal [OF t t] inj ..
  show "cmp_str b a = reverse_ord (cmp_str a b)"
    unfolding cmp_str_def by (rule linorder_key.slice_swap [OF t t])
  show "cmp_str a b = Less \<Longrightarrow> cmp_str b d = Less \<Longrightarrow> cmp_str a d = Less"
    unfolding cmp_str_def by (rule linorder_key.slice_trans [OF t t t])
qed

text \<open>A \<open>BTreeSet<String>\<close> is a map to unit.\<close>

type_synonym string_set = "(string, unit) btree"

definition set_add :: "string \<Rightarrow> string_set \<Rightarrow> string_set" where
  "set_add s t = bt_insert cmp_str s () t"

definition set_extend :: "string_set \<Rightarrow> string_set \<Rightarrow> string_set" where
  "set_extend t u = foldl (\<lambda>t (s, _). set_add s t) t u"

definition set_has :: "string \<Rightarrow> string_set \<Rightarrow> bool" where
  "set_has s t \<longleftrightarrow> bt_get cmp_str s t \<noteq> None"

text \<open>Lookups and updates as functions.\<close>

lemma bt_get_str [simp]: "bt_get cmp_str k m = map_of m k"
  by (rule str_key.bt_get_map_of) simp_all

lemma map_of_str_insert: "bt_sorted cmp_str m \<Longrightarrow> map_of (bt_insert cmp_str k v m) = (map_of m)(k \<mapsto> v)"
  by (rule str_key.map_of_bt_insert) simp_all

lemma sorted_str_insert: "bt_sorted cmp_str m \<Longrightarrow> bt_sorted cmp_str (bt_insert cmp_str k v m)"
  by (rule str_key.sorted_bt_insert) simp_all

lemma str_map_eqI: "bt_sorted cmp_str m \<Longrightarrow> bt_sorted cmp_str n \<Longrightarrow> map_of m = map_of n \<Longrightarrow> m = n"
  by (rule str_key.bt_extensional) simp_all

lemma map_of_keyed: "map_of (map (\<lambda>(k, v). (k, f k)) m) k = (if k \<in> fst ` set m then Some (f k) else None)"
  by (induction m) auto

end
