(* ===== verification/Tree_Clock.thy ===== *)
theory Tree_Clock
  imports Ordered_Maps
begin

text \<open>
  Member ids and tree clocks of a chat (\<open>peergos-fs/src/messaging/id.rs\<close>, \<open>tree_clock.rs\<close>).  A clock maps the ids
  of a conversation to their event counters; clocks are merged by taking the later counter of each id.
  Counters are \<open>i64\<close> and wrap around as in a release build.
\<close>

section \<open>Ids\<close>

record member_id =
  id_parts :: "i32 list"

definition id_single :: "i32 \<Rightarrow> member_id" where
  "id_single counter = \<lparr>id_parts = [counter]\<rparr>"

definition id_creator :: member_id where
  "id_creator = id_single 0"

definition id_fork :: "member_id \<Rightarrow> i32 \<Rightarrow> member_id" where
  "id_fork i counter = \<lparr>id_parts = id_parts i @ [counter]\<rparr>"

text \<open>The slice up to \<open>len - 1\<close> panics on an empty id.\<close>

definition id_parent :: "member_id \<Rightarrow> error + member_id" where
  "id_parent i = (if id_parts i = [] then Inl Panicked else Inr \<lparr>id_parts = butlast (id_parts i)\<rparr>)"

definition id_from_cbor :: "cbor \<Rightarrow> error + member_id" where
  "id_from_cbor c =
     and_then (ok_or (CborMsg ''Incorrect cbor for Id'') (as_list c)) (\<lambda>l.
     and_then (collect_results (\<lambda>e. and_then (ok_or (CborMsg ''Id component not a long'') (as_long e)) (\<lambda>v. Inr (ucast v :: i32))) l) (\<lambda>parts.
       Inr \<lparr>id_parts = parts\<rparr>))"

definition id_to_cbor :: "member_id \<Rightarrow> error + cbor" where
  "id_to_cbor i = Inr (CList (map (\<lambda>p. CLong (scast p)) (id_parts i)))"

definition cmp_i32 :: "i32 \<Rightarrow> i32 \<Rightarrow> ordering" where
  "cmp_i32 a b = cmp (sint a) (sint b)"

definition cmp_id :: "member_id \<Rightarrow> member_id \<Rightarrow> ordering" where
  "cmp_id a b = cmp_slice cmp_i32 (id_parts a) (id_parts b)"

section \<open>Clocks\<close>

record tree_clock =
  time :: "(member_id, i64) btree"

definition clock_init :: "member_id list \<Rightarrow> tree_clock" where
  "clock_init members = \<lparr>time = foldl (\<lambda>t i. bt_insert cmp_id i 0 t) [] members\<rparr>"

definition merge_entry :: "(member_id, i64) btree \<Rightarrow> member_id \<times> i64 \<Rightarrow> (member_id, i64) btree" where
  "merge_entry res e =
     (case e of (k, v) \<Rightarrow>
        if (case bt_get cmp_id k res of Some existing \<Rightarrow> existing <s v | None \<Rightarrow> True)
        then bt_insert cmp_id k v res else res)"

definition clock_merge :: "tree_clock \<Rightarrow> tree_clock \<Rightarrow> tree_clock" where
  "clock_merge c other = \<lparr>time = foldl merge_entry (time c) (time other)\<rparr>"

definition has_id :: "tree_clock \<Rightarrow> member_id \<Rightarrow> bool" where
  "has_id c i \<longleftrightarrow> bt_get cmp_id i (time c) \<noteq> None"

definition get_event_counter :: "tree_clock \<Rightarrow> member_id \<Rightarrow> error + i64" where
  "get_event_counter c i = ok_or Panicked (bt_get cmp_id i (time c))"

text \<open>\<open>get_event_counter\<close> is only called where \<open>has_id\<close> holds, so the comparisons do not panic.\<close>

definition is_before_or_equal :: "tree_clock \<Rightarrow> tree_clock \<Rightarrow> bool" where
  "is_before_or_equal a b =
     list_all (\<lambda>(i, counter). has_id b i \<and> (case get_event_counter b i of Inr v \<Rightarrow> \<not> v <s counter | Inl _ \<Rightarrow> False)) (time a)"

definition has_greater_counter_than :: "tree_clock \<Rightarrow> tree_clock \<Rightarrow> bool" where
  "has_greater_counter_than a b =
     list_ex (\<lambda>(i, counter). has_id b i \<and> (case get_event_counter b i of Inr v \<Rightarrow> v <s counter | Inl _ \<Rightarrow> False)) (time a)"

definition is_concurrent_with :: "tree_clock \<Rightarrow> tree_clock \<Rightarrow> bool" where
  "is_concurrent_with a b \<longleftrightarrow> has_greater_counter_than a b \<and> has_greater_counter_than b a"

definition clock_remove_member :: "tree_clock \<Rightarrow> member_id \<Rightarrow> member_id \<Rightarrow> tree_clock" where
  "clock_remove_member c remover to_remove =
     (let res = bt_remove cmp_id to_remove (time c);
          cur = (case bt_get cmp_id remover res of Some v \<Rightarrow> v | None \<Rightarrow> 0)
      in \<lparr>time = bt_insert cmp_id remover (cur + 1) res\<rparr>)"

definition with_member :: "tree_clock \<Rightarrow> member_id \<Rightarrow> tree_clock" where
  "with_member c i = \<lparr>time = bt_insert cmp_id i 0 (time c)\<rparr>"

definition increment :: "tree_clock \<Rightarrow> member_id \<Rightarrow> tree_clock" where
  "increment c i =
     (let counter = (case bt_get cmp_id i (time c) of Some v \<Rightarrow> v | None \<Rightarrow> 0)
      in \<lparr>time = bt_insert cmp_id i (counter + 1) (time c)\<rparr>)"

definition clock_entry_from_cbor :: "cbor \<Rightarrow> error + member_id \<times> i64" where
  "clock_entry_from_cbor m =
     and_then (ok_or (CborMsg ''TreeClock entry not a list'') (as_list m)) (\<lambda>inner.
     and_then (collect_results (\<lambda>i. ok_or (CborMsg ''TreeClock entry not a long'') (as_long i)) inner) (\<lambda>longs.
       if longs = [] then Inl (CborMsg ''Empty TreeClock entry'')
       else Inr (\<lparr>id_parts = map ucast (butlast longs)\<rparr>, last longs)))"

definition clock_from_cbor :: "cbor \<Rightarrow> error + tree_clock" where
  "clock_from_cbor c =
     and_then (ok_or (CborMsg ''Incorrect cbor for TreeClock'') (as_list c)) (\<lambda>l.
     and_then (collect_results clock_entry_from_cbor l) (\<lambda>es.
       Inr \<lparr>time = foldl (\<lambda>t (i, v). bt_insert cmp_id i v t) [] es\<rparr>))"

definition clock_entry_to_cbor :: "member_id \<times> i64 \<Rightarrow> cbor" where
  "clock_entry_to_cbor e =
     (case e of (i, counter) \<Rightarrow> CList (map (\<lambda>p. CLong (scast p)) (id_parts i) @ [CLong counter]))"

definition clock_to_cbor :: "tree_clock \<Rightarrow> error + cbor" where
  "clock_to_cbor c = Inr (CList (map clock_entry_to_cbor (time c)))"

section \<open>Ids as keys\<close>

interpretation i32_key: ord_key cmp_i32 "\<lambda>_. True"
proof
  fix a b d :: i32
  show "cmp_i32 a b = Equal \<longleftrightarrow> a = b"
    using signed_word_eqI [of a b] by (auto simp: cmp_i32_def linorder_key.cmp_equal)
  show "cmp_i32 b a = reverse_ord (cmp_i32 a b)"
    unfolding cmp_i32_def by (rule linorder_key.cmp_swap) simp_all
  show "cmp_i32 a b = Less \<Longrightarrow> cmp_i32 b d = Less \<Longrightarrow> cmp_i32 a d = Less"
    using linorder_key.cmp_trans [of "sint a" "sint b" "sint d"] by (simp add: cmp_i32_def)
qed

interpretation id_key: ord_key cmp_id "\<lambda>_. True"
proof
  fix a b d :: member_id
  have t: "list_all (\<lambda>_. True) xs" for xs :: "i32 list" by (simp add: list_all_iff)
  show "cmp_id a b = Equal \<longleftrightarrow> a = b"
    using i32_key.slice_equal [OF t t, of "id_parts a" "id_parts b"] by (cases a; cases b) (simp add: cmp_id_def)
  show "cmp_id b a = reverse_ord (cmp_id a b)"
    unfolding cmp_id_def by (rule i32_key.slice_swap [OF t t])
  show "cmp_id a b = Less \<Longrightarrow> cmp_id b d = Less \<Longrightarrow> cmp_id a d = Less"
    unfolding cmp_id_def by (rule i32_key.slice_trans [OF t t t])
qed

section \<open>Clocks as functions\<close>

definition wf_clock :: "tree_clock \<Rightarrow> bool" where
  "wf_clock c \<longleftrightarrow> bt_sorted cmp_id (time c)"

definition counter_of :: "tree_clock \<Rightarrow> member_id \<rightharpoonup> i64" where
  "counter_of c = map_of (time c)"

lemma bt_get_id [simp]: "bt_get cmp_id i m = map_of m i"
  by (rule id_key.bt_get_map_of) simp_all

lemma map_of_id_insert: "bt_sorted cmp_id m \<Longrightarrow> map_of (bt_insert cmp_id i v m) = (map_of m)(i \<mapsto> v)"
  by (rule id_key.map_of_bt_insert) simp_all

lemma sorted_id_insert: "bt_sorted cmp_id m \<Longrightarrow> bt_sorted cmp_id (bt_insert cmp_id i v m)"
  by (rule id_key.sorted_bt_insert) simp_all

lemma clock_eqI: "wf_clock a \<Longrightarrow> wf_clock b \<Longrightarrow> counter_of a = counter_of b \<Longrightarrow> a = b"
  using id_key.bt_extensional [of "time a" "time b"] by (simp add: wf_clock_def counter_of_def)

text \<open>The later of two counters; a missing one is earlier than any.\<close>

definition max_opt :: "i64 option \<Rightarrow> i64 option \<Rightarrow> i64 option" where
  "max_opt a b =
     (case (a, b) of (Some x, Some y) \<Rightarrow> Some (if x <s y then y else x) | (None, y) \<Rightarrow> y | (x, None) \<Rightarrow> x)"

definition opt_le :: "i64 option \<Rightarrow> i64 option \<Rightarrow> bool" where
  "opt_le a b \<longleftrightarrow> (case (a, b) of (Some x, Some y) \<Rightarrow> x \<le>s y | (None, _) \<Rightarrow> True | (Some _, None) \<Rightarrow> False)"

lemma sint_eq: "sint x = sint y \<longleftrightarrow> x = (y :: i64)"
  using signed_word_eqI by blast

lemma max_opt_laws:
  "max_opt a a = a" "max_opt a b = max_opt b a" "max_opt (max_opt a b) c = max_opt a (max_opt b c)"
  "opt_le a (max_opt a b)" "opt_le b (max_opt a b)" "opt_le a c \<Longrightarrow> opt_le b c \<Longrightarrow> opt_le (max_opt a b) c"
  by (auto simp: max_opt_def opt_le_def word_sless_alt word_sle_eq sint_eq split: option.splits)

lemma opt_le_order: "opt_le a a" "opt_le a b \<Longrightarrow> opt_le b c \<Longrightarrow> opt_le a c" "opt_le a b \<Longrightarrow> opt_le b a \<Longrightarrow> a = b"
  by (auto simp: opt_le_def word_sle_eq sint_eq split: option.splits)

lemma counter_in: "wf_clock c \<Longrightarrow> (i, v) \<in> set (time c) \<longleftrightarrow> counter_of c i = Some v"
  using id_key.sorted_distinct [of "time c"] by (simp add: wf_clock_def counter_of_def)

lemma before_counters:
  assumes "wf_clock a"
  shows "is_before_or_equal a b \<longleftrightarrow> (\<forall>i. opt_le (counter_of a i) (counter_of b i))"
proof -
  have "is_before_or_equal a b \<longleftrightarrow> (\<forall>i v. counter_of a i = Some v \<longrightarrow> (\<exists>w. counter_of b i = Some w \<and> \<not> w <s v))"
    using counter_in [OF assms]
    by (fastforce simp: is_before_or_equal_def list_all_iff has_id_def get_event_counter_def counter_of_def)
  also have "\<dots> \<longleftrightarrow> (\<forall>i. opt_le (counter_of a i) (counter_of b i))"
  proof -
    have "(\<forall>v. counter_of a i = Some v \<longrightarrow> (\<exists>w. counter_of b i = Some w \<and> \<not> w <s v)) \<longleftrightarrow> opt_le (counter_of a i) (counter_of b i)" for i
      by (cases "counter_of a i"; cases "counter_of b i") (auto simp: opt_le_def signed.not_less)
    then show ?thesis by simp
  qed
  finally show ?thesis .
qed

lemma greater_counters:
  assumes "wf_clock a"
  shows "has_greater_counter_than a b \<longleftrightarrow> (\<exists>i v w. counter_of a i = Some v \<and> counter_of b i = Some w \<and> w <s v)"
  using counter_in [OF assms]
  by (fastforce simp: has_greater_counter_than_def list_ex_iff has_id_def get_event_counter_def counter_of_def)

lemma greater_not_before:
  assumes "wf_clock x" "wf_clock y" "dom (counter_of x) = dom (counter_of y)"
  shows "has_greater_counter_than x y \<longleftrightarrow> \<not> is_before_or_equal x y"
proof -
  have eqv: "(counter_of x i = None) = (counter_of y i = None)" for i using assms(3) by (metis domIff)
  have "\<not> opt_le (counter_of x i) (counter_of y i) \<longleftrightarrow> (\<exists>v w. counter_of x i = Some v \<and> counter_of y i = Some w \<and> w <s v)" for i
    using eqv [of i] by (cases "counter_of x i"; cases "counter_of y i") (simp_all add: opt_le_def signed.not_le)
  then show ?thesis using assms by (simp add: greater_counters before_counters)
qed

lemma merge_entries:
  assumes "bt_sorted cmp_id t" "bt_sorted cmp_id es"
  shows "bt_sorted cmp_id (foldl merge_entry t es) \<and> map_of (foldl merge_entry t es) i = max_opt (map_of t i) (map_of es i)"
  using assms
proof (induction es arbitrary: t)
  case (Cons e es)
  obtain k v where e: "e = (k, v)" by force
  have fresh: "map_of es k = None" "bt_sorted cmp_id es"
    using Cons.prems(2) e id_key.sorted_distinct [of "e # es"] by (auto simp: map_of_eq_None_iff)
  have step: "bt_sorted cmp_id (merge_entry t e)"
      "map_of (merge_entry t e) = (map_of t)(k := max_opt (map_of t k) (Some v))"
    using Cons.prems(1) e
    by (auto simp: merge_entry_def sorted_id_insert map_of_id_insert max_opt_def split: option.splits)
  show ?case
    using Cons.IH [OF step(1) fresh(2)] step(2) e fresh(1)
    by (cases "i = k") (auto simp: max_opt_def split: option.splits)
qed (simp add: max_opt_def split: option.splits)

lemma merge_counters:
  assumes "wf_clock a" "wf_clock b"
  shows "wf_clock (clock_merge a b)" "counter_of (clock_merge a b) i = max_opt (counter_of a i) (counter_of b i)"
  using merge_entries [of "time a" "time b"] assms by (simp_all add: wf_clock_def counter_of_def clock_merge_def)

lemma increment_counters:
  assumes "wf_clock c"
  shows "wf_clock (increment c i)"
    "counter_of (increment c i) = (counter_of c)(i \<mapsto> (case counter_of c i of Some v \<Rightarrow> v | None \<Rightarrow> 0) + 1)"
  using assms by (simp_all add: wf_clock_def counter_of_def increment_def Let_def sorted_id_insert map_of_id_insert)

lemma with_member_counters:
  assumes "wf_clock c"
  shows "wf_clock (with_member c i)" "counter_of (with_member c i) = (counter_of c)(i \<mapsto> 0)"
  using assms by (simp_all add: wf_clock_def counter_of_def with_member_def sorted_id_insert map_of_id_insert)

lemma init_counters:
  "wf_clock (clock_init ms)" "counter_of (clock_init ms) i = (if i \<in> set ms then Some 0 else None)"
proof -
  have "bt_sorted cmp_id t \<Longrightarrow> bt_sorted cmp_id (foldl (\<lambda>t i. bt_insert cmp_id i 0 t) t ms) \<and>
      map_of (foldl (\<lambda>t i. bt_insert cmp_id i (0 :: i64) t) t ms) i = (if i \<in> set ms then Some 0 else map_of t i)" for t
    by (induction ms arbitrary: t) (auto simp: sorted_id_insert map_of_id_insert)
  from this [of "[]"] show "wf_clock (clock_init ms)" "counter_of (clock_init ms) i = (if i \<in> set ms then Some 0 else None)"
    by (simp_all add: wf_clock_def counter_of_def clock_init_def)
qed

section \<open>Codecs\<close>

lemma id_part_roundtrip [simp]: "(ucast (scast (p :: i32) :: i64) :: i32) = p"
  by (rule bit_word_eqI) (auto simp: bit_simps)

interpretation id_codec: cbor_codec id_to_cbor id_from_cbor "\<lambda>_. True"
proof
  fix i :: member_id
  have "collect_results (\<lambda>e. and_then (ok_or (CborMsg ''Id component not a long'') (as_long e)) (\<lambda>v. Inr (ucast v :: i32)))
      (map (\<lambda>p. CLong (scast p)) (id_parts i)) = Inr (id_parts i)"
    by (rule collect_results_roundtrip) simp
  then show "\<exists>x. id_to_cbor i = Inr x \<and> id_from_cbor x = Inr i \<and> wf_cbor x"
    by (simp add: id_to_cbor_def id_from_cbor_def list_all_iff)
qed

lemma clock_entry_roundtrip: "clock_entry_from_cbor (clock_entry_to_cbor e) = Inr e"
proof -
  obtain i v where e: "e = (i, v)" by force
  let ?longs = "map scast (id_parts i) @ [v]"
  have "map (\<lambda>p. CLong (scast p)) (id_parts i) @ [CLong v] = map CLong ?longs" by simp
  then have "clock_entry_to_cbor e = CList (map CLong ?longs)" by (simp only: clock_entry_to_cbor_def e prod.case)
  moreover have "collect_results (\<lambda>i. ok_or (CborMsg ''TreeClock entry not a long'') (as_long i)) (map CLong ?longs) = Inr ?longs"
    by (rule collect_results_roundtrip) simp
  ultimately show ?thesis by (simp add: clock_entry_from_cbor_def e comp_def)
qed

interpretation clock_codec: cbor_codec clock_to_cbor clock_from_cbor wf_clock
proof
  fix c
  assume "wf_clock c"
  then have "foldl (\<lambda>t (i, v). bt_insert cmp_id i v t) [] (time c) = time c"
    using id_key.bt_rebuild by (simp add: wf_clock_def)
  moreover have "collect_results clock_entry_from_cbor (map clock_entry_to_cbor (time c)) = Inr (time c)"
    by (rule collect_results_roundtrip) (rule clock_entry_roundtrip)
  moreover have "wf_cbor (clock_entry_to_cbor e)" for e by (cases e) (simp add: clock_entry_to_cbor_def list_all_iff)
  ultimately show "\<exists>x. clock_to_cbor c = Inr x \<and> clock_from_cbor x = Inr c \<and> wf_cbor x"
    by (simp add: clock_to_cbor_def clock_from_cbor_def list_all_iff)
qed

section \<open>Properties\<close>

text \<open>
  C25. Clocks form a join semilattice: \<open>is_before_or_equal\<close> is a partial order on clocks, and \<open>merge\<close> is
  commutative, associative and idempotent and gives the least clock after both.
\<close>

theorem clock_semilattice:
  assumes "wf_clock a" "wf_clock b" "wf_clock c"
  shows "clock_merge a b = clock_merge b a \<and> clock_merge (clock_merge a b) c = clock_merge a (clock_merge b c) \<and> clock_merge a a = a \<and>
    is_before_or_equal a a \<and> (is_before_or_equal a b \<and> is_before_or_equal b a \<longrightarrow> a = b) \<and>
    (is_before_or_equal a b \<and> is_before_or_equal b c \<longrightarrow> is_before_or_equal a c) \<and>
    is_before_or_equal a (clock_merge a b) \<and> is_before_or_equal b (clock_merge a b) \<and>
    (is_before_or_equal a c \<and> is_before_or_equal b c \<longrightarrow> is_before_or_equal (clock_merge a b) c)"
proof -
  note mc = merge_counters
  have wf: "wf_clock (clock_merge a b)" "wf_clock (clock_merge b a)" "wf_clock (clock_merge b c)" "wf_clock (clock_merge a a)"
    using mc(1) assms by blast+
  have "clock_merge a b = clock_merge b a"
    using assms wf by (intro clock_eqI ext) (simp_all add: mc max_opt_laws(2) [of "counter_of a _"])
  moreover have "clock_merge (clock_merge a b) c = clock_merge a (clock_merge b c)"
    using assms wf by (intro clock_eqI ext) (simp_all add: mc max_opt_laws(3))
  moreover have "clock_merge a a = a"
    using assms wf by (intro clock_eqI ext) (simp_all add: mc max_opt_laws(1))
  moreover have "is_before_or_equal a b \<and> is_before_or_equal b a \<longrightarrow> a = b"
    using assms opt_le_order(3) by (auto simp: before_counters intro!: clock_eqI)
  moreover have "is_before_or_equal a b \<and> is_before_or_equal b c \<longrightarrow> is_before_or_equal a c"
    using assms opt_le_order(2) by (fastforce simp: before_counters)
  ultimately show ?thesis
    using assms wf by (simp add: before_counters mc opt_le_order(1) max_opt_laws(4-6))
qed

theorem clock_semilattice_witness:
  "clock_merge (increment (clock_init [id_creator, id_single 1]) id_creator) (increment (clock_init [id_creator, id_single 1]) (id_single 1))
     = clock_merge (increment (clock_init [id_creator, id_single 1]) (id_single 1)) (increment (clock_init [id_creator, id_single 1]) id_creator)"
  using clock_semilattice [of "increment (clock_init [id_creator, id_single 1]) id_creator"
      "increment (clock_init [id_creator, id_single 1]) (id_single 1)" "clock_init []"]
    init_counters increment_counters(1) by blast

text \<open>
  An event moves the clock on: as long as the counter has not reached its maximum, incrementing a
  member's counter gives a strictly later clock that differs only there; and two clocks over the same
  members are concurrent exactly when neither is before the other.
\<close>

theorem clock_increment_after:
  assumes "wf_clock c" "counter_of c i \<noteq> Some (2 ^ 63 - 1)" "wf_clock a" "wf_clock b" "dom (counter_of a) = dom (counter_of b)"
  shows "is_before_or_equal c (increment c i) \<and> \<not> is_before_or_equal (increment c i) c \<and>
    (\<forall>j. j \<noteq> i \<longrightarrow> counter_of (increment c i) j = counter_of c j) \<and>
    (is_concurrent_with a b \<longleftrightarrow> \<not> is_before_or_equal a b \<and> \<not> is_before_or_equal b a)"
proof -
  note inc = increment_counters [OF assms(1)]
  have step: "v <s v + 1" if "v \<noteq> 2 ^ 63 - 1" for v :: i64
  proof -
    have "sint v \<noteq> 2 ^ 63 - 1" using that sint_eq [of v "2 ^ 63 - 1"] by simp
    then have "sint v + 1 < 2 ^ 63" using sint_less [of v] by simp
    moreover have "- (2 ^ 63) \<le> sint v" using sint_greater_eq [of v] by simp
    ultimately have "sint (v + 1) = sint v + 1"
      using signed_take_bit_int_eq_self [of 63 "sint v + 1"] by (simp add: sint_word_ariths)
    then show ?thesis by (simp add: word_sless_alt)
  qed
  have lt: "opt_le (counter_of c i) (counter_of (increment c i) i)" "\<not> opt_le (counter_of (increment c i) i) (counter_of c i)"
    using assms(2) step by (auto simp: inc(2) opt_le_def signed.not_le signed.less_imp_le split: option.splits)
  have "opt_le (counter_of c j) (counter_of (increment c i) j)" for j
    using lt(1) opt_le_order(1) by (cases "j = i") (auto simp: inc(2))
  then have order: "is_before_or_equal c (increment c i)" "\<not> is_before_or_equal (increment c i) c"
    using lt(2) assms(1) inc(1) by (auto simp: before_counters)
  show ?thesis
    using order inc(2) greater_not_before [OF assms(3-5)] greater_not_before [OF assms(4,3) assms(5) [symmetric]] by (auto simp: is_concurrent_with_def)
qed

theorem clock_increment_after_witness:
  "is_before_or_equal (clock_init [id_creator]) (increment (clock_init [id_creator]) id_creator) \<and>
   \<not> is_before_or_equal (increment (clock_init [id_creator]) id_creator) (clock_init [id_creator])"
  using clock_increment_after [of "clock_init [id_creator]" id_creator "clock_init []" "clock_init []"] init_counters by simp

end
