(* ===== verification/Chat_Types.thy ===== *)
theory Chat_Types
  imports Tree_Clock Capability_Props
begin

text \<open>
  The data of a chat (\<open>peergos-fs/src/messaging\<close>: \<open>member.rs\<close>, \<open>message_ref.rs\<close>, \<open>messages.rs\<close>, \<open>envelope.rs\<close>,
  \<open>private_state.rs\<close>, \<open>store.rs\<close>, and \<open>Content\<close> and \<open>FileRef\<close> of \<open>feed.rs\<close>), each with its CBOR form.
\<close>

section \<open>Members and group properties\<close>

definition ADMINS_STATE_KEY :: string where
  "ADMINS_STATE_KEY = ''admins''"

record group_property =
  gp_author :: member_id
  update_timestamp :: tree_clock
  gp_value :: string

definition gp_from_cbor :: "cbor \<Rightarrow> error + group_property" where
  "gp_from_cbor c =
     and_then (and_then (field ''GroupProperty missing a'' c ''a'') id_from_cbor) (\<lambda>a.
     and_then (and_then (field ''GroupProperty missing t'' c ''t'') clock_from_cbor) (\<lambda>t.
     and_then (and_then (field ''GroupProperty missing v'' c ''v'') (\<lambda>v. ok_or (CborMsg ''GroupProperty 'v' not a string'') (as_string v))) (\<lambda>v.
       Inr \<lparr>gp_author = a, update_timestamp = t, gp_value = v\<rparr>)))"

definition gp_to_cbor :: "group_property \<Rightarrow> error + cbor" where
  "gp_to_cbor p =
     and_then (id_to_cbor (gp_author p)) (\<lambda>a.
     and_then (clock_to_cbor (update_timestamp p)) (\<lambda>t.
       Inr (build (put ''v'' (CStr (gp_value p)) (put ''t'' t (put ''a'' a map_builder))))))"

record member =
  username :: string
  member_of :: member_id
  identity :: public_key_hash
  chat_identity :: "owner_proof option"
  messages_merged_upto :: i64
  members_invited :: i32
  removed :: bool

definition member_simple :: "string \<Rightarrow> member_id \<Rightarrow> public_key_hash \<Rightarrow> i64 \<Rightarrow> i32 \<Rightarrow> member" where
  "member_simple u i p msgs invited =
     \<lparr>username = u, member_of = i, identity = p, chat_identity = None, messages_merged_upto = msgs,
      members_invited = invited, removed = False\<rparr>"

definition increment_invited :: "member \<Rightarrow> member" where
  "increment_invited m = m\<lparr>members_invited := members_invited m + 1\<rparr>"

definition increment_messages :: "member \<Rightarrow> member" where
  "increment_messages m = m\<lparr>messages_merged_upto := messages_merged_upto m + 1\<rparr>"

definition set_removed :: "member \<Rightarrow> bool \<Rightarrow> member" where
  "set_removed m updated = m\<lparr>removed := updated\<rparr>"

definition with_chat_id :: "member \<Rightarrow> owner_proof \<Rightarrow> member" where
  "with_chat_id m p = m\<lparr>chat_identity := Some p\<rparr>"

definition member_from_cbor :: "cbor \<Rightarrow> error + member" where
  "member_from_cbor c =
     and_then (and_then (field ''Member missing u'' c ''u'') (\<lambda>v. ok_or (CborMsg ''Member 'u' not a string'') (as_string v))) (\<lambda>u.
     and_then (and_then (field ''Member missing i'' c ''i'') id_from_cbor) (\<lambda>i.
     and_then (and_then (field ''Member missing p'' c ''p'') pkh_from_cbor) (\<lambda>p.
     and_then (opt_field proof_from_cbor c ''s'') (\<lambda>s.
     and_then (and_then (field ''Member missing m'' c ''m'') (\<lambda>v. ok_or (CborMsg ''Member 'm' not a long'') (as_long v))) (\<lambda>m.
     and_then (and_then (field ''Member missing c'' c ''c'') (\<lambda>v. ok_or (CborMsg ''Member 'c' not a long'') (as_long v))) (\<lambda>n.
     and_then (and_then (field ''Member missing r'' c ''r'') (\<lambda>v. ok_or (CborMsg ''Member 'r' not a bool'') (as_bool v))) (\<lambda>r.
       Inr \<lparr>username = u, member_of = i, identity = p, chat_identity = s, messages_merged_upto = m,
            members_invited = ucast n, removed = r\<rparr>)))))))"

definition member_to_cbor :: "member \<Rightarrow> error + cbor" where
  "member_to_cbor m =
     and_then (id_to_cbor (member_of m)) (\<lambda>i.
     and_then (pkh_to_cbor (identity m)) (\<lambda>p.
     and_then (opt_enc proof_to_cbor (chat_identity m)) (\<lambda>s.
       Inr (build (put ''r'' (CBoolean (removed m)) (put ''c'' (CLong (scast (members_invited m)))
         (put ''m'' (CLong (messages_merged_upto m)) (put_opt ''s'' s (put ''p'' p (put ''i'' i
         (put ''u'' (CStr (username m)) map_builder)))))))))))"

section \<open>Message references and content\<close>

record message_ref =
  envelope_hash :: bytes

definition ref_from_cbor :: "cbor \<Rightarrow> error + message_ref" where
  "ref_from_cbor c =
     and_then (ok_or (CborMsg ''Incorrect cbor for MessageRef'') (Option.bind (cbor_get c ''h'') as_byte_string)) (\<lambda>h.
       Inr \<lparr>envelope_hash = h\<rparr>)"

definition ref_to_cbor :: "message_ref \<Rightarrow> error + cbor" where
  "ref_to_cbor r = Inr (build (put ''h'' (CByteString (envelope_hash r)) map_builder))"

definition bare_hash :: "(bytes \<Rightarrow> bytes) \<Rightarrow> bytes \<Rightarrow> bytes" where
  "bare_hash sha256 data = [0x12, 0x20] @ sha256 data"

record file_ref =
  ref_path :: string
  ref_cap :: absolute_capability
  content_hash :: bytes

definition file_ref_to_cbor :: "file_ref \<Rightarrow> error + cbor" where
  "file_ref_to_cbor r =
     and_then (cap_to_cbor (ref_cap r)) (\<lambda>c.
       Inr (build (put ''h'' (CMerkleLink (content_hash r)) (put ''c'' c (put ''p'' (CStr (ref_path r)) map_builder)))))"

definition file_ref_from_cbor :: "cbor \<Rightarrow> error + file_ref" where
  "file_ref_from_cbor x =
     and_then (ok_or (CborMsg ''FileRef missing p'') (Option.bind (cbor_get x ''p'') as_string)) (\<lambda>p.
     and_then (and_then (field ''FileRef missing c'' x ''c'') cap_from_cbor) (\<lambda>c.
     and_then (ok_or (CborMsg ''FileRef missing h'') (Option.bind (cbor_get x ''h'') as_link)) (\<lambda>h.
       Inr \<lparr>ref_path = p, ref_cap = c, content_hash = h\<rparr>)))"

datatype content = Text string | Reference file_ref

fun content_to_cbor :: "content \<Rightarrow> error + cbor" where
  "content_to_cbor (Text s) = Inr (CStr s)"
| "content_to_cbor (Reference r) =
     and_then (file_ref_to_cbor r) (\<lambda>x. Inr (build (put ''r'' x (put ''t'' (CStr ''Ref'') map_builder))))"

definition content_from_cbor :: "cbor \<Rightarrow> error + content" where
  "content_from_cbor c =
     (case c of
        CStr s \<Rightarrow> Inr (Text s)
      | CMap _ \<Rightarrow>
          if (case Option.bind (cbor_get c ''t'') as_string of Some s \<Rightarrow> s | None \<Rightarrow> '''') = ''Ref''
          then and_then (and_then (field ''Ref missing r'' c ''r'') file_ref_from_cbor) (\<lambda>r. Inr (Reference r))
          else Inl (CborMsg ''unknown content type'')
      | _ \<Rightarrow> Inl (CborMsg ''invalid Content cbor''))"

fun inline_text :: "content \<Rightarrow> string option" where
  "inline_text (Text s) = Some s"
| "inline_text (Reference _) = None"

section \<open>Messages\<close>

datatype message_type = MtJoin | MtInvite | MtApplication | MtGroupState | MtReplyTo | MtDelete | MtEdit | MtRemoveMember

fun type_value :: "message_type \<Rightarrow> i64" where
  "type_value MtJoin = 0"
| "type_value MtInvite = 1"
| "type_value MtApplication = 2"
| "type_value MtGroupState = 3"
| "type_value MtReplyTo = 4"
| "type_value MtDelete = 5"
| "type_value MtEdit = 6"
| "type_value MtRemoveMember = 7"

definition by_value :: "i64 \<Rightarrow> error + message_type" where
  "by_value v =
     (if v = 0 then Inr MtJoin else if v = 1 then Inr MtInvite else if v = 2 then Inr MtApplication
      else if v = 3 then Inr MtGroupState else if v = 4 then Inr MtReplyTo else if v = 5 then Inr MtDelete
      else if v = 6 then Inr MtEdit else if v = 7 then Inr MtRemoveMember
      else Inl (CborMsg ''Unknown message type''))"

record application_message =
  body :: "content list"

definition app_text :: "string \<Rightarrow> application_message" where
  "app_text s = \<lparr>body = [Text s]\<rparr>"

definition app_attachment :: "string \<Rightarrow> file_ref list \<Rightarrow> application_message" where
  "app_attachment s attachments = \<lparr>body = [Text s] @ map Reference attachments\<rparr>"

definition app_to_cbor :: "application_message \<Rightarrow> error + cbor" where
  "app_to_cbor m =
     and_then (collect_results content_to_cbor (body m)) (\<lambda>xs.
       Inr (build (put ''b'' (CList xs) (put ''c'' (CLong (type_value MtApplication)) map_builder))))"

definition app_from_cbor :: "cbor \<Rightarrow> error + application_message" where
  "app_from_cbor c =
     and_then (ok_or (CborMsg ''ApplicationMessage missing b'') (Option.bind (cbor_get c ''b'') as_list)) (\<lambda>l.
     and_then (collect_results content_from_cbor l) (\<lambda>b. Inr \<lparr>body = b\<rparr>))"

definition file_refs :: "application_message \<Rightarrow> file_ref list" where
  "file_refs m = List.map_filter (\<lambda>c. case c of Reference r \<Rightarrow> Some r | Text _ \<Rightarrow> None) (body m)"

datatype message =
    Join (join_username: string) (join_identity: public_key_hash) (join_chat_identity: owner_proof) (chat_id_public: public_signing_key)
  | Invite (invite_username: string) (invite_identity: public_key_hash) (recipient_id: member_id)
  | Application application_message
  | GroupState (gs_key: string) (gs_value: string)
  | ReplyTo (reply_parent: message_ref) (reply_content: application_message)
  | Delete (delete_target: message_ref)
  | Edit (prior_version: message_ref) (edit_content: application_message)
  | RemoveMember (rm_chat_uid: string) (member_to_remove: member_id)

fun type_of_message :: "message \<Rightarrow> message_type" where
  "type_of_message (Join _ _ _ _) = MtJoin"
| "type_of_message (Invite _ _ _) = MtInvite"
| "type_of_message (Application _) = MtApplication"
| "type_of_message (GroupState _ _) = MtGroupState"
| "type_of_message (ReplyTo _ _) = MtReplyTo"
| "type_of_message (Delete _) = MtDelete"
| "type_of_message (Edit _ _) = MtEdit"
| "type_of_message (RemoveMember _ _) = MtRemoveMember"

definition msg_reply_to :: "(bytes \<Rightarrow> bytes) \<Rightarrow> bytes \<Rightarrow> application_message \<Rightarrow> message" where
  "msg_reply_to sha256 parent_envelope_bytes c = ReplyTo \<lparr>envelope_hash = bare_hash sha256 parent_envelope_bytes\<rparr> c"

definition msg_edit :: "(bytes \<Rightarrow> bytes) \<Rightarrow> bytes \<Rightarrow> application_message \<Rightarrow> message" where
  "msg_edit sha256 prior_envelope_bytes c = Edit \<lparr>envelope_hash = bare_hash sha256 prior_envelope_bytes\<rparr> c"

definition msg_delete :: "(bytes \<Rightarrow> bytes) \<Rightarrow> bytes \<Rightarrow> message" where
  "msg_delete sha256 target_envelope_bytes = Delete \<lparr>envelope_hash = bare_hash sha256 target_envelope_bytes\<rparr>"

definition get_str :: "cbor \<Rightarrow> string \<Rightarrow> error + string" where
  "get_str c k = ok_or (CborMsg ''Message missing field'') (Option.bind (cbor_get c k) as_string)"

definition message_from_cbor :: "cbor \<Rightarrow> error + message" where
  "message_from_cbor c =
     (let get = field ''Message missing field'' c in
      and_then (ok_or (CborMsg ''Incorrect cbor for Message'') (Option.bind (cbor_get c ''c'') as_long)) (\<lambda>category.
      and_then (by_value category) (\<lambda>t.
        case t of
          MtJoin \<Rightarrow>
            and_then (get_str c ''u'') (\<lambda>u.
            and_then (and_then (get ''i'') pkh_from_cbor) (\<lambda>i.
            and_then (and_then (get ''ci'') proof_from_cbor) (\<lambda>ci.
            and_then (and_then (get ''p'') psk_from_cbor) (\<lambda>p. Inr (Join u i ci p)))))
        | MtInvite \<Rightarrow>
            and_then (get_str c ''u'') (\<lambda>u.
            and_then (and_then (get ''r'') id_from_cbor) (\<lambda>r.
            and_then (and_then (get ''i'') pkh_from_cbor) (\<lambda>i. Inr (Invite u i r))))
        | MtApplication \<Rightarrow> and_then (app_from_cbor c) (\<lambda>m. Inr (Application m))
        | MtGroupState \<Rightarrow> and_then (get_str c ''k'') (\<lambda>k. and_then (get_str c ''v'') (\<lambda>v. Inr (GroupState k v)))
        | MtReplyTo \<Rightarrow>
            and_then (and_then (get ''r'') ref_from_cbor) (\<lambda>r.
            and_then (and_then (get ''b'') app_from_cbor) (\<lambda>b. Inr (ReplyTo r b)))
        | MtEdit \<Rightarrow>
            and_then (and_then (get ''r'') ref_from_cbor) (\<lambda>r.
            and_then (and_then (get ''b'') app_from_cbor) (\<lambda>b. Inr (Edit r b)))
        | MtDelete \<Rightarrow> and_then (and_then (get ''r'') ref_from_cbor) (\<lambda>r. Inr (Delete r))
        | MtRemoveMember \<Rightarrow>
            and_then (get_str c ''u'') (\<lambda>u.
            and_then (and_then (get ''m'') id_from_cbor) (\<lambda>m. Inr (RemoveMember u m))))))"

definition message_to_cbor :: "message \<Rightarrow> error + cbor" where
  "message_to_cbor m =
     (let b = put ''c'' (CLong (type_value (type_of_message m))) map_builder in
      case m of
        Join u i ci p \<Rightarrow>
          and_then (pkh_to_cbor i) (\<lambda>i. and_then (proof_to_cbor ci) (\<lambda>ci. and_then (psk_to_cbor p) (\<lambda>p.
            Inr (build (put ''p'' p (put ''ci'' ci (put ''i'' i (put ''u'' (CStr u) b))))))))
      | Invite u i r \<Rightarrow>
          and_then (id_to_cbor r) (\<lambda>r. and_then (pkh_to_cbor i) (\<lambda>i.
            Inr (build (put ''i'' i (put ''r'' r (put ''u'' (CStr u) b))))))
      | Application a \<Rightarrow> app_to_cbor a
      | GroupState k v \<Rightarrow> Inr (build (put ''v'' (CStr v) (put ''k'' (CStr k) b)))
      | ReplyTo r a \<Rightarrow> and_then (ref_to_cbor r) (\<lambda>r. and_then (app_to_cbor a) (\<lambda>a. Inr (build (put ''b'' a (put ''r'' r b)))))
      | Edit r a \<Rightarrow> and_then (ref_to_cbor r) (\<lambda>r. and_then (app_to_cbor a) (\<lambda>a. Inr (build (put ''b'' a (put ''r'' r b)))))
      | Delete r \<Rightarrow> and_then (ref_to_cbor r) (\<lambda>r. Inr (build (put ''r'' r b)))
      | RemoveMember u i \<Rightarrow> and_then (id_to_cbor i) (\<lambda>i. Inr (build (put ''m'' i (put ''u'' (CStr u) b)))))"

section \<open>Envelopes\<close>

record message_envelope =
  env_author :: member_id
  timestamp :: tree_clock
  creation_time_millis :: i64
  previous_messages :: "message_ref list"
  payload :: message

definition envelope_from_cbor :: "cbor \<Rightarrow> error + message_envelope" where
  "envelope_from_cbor c =
     (let get = field ''MessageEnvelope missing field'' c in
      and_then (and_then (get ''a'') id_from_cbor) (\<lambda>a.
      and_then (and_then (get ''t'') clock_from_cbor) (\<lambda>t.
      and_then (and_then (get ''u'') (\<lambda>v. ok_or (CborMsg ''MessageEnvelope 'u' not a long'') (as_long v))) (\<lambda>u.
      and_then (and_then (get ''r'') (\<lambda>v. ok_or (CborMsg ''MessageEnvelope 'r' not a list'') (as_list v))) (\<lambda>l.
      and_then (collect_results ref_from_cbor l) (\<lambda>r.
      and_then (and_then (get ''p'') message_from_cbor) (\<lambda>p.
        Inr \<lparr>env_author = a, timestamp = t, creation_time_millis = u, previous_messages = r, payload = p\<rparr>)))))))"

definition envelope_to_cbor :: "message_envelope \<Rightarrow> error + cbor" where
  "envelope_to_cbor e =
     and_then (id_to_cbor (env_author e)) (\<lambda>a.
     and_then (clock_to_cbor (timestamp e)) (\<lambda>t.
     and_then (collect_results ref_to_cbor (previous_messages e)) (\<lambda>r.
     and_then (message_to_cbor (payload e)) (\<lambda>p.
       Inr (build (put ''p'' p (put ''r'' (CList r) (put ''u'' (CLong (creation_time_millis e)) (put ''t'' t
         (put ''a'' a map_builder)))))))))) "

record signed_message =
  signature :: bytes
  msg :: message_envelope

definition signed_from_cbor :: "cbor \<Rightarrow> error + signed_message" where
  "signed_from_cbor c =
     and_then (ok_or (CborMsg ''Incorrect cbor for SignedMessage'') (as_list c)) (\<lambda>l.
     and_then (ok_or (CborMsg ''SignedMessage missing signature'') (Option.bind (list_get l 0) as_byte_string)) (\<lambda>s.
     and_then (ok_or (CborMsg ''SignedMessage missing envelope'') (Option.bind (list_get l 1) as_byte_string)) (\<lambda>bs.
     and_then (parse envelope_from_cbor bs) (\<lambda>m. Inr \<lparr>signature = s, msg = m\<rparr>))))"

definition signed_to_cbor :: "signed_message \<Rightarrow> error + cbor" where
  "signed_to_cbor s =
     and_then (serialize envelope_to_cbor (msg s)) (\<lambda>bs. Inr (CList [CByteString (signature s), CByteString bs]))"

section \<open>Private state and message store\<close>

record private_chat_state =
  priv_chat_identity :: signing_private_key_and_public_hash
  priv_chat_id_public :: public_signing_key
  deleted_members :: string_set

definition add_deleted :: "private_chat_state \<Rightarrow> string \<Rightarrow> private_chat_state" where
  "add_deleted p u = p\<lparr>deleted_members := set_add u (deleted_members p)\<rparr>"

definition priv_apply :: "private_chat_state \<Rightarrow> private_chat_state \<Rightarrow> private_chat_state" where
  "priv_apply p newer =
     \<lparr>priv_chat_identity = priv_chat_identity newer, priv_chat_id_public = priv_chat_id_public newer,
      deleted_members = set_extend (deleted_members p) (deleted_members newer)\<rparr>"

definition priv_from_cbor :: "cbor \<Rightarrow> error + private_chat_state" where
  "priv_from_cbor c =
     and_then (and_then (field ''PrivateChatState missing ci'' c ''ci'') spk_from_cbor) (\<lambda>ci.
     and_then (and_then (field ''PrivateChatState missing p'' c ''p'') psk_from_cbor) (\<lambda>p.
     and_then (and_then (field ''PrivateChatState missing d'' c ''d'') (\<lambda>v. ok_or (CborMsg ''PrivateChatState 'd' not a list'') (as_list v))) (\<lambda>l.
     and_then (collect_results (\<lambda>x. ok_or (CborMsg ''deleted member not a string'') (as_string x)) l) (\<lambda>d.
       Inr \<lparr>priv_chat_identity = ci, priv_chat_id_public = p, deleted_members = foldl (\<lambda>t s. set_add s t) [] d\<rparr>))))"

definition priv_to_cbor :: "private_chat_state \<Rightarrow> error + cbor" where
  "priv_to_cbor s =
     and_then (spk_to_cbor (priv_chat_identity s)) (\<lambda>ci.
     and_then (psk_to_cbor (priv_chat_id_public s)) (\<lambda>p.
       Inr (build (put ''d'' (CList (map (\<lambda>(u, _). CStr u) (deleted_members s))) (put ''p'' p (put ''ci'' ci map_builder))))))"

record ram_message_store =
  messages :: "signed_message list"
  revoked :: string_set

definition rms_new :: ram_message_store where
  "rms_new = \<lparr>messages = [], revoked = []\<rparr>"

text \<open>\<open>index.max(0) as usize\<close>, at most the length.\<close>

definition clamp :: "i64 \<Rightarrow> nat \<Rightarrow> nat" where
  "clamp index n = min (nat (max (sint index) 0)) n"

definition get_messages_from :: "ram_message_store \<Rightarrow> i64 \<Rightarrow> signed_message list" where
  "get_messages_from s index = drop (clamp index (length (messages s))) (messages s)"

definition get_messages :: "ram_message_store \<Rightarrow> i64 \<Rightarrow> i64 \<Rightarrow> signed_message list" where
  "get_messages s from_index to_index =
     (let start = clamp from_index (length (messages s)); stop = clamp to_index (length (messages s))
      in if start \<ge> stop then [] else take (stop - start) (drop start (messages s)))"

definition add_messages :: "ram_message_store \<Rightarrow> signed_message list \<Rightarrow> ram_message_store" where
  "add_messages s msgs = s\<lparr>messages := messages s @ msgs\<rparr>"

definition revoke_access :: "ram_message_store \<Rightarrow> string_set \<Rightarrow> ram_message_store" where
  "revoke_access s usernames = s\<lparr>revoked := set_extend (revoked s) usernames\<rparr>"

end
