(* ===== verification/Chat_Codec.thy ===== *)
theory Chat_Codec
  imports Chat_Types
begin

text \<open>Every part of a chat is read back from its CBOR form.\<close>

section \<open>Well-formed values\<close>

definition wf_gp :: "group_property \<Rightarrow> bool" where
  "wf_gp p \<longleftrightarrow> wf_clock (update_timestamp p) \<and> valid_utf8 (gp_value p)"

definition wf_member :: "member \<Rightarrow> bool" where
  "wf_member m \<longleftrightarrow> valid_utf8 (username m) \<and> wf_pkh (identity m) \<and> pred_option wf_proof (chat_identity m)"

definition wf_file_ref :: "file_ref \<Rightarrow> bool" where
  "wf_file_ref r \<longleftrightarrow> valid_utf8 (ref_path r) \<and> wf_cap (ref_cap r)"

fun wf_content :: "content \<Rightarrow> bool" where
  "wf_content (Text s) \<longleftrightarrow> valid_utf8 s"
| "wf_content (Reference r) \<longleftrightarrow> wf_file_ref r"

definition wf_app :: "application_message \<Rightarrow> bool" where
  "wf_app m \<longleftrightarrow> list_all wf_content (body m)"

fun wf_message :: "message \<Rightarrow> bool" where
  "wf_message (Join u i ci p) \<longleftrightarrow> valid_utf8 u \<and> wf_pkh i \<and> wf_proof ci"
| "wf_message (Invite u i r) \<longleftrightarrow> valid_utf8 u \<and> wf_pkh i"
| "wf_message (Application a) \<longleftrightarrow> wf_app a"
| "wf_message (GroupState k v) \<longleftrightarrow> valid_utf8 k \<and> valid_utf8 v"
| "wf_message (ReplyTo r a) \<longleftrightarrow> wf_app a"
| "wf_message (Delete r) \<longleftrightarrow> True"
| "wf_message (Edit r a) \<longleftrightarrow> wf_app a"
| "wf_message (RemoveMember u i) \<longleftrightarrow> valid_utf8 u"

definition wf_envelope :: "message_envelope \<Rightarrow> bool" where
  "wf_envelope e \<longleftrightarrow> wf_clock (timestamp e) \<and> wf_message (payload e)"

definition wf_signed :: "signed_message \<Rightarrow> bool" where
  "wf_signed s \<longleftrightarrow> wf_envelope (msg s) \<and> (\<forall>bs. serialize envelope_to_cbor (msg s) = Inr bs \<longrightarrow> length bs < 2 ^ 64)"

definition wf_priv :: "private_chat_state \<Rightarrow> bool" where
  "wf_priv s \<longleftrightarrow> wf_spk (priv_chat_identity s) \<and> bt_sorted cmp_str (deleted_members s) \<and> list_all (\<lambda>(u, _). valid_utf8 u) (deleted_members s)"

section \<open>Codecs\<close>

interpretation gp: cbor_codec gp_to_cbor gp_from_cbor wf_gp
proof
  fix p
  assume wf: "wf_gp p"
  obtain a where a: "id_to_cbor (gp_author p) = Inr a" "id_from_cbor a = Inr (gp_author p)" "wf_cbor a"
    using id_codec.encodes by blast
  obtain t where t: "clock_to_cbor (update_timestamp p) = Inr t" "clock_from_cbor t = Inr (update_timestamp p)" "wf_cbor t"
    using wf clock_codec.encodes by (metis wf_gp_def)
  show "\<exists>x. gp_to_cbor p = Inr x \<and> gp_from_cbor x = Inr p \<and> wf_cbor x"
    using a t wf by (simp add: gp_to_cbor_def gp_from_cbor_def field_def wf_gp_def)
qed

interpretation member: cbor_codec member_to_cbor member_from_cbor wf_member
proof
  fix m
  assume wf: "wf_member m"
  obtain i where i: "id_to_cbor (member_of m) = Inr i" "id_from_cbor i = Inr (member_of m)" "wf_cbor i"
    using id_codec.encodes by blast
  obtain p where p: "pkh_to_cbor (identity m) = Inr p" "pkh_from_cbor p = Inr (identity m)" "wf_cbor p"
    using wf pkh.encodes by (metis wf_member_def)
  have pr: "\<And>q. chat_identity m = Some q \<Longrightarrow> wf_proof q" using wf by (simp add: wf_member_def)
  obtain s where s: "opt_enc proof_to_cbor (chat_identity m) = Inr s" "\<And>y. s = Some y \<Longrightarrow> wf_cbor y"
      "\<And>x k. cbor_get x k = s \<Longrightarrow> opt_field proof_from_cbor x k = Inr (chat_identity m)"
    using owner_proof.encodes_opt [OF pr] by blast
  show "\<exists>x. member_to_cbor m = Inr x \<and> member_from_cbor x = Inr m \<and> wf_cbor x"
    using i p s wf by (simp add: member_to_cbor_def member_from_cbor_def field_def wf_member_def)
qed

interpretation ref: cbor_codec ref_to_cbor ref_from_cbor "\<lambda>_. True"
  by unfold_locales (simp add: ref_to_cbor_def ref_from_cbor_def)

interpretation file_ref: cbor_codec file_ref_to_cbor file_ref_from_cbor wf_file_ref
proof
  fix r
  assume wf: "wf_file_ref r"
  obtain c where "cap_to_cbor (ref_cap r) = Inr c" "cap_from_cbor c = Inr (ref_cap r)" "wf_cbor c"
    using wf cap.encodes by (metis wf_file_ref_def)
  then show "\<exists>x. file_ref_to_cbor r = Inr x \<and> file_ref_from_cbor x = Inr r \<and> wf_cbor x"
    using wf by (simp add: file_ref_to_cbor_def file_ref_from_cbor_def field_def wf_file_ref_def)
qed

interpretation content: cbor_codec content_to_cbor content_from_cbor wf_content
proof
  fix c
  assume wf: "wf_content c"
  show "\<exists>x. content_to_cbor c = Inr x \<and> content_from_cbor x = Inr c \<and> wf_cbor x"
  proof (cases c)
    case (Reference r)
    then obtain x where x: "file_ref_to_cbor r = Inr x" "file_ref_from_cbor x = Inr r" "wf_cbor x"
      using wf file_ref.encodes by auto
    let ?b = "put ''r'' x (put ''t'' (CStr ''Ref'') map_builder)"
    obtain m where m: "build ?b = CMap m" by (simp add: build_def)
    have "cbor_get (build ?b) ''t'' = Some (CStr ''Ref'')" "cbor_get (build ?b) ''r'' = Some x" by simp_all
    then have "content_from_cbor (build ?b) = Inr c"
      using x(2) Reference unfolding m by (simp add: content_from_cbor_def field_def)
    then show ?thesis using x Reference by simp
  qed (use wf in \<open>simp add: content_from_cbor_def\<close>)
qed

interpretation app: cbor_codec app_to_cbor app_from_cbor wf_app
proof
  fix m
  assume "wf_app m"
  then obtain xs where "collect_results content_to_cbor (body m) = Inr xs" "collect_results content_from_cbor xs = Inr (body m)"
      "list_all wf_cbor xs"
    using content.encodes_list by (metis wf_app_def)
  then show "\<exists>x. app_to_cbor m = Inr x \<and> app_from_cbor x = Inr m \<and> wf_cbor x"
    by (simp add: app_to_cbor_def app_from_cbor_def)
qed

lemma by_value_type [simp]: "by_value (type_value t) = Inr t"
  by (cases t) (simp_all add: by_value_def)

lemmas message_codec_simps =
  message_to_cbor_def message_from_cbor_def field_def get_str_def Let_def

interpretation message: cbor_codec message_to_cbor message_from_cbor wf_message
proof
  fix m
  assume wf: "wf_message m"
  show "\<exists>x. message_to_cbor m = Inr x \<and> message_from_cbor x = Inr m \<and> wf_cbor x"
  proof (cases m)
    case (Join u i ci p)
    obtain i' where i: "pkh_to_cbor i = Inr i'" "pkh_from_cbor i' = Inr i" "wf_cbor i'" using wf Join pkh.encodes by auto
    obtain c' where c: "proof_to_cbor ci = Inr c'" "proof_from_cbor c' = Inr ci" "wf_cbor c'" using wf Join owner_proof.encodes by auto
    obtain p' where p: "psk_to_cbor p = Inr p'" "psk_from_cbor p' = Inr p" "wf_cbor p'" using psk.encodes by blast
    show ?thesis using i c p wf Join by (simp add: message_codec_simps del: type_value.simps)
  next
    case (Invite u i r)
    obtain i' where i: "pkh_to_cbor i = Inr i'" "pkh_from_cbor i' = Inr i" "wf_cbor i'" using wf Invite pkh.encodes by auto
    obtain r' where r: "id_to_cbor r = Inr r'" "id_from_cbor r' = Inr r" "wf_cbor r'" using id_codec.encodes by blast
    show ?thesis using i r wf Invite by (simp add: message_codec_simps del: type_value.simps)
  next
    case (Application a)
    then obtain x where x: "app_to_cbor a = Inr x" "app_from_cbor x = Inr a" "wf_cbor x" using wf app.encodes by auto
    have "cbor_get x ''c'' = Some (CLong (type_value MtApplication))"
      using x(1) by (auto simp: app_to_cbor_def and_then_Inr_iff simp del: type_value.simps)
    then show ?thesis using x Application by (simp add: message_codec_simps del: type_value.simps)
  next
    case (GroupState k v)
    then show ?thesis using wf by (simp add: message_codec_simps del: type_value.simps)
  next
    case (ReplyTo r a)
    obtain r' where r: "ref_to_cbor r = Inr r'" "ref_from_cbor r' = Inr r" "wf_cbor r'" using ref.encodes by blast
    obtain x where x: "app_to_cbor a = Inr x" "app_from_cbor x = Inr a" "wf_cbor x" using wf ReplyTo app.encodes by auto
    show ?thesis using r x ReplyTo by (simp add: message_codec_simps del: type_value.simps)
  next
    case (Delete r)
    obtain r' where r: "ref_to_cbor r = Inr r'" "ref_from_cbor r' = Inr r" "wf_cbor r'" using ref.encodes by blast
    then show ?thesis using Delete by (simp add: message_codec_simps del: type_value.simps)
  next
    case (Edit r a)
    obtain r' where r: "ref_to_cbor r = Inr r'" "ref_from_cbor r' = Inr r" "wf_cbor r'" using ref.encodes by blast
    obtain x where x: "app_to_cbor a = Inr x" "app_from_cbor x = Inr a" "wf_cbor x" using wf Edit app.encodes by auto
    show ?thesis using r x Edit by (simp add: message_codec_simps del: type_value.simps)
  next
    case (RemoveMember u i)
    obtain r' where r: "id_to_cbor i = Inr r'" "id_from_cbor r' = Inr i" "wf_cbor r'" using id_codec.encodes by blast
    then show ?thesis using RemoveMember wf by (simp add: message_codec_simps del: type_value.simps)
  qed
qed

interpretation envelope: cbor_codec envelope_to_cbor envelope_from_cbor wf_envelope
proof
  fix e
  assume wf: "wf_envelope e"
  obtain a where a: "id_to_cbor (env_author e) = Inr a" "id_from_cbor a = Inr (env_author e)" "wf_cbor a"
    using id_codec.encodes by blast
  obtain t where t: "clock_to_cbor (timestamp e) = Inr t" "clock_from_cbor t = Inr (timestamp e)" "wf_cbor t"
    using wf clock_codec.encodes by (metis wf_envelope_def)
  obtain r where r: "collect_results ref_to_cbor (previous_messages e) = Inr r" "collect_results ref_from_cbor r = Inr (previous_messages e)"
      "list_all wf_cbor r"
    using ref.encodes_list [of "previous_messages e"] by auto
  obtain p where p: "message_to_cbor (payload e) = Inr p" "message_from_cbor p = Inr (payload e)" "wf_cbor p"
    using wf message.encodes by (metis wf_envelope_def)
  show "\<exists>x. envelope_to_cbor e = Inr x \<and> envelope_from_cbor x = Inr e \<and> wf_cbor x"
    using a t r p by (simp add: envelope_to_cbor_def envelope_from_cbor_def field_def Let_def)
qed

interpretation signed: cbor_codec signed_to_cbor signed_from_cbor wf_signed
proof
  fix s
  assume wf: "wf_signed s"
  obtain bs where "serialize envelope_to_cbor (msg s) = Inr bs" "parse envelope_from_cbor bs = Inr (msg s)"
    using wf envelope.bytes_roundtrip [of "msg s"] by (auto simp: wf_signed_def)
  then show "\<exists>x. signed_to_cbor s = Inr x \<and> signed_from_cbor x = Inr s \<and> wf_cbor x"
    by (simp add: signed_to_cbor_def signed_from_cbor_def)
qed

interpretation priv: cbor_codec priv_to_cbor priv_from_cbor wf_priv
proof
  fix s
  assume wf: "wf_priv s"
  obtain ci where ci: "spk_to_cbor (priv_chat_identity s) = Inr ci" "spk_from_cbor ci = Inr (priv_chat_identity s)" "wf_cbor ci"
    using wf spk.encodes by (metis wf_priv_def)
  obtain p where p: "psk_to_cbor (priv_chat_id_public s) = Inr p" "psk_from_cbor p = Inr (priv_chat_id_public s)" "wf_cbor p"
    using psk.encodes by blast
  let ?l = "map (\<lambda>(u, _). CStr u) (deleted_members s)"
  have l: "collect_results (\<lambda>x. ok_or (CborMsg ''deleted member not a string'') (as_string x)) ?l = Inr (map fst (deleted_members s))"
    by (rule collect_results_map) (auto split: prod.splits)
  have "foldl (\<lambda>t u. set_add u t) [] (map fst m) = foldl (\<lambda>t (k, v). bt_insert cmp_str k v t) [] m" for m :: string_set
    unfolding foldl_map set_add_def by (rule foldl_cong) auto
  then have d: "foldl (\<lambda>t u. set_add u t) [] (map fst (deleted_members s)) = deleted_members s"
    using str_key.bt_rebuild [of "deleted_members s"] wf by (simp add: wf_priv_def)
  have "list_all wf_cbor ?l" using wf by (auto simp: wf_priv_def list_all_iff)
  then show "\<exists>x. priv_to_cbor s = Inr x \<and> priv_from_cbor x = Inr s \<and> wf_cbor x"
    using ci p l d by (simp add: priv_to_cbor_def priv_from_cbor_def field_def)
qed

end
