(* ===== verification/Chat.thy ===== *)
theory Chat
  imports Chat_Codec
begin

text \<open>
  The replicated chat (\<open>peergos-fs/src/messaging/chat.rs\<close>).  A \<open>chat\<close> is one member's view; applying or
  merging messages gives a \<open>chat_update\<close>: the new view with the messages to append, the media to copy and
  the access to revoke.

  Time, randomness, hashing, signatures and the block store are in a \<open>chat_env\<close>: the clock reading is
  a function of the author and time of the message being sent, the random seed one of the new id.
\<close>

section \<open>State\<close>

abbreviation (input) MAX_RECENT :: nat where "MAX_RECENT \<equiv> 10"

record chat =
  chat_uid :: string
  host :: member_id
  current :: tree_clock
  members :: "(member_id, member) btree"
  group_state :: "(string, group_property) btree"
  recent_messages :: "message_envelope list"

record chat_update =
  state :: chat
  new_messages :: "signed_message list"
  media_to_copy :: "file_ref list"
  to_revoke_access :: string_set
  priv_state :: "private_chat_state option"

definition update_new :: "chat \<Rightarrow> signed_message list \<Rightarrow> file_ref list \<Rightarrow> string_set \<Rightarrow> chat_update" where
  "update_new c ms media revoke =
     \<lparr>state = c, new_messages = ms, media_to_copy = media, to_revoke_access = revoke, priv_state = None\<rparr>"

definition update_empty :: "chat \<Rightarrow> chat_update" where
  "update_empty c = update_new c [] [] []"

definition update_is_empty :: "chat_update \<Rightarrow> bool" where
  "update_is_empty u \<longleftrightarrow> new_messages u = [] \<and> media_to_copy u = [] \<and> to_revoke_access u = [] \<and> priv_state u = None"

definition update_apply :: "chat_update \<Rightarrow> chat_update \<Rightarrow> chat_update" where
  "update_apply u nxt =
     \<lparr>state = state nxt, new_messages = new_messages u @ new_messages nxt,
      media_to_copy = media_to_copy u @ media_to_copy nxt,
      to_revoke_access = set_extend (to_revoke_access u) (to_revoke_access nxt),
      priv_state = (case (priv_state u, priv_state nxt) of (Some a, Some b) \<Rightarrow> Some (priv_apply a b) | _ \<Rightarrow> None)\<rparr>"

definition with_state :: "chat_update \<Rightarrow> chat \<Rightarrow> chat_update" where
  "with_state u c = u\<lparr>state := c\<rparr>"

section \<open>Accessors and functional updates\<close>

abbreviation get_member_by_id :: "chat \<Rightarrow> member_id \<Rightarrow> member option" where
  "get_member_by_id c i \<equiv> bt_get cmp_id i (members c)"

definition host_member :: "chat \<Rightarrow> error + member" where
  "host_member c = ok_or Panicked (get_member_by_id c (host c))"

definition get_title :: "chat \<Rightarrow> string" where
  "get_title c = (case bt_get cmp_str ''title'' (group_state c) of Some p \<Rightarrow> gp_value p | None \<Rightarrow> '''')"

definition get_admins :: "chat \<Rightarrow> string_set" where
  "get_admins c =
     (case bt_get cmp_str ADMINS_STATE_KEY (group_state c) of
        None \<Rightarrow> []
      | Some p \<Rightarrow> foldl (\<lambda>t s. set_add s t) [] (split_on CHR '','' (gp_value p)))"

definition get_member :: "chat \<Rightarrow> string \<Rightarrow> member option" where
  "get_member c u =
     (let matching = filter (\<lambda>m. username m = u) (map snd (members c))
      in case List.find (\<lambda>m. \<not> removed m) matching of Some m \<Rightarrow> Some m | None \<Rightarrow> list_get matching 0)"

definition with_time :: "chat \<Rightarrow> tree_clock \<Rightarrow> chat" where
  "with_time c t = c\<lparr>current := t\<rparr>"

definition add_to_recent :: "chat \<Rightarrow> message_envelope \<Rightarrow> chat" where
  "add_to_recent c m =
     c\<lparr>recent_messages := (if length (recent_messages c) \<ge> MAX_RECENT then drop 1 (recent_messages c) else recent_messages c) @ [m]\<rparr>"

definition set_member :: "chat \<Rightarrow> member_id \<Rightarrow> member \<Rightarrow> chat" where
  "set_member c i m = c\<lparr>members := bt_insert cmp_id i m (members c)\<rparr>"

definition increment_host :: "chat \<Rightarrow> member \<Rightarrow> chat" where
  "increment_host c source = set_member c (member_of source) (increment_messages source)"

definition merge_message_timestamp :: "chat \<Rightarrow> tree_clock \<Rightarrow> member \<Rightarrow> error + chat" where
  "merge_message_timestamp c t source =
     and_then (ok_or Panicked (get_member_by_id c (member_of source))) (\<lambda>src.
     and_then (host_member c) (\<lambda>h.
       Inr ((set_member (set_member c (member_of source) (increment_messages src)) (host c) (increment_messages h))
              \<lparr>current := clock_merge (current c) t\<rparr>)))"

section \<open>Applying and merging\<close>

record chat_env =
  env_ed :: ed25519
  env_get :: "cid \<Rightarrow> error + cbor option"
  env_sha :: "bytes \<Rightarrow> bytes"
  env_now :: "member_id \<Rightarrow> tree_clock \<Rightarrow> i64"
  env_seed :: "member_id \<Rightarrow> bytes"

definition generate_chat_identity :: "chat_env \<Rightarrow> member_id \<Rightarrow> error + private_chat_state" where
  "generate_chat_identity V i =
     and_then (skp_random (env_ed V) (env_seed V i)) (\<lambda>kp.
     and_then (psk_hash (skp_public kp)) (\<lambda>h.
       Inr \<lparr>priv_chat_identity = \<lparr>spk_public_key_hash = h, spk_secret = skp_secret kp\<rparr>,
            priv_chat_id_public = skp_public kp, deleted_members = []\<rparr>))"

text \<open>A message that only joins the window of recent ones and the log.\<close>

definition recorded :: "chat \<Rightarrow> signed_message \<Rightarrow> file_ref list \<Rightarrow> chat_update" where
  "recorded c s media = update_new (add_to_recent c (msg s)) [s] media []"

text \<open>
  An invitation.  If it is the removed host that is invited again, the host continues under the new id
  and sends a \<open>Join\<close>; \<open>send\<close> is the recursive call.
\<close>

definition apply_invite ::
  "chat_env \<Rightarrow> (chat \<Rightarrow> message \<Rightarrow> signing_private_key_and_public_hash \<Rightarrow> message_ref list \<Rightarrow> error + chat_update) \<Rightarrow>
   chat \<Rightarrow> signed_message \<Rightarrow> signing_private_key_and_public_hash \<Rightarrow> member \<Rightarrow> string \<Rightarrow> public_key_hash \<Rightarrow> member_id \<Rightarrow>
   error + chat_update" where
  "apply_invite V send c s user_identity author u ident new_member =
     (if get_member_by_id c new_member \<noteq> None then Inl (Protocol ''Id already exists in this chat!'')
      else and_then (id_parent new_member) (\<lambda>parent.
        if parent \<noteq> member_of author then Inl (Protocol ''Invalid invite Id!'')
        else
          let updated = set_member c (member_of author) (increment_invited author)
          in and_then (ok_or (Protocol ''Invite parent missing'') (get_member_by_id c parent)) (\<lambda>pm.
             and_then (host_member c) (\<lambda>h.
               let fresh = member_simple u new_member ident (messages_merged_upto pm) 0;
                   after = update_new (add_to_recent (set_member updated new_member fresh) (msg s)) [s] [] []
               in if username h = u \<and> removed h then
                    and_then (generate_chat_identity V new_member) (\<lambda>new_identity.
                    and_then (proof_build (env_ed V) user_identity (spk_public_key_hash (priv_chat_identity new_identity))) (\<lambda>chat_id.
                    and_then (serialize envelope_to_cbor (msg s)) (\<lambda>bs.
                      let next_state = (with_time (state after) (with_member (current (state after)) new_member))\<lparr>host := new_member\<rparr>
                      in and_then (send next_state
                           (Join (username h) (identity h) chat_id (priv_chat_id_public new_identity)) user_identity
                           [\<lparr>envelope_hash = bare_hash (env_sha V) bs\<rparr>])
                         (\<lambda>sent. Inr (update_apply after sent)))))
                  else Inr after))))"

definition apply_join :: "chat_env \<Rightarrow> chat \<Rightarrow> signed_message \<Rightarrow> member \<Rightarrow> owner_proof \<Rightarrow> error + chat_update" where
  "apply_join V c s author p =
     (if chat_identity author = None then
        if owned_key p \<noteq> identity author then Inl (Protocol ''Identity keys don't match!'')
        else and_then (get_and_verify_owner (env_ed V) (env_get V) p) (\<lambda>_.
          Inr (recorded (set_member c (member_of author) (with_chat_id author p)) s []))
      else Inr (recorded c s []))"

definition property_wins :: "chat \<Rightarrow> message_envelope \<Rightarrow> member \<Rightarrow> string \<Rightarrow> bool" where
  "property_wins c m author key =
     (case bt_get cmp_str key (group_state c) of
        None \<Rightarrow> True
      | Some existing \<Rightarrow>
          (key \<noteq> ADMINS_STATE_KEY \<or> set_has (username author) (get_admins c)) \<and>
          (is_before_or_equal (update_timestamp existing) (timestamp m) \<or>
           is_concurrent_with (update_timestamp existing) (timestamp m) \<and> cmp_id (env_author m) (gp_author existing) = Less))"

definition apply_group_state :: "chat \<Rightarrow> signed_message \<Rightarrow> member \<Rightarrow> string \<Rightarrow> string \<Rightarrow> chat_update" where
  "apply_group_state c s author key val =
     (if property_wins c (msg s) author key then
        recorded (c\<lparr>group_state := bt_insert cmp_str key
          \<lparr>gp_author = env_author (msg s), update_timestamp = timestamp (msg s), gp_value = val\<rparr> (group_state c)\<rparr>) s []
      else recorded c s [])"

definition apply_remove :: "chat \<Rightarrow> signed_message \<Rightarrow> member \<Rightarrow> string \<Rightarrow> member_id \<Rightarrow> error + chat_update" where
  "apply_remove c s author uid target =
     (if uid \<noteq> chat_uid c then Inr (update_empty c)
      else if target = env_author (msg s) \<or> set_has (username author) (get_admins c) then
        and_then (ok_or (Protocol ''member to remove missing'') (get_member_by_id c target)) (\<lambda>m.
        and_then (host_member c) (\<lambda>h.
          Inr (update_new (set_member (add_to_recent c (msg s)) target (set_removed m True)) [s] []
            (if username m = username h then [] else set_add (username m) []))))
      else Inr (recorded c s []))"

definition apply_step ::
  "chat_env \<Rightarrow> (chat \<Rightarrow> message \<Rightarrow> signing_private_key_and_public_hash \<Rightarrow> message_ref list \<Rightarrow> error + chat_update) \<Rightarrow>
   chat \<Rightarrow> signed_message \<Rightarrow> signing_private_key_and_public_hash \<Rightarrow> error + chat_update" where
  "apply_step V send c s user_identity =
     and_then (ok_or (Protocol ''Unknown message author'') (get_member_by_id c (env_author (msg s)))) (\<lambda>author.
       case payload (msg s) of
         Invite u ident new_member \<Rightarrow> apply_invite V send c s user_identity author u ident new_member
       | Join _ _ p _ \<Rightarrow> apply_join V c s author p
       | GroupState key val \<Rightarrow> Inr (apply_group_state c s author key val)
       | Application a \<Rightarrow> Inr (recorded c s (if env_author (msg s) = host c then [] else file_refs a))
       | ReplyTo _ a \<Rightarrow> Inr (recorded c s (file_refs a))
       | RemoveMember uid target \<Rightarrow> apply_remove c s author uid target
       | Edit _ _ \<Rightarrow> Inr (recorded c s [])
       | Delete _ \<Rightarrow> Inr (recorded c s []))"

text \<open>The signer of an author: the owner named by the chat identity, or the identity itself.\<close>

definition author_signer :: "chat_env \<Rightarrow> member \<Rightarrow> error + public_signing_key" where
  "author_signer V author =
     and_then (case chat_identity author of
         Some p \<Rightarrow> get_and_verify_owner (env_ed V) (env_get V) p
       | None \<Rightarrow> Inr (identity author)) (\<lambda>signer_hash.
     and_then (get_signing_key (env_get V) signer_hash)
       (ok_or (Protocol ''Couldn't retrieve public signing key!'')))"

definition merge_message_with ::
  "(chat \<Rightarrow> signed_message \<Rightarrow> signing_private_key_and_public_hash \<Rightarrow> error + chat_update) \<Rightarrow> chat_env \<Rightarrow>
   chat \<Rightarrow> signed_message \<Rightarrow> member \<Rightarrow> signing_private_key_and_public_hash \<Rightarrow> error + chat_update" where
  "merge_message_with app V c s h user_identity =
     and_then (ok_or (Protocol ''Unknown message author'') (get_member_by_id c (env_author (msg s)))) (\<lambda>author.
       if \<not> is_before_or_equal (timestamp (msg s)) (current c) \<and> \<not> removed author then
         and_then (author_signer V author) (\<lambda>signer.
         and_then (serialize envelope_to_cbor (msg s)) (\<lambda>bs.
         and_then (unsign_message (env_ed V) signer (signature s @ bs)) (\<lambda>_.
         and_then (app c s user_identity) (\<lambda>upd.
         and_then (merge_message_timestamp (state upd) (timestamp (msg s)) h) (\<lambda>new_state.
           Inr (with_state upd new_state))))))
       else Inr (update_empty (increment_host c h)))"

definition send_refs_with ::
  "(chat \<Rightarrow> signed_message \<Rightarrow> signing_private_key_and_public_hash \<Rightarrow> error + chat_update) \<Rightarrow> chat_env \<Rightarrow>
   chat \<Rightarrow> message \<Rightarrow> signing_private_key_and_public_hash \<Rightarrow> signing_private_key_and_public_hash \<Rightarrow> message_ref list \<Rightarrow>
   error + chat_update" where
  "send_refs_with app V c b signer user_identity recent_refs =
     (let msg_time = increment (current c) (host c);
          m = \<lparr>env_author = host c, timestamp = msg_time, creation_time_millis = env_now V (host c) msg_time,
               previous_messages = recent_refs, payload = b\<rparr>
      in and_then (serialize envelope_to_cbor m) (\<lambda>bs.
         and_then (signature_only (env_ed V) (spk_secret signer) bs) (\<lambda>sig.
         and_then (host_member c) (\<lambda>h.
           merge_message_with app V c \<lparr>signature = sig, msg = m\<rparr> h user_identity))))"

text \<open>
  Applying a message may send a \<open>Join\<close>, which is merged and applied in turn.  A \<open>Join\<close> sends nothing, so
  fuel 2 is enough.
\<close>

primrec chat_apply ::
  "nat \<Rightarrow> chat_env \<Rightarrow> chat \<Rightarrow> signed_message \<Rightarrow> signing_private_key_and_public_hash \<Rightarrow> error + chat_update" where
  "chat_apply 0 V c s user_identity = Inl FuelExhausted"
| "chat_apply (Suc fuel) V c s user_identity =
     apply_step V (\<lambda>c' b signer refs. send_refs_with (chat_apply fuel V) V c' b signer user_identity refs) c s user_identity"

definition apply_message :: "chat_env \<Rightarrow> chat \<Rightarrow> signed_message \<Rightarrow> signing_private_key_and_public_hash \<Rightarrow> error + chat_update" where
  "apply_message V = chat_apply 2 V"

definition merge_message ::
  "chat_env \<Rightarrow> chat \<Rightarrow> signed_message \<Rightarrow> member \<Rightarrow> signing_private_key_and_public_hash \<Rightarrow> error + chat_update" where
  "merge_message V = merge_message_with (apply_message V) V"

definition send_message_refs ::
  "chat_env \<Rightarrow> chat \<Rightarrow> message \<Rightarrow> signing_private_key_and_public_hash \<Rightarrow> signing_private_key_and_public_hash \<Rightarrow>
   message_ref list \<Rightarrow> error + chat_update" where
  "send_message_refs V = send_refs_with (apply_message V) V"

section \<open>Operations\<close>

text \<open>The message store is given by its \<open>get_messages\<close> and \<open>get_messages_from\<close>.\<close>

definition send_message ::
  "chat_env \<Rightarrow> (i64 \<Rightarrow> i64 \<Rightarrow> error + signed_message list) \<Rightarrow> chat \<Rightarrow> message \<Rightarrow>
   signing_private_key_and_public_hash \<Rightarrow> signing_private_key_and_public_hash \<Rightarrow> error + chat_update" where
  "send_message V store_get c b signer user_identity =
     and_then (host_member c) (\<lambda>h.
       let upto = messages_merged_upto h
       in and_then (if 0 <s upto then store_get (upto - 1) upto else Inr []) (\<lambda>recent.
          and_then (collect_results (\<lambda>s. and_then (serialize envelope_to_cbor (msg s))
              (\<lambda>bs. Inr \<lparr>envelope_hash = bare_hash (env_sha V) bs\<rparr>)) recent) (\<lambda>refs.
            send_message_refs V c b signer user_identity refs)))"

fun merge_loop ::
  "chat_env \<Rightarrow> member_id \<Rightarrow> signing_private_key_and_public_hash \<Rightarrow> chat_update \<Rightarrow> signed_message list \<Rightarrow> error + chat_update" where
  "merge_loop V mirror user_identity upd [] = Inr upd"
| "merge_loop V mirror user_identity upd (m # ms) =
     and_then (ok_or (Protocol ''mirror host not a member'') (get_member_by_id (state upd) mirror)) (\<lambda>host_now.
     and_then (merge_message V (state upd) m host_now user_identity) (\<lambda>step.
       merge_loop V mirror user_identity (update_apply upd step) ms))"

definition chat_merge ::
  "chat_env \<Rightarrow> (i64 \<Rightarrow> error + signed_message list) \<Rightarrow> chat \<Rightarrow> member_id \<Rightarrow> signing_private_key_and_public_hash \<Rightarrow>
   error + chat_update" where
  "chat_merge V store_from c mirror user_identity =
     and_then (ok_or (Protocol ''mirror host not a member'') (get_member_by_id c mirror)) (\<lambda>h.
     and_then (store_from (messages_merged_upto h)) (merge_loop V mirror user_identity (update_empty c)))"

definition chat_join ::
  "chat_env \<Rightarrow> (i64 \<Rightarrow> i64 \<Rightarrow> error + signed_message list) \<Rightarrow> chat \<Rightarrow> member \<Rightarrow> owner_proof \<Rightarrow> public_signing_key \<Rightarrow>
   signing_private_key_and_public_hash \<Rightarrow> error + chat_update" where
  "chat_join V store_get c h chat_id chat_id_pub ident =
     send_message V store_get (with_time c (with_member (current c) (member_of h)))
       (Join (username h) (identity h) chat_id chat_id_pub) ident ident"

definition chat_copy :: "chat \<Rightarrow> member \<Rightarrow> error + chat" where
  "chat_copy c h =
     (if get_member_by_id c (member_of h) = None
      then Inl (Protocol ''Only an invited member can mirror a conversation!'')
      else Inr ((set_member c (member_of h) h)\<lparr>host := member_of h\<rparr>))"

text \<open>The state of a view that a member starts from another's: the member's record is built afresh.\<close>

definition clone_view :: "chat \<Rightarrow> string \<Rightarrow> public_key_hash \<Rightarrow> error + chat" where
  "clone_view mirror u ident =
     and_then (ok_or (Protocol ''we are not a member of this chat'') (get_member mirror u)) (\<lambda>us.
     and_then (host_member mirror) (\<lambda>h.
       chat_copy mirror (member_simple u (member_of us) ident (messages_merged_upto h) 0)))"

fun invite_loop ::
  "chat_env \<Rightarrow> (i64 \<Rightarrow> i64 \<Rightarrow> error + signed_message list) \<Rightarrow> signing_private_key_and_public_hash \<Rightarrow>
   signing_private_key_and_public_hash \<Rightarrow> chat_update \<Rightarrow> string list \<Rightarrow> public_key_hash list \<Rightarrow> error + chat_update" where
  "invite_loop V store_get chat_ident user_identity upd [] ids = Inr upd"
| "invite_loop V store_get chat_ident user_identity upd (u # us) [] = Inl Panicked"
| "invite_loop V store_get chat_ident user_identity upd (u # us) (i # ids) =
     and_then (host_member (state upd)) (\<lambda>h.
       let new_member = id_fork (host (state upd)) (members_invited h)
       in and_then (send_message V store_get (with_time (state upd) (with_member (current (state upd)) new_member))
            (Invite u i new_member) chat_ident user_identity) (\<lambda>sent.
          invite_loop V store_get chat_ident user_identity (update_apply upd sent) us ids))"

definition invite_members ::
  "chat_env \<Rightarrow> (i64 \<Rightarrow> i64 \<Rightarrow> error + signed_message list) \<Rightarrow> chat \<Rightarrow> string list \<Rightarrow> public_key_hash list \<Rightarrow>
   signing_private_key_and_public_hash \<Rightarrow> signing_private_key_and_public_hash \<Rightarrow> error + chat_update" where
  "invite_members V store_get c usernames identities chat_ident user_identity =
     invite_loop V store_get chat_ident user_identity (update_empty c) usernames identities"

definition invite_member ::
  "chat_env \<Rightarrow> (i64 \<Rightarrow> i64 \<Rightarrow> error + signed_message list) \<Rightarrow> chat \<Rightarrow> string \<Rightarrow> public_key_hash \<Rightarrow>
   signing_private_key_and_public_hash \<Rightarrow> signing_private_key_and_public_hash \<Rightarrow> error + chat_update" where
  "invite_member V store_get c u i chat_ident user_identity = invite_members V store_get c [u] [i] chat_ident user_identity"

definition create_new :: "string \<Rightarrow> string \<Rightarrow> public_key_hash \<Rightarrow> chat" where
  "create_new uid u ident =
     \<lparr>chat_uid = uid, host = id_creator, current = clock_init [id_creator],
      members = bt_insert cmp_id id_creator (member_simple u id_creator ident 0 0) [], group_state = [], recent_messages = []\<rparr>"

text \<open>The loop of \<open>create_new_group\<close> from index \<open>n\<close> on.\<close>

fun group_members ::
  "nat \<Rightarrow> string list \<Rightarrow> public_key_hash list \<Rightarrow> member_id list \<times> (member_id, member) btree \<Rightarrow>
   error + member_id list \<times> (member_id, member) btree" where
  "group_members n [] ids acc = Inr acc"
| "group_members n (u # us) [] acc = Inl Panicked"
| "group_members n (u # us) (p # ids) (initial, ms) =
     (let i = id_single (of_nat n)
      in group_members (n + 1) us ids (initial @ [i], bt_insert cmp_id i (member_simple u i p 0 0) ms))"

definition create_new_group :: "string \<Rightarrow> string list \<Rightarrow> public_key_hash list \<Rightarrow> error + chat list" where
  "create_new_group uid usernames identities =
     and_then (group_members 0 usernames identities ([], [])) (\<lambda>(initial, ms).
       Inr (map (\<lambda>i. \<lparr>chat_uid = uid, host = i, current = clock_init initial, members = ms, group_state = [],
         recent_messages = []\<rparr>) initial))"

section \<open>CBOR\<close>

fun member_pairs :: "cbor list \<Rightarrow> error + (member_id \<times> member) list" where
  "member_pairs (i # m # xs) =
     and_then (id_from_cbor i) (\<lambda>i'. and_then (member_from_cbor m) (\<lambda>m'. and_then (member_pairs xs) (\<lambda>r. Inr ((i', m') # r))))"
| "member_pairs _ = Inr []"

definition chat_from_cbor :: "cbor \<Rightarrow> error + chat" where
  "chat_from_cbor c =
     and_then (ok_or (CborMsg ''Incorrect cbor for Chat'') (as_map c)) (\<lambda>_.
     let get = field ''Chat missing field'' c in
     and_then (and_then (get ''i'') (\<lambda>v. ok_or (CborMsg ''Chat 'i' not a string'') (as_string v))) (\<lambda>uid.
     and_then (and_then (get ''h'') id_from_cbor) (\<lambda>h.
     and_then (and_then (get ''c'') clock_from_cbor) (\<lambda>cur.
     and_then (and_then (get ''m'') (\<lambda>v. ok_or (CborMsg ''Chat 'm' not a list'') (as_list v))) (\<lambda>ml.
     if odd (length ml) then Inl (CborMsg ''Chat members list has odd length'') else
     and_then (member_pairs ml) (\<lambda>ms.
     and_then (get ''g'') (\<lambda>g.
     and_then (collect_results (\<lambda>(k, v). and_then (gp_from_cbor v) (\<lambda>p. Inr (k, p))) (case as_map g of Some gm \<Rightarrow> gm | None \<Rightarrow> [])) (\<lambda>gs.
     and_then (and_then (get ''r'') (\<lambda>v. ok_or (CborMsg ''Chat 'r' not a list'') (as_list v))) (\<lambda>rl.
     and_then (collect_results envelope_from_cbor rl) (\<lambda>recent.
       Inr \<lparr>chat_uid = uid, host = h, current = cur,
            members = foldl (\<lambda>t (i, m). bt_insert cmp_id i m t) [] ms,
            group_state = foldl (\<lambda>t (k, p). bt_insert cmp_str k p t) [] gs, recent_messages = recent\<rparr>))))))))))"

definition chat_to_cbor :: "chat \<Rightarrow> error + cbor" where
  "chat_to_cbor c =
     and_then (collect_results (\<lambda>(i, m). and_then (id_to_cbor i) (\<lambda>i'. and_then (member_to_cbor m) (\<lambda>m'. Inr [i', m']))) (members c)) (\<lambda>ml.
     and_then (collect_results (\<lambda>(k, p). and_then (gp_to_cbor p) (\<lambda>v. Inr (k, v))) (group_state c)) (\<lambda>gs.
     and_then (id_to_cbor (host c)) (\<lambda>h.
     and_then (clock_to_cbor (current c)) (\<lambda>cur.
     and_then (collect_results envelope_to_cbor (recent_messages c)) (\<lambda>rl.
       Inr (build (put ''r'' (CList rl) (put ''g'' (CMap (foldl (\<lambda>t (k, v). bt_insert cmp_cbor_string k v t) [] gs))
         (put ''m'' (CList (concat ml)) (put ''c'' cur (put ''h'' h (put ''i'' (CStr (chat_uid c))
         (put ''v'' (CLong 0) map_builder)))))))))))))"

end
