(* ===== verification/Chat_Inv.thy ===== *)
theory Chat_Inv
  imports Chat
begin

text \<open>
  The invariant of a chat and how its membership may grow.  Every operation is shown to keep the invariant
  and to extend the membership: nobody's user name or identity changes, nobody disappears or comes back
  from removal, and a chat identity once joined stays.
\<close>

section \<open>Invariant\<close>

text \<open>A member is stored under its id, and a chat identity it has joined with is vouched for by its identity key.\<close>

definition sound_member :: "member_id \<Rightarrow> member \<Rightarrow> bool" where
  "sound_member i m \<longleftrightarrow> member_of m = i \<and> (\<forall>p. chat_identity m = Some p \<longrightarrow> owned_key p = identity m)"

definition wf_members :: "(member_id, member) btree \<Rightarrow> bool" where
  "wf_members ms \<longleftrightarrow> bt_sorted cmp_id ms \<and> (\<forall>i m. map_of ms i = Some m \<longrightarrow> sound_member i m)"

definition wf_chat :: "chat \<Rightarrow> bool" where
  "wf_chat c \<longleftrightarrow> wf_members (members c) \<and> map_of (members c) (host c) \<noteq> None \<and> wf_clock (current c) \<and>
     bt_sorted cmp_str (group_state c) \<and> (\<forall>k p. map_of (group_state c) k = Some p \<longrightarrow> wf_clock (update_timestamp p)) \<and>
     length (recent_messages c) \<le> MAX_RECENT"

definition member_grows :: "member \<Rightarrow> member \<Rightarrow> bool" where
  "member_grows m m' \<longleftrightarrow> username m' = username m \<and> identity m' = identity m \<and> (removed m \<longrightarrow> removed m') \<and>
     (chat_identity m \<noteq> None \<longrightarrow> chat_identity m' = chat_identity m)"

definition members_grow :: "(member_id, member) btree \<Rightarrow> (member_id, member) btree \<Rightarrow> bool" where
  "members_grow ms ms' \<longleftrightarrow> (\<forall>i m. map_of ms i = Some m \<longrightarrow> (\<exists>m'. map_of ms' i = Some m' \<and> member_grows m m'))"

definition extends :: "chat \<Rightarrow> chat \<Rightarrow> bool" where
  "extends c c' \<longleftrightarrow> chat_uid c' = chat_uid c \<and> members_grow (members c) (members c')"

lemma member_grows_refl [simp]: "member_grows m m"
  by (simp add: member_grows_def)

lemma extends_refl [simp]: "extends c c"
  by (simp add: extends_def members_grow_def)

lemma member_grows_trans: "member_grows a b \<Longrightarrow> member_grows b d \<Longrightarrow> member_grows a d"
  by (auto simp: member_grows_def)

lemma extends_trans: "extends a b \<Longrightarrow> extends b d \<Longrightarrow> extends a d"
  unfolding extends_def members_grow_def by (metis member_grows_trans)

lemma wf_chatD:
  assumes "wf_chat c"
  shows "wf_members (members c)" "map_of (members c) (host c) \<noteq> None" "wf_clock (current c)"
    "bt_sorted cmp_str (group_state c)" "bt_sorted cmp_id (members c)"
    "map_of (members c) i = Some m \<Longrightarrow> member_of m = i" "map_of (members c) i = Some m \<Longrightarrow> sound_member i m"
  using assms by (auto simp: wf_chat_def wf_members_def sound_member_def)

section \<open>Updates of the state\<close>

lemma set_member_fields [simp]:
  "host (set_member c i m) = host c" "current (set_member c i m) = current c" "chat_uid (set_member c i m) = chat_uid c"
  "group_state (set_member c i m) = group_state c" "recent_messages (set_member c i m) = recent_messages c"
  by (simp_all add: set_member_def)

lemma map_of_set_member: "wf_chat c \<Longrightarrow> map_of (members (set_member c i m)) = (map_of (members c))(i \<mapsto> m)"
  by (simp add: set_member_def map_of_id_insert wf_chatD(5))

lemma wf_set_member: "wf_chat c \<Longrightarrow> sound_member i m \<Longrightarrow> wf_chat (set_member c i m)"
  unfolding wf_chat_def [of "set_member c i m"] wf_members_def
  by (auto simp: map_of_set_member) (auto simp: set_member_def wf_chat_def wf_members_def sorted_id_insert)

lemma extends_set_member:
  assumes "wf_chat c" "\<And>m0. map_of (members c) i = Some m0 \<Longrightarrow> member_grows m0 m"
  shows "extends c (set_member c i m)"
  using assms by (auto simp: extends_def members_grow_def map_of_set_member)

lemma add_to_recent_fields [simp]:
  "host (add_to_recent c e) = host c" "current (add_to_recent c e) = current c" "chat_uid (add_to_recent c e) = chat_uid c"
  "group_state (add_to_recent c e) = group_state c" "members (add_to_recent c e) = members c"
  by (simp_all add: add_to_recent_def)

lemma wf_add_to_recent [simp]: "wf_chat c \<Longrightarrow> wf_chat (add_to_recent c e)"
  by (auto simp: wf_chat_def add_to_recent_def)

lemma with_time_fields [simp]:
  "host (with_time c t) = host c" "current (with_time c t) = t" "chat_uid (with_time c t) = chat_uid c"
  "group_state (with_time c t) = group_state c" "members (with_time c t) = members c"
  "recent_messages (with_time c t) = recent_messages c"
  by (simp_all add: with_time_def)

lemma wf_with_time: "wf_chat c \<Longrightarrow> wf_clock t \<Longrightarrow> wf_chat (with_time c t)"
  by (simp add: wf_chat_def)

lemma wf_set_host: "wf_chat c \<Longrightarrow> map_of (members c) h \<noteq> None \<Longrightarrow> wf_chat (c\<lparr>host := h\<rparr>)"
  by (simp add: wf_chat_def)

lemma wf_set_group_state:
  assumes "wf_chat c" "wf_clock (update_timestamp p)"
  shows "wf_chat (c\<lparr>group_state := bt_insert cmp_str k p (group_state c)\<rparr>)"
  using assms by (auto simp: wf_chat_def sorted_str_insert map_of_str_insert)

lemma extends_same_members: "chat_uid c' = chat_uid c \<Longrightarrow> members c' = members c \<Longrightarrow> extends c c'"
  by (simp add: extends_def members_grow_def)

lemma wf_host_member: "wf_chat c \<Longrightarrow> \<exists>h. host_member c = Inr h \<and> map_of (members c) (host c) = Some h"
  by (auto simp: host_member_def wf_chat_def)

lemma grows_simps [simp]:
  "member_grows m (increment_messages m)" "member_grows m (increment_invited m)" "member_grows m (set_removed m True)"
  "chat_identity m = None \<Longrightarrow> member_grows m (with_chat_id m p)"
  "member_of (increment_messages m) = member_of m" "member_of (increment_invited m) = member_of m"
  "member_of (set_removed m b) = member_of m" "member_of (with_chat_id m p) = member_of m"
  "member_of (member_simple u i q n k) = i"
  by (simp_all add: member_grows_def increment_messages_def increment_invited_def set_removed_def with_chat_id_def member_simple_def)

lemma sound_simps [simp]:
  "sound_member i m \<Longrightarrow> sound_member i (increment_messages m)" "sound_member i m \<Longrightarrow> sound_member i (increment_invited m)"
  "sound_member i m \<Longrightarrow> sound_member i (set_removed m b)" "sound_member i (member_simple u i q n k)"
  "sound_member i m \<Longrightarrow> owned_key p = identity m \<Longrightarrow> sound_member i (with_chat_id m p)"
  by (simp_all add: sound_member_def increment_messages_def increment_invited_def set_removed_def with_chat_id_def member_simple_def)

lemma update_simps [simp]:
  "state (update_new c ms md rv) = c" "new_messages (update_new c ms md rv) = ms" "state (update_empty c) = c"
  "new_messages (update_empty c) = []" "state (update_apply u v) = state v"
  "new_messages (update_apply u v) = new_messages u @ new_messages v" "state (with_state u c) = c"
  "new_messages (with_state u c) = new_messages u"
  by (simp_all add: update_new_def update_empty_def update_apply_def with_state_def)

lemma recorded_simps [simp]: "state (recorded c s md) = add_to_recent c (msg s)" "new_messages (recorded c s md) = [s]"
  by (simp_all add: recorded_def)

section \<open>Steps that keep the invariant\<close>

definition keeps :: "chat \<Rightarrow> error + chat_update \<Rightarrow> bool" where
  "keeps c r \<longleftrightarrow> (\<forall>u. r = Inr u \<longrightarrow> wf_chat (state u) \<and> extends c (state u))"

lemma keepsI: "(\<And>u. r = Inr u \<Longrightarrow> wf_chat (state u) \<and> extends c (state u)) \<Longrightarrow> keeps c r"
  by (simp add: keeps_def)

lemma keepsD: "keeps c r \<Longrightarrow> r = Inr u \<Longrightarrow> wf_chat (state u) \<and> extends c (state u)"
  by (simp add: keeps_def)

lemma keeps_Inl [simp]: "keeps c (Inl e)"
  by (simp add: keeps_def)

lemma keeps_Inr [simp]: "keeps c (Inr u) \<longleftrightarrow> wf_chat (state u) \<and> extends c (state u)"
  by (simp add: keeps_def)

lemma keeps_and_then: "(\<And>a. x = Inr a \<Longrightarrow> keeps c (f a)) \<Longrightarrow> keeps c (and_then x f)"
  by (cases x) simp_all

lemma keeps_recorded:
  assumes "wf_chat c'" "extends c c'"
  shows "keeps c (Inr (recorded c' s md))"
  using assms extends_trans [OF assms(2) extends_same_members] by simp

lemma timestamp_merged:
  assumes "wf_chat c" "wf_clock t" "merge_message_timestamp c t source = Inr c'"
  shows "wf_chat c' \<and> extends c c' \<and> current c' = clock_merge (current c) t \<and> group_state c' = group_state c \<and>
    recent_messages c' = recent_messages c \<and> host c' = host c"
proof -
  obtain src h where src: "map_of (members c) (member_of source) = Some src" "map_of (members c) (host c) = Some h"
    and c': "c' = (set_member (set_member c (member_of source) (increment_messages src)) (host c) (increment_messages h))
              \<lparr>current := clock_merge (current c) t\<rparr>" (is "_ = ?d\<lparr>current := _\<rparr>")
    using assms(3) by (auto simp: merge_message_timestamp_def host_member_def and_then_Inr_iff ok_or_Inr_iff)
  have ids: "sound_member (member_of source) src" "sound_member (host c) h" using wf_chatD(7) [OF assms(1)] src by auto
  let ?e = "set_member c (member_of source) (increment_messages src)"
  have e: "wf_chat ?e" "extends c ?e"
    using assms(1) ids src by (auto intro: wf_set_member extends_set_member)
  have d: "wf_chat ?d" "extends ?e ?d"
    using e(1) ids src
    by (auto intro!: wf_set_member extends_set_member simp: map_of_set_member [OF assms(1)] split: if_splits)
  have "wf_chat c'"
    using d(1) merge_counters(1) [OF _ assms(2), of "current c"] wf_chatD(3) [OF assms(1)] by (simp add: c' wf_chat_def)
  moreover have "extends c c'"
    using extends_trans [OF e(2) extends_trans [OF d(2) extends_same_members]] by (simp add: c')
  ultimately show ?thesis by (simp add: c')
qed

lemma keeps_apply_join:
  assumes "wf_chat c" "map_of (members c) i = Some author"
  shows "keeps c (apply_join V c s author p)"
proof -
  have "extends c (set_member c (member_of author) (with_chat_id author p))" if "chat_identity author = None"
    using assms wf_chatD(6) [OF assms] that by (intro extends_set_member) auto
  then show ?thesis
    using assms wf_chatD(6,7) [OF assms]
    by (auto simp: apply_join_def simp del: keeps_Inr intro!: keeps_and_then keeps_recorded wf_set_member)
qed

lemma keeps_apply_group_state:
  assumes "wf_chat c" "wf_clock (timestamp (msg s))"
  shows "keeps c (Inr (apply_group_state c s author key val))"
proof (cases "property_wins c (msg s) author key")
  case True
  let ?p = "\<lparr>gp_author = env_author (msg s), update_timestamp = timestamp (msg s), gp_value = val\<rparr>"
  have "wf_chat (c\<lparr>group_state := bt_insert cmp_str key ?p (group_state c)\<rparr>)"
    using assms by (intro wf_set_group_state) simp_all
  then have "keeps c (Inr (recorded (c\<lparr>group_state := bt_insert cmp_str key ?p (group_state c)\<rparr>) s []))"
    by (rule keeps_recorded) (simp add: extends_same_members)
  with True show ?thesis by (simp add: apply_group_state_def)
next
  case False
  with assms keeps_recorded [of c c] show ?thesis by (simp add: apply_group_state_def)
qed

lemma keeps_apply_remove:
  assumes "wf_chat c"
  shows "keeps c (apply_remove c s author uid target)"
proof -
  have "keeps c (Inr (update_new (set_member (add_to_recent c (msg s)) target (set_removed m True)) [s] [] rv))"
    if "map_of (members c) target = Some m" for m rv
  proof -
    have m: "sound_member target m" using wf_chatD(7) [OF assms that] .
    have "wf_chat (set_member (add_to_recent c (msg s)) target (set_removed m True))"
      using assms m by (intro wf_set_member) simp_all
    moreover have "extends (add_to_recent c (msg s)) (set_member (add_to_recent c (msg s)) target (set_removed m True))"
      using assms that by (intro extends_set_member) simp_all
    then have "extends c (set_member (add_to_recent c (msg s)) target (set_removed m True))"
      using extends_trans [OF extends_same_members [of "add_to_recent c (msg s)" c]] by simp
    ultimately show ?thesis by simp
  qed
  then show ?thesis
    using keeps_recorded [OF assms extends_refl] keeps_Inr [of c "update_empty c"] assms
    by (auto simp: apply_remove_def ok_or_Inr_iff simp del: keeps_Inr intro!: keeps_and_then)
qed

text \<open>An invitation adds the invited member; the recursive call starts from a state with the new host.\<close>

definition invited :: "chat \<Rightarrow> signed_message \<Rightarrow> member \<Rightarrow> member \<Rightarrow> chat" where
  "invited c s author fresh =
     add_to_recent (set_member (set_member c (member_of author) (increment_invited author)) (member_of fresh) fresh) (msg s)"

lemma invited_wf:
  assumes "wf_chat c" "map_of (members c) i = Some author" "map_of (members c) (member_of fresh) = None"
    "sound_member (member_of fresh) fresh"
  shows "wf_chat (invited c s author fresh)" "extends c (invited c s author fresh)"
    "map_of (members (invited c s author fresh)) =
       (map_of (members c))(i \<mapsto> increment_invited author, member_of fresh \<mapsto> fresh)"
proof -
  have i: "member_of author = i" using wf_chatD(6) [OF assms(1,2)] .
  let ?d = "set_member c i (increment_invited author)"
  have d: "wf_chat ?d" "extends c ?d"
    using assms i wf_chatD(7) [OF assms(1,2)] by (auto intro!: wf_set_member extends_set_member)
  have "member_of fresh \<noteq> i" using assms by auto
  then have e: "wf_chat (set_member ?d (member_of fresh) fresh)" "extends ?d (set_member ?d (member_of fresh) fresh)"
    using d(1) assms(3,4) by (auto intro!: wf_set_member extends_set_member simp: map_of_set_member [OF assms(1)])
  then show "wf_chat (invited c s author fresh)" by (simp add: invited_def i)
  show "extends c (invited c s author fresh)"
    using extends_trans [OF d(2) extends_trans [OF e(2) extends_same_members]] by (simp add: invited_def i)
  show "map_of (members (invited c s author fresh)) =
       (map_of (members c))(i \<mapsto> increment_invited author, member_of fresh \<mapsto> fresh)"
    by (simp add: invited_def i map_of_set_member [OF d(1)] map_of_set_member [OF assms(1)])
qed

definition rehosted :: "chat \<Rightarrow> member_id \<Rightarrow> chat" where
  "rehosted c i = (with_time c (with_member (current c) i))\<lparr>host := i\<rparr>"

lemma apply_invite_cases:
  assumes "apply_invite V send c s ui author u ident nm = Inr upd"
  obtains fresh where "map_of (members c) nm = None" "member_of fresh = nm" "sound_member nm fresh" "removed fresh = False"
    "upd = update_new (invited c s author fresh) [s] [] []"
  | fresh b refs sent where "map_of (members c) nm = None" "member_of fresh = nm" "sound_member nm fresh" "removed fresh = False"
    "\<exists>x y z w. b = Join x y z w" "send (rehosted (invited c s author fresh) nm) b ui refs = Inr sent"
    "upd = update_apply (update_new (invited c s author fresh) [s] [] []) sent"
proof -
  have new: "map_of (members c) nm = None"
    and "(\<exists>pm. upd = update_new (invited c s author (member_simple u nm ident pm 0)) [s] [] []) \<or>
      (\<exists>pm x y z w refs sent. send (rehosted (invited c s author (member_simple u nm ident pm 0)) nm) (Join x y z w) ui refs = Inr sent \<and>
        upd = update_apply (update_new (invited c s author (member_simple u nm ident pm 0)) [s] [] []) sent)"
    using assms
    by (auto simp: apply_invite_def and_then_Inr_iff Let_def invited_def rehosted_def split: if_splits, blast+)
  moreover have "member_of (member_simple u nm ident pm 0) = nm" "sound_member nm (member_simple u nm ident pm 0)"
    "removed (member_simple u nm ident pm 0) = False" for pm by (simp_all add: member_simple_def sound_member_def)
  ultimately show thesis using that by blast
qed

lemma keeps_apply_invite:
  assumes "wf_chat c" "map_of (members c) i = Some author" "\<And>c' b refs. wf_chat c' \<Longrightarrow> keeps c' (send c' b ui refs)"
  shows "keeps c (apply_invite V send c s ui author u ident nm)"
proof (rule keepsI)
  fix upd
  assume "apply_invite V send c s ui author u ident nm = Inr upd"
  then show "wf_chat (state upd) \<and> extends c (state upd)"
  proof (cases rule: apply_invite_cases)
    case (1 fresh)
    then show ?thesis using invited_wf [OF assms(1,2), of fresh s] by simp
  next
    case (2 fresh b refs sent)
    let ?d = "invited c s author fresh"
    have d: "wf_chat ?d" "extends c ?d" "map_of (members ?d) nm = Some fresh"
      using invited_wf [OF assms(1,2), of fresh s] 2(1-3) by simp_all
    have "wf_chat (rehosted ?d nm)"
      unfolding rehosted_def using d wf_chatD(3) [OF d(1)] with_member_counters(1) by (intro wf_set_host wf_with_time) simp_all
    then have "wf_chat (state sent) \<and> extends (rehosted ?d nm) (state sent)"
      using assms(3) 2(6) keepsD by blast
    moreover have "extends ?d (rehosted ?d nm)" by (rule extends_same_members) (simp_all add: rehosted_def)
    ultimately show ?thesis using d(2) extends_trans 2(7) by (metis update_simps(5))
  qed
qed

lemma keeps_apply_step:
  assumes "wf_chat c" "wf_clock (timestamp (msg s))" "\<And>c' b refs. wf_chat c' \<Longrightarrow> keeps c' (send c' b ui refs)"
  shows "keeps c (apply_step V send c s ui)"
proof -
  have "keeps c (case payload (msg s) of
         Invite u ident new_member \<Rightarrow> apply_invite V send c s ui author u ident new_member
       | Join _ _ p _ \<Rightarrow> apply_join V c s author p
       | GroupState key val \<Rightarrow> Inr (apply_group_state c s author key val)
       | Application a \<Rightarrow> Inr (recorded c s (if env_author (msg s) = host c then [] else file_refs a))
       | ReplyTo _ a \<Rightarrow> Inr (recorded c s (file_refs a))
       | RemoveMember uid target \<Rightarrow> apply_remove c s author uid target
       | Edit _ _ \<Rightarrow> Inr (recorded c s [])
       | Delete _ \<Rightarrow> Inr (recorded c s []))" if "map_of (members c) (env_author (msg s)) = Some author" for author
    using assms that keeps_recorded [OF assms(1) extends_refl] keeps_apply_join keeps_apply_group_state keeps_apply_remove
      keeps_apply_invite [where send = send and ui = ui, OF assms(1) that assms(3)]
    by (cases "payload (msg s)") (simp_all only: message.case)
  then show ?thesis unfolding apply_step_def by (intro keeps_and_then) (simp only: ok_or_Inr_iff bt_get_id)
qed

lemma keeps_merge_with:
  assumes "wf_chat c" "wf_clock (timestamp (msg s))" "map_of (members c) (member_of h) = Some h" "keeps c (app c s ui)"
  shows "keeps c (merge_message_with app V c s h ui)"
proof -
  have "keeps c (Inr (with_state upd d))"
    if "app c s ui = Inr upd" "merge_message_timestamp (state upd) (timestamp (msg s)) h = Inr d" for upd d
    using keepsD [OF assms(4) that(1)] timestamp_merged [OF _ assms(2) that(2)] extends_trans by auto
  moreover have "wf_chat (increment_host c h)" "extends c (increment_host c h)"
    using assms(1,3) wf_chatD(7) [OF assms(1,3)] unfolding increment_host_def by (auto intro!: wf_set_member extends_set_member)
  ultimately show ?thesis
    unfolding merge_message_with_def by (intro keeps_and_then) (auto simp del: keeps_Inr intro!: keeps_and_then simp: keeps_Inr [of c "update_empty _"])
qed

lemma keeps_send_refs:
  assumes "wf_chat c" "\<And>s. wf_clock (timestamp (msg s)) \<Longrightarrow> keeps c (app c s ui)"
  shows "keeps c (send_refs_with app V c b signer ui refs)"
proof -
  obtain h where h: "host_member c = Inr h" "map_of (members c) (host c) = Some h" using wf_host_member [OF assms(1)] by blast
  have "map_of (members c) (member_of h) = Some h" using h(2) wf_chatD(6) [OF assms(1) h(2)] by simp
  moreover have "wf_clock (increment (current c) (host c))" using increment_counters(1) [OF wf_chatD(3) [OF assms(1)]] .
  ultimately have "keeps c (merge_message_with app V c
      \<lparr>signature = sig, msg = \<lparr>env_author = host c, timestamp = increment (current c) (host c), creation_time_millis = t,
        previous_messages = refs, payload = b\<rparr>\<rparr> h ui)" for sig t
    using assms by (intro keeps_merge_with) simp_all
  then show ?thesis unfolding send_refs_with_def Let_def h(1) by (intro keeps_and_then) simp
qed

lemma keeps_chat_apply: "wf_chat c \<Longrightarrow> wf_clock (timestamp (msg s)) \<Longrightarrow> keeps c (chat_apply n V c s ui)"
proof (induction n arbitrary: c s)
  case (Suc n)
  then show ?case by (simp only: chat_apply.simps) (intro keeps_apply_step keeps_send_refs)
qed simp

section \<open>Every operation keeps the invariant\<close>

lemma keeps_merge_message:
  "wf_chat c \<Longrightarrow> wf_clock (timestamp (msg s)) \<Longrightarrow> map_of (members c) (member_of h) = Some h \<Longrightarrow>
   keeps c (merge_message V c s h ui)"
  unfolding merge_message_def apply_message_def by (intro keeps_merge_with keeps_chat_apply)

lemma keeps_send_message: "wf_chat c \<Longrightarrow> keeps c (send_message V store_get c b signer ui)"
  unfolding send_message_def send_message_refs_def apply_message_def Let_def
  by (intro keeps_and_then keeps_send_refs keeps_chat_apply)

lemma keeps_merge_loop:
  assumes "wf_chat c" "wf_chat (state upd)" "extends c (state upd)" "\<forall>m \<in> set ms. wf_clock (timestamp (msg m))"
  shows "keeps c (merge_loop V mirror ui upd ms)"
  using assms
proof (induction ms arbitrary: upd)
  case (Cons m ms)
  have "keeps c (merge_loop V mirror ui (update_apply upd st) ms)"
    if "map_of (members (state upd)) mirror = Some h" "merge_message V (state upd) m h ui = Inr st" for h st
  proof -
    have "member_of h = mirror" using wf_chatD(6) [OF Cons.prems(2) that(1)] .
    then have "wf_chat (state st) \<and> extends (state upd) (state st)"
      using keepsD [OF keeps_merge_message that(2)] Cons.prems that(1) by simp
    then show ?thesis using Cons.prems extends_trans by (intro Cons.IH) auto
  qed
  then show ?case unfolding merge_loop.simps by (intro keeps_and_then) (simp only: ok_or_Inr_iff bt_get_id)
qed simp

lemma keeps_chat_merge:
  assumes "wf_chat c" "\<And>i ms. store_from i = Inr ms \<Longrightarrow> \<forall>m \<in> set ms. wf_clock (timestamp (msg m))"
  shows "keeps c (chat_merge V store_from c mirror ui)"
  unfolding chat_merge_def using assms by (intro keeps_and_then keeps_merge_loop) simp_all

lemma keeps_with_time:
  assumes "wf_chat c" "keeps (with_time c t) r"
  shows "keeps c r"
  using assms extends_trans [OF extends_same_members [of "with_time c t" c]] unfolding keeps_def by simp

lemma keeps_chat_join: "wf_chat c \<Longrightarrow> keeps c (chat_join V store_get c h chat_id pub ident)"
  unfolding chat_join_def
  by (rule keeps_with_time [where t = "with_member (current c) (member_of h)"])
     (simp_all add: keeps_send_message wf_with_time with_member_counters(1) wf_chatD(3))

lemma keeps_invite_loop:
  assumes "wf_chat c" "wf_chat (state upd)" "extends c (state upd)"
  shows "keeps c (invite_loop V store_get ci ui upd us ids)"
  using assms
proof (induction us arbitrary: upd ids)
  case (Cons u us)
  have keep: "keeps (state upd) (send_message V store_get (with_time (state upd) (with_member (current (state upd)) n)) b ci ui)" for n b
    by (intro keeps_with_time [OF Cons.prems(2), where t = "with_member (current (state upd)) n"]
        keeps_send_message wf_with_time with_member_counters(1) wf_chatD(3) Cons.prems(2))
  show ?case
  proof (cases ids)
    case (Cons i ids')
    have "keeps c (invite_loop V store_get ci ui (update_apply upd st) us ids')"
      if "send_message V store_get (with_time (state upd) (with_member (current (state upd)) n)) b ci ui = Inr st" for n b st
    proof (rule Cons.IH [OF Cons.prems(1)])
      show "wf_chat (state (update_apply upd st))" "extends c (state (update_apply upd st))"
        using keepsD [OF keep that] extends_trans [OF Cons.prems(3)] by simp_all
    qed
    then show ?thesis unfolding Cons invite_loop.simps Let_def by (intro keeps_and_then)
  qed simp
qed simp

lemma keeps_invite_members: "wf_chat c \<Longrightarrow> keeps c (invite_members V store_get c us ids ci ui)"
  unfolding invite_members_def by (rule keeps_invite_loop) simp_all

lemma wf_create_new: "wf_chat (create_new uid u ident)"
  using init_counters(1) by (auto simp: create_new_def wf_chat_def wf_members_def)

end
