(* ===== verification/Chat_Props.thy ===== *)
theory Chat_Props
  imports Chat_Inv
begin

text \<open>
  What a chat promises: an invariant of every reachable view, delivery at most once, authentic messages,
  authorised removals, the recursion of \<open>apply_message\<close> and \<open>send_message_refs\<close>, convergence of group
  properties and its limit, and the CBOR form.
\<close>

section \<open>An example\<close>

text \<open>Ann's chat with herself, and the message that sets its title.\<close>

definition demo_env :: chat_env where
  "demo_env = \<lparr>env_ed = demo_ed, env_get = (\<lambda>_. Inr None), env_sha = (\<lambda>_. replicate 32 0), env_now = (\<lambda>_ _. 0),
     env_seed = (\<lambda>_. replicate 32 1)\<rparr>"

definition demo_signer :: signing_private_key_and_public_hash where
  "demo_signer = \<lparr>spk_public_key_hash = \<lparr>pkh_target = \<lparr>version = CID_V1, cid_codec = DagCbor,
       cid_multihash = \<lparr>hash_type = Id_hash, hash = [0x82, 1, 0x58, 0x20] @ replicate 32 7\<rparr>\<rparr>\<rparr>,
     spk_secret = \<lparr>ssk_bytes = replicate 64 7\<rparr>\<rparr>"

definition demo_chat :: chat where
  "demo_chat = create_new ''chat'' ''ann'' (spk_public_key_hash demo_signer)"

definition demo_envelope :: message_envelope where
  "demo_envelope = \<lparr>env_author = id_creator, timestamp = increment (clock_init [id_creator]) id_creator, creation_time_millis = 0,
     previous_messages = [], payload = GroupState ''title'' ''hi''\<rparr>"

definition demo_bytes :: bytes where
  "demo_bytes = (case serialize envelope_to_cbor demo_envelope of Inr b \<Rightarrow> b | Inl _ \<Rightarrow> [])"

definition demo_signed :: signed_message where
  "demo_signed = \<lparr>signature = replicate 32 7 @ take 32 (demo_bytes @ replicate 32 0), msg = demo_envelope\<rparr>"

definition demo_ann :: member where
  "demo_ann = member_simple ''ann'' id_creator (spk_public_key_hash demo_signer) 0 0"

lemma demo_chat_facts:
  "wf_chat demo_chat" "map_of (members demo_chat) (member_of demo_ann) = Some demo_ann" "wf_clock (timestamp (msg demo_signed))"
  "map_of (members demo_chat) id_creator = Some demo_ann" "length (signature demo_signed) = 64"
proof -
  show "wf_chat demo_chat" unfolding demo_chat_def by (rule wf_create_new)
  show "map_of (members demo_chat) (member_of demo_ann) = Some demo_ann" "map_of (members demo_chat) id_creator = Some demo_ann"
    by (simp_all add: demo_chat_def demo_ann_def create_new_def)
  show "wf_clock (timestamp (msg demo_signed))"
    using increment_counters(1) [OF init_counters(1)] by (simp add: demo_signed_def demo_envelope_def)
  show "length (signature demo_signed) = 64" by (simp add: demo_signed_def)
qed

lemma demo_serialized: "serialize envelope_to_cbor demo_envelope = Inr demo_bytes"
proof -
  have "wf_envelope demo_envelope"
    using increment_counters(1) [OF init_counters(1)] by (simp add: wf_envelope_def demo_envelope_def)
  then show ?thesis using envelope.bytes_roundtrip by (force simp: demo_bytes_def)
qed

lemma demo_accepted:
  "author_signer demo_env demo_ann = Inr \<lparr>psk_bytes = replicate 32 7\<rparr>"
  "unsign_message demo_ed \<lparr>psk_bytes = replicate 32 7\<rparr> (signature demo_signed @ demo_bytes) = Inr demo_bytes"
proof -
  show "author_signer demo_env demo_ann = Inr \<lparr>psk_bytes = replicate 32 7\<rparr>" by code_simp
  show "unsign_message demo_ed \<lparr>psk_bytes = replicate 32 7\<rparr> (signature demo_signed @ demo_bytes) = Inr demo_bytes"
    using demo_chat_facts(5) by (simp add: unsign_message_def crypto_sign_open_def demo_ed_def) (simp add: demo_signed_def)
qed

lemma demo_merge:
  obtains u where "merge_message demo_env demo_chat demo_signed demo_ann demo_signer = Inr u" "get_title (state u) = ''hi''"
    "new_messages u \<noteq> []"
proof -
  let ?u = "apply_group_state demo_chat demo_signed demo_ann ''title'' ''hi''"
  have new: "\<not> is_before_or_equal (timestamp (msg demo_signed)) (current demo_chat)" "\<not> removed demo_ann"
    unfolding demo_signed_def demo_envelope_def demo_chat_def demo_ann_def signed_message.simps message_envelope.simps create_new_def chat.simps by code_simp+
  have app: "apply_message demo_env demo_chat demo_signed demo_signer = Inr ?u"
    using demo_chat_facts(4) by (simp add: apply_message_def numeral_2_eq_2 apply_step_def demo_signed_def demo_envelope_def)
  have u: "state ?u = add_to_recent (demo_chat\<lparr>group_state := [(''title'', \<lparr>gp_author = id_creator,
      update_timestamp = timestamp (msg demo_signed), gp_value = ''hi''\<rparr>)]\<rparr>) (msg demo_signed)" "new_messages ?u = [demo_signed]"
    by (simp_all add: apply_group_state_def property_wins_def demo_chat_def create_new_def) (simp_all add: demo_signed_def demo_envelope_def)
  have "\<exists>d. merge_message_timestamp (state ?u) (timestamp (msg demo_signed)) demo_ann = Inr d"
    unfolding u(1) using demo_chat_facts(2,4) by (simp add: merge_message_timestamp_def host_member_def) (simp add: demo_chat_def create_new_def)
  then obtain d where d: "merge_message_timestamp (state ?u) (timestamp (msg demo_signed)) demo_ann = Inr d" by blast
  then have "get_title d = ''hi''"
    by (auto simp: merge_message_timestamp_def and_then_Inr_iff u(1) get_title_def)
  moreover have "merge_message demo_env demo_chat demo_signed demo_ann demo_signer = Inr (with_state ?u d)"
    using demo_chat_facts(4) new demo_serialized demo_accepted app d
    by (simp add: merge_message_def merge_message_with_def demo_env_def [THEN arg_cong, of env_ed] demo_signed_def [THEN arg_cong, of msg] demo_envelope_def [THEN arg_cong, of env_author])
  ultimately show thesis using that [of "with_state ?u d"] u(2) by simp
qed

section \<open>Reachable chats\<close>

inductive chat_start :: "chat \<Rightarrow> bool" where
  created: "chat_start (create_new uid u ident)"
| grouped: "create_new_group uid us ids = Inr cs \<Longrightarrow> c \<in> set cs \<Longrightarrow> chat_start c"

inductive chat_step :: "chat_env \<Rightarrow> chat \<Rightarrow> chat \<Rightarrow> bool" for V where
  sent: "send_message V store_get c b signer ui = Inr u \<Longrightarrow> chat_step V c (state u)"
| merged: "chat_merge V store_from c mirror ui = Inr u \<Longrightarrow>
    (\<And>i ms. store_from i = Inr ms \<Longrightarrow> \<forall>m \<in> set ms. wf_clock (timestamp (msg m))) \<Longrightarrow> chat_step V c (state u)"
| joined: "chat_join V store_get c h chat_id pub ident = Inr u \<Longrightarrow> chat_step V c (state u)"
| invited: "invite_members V store_get c us ids ci ui = Inr u \<Longrightarrow> chat_step V c (state u)"

text \<open>
  Copying starts the view of another member, under whatever record of itself that member supplies: its chat identity, if
  it has one, must be vouched for, but it need not be the record that was stored.
\<close>

inductive view_step :: "chat_env \<Rightarrow> chat \<Rightarrow> chat \<Rightarrow> bool" for V where
  own: "chat_step V c c' \<Longrightarrow> view_step V c c'"
| copied: "sound_member (member_of h) h \<Longrightarrow> chat_copy c h = Inr c' \<Longrightarrow> view_step V c c'"

lemma clone_view_step: "clone_view c u ident = Inr c' \<Longrightarrow> view_step V c c'"
  by (auto simp: clone_view_def and_then_Inr_iff member_simple_def sound_member_def intro!: view_step.copied)

lemma group_members_wf:
  assumes "group_members n us ids (initial, ms) = Inr (initial', ms')" "wf_members ms" "dom (map_of ms) = set initial"
  shows "wf_members ms' \<and> dom (map_of ms') = set initial'"
  using assms
proof (induction us arbitrary: n ids initial ms)
  case (Cons u us)
  then obtain p ids' where ids: "ids = p # ids'" by (cases ids) auto
  let ?i = "id_single (of_nat n)"
  let ?ms = "bt_insert cmp_id ?i (member_simple u ?i p 0 0) ms"
  have "bt_sorted cmp_id ms" using Cons.prems(2) by (simp add: wf_members_def)
  then have "map_of ?ms = (map_of ms)(?i \<mapsto> member_simple u ?i p 0 0)" "bt_sorted cmp_id ?ms"
    by (simp_all add: map_of_id_insert sorted_id_insert)
  then have "wf_members ?ms" "dom (map_of ?ms) = set (initial @ [?i])"
    using Cons.prems(2,3) by (auto simp: wf_members_def)
  then show ?case using Cons.IH [of "n + 1" ids' "initial @ [?i]" ?ms] Cons.prems(1) ids by (simp add: Let_def)
qed simp

lemma chat_start_wf: "chat_start c \<Longrightarrow> wf_chat c"
proof (induction rule: chat_start.induct)
  case (grouped uid us ids cs c)
  then obtain initial ms where g: "group_members 0 us ids ([], []) = Inr (initial, ms)"
    and c: "\<exists>i \<in> set initial. c = \<lparr>chat_uid = uid, host = i, current = clock_init initial, members = ms, group_state = [], recent_messages = []\<rparr>"
    by (auto simp: create_new_group_def and_then_Inr_iff)
  have "wf_members ms \<and> dom (map_of ms) = set initial"
    using group_members_wf [OF g] by (simp add: wf_members_def)
  then show ?case using c init_counters(1) by (fastforce simp: wf_chat_def)
qed (rule wf_create_new)

lemma chat_step_wf: "chat_step V c c' \<Longrightarrow> wf_chat c \<Longrightarrow> wf_chat c' \<and> extends c c'"
proof (induction rule: chat_step.induct)
  case (sent store_get c b signer ui u)
  then show ?case using keepsD keeps_send_message by blast
next
  case (merged store_from c mirror ui u)
  then show ?case using keepsD [OF keeps_chat_merge] by blast
next
  case (joined store_get c h chat_id pub ident u)
  then show ?case using keepsD keeps_chat_join by blast
next
  case (invited store_get c us ids ci ui u)
  then show ?case using keepsD keeps_invite_members by blast
qed

lemma chat_steps_wf: "(chat_step V)\<^sup>*\<^sup>* c d \<Longrightarrow> wf_chat c \<Longrightarrow> wf_chat d \<and> extends c d"
proof (induction rule: rtranclp_induct)
  case (step d d')
  then show ?case using chat_step_wf extends_trans by blast
qed simp

lemma copy_members:
  assumes "wf_chat c" "chat_copy c h = Inr c'"
  shows "host c' = member_of h" "chat_uid c' = chat_uid c" "map_of (members c') = (map_of (members c))(member_of h \<mapsto> h)"
    "map_of (members c) (member_of h) \<noteq> None"
proof -
  have c': "c' = (set_member c (member_of h) h)\<lparr>host := member_of h\<rparr>" "get_member_by_id c (member_of h) \<noteq> None"
    using assms(2) by (auto simp: chat_copy_def split: if_splits)
  show "host c' = member_of h" by (simp add: c')
  show "chat_uid c' = chat_uid c" by (simp add: c' set_member_def)
  show "map_of (members c') = (map_of (members c))(member_of h \<mapsto> h)" using map_of_set_member [OF assms(1)] by (simp add: c')
  show "map_of (members c) (member_of h) \<noteq> None" using c'(2) by simp
qed

lemma view_step_wf:
  assumes "view_step V c c'" "wf_chat c"
  shows "wf_chat c' \<and> chat_uid c' = chat_uid c \<and> dom (map_of (members c)) \<subseteq> dom (map_of (members c'))"
  using assms
proof (induction rule: view_step.induct)
  case (own c c')
  then show ?case using chat_step_wf by (fastforce simp: extends_def members_grow_def)
next
  case (copied h c c')
  note m = copy_members [OF copied(3,2)]
  have "wf_chat (set_member c (member_of h) h)" using copied by (intro wf_set_member) auto
  moreover have "c' = (set_member c (member_of h) h)\<lparr>host := member_of h\<rparr>" using copied(2) by (auto simp: chat_copy_def split: if_splits)
  ultimately have "wf_chat c'" using map_of_set_member [OF copied(3)] by (auto simp: wf_chat_def)
  then show ?case using m by auto
qed

lemma view_steps_wf:
  assumes "(view_step V)\<^sup>*\<^sup>* c0 c" "wf_chat c0"
  shows "wf_chat c \<and> chat_uid c = chat_uid c0 \<and> dom (map_of (members c0)) \<subseteq> dom (map_of (members c))"
  using assms
proof (induction rule: rtranclp_induct)
  case (step c d)
  then show ?case using view_step_wf [of V c d] by auto
qed simp

text \<open>
  C10. Every view that can be reached from a new chat or group by sending, merging, joining, inviting and copying, where
  a copy may replace the record of its new host by any that has no chat identity or one its identity key vouches for, is
  well-formed: members are stored once, under their ids, the host is one of them, a joined chat identity is vouched for
  by its member's identity key, at most ten messages are kept as recent; and no member of the first view is missing.  While
  one view \<open>c\<close> goes on to \<open>d\<close> by anything but copying, no member disappears, changes name or identity, comes back from
  removal or changes the chat identity it joined with; and a copy of \<open>d\<close> differs in its members only in its host.
\<close>

theorem chat_reachable:
  assumes "chat_start c0" "(view_step V)\<^sup>*\<^sup>* c0 c" "(chat_step V)\<^sup>*\<^sup>* c d"
  shows "wf_chat d \<and> chat_uid d = chat_uid c0 \<and> extends c d \<and> dom (map_of (members c0)) \<subseteq> dom (map_of (members d)) \<and>
    (\<forall>h d'. chat_copy d h = Inr d' \<longrightarrow> host d' = member_of h \<and> map_of (members d') = (map_of (members d))(member_of h \<mapsto> h))"
proof -
  note v = view_steps_wf [OF assms(2) chat_start_wf [OF assms(1)]]
  have c: "wf_chat d" "extends c d" using chat_steps_wf [OF assms(3)] v by simp_all
  then have "dom (map_of (members c)) \<subseteq> dom (map_of (members d))" "chat_uid d = chat_uid c" by (fastforce simp: extends_def members_grow_def)+
  then show ?thesis using c v copy_members(1,3) [OF c(1)] by (intro conjI allI impI) (blast, simp, blast+)
qed

theorem chat_reachable_witness:
  "\<exists>c d. clone_view demo_chat ''ann'' (spk_public_key_hash demo_signer) = Inr c \<and> chat_step demo_env c d \<and>
     get_title d = ''hi'' \<and> wf_chat d \<and> extends c d"
proof -
  obtain u where u: "merge_message demo_env demo_chat demo_signed demo_ann demo_signer = Inr u" "get_title (state u) = ''hi''"
    by (rule demo_merge)
  have m: "chat_merge demo_env (\<lambda>_. Inr [demo_signed]) demo_chat id_creator demo_signer = Inr (update_apply (update_empty demo_chat) u)"
    using u(1) demo_chat_facts(4) by (simp add: chat_merge_def)
  have "chat_step demo_env demo_chat (state (update_apply (update_empty demo_chat) u))"
    using demo_chat_facts(3) by (intro chat_step.merged [OF m]) auto
  then have step: "chat_step demo_env demo_chat (state u)" by simp
  have "cmp_id id_creator id_creator = Equal" by code_simp
  then have clone: "clone_view demo_chat ''ann'' (spk_public_key_hash demo_signer) = Inr demo_chat"
    by (simp add: clone_view_def demo_chat_def create_new_def get_member_def host_member_def chat_copy_def set_member_def member_simple_def)
  moreover have "chat_start demo_chat" unfolding demo_chat_def by (rule chat_start.created)
  ultimately show ?thesis
    using chat_reachable [of demo_chat demo_env demo_chat "state u"] clone_view_step [OF clone] step u(2) by blast
qed

section \<open>Delivery\<close>

lemma merge_with_cases:
  assumes "merge_message_with app V c s h ui = Inr u"
  obtains author where "map_of (members c) (env_author (msg s)) = Some author"
    "is_before_or_equal (timestamp (msg s)) (current c) \<or> removed author" "u = update_empty (increment_host c h)"
  | author signer bs m upd c' where "map_of (members c) (env_author (msg s)) = Some author"
    "\<not> is_before_or_equal (timestamp (msg s)) (current c)" "\<not> removed author"
    "author_signer V author = Inr signer" "serialize envelope_to_cbor (msg s) = Inr bs"
    "unsign_message (env_ed V) signer (signature s @ bs) = Inr m" "app c s ui = Inr upd"
    "merge_message_timestamp (state upd) (timestamp (msg s)) h = Inr c'" "u = with_state upd c'"
proof (cases "\<exists>author. map_of (members c) (env_author (msg s)) = Some author \<and>
    (is_before_or_equal (timestamp (msg s)) (current c) \<or> removed author)")
  case True
  with assms that(1) show thesis by (auto simp: merge_message_with_def)
next
  case False
  with assms show thesis
    by (auto simp: merge_message_with_def and_then_Inr_iff ok_or_Inr_iff split: if_splits intro: that(2))
qed

lemma before_trans:
  "wf_clock a \<Longrightarrow> wf_clock b \<Longrightarrow> is_before_or_equal a b \<Longrightarrow> is_before_or_equal b c \<Longrightarrow> is_before_or_equal a c"
  by (auto simp: before_counters intro: opt_le_order(2))

lemma merge_message_settles:
  assumes "wf_chat c" "wf_clock (timestamp (msg s))" "map_of (members c) (member_of h) = Some h"
    "merge_message V c s h ui = Inr u"
  shows "\<exists>a. map_of (members (state u)) (env_author (msg s)) = Some a \<and>
    (is_before_or_equal (timestamp (msg s)) (current (state u)) \<or> removed a)"
proof -
  have grown: "wf_chat (state u)" "extends c (state u)"
    using keepsD [OF keeps_merge_message assms(4)] assms(1-3) by auto
  show ?thesis
    using assms(4) unfolding merge_message_def
  proof (cases rule: merge_with_cases)
    case (1 author)
    then obtain a where "map_of (members (state u)) (env_author (msg s)) = Some a" "member_grows author a"
      using grown(2) by (auto simp: extends_def members_grow_def)
    then show ?thesis using 1 by (auto simp: increment_host_def member_grows_def)
  next
    case (2 author signer bs m upd c')
    have "wf_chat (state upd)" using keepsD [OF keeps_chat_apply 2(7) [unfolded apply_message_def]] assms(1,2) by blast
    then have "is_before_or_equal (timestamp (msg s)) (current c')"
      using timestamp_merged [OF _ assms(2) 2(8)] before_counters [OF assms(2)] merge_counters(2) assms(2) wf_chatD(3)
        max_opt_laws(5) by metis
    moreover obtain a where "map_of (members (state u)) (env_author (msg s)) = Some a"
      using grown(2) 2(1) by (auto simp: extends_def members_grow_def)
    ultimately show ?thesis using 2(9) by simp
  qed
qed

text \<open>
  C11. A message takes effect at most once: after it has been merged, merging it again in this view, or in
  any later one, from any mirror, changes nothing except the count of messages merged from that mirror,
  and no message is appended to the log.
\<close>

theorem merge_at_most_once:
  assumes "wf_chat c" "wf_clock (timestamp (msg s))" "map_of (members c) (member_of h) = Some h"
    "merge_message V c s h ui = Inr u" "extends (state u) d" "is_before_or_equal (current (state u)) (current d)"
  shows "merge_message V d s h' ui' = Inr (update_empty (increment_host d h'))"
proof -
  obtain a where a: "map_of (members (state u)) (env_author (msg s)) = Some a"
      "is_before_or_equal (timestamp (msg s)) (current (state u)) \<or> removed a"
    using merge_message_settles [OF assms(1-4)] by blast
  obtain b where b: "map_of (members d) (env_author (msg s)) = Some b" "member_grows a b"
    using assms(5) a(1) by (auto simp: extends_def members_grow_def)
  have "wf_clock (current (state u))"
    using keepsD [OF keeps_merge_message assms(4)] assms(1-3) wf_chatD(3) by blast
  then have "is_before_or_equal (timestamp (msg s)) (current d) \<or> removed b"
    using a(2) b(2) before_trans [OF assms(2) _ _ assms(6)] by (auto simp: member_grows_def)
  then show ?thesis using b(1) by (auto simp: merge_message_def merge_message_with_def)
qed

theorem merge_at_most_once_witness:
  "\<exists>u. merge_message demo_env demo_chat demo_signed demo_ann demo_signer = Inr u \<and> get_title (state u) = ''hi'' \<and>
    merge_message demo_env (state u) demo_signed demo_ann demo_signer = Inr (update_empty (increment_host (state u) demo_ann))"
proof -
  obtain u where u: "merge_message demo_env demo_chat demo_signed demo_ann demo_signer = Inr u" "get_title (state u) = ''hi''"
    by (rule demo_merge)
  have "wf_clock (current (state u))"
    using keepsD [OF keeps_merge_message u(1)] demo_chat_facts wf_chatD(3) by blast
  then have "is_before_or_equal (current (state u)) (current (state u))" by (simp add: before_counters opt_le_order(1))
  then show ?thesis using merge_at_most_once [OF demo_chat_facts(1,3,2) u(1) extends_refl] u by blast
qed

section \<open>Authenticity\<close>

text \<open>
  C8. Only authentic messages have an effect: either merging a message just counts it, or its author is a
  current member, the message is new, and Ed25519 accepted the signature under a key of the author, the
  identity key itself or a chat identity that the identity key has signed.  With a signature of 64 bytes what
  was verified is exactly the serialised envelope.
\<close>

theorem merge_authentic:
  assumes "wf_chat c" "merge_message V c s h ui = Inr u" "u \<noteq> update_empty (increment_host c h)"
  shows "\<exists>author signer signer_hash bs.
    map_of (members c) (env_author (msg s)) = Some author \<and> \<not> removed author \<and>
    \<not> is_before_or_equal (timestamp (msg s)) (current c) \<and>
    (chat_identity author = None \<and> signer_hash = identity author \<or>
     (\<exists>p. chat_identity author = Some p \<and> owned_key p = identity author \<and>
       get_and_verify_owner (env_ed V) (env_get V) p = Inr signer_hash)) \<and>
    get_signing_key (env_get V) signer_hash = Inr (Some signer) \<and>
    serialize envelope_to_cbor (msg s) = Inr bs \<and>
    ed_verify (env_ed V) (psk_bytes signer) (drop 64 (signature s @ bs)) (take 64 (signature s @ bs)) \<and>
    (length (signature s) = 64 \<longrightarrow> ed_verify (env_ed V) (psk_bytes signer) bs (signature s))"
  using assms(2) unfolding merge_message_def
proof (cases rule: merge_with_cases)
  case (1 author)
  then show ?thesis using assms(3) by simp
next
  case (2 author signer bs m upd c')
  obtain hsh where hsh: "get_signing_key (env_get V) hsh = Inr (Some signer)"
      "(case chat_identity author of Some p \<Rightarrow> get_and_verify_owner (env_ed V) (env_get V) p | None \<Rightarrow> Inr (identity author)) = Inr hsh"
    using 2(4) by (auto simp: author_signer_def and_then_Inr_iff ok_or_Inr_iff)
  have "\<And>p. chat_identity author = Some p \<Longrightarrow> owned_key p = identity author"
    using wf_chatD(7) [OF assms(1) 2(1)] by (simp add: sound_member_def)
  then have "chat_identity author = None \<and> hsh = identity author \<or>
     (\<exists>p. chat_identity author = Some p \<and> owned_key p = identity author \<and> get_and_verify_owner (env_ed V) (env_get V) p = Inr hsh)"
    using hsh(2) by (cases "chat_identity author") auto
  moreover have "ed_verify (env_ed V) (psk_bytes signer) (drop 64 (signature s @ bs)) (take 64 (signature s @ bs))"
    using 2(6) by (auto simp: unsign_message_def crypto_sign_open_def split: if_splits)
  ultimately show ?thesis using 2(1-3,5) hsh(1) by (intro exI conjI) auto
qed

theorem merge_authentic_witness:
  "\<exists>bs signer. serialize envelope_to_cbor demo_envelope = Inr bs \<and> get_signing_key (env_get demo_env) (identity demo_ann) = Inr (Some signer) \<and>
    ed_verify demo_ed (psk_bytes signer) bs (signature demo_signed)"
proof -
  obtain u where u: "merge_message demo_env demo_chat demo_signed demo_ann demo_signer = Inr u" "new_messages u \<noteq> []"
    by (rule demo_merge)
  then have "u \<noteq> update_empty (increment_host demo_chat demo_ann)" by auto
  from merge_authentic [OF demo_chat_facts(1) u(1) this] obtain author signer hsh bs where
    "map_of (members demo_chat) (env_author (msg demo_signed)) = Some author"
    "chat_identity author = None \<and> hsh = identity author \<or> (\<exists>p. chat_identity author = Some p \<and> owned_key p = identity author \<and>
       get_and_verify_owner (env_ed demo_env) (env_get demo_env) p = Inr hsh)"
    "get_signing_key (env_get demo_env) hsh = Inr (Some signer)" "serialize envelope_to_cbor (msg demo_signed) = Inr bs"
    "length (signature demo_signed) = 64 \<longrightarrow> ed_verify (env_ed demo_env) (psk_bytes signer) bs (signature demo_signed)" by blast
  moreover have "chat_identity demo_ann = None" by (simp add: demo_ann_def member_simple_def)
  ultimately show ?thesis
    using demo_chat_facts(4,5) by (auto simp: demo_signed_def [THEN arg_cong, of msg] demo_envelope_def [THEN arg_cong, of env_author] demo_env_def)
qed

section \<open>Authorisation\<close>

text \<open>A step that touches neither the group state nor who is removed.\<close>

definition untouched :: "chat \<Rightarrow> chat \<Rightarrow> bool" where
  "untouched c c' \<longleftrightarrow> group_state c' = group_state c \<and>
     (\<forall>i m. map_of (members c) i = Some m \<longrightarrow> (\<exists>m'. map_of (members c') i = Some m' \<and> removed m' = removed m))"

lemma untouched_refl [simp]: "untouched c c"
  by (simp add: untouched_def)

lemma untouched_trans: "untouched a b \<Longrightarrow> untouched b d \<Longrightarrow> untouched a d"
  unfolding untouched_def by metis

lemma untouched_same: "group_state c' = group_state c \<Longrightarrow> members c' = members c \<Longrightarrow> untouched c c'"
  by (simp add: untouched_def)

lemma untouched_set_member:
  assumes "wf_chat c" "\<And>m0. map_of (members c) i = Some m0 \<Longrightarrow> removed m = removed m0"
  shows "untouched c (set_member c i m)"
  using assms by (auto simp: untouched_def map_of_set_member)

lemma removed_simps [simp]:
  "removed (increment_messages m) = removed m" "removed (increment_invited m) = removed m" "removed (with_chat_id m p) = removed m"
  by (simp_all add: increment_messages_def increment_invited_def with_chat_id_def)

lemma untouched_timestamp:
  assumes "wf_chat c" "merge_message_timestamp c t source = Inr c'"
  shows "untouched c c'"
proof -
  obtain src h where src: "map_of (members c) (member_of source) = Some src" "map_of (members c) (host c) = Some h"
    and c': "c' = (set_member (set_member c (member_of source) (increment_messages src)) (host c) (increment_messages h))
              \<lparr>current := clock_merge (current c) t\<rparr>"
    using assms(2) by (auto simp: merge_message_timestamp_def host_member_def and_then_Inr_iff ok_or_Inr_iff)
  let ?e = "set_member c (member_of source) (increment_messages src)"
  have "wf_chat ?e" using assms(1) wf_chatD(7) [OF assms(1) src(1)] by (intro wf_set_member) simp_all
  then have "untouched ?e (set_member ?e (host c) (increment_messages h))"
    using src by (intro untouched_set_member) (auto simp: map_of_set_member [OF assms(1)] split: if_splits)
  moreover have "untouched c ?e" using assms(1) src by (intro untouched_set_member) auto
  ultimately have "untouched c (set_member ?e (host c) (increment_messages h))" using untouched_trans by blast
  then show ?thesis using untouched_trans [OF _ untouched_same] by (simp add: c')
qed

lemma apply_join_untouched:
  assumes "wf_chat c" "map_of (members c) i = Some author" "apply_join V c s author p = Inr u"
  shows "untouched c (state u)"
proof -
  have "untouched c (set_member c (member_of author) (with_chat_id author p))"
    using assms(1,2) wf_chatD(6) [OF assms(1,2)] by (intro untouched_set_member) auto
  then show ?thesis
    using assms(3) untouched_trans [OF _ untouched_same] untouched_same [of "add_to_recent c (msg s)" c]
    by (auto simp: apply_join_def and_then_Inr_iff split: if_splits)
qed

lemma send_refs_cases:
  assumes "wf_chat c" "send_refs_with app V c b signer ui refs = Inr u"
  obtains h s where "map_of (members c) (member_of h) = Some h" "payload (msg s) = b"
    "timestamp (msg s) = increment (current c) (host c)" "merge_message_with app V c s h ui = Inr u"
proof -
  obtain h where h: "host_member c = Inr h" "map_of (members c) (host c) = Some h" using wf_host_member [OF assms(1)] by blast
  let ?e = "\<lparr>env_author = host c, timestamp = increment (current c) (host c),
    creation_time_millis = env_now V (host c) (increment (current c) (host c)), previous_messages = refs, payload = b\<rparr>"
  obtain sig where "merge_message_with app V c \<lparr>signature = sig, msg = ?e\<rparr> h ui = Inr u"
    using assms(2) h(1) by (auto simp: send_refs_with_def Let_def and_then_Inr_iff)
  then show thesis using that [of h "\<lparr>signature = sig, msg = ?e\<rparr>"] h(2) wf_chatD(6) [OF assms(1) h(2)] by simp
qed

lemma sent_join_untouched:
  assumes "wf_chat c" "send_refs_with (chat_apply n V) V c (Join x y z w) signer ui refs = Inr u"
  shows "untouched c (state u)"
proof -
  obtain h s where h: "map_of (members c) (member_of h) = Some h" and s: "payload (msg s) = Join x y z w"
      "timestamp (msg s) = increment (current c) (host c)"
    and m: "merge_message_with (chat_apply n V) V c s h ui = Inr u"
    using assms by (rule send_refs_cases)
  have ts: "wf_clock (timestamp (msg s))" using s(2) increment_counters(1) [OF wf_chatD(3) [OF assms(1)]] by simp
  show ?thesis
    using m
  proof (cases rule: merge_with_cases)
    case (1 author)
    then show ?thesis using assms(1) h by (auto simp: increment_host_def intro!: untouched_set_member)
  next
    case (2 author signer bs m upd c')
    then obtain k where n: "n = Suc k" by (cases n) auto
    have "apply_join V c s author z = Inr upd" using 2(7) 2(1) n s(1) by (simp add: apply_step_def)
    then have "untouched c (state upd)" using apply_join_untouched [OF assms(1) 2(1)] by blast
    moreover have "wf_chat (state upd)" using keepsD [OF keeps_chat_apply 2(7)] assms(1) ts by blast
    ultimately show ?thesis using untouched_timestamp [OF _ 2(8)] untouched_trans 2(9) by (metis update_simps(7))
  qed
qed

lemma apply_message_untouched:
  assumes "wf_chat c" "apply_message V c s ui = Inr u" "\<nexists>k v. payload (msg s) = GroupState k v"
    "\<nexists>uid t. payload (msg s) = RemoveMember uid t"
  shows "untouched c (state u)"
proof -
  obtain author where a: "map_of (members c) (env_author (msg s)) = Some author"
    using assms(2) by (auto simp: apply_message_def numeral_2_eq_2 apply_step_def and_then_Inr_iff ok_or_Inr_iff)
  let ?send = "\<lambda>c' b signer refs. send_refs_with (chat_apply 1 V) V c' b signer ui refs"
  have inv: "untouched c (state u)" if "apply_invite V ?send c s ui author x y nm = Inr u" for x y nm
    using that
  proof (cases rule: apply_invite_cases)
    case (1 fresh)
    have "map_of (members (invited c s author fresh)) =
        (map_of (members c))(env_author (msg s) \<mapsto> increment_invited author, nm \<mapsto> fresh)"
      using invited_wf(3) [OF assms(1) a] 1 by simp
    then show ?thesis using 1(1,5) a by (auto simp: untouched_def invited_def)
  next
    case (2 fresh b refs sent)
    let ?d = "invited c s author fresh"
    note d = invited_wf [OF assms(1) a, of fresh s]
    have m: "map_of (members ?d) = (map_of (members c))(env_author (msg s) \<mapsto> increment_invited author, nm \<mapsto> fresh)"
      using d(3) 2(1-3) by simp
    have wf: "wf_chat (rehosted ?d nm)"
      unfolding rehosted_def using d(1) 2(1-3) m wf_chatD(3) with_member_counters(1)
      by (intro wf_set_host wf_with_time) auto
    have "untouched (rehosted ?d nm) (state sent)" using sent_join_untouched [OF wf] 2(5,6) by auto
    moreover have "untouched ?d (rehosted ?d nm)" by (rule untouched_same) (simp_all add: rehosted_def)
    moreover have "untouched c ?d" using m 2(1) a by (auto simp: untouched_def invited_def)
    ultimately show ?thesis using untouched_trans 2(7) by (metis update_simps(5))
  qed
  show ?thesis
    using assms(2-4) a inv apply_join_untouched [OF assms(1) a] untouched_same [of "add_to_recent c (msg s)" c]
    by (auto simp: apply_message_def numeral_2_eq_2 apply_step_def split: message.splits)
qed

text \<open>What a message may remove and set.\<close>

definition may_remove :: "chat \<Rightarrow> signed_message \<Rightarrow> member_id \<Rightarrow> bool" where
  "may_remove c s i \<longleftrightarrow> payload (msg s) = RemoveMember (chat_uid c) i \<and>
     (\<exists>a. map_of (members c) (env_author (msg s)) = Some a \<and> (i = env_author (msg s) \<or> set_has (username a) (get_admins c)))"

definition may_set :: "chat \<Rightarrow> signed_message \<Rightarrow> string \<Rightarrow> group_property option \<Rightarrow> bool" where
  "may_set c s k new \<longleftrightarrow>
     (\<exists>v a. payload (msg s) = GroupState k v \<and> map_of (members c) (env_author (msg s)) = Some a \<and>
        new = Some \<lparr>gp_author = env_author (msg s), update_timestamp = timestamp (msg s), gp_value = v\<rparr> \<and>
        (k = ADMINS_STATE_KEY \<and> map_of (group_state c) k \<noteq> None \<longrightarrow> set_has (username a) (get_admins c)))"

definition authorised :: "chat \<Rightarrow> signed_message \<Rightarrow> chat \<Rightarrow> bool" where
  "authorised c s c' \<longleftrightarrow>
     (\<forall>i m m'. map_of (members c) i = Some m \<and> \<not> removed m \<and> map_of (members c') i = Some m' \<and> removed m' \<longrightarrow> may_remove c s i) \<and>
     (\<forall>k. map_of (group_state c') k \<noteq> map_of (group_state c) k \<longrightarrow> may_set c s k (map_of (group_state c') k))"

lemma authorised_untouched:
  assumes "authorised c s d" "untouched d c'" "\<And>i m. map_of (members c) i = Some m \<Longrightarrow> map_of (members d) i \<noteq> None"
  shows "authorised c s c'"
proof -
  have "\<exists>md. map_of (members d) i = Some md \<and> removed md"
    if "map_of (members c) i = Some m" "map_of (members c') i = Some m'" "removed m'" for i m m'
    using that assms(2) assms(3) [OF that(1)] by (fastforce simp: untouched_def)
  moreover have "group_state c' = group_state d" using assms(2) by (simp add: untouched_def)
  ultimately show ?thesis using assms(1) unfolding authorised_def by metis
qed

lemma untouched_authorised: "untouched c c' \<Longrightarrow> authorised c s c'"
  by (fastforce simp: authorised_def untouched_def)

lemma apply_message_authorised:
  assumes "wf_chat c" "apply_message V c s ui = Inr u"
  shows "authorised c s (state u)"
proof -
  obtain a where a: "map_of (members c) (env_author (msg s)) = Some a"
    using assms(2) by (auto simp: apply_message_def numeral_2_eq_2 apply_step_def and_then_Inr_iff ok_or_Inr_iff)
  consider (gs) k v where "payload (msg s) = GroupState k v" | (rm) uid t where "payload (msg s) = RemoveMember uid t"
    | (other) "\<nexists>k v. payload (msg s) = GroupState k v" "\<nexists>uid t. payload (msg s) = RemoveMember uid t" by blast
  then show ?thesis
  proof cases
    case gs
    then have u: "u = apply_group_state c s a k v" using assms(2) a by (simp add: apply_message_def numeral_2_eq_2 apply_step_def)
    show ?thesis
      using gs a wf_chatD(4) [OF assms(1)]
      by (auto simp: u authorised_def may_set_def apply_group_state_def property_wins_def map_of_str_insert split: option.splits if_splits)
  next
    case rm
    then have u: "apply_remove c s a uid t = Inr u" using assms(2) a by (simp add: apply_message_def numeral_2_eq_2 apply_step_def)
    have "map_of (members (set_member (add_to_recent c (msg s)) t m)) = (map_of (members c))(t \<mapsto> m)" for m
      using map_of_set_member [of "add_to_recent c (msg s)"] assms(1) by simp
    then show ?thesis
      using rm u a by (auto simp: apply_remove_def authorised_def may_remove_def and_then_Inr_iff split: if_splits)
  next
    case other
    then show ?thesis using apply_message_untouched [OF assms] untouched_authorised by blast
  qed
qed

text \<open>
  C9. Authorised changes: a member becomes removed only by a removal message for this chat and this
  member, sent by the member or by an admin; a group property changes only by a message that sets it, to
  the value, author and time of that message, and the list of admins, once set, only by an admin.
\<close>

theorem merge_authorised:
  assumes "wf_chat c" "wf_clock (timestamp (msg s))" "map_of (members c) (member_of h) = Some h"
    "merge_message V c s h ui = Inr u"
  shows "authorised c s (state u)"
  using assms(4) unfolding merge_message_def
proof (cases rule: merge_with_cases)
  case (1 author)
  then have "untouched c (state u)" using assms(1,3) by (auto simp: increment_host_def intro!: untouched_set_member)
  then show ?thesis by (rule untouched_authorised)
next
  case (2 author signer bs m upd c')
  have upd: "wf_chat (state upd)" "extends c (state upd)"
    using keepsD [OF keeps_chat_apply 2(7) [unfolded apply_message_def]] assms(1,2) by auto
  have "authorised c s c'"
  proof (rule authorised_untouched [OF apply_message_authorised [OF assms(1) 2(7)] untouched_timestamp [OF upd(1) 2(8)]])
    show "map_of (members c) i = Some m \<Longrightarrow> map_of (members (state upd)) i \<noteq> None" for i m
      using upd(2) by (auto simp: extends_def members_grow_def)
  qed
  then show ?thesis using 2(9) by simp
qed

theorem merge_authorised_witness:
  "\<exists>u. merge_message demo_env demo_chat demo_signed demo_ann demo_signer = Inr u \<and> get_title (state u) = ''hi'' \<and>
    authorised demo_chat demo_signed (state u)"
proof -
  obtain u where u: "merge_message demo_env demo_chat demo_signed demo_ann demo_signer = Inr u" "get_title (state u) = ''hi''"
    by (rule demo_merge)
  then show ?thesis using merge_authorised [OF demo_chat_facts(1,3,2) u(1)] by blast
qed

section \<open>Recursion\<close>

lemma chat_apply_join: "payload (msg s) = Join x y z w \<Longrightarrow> chat_apply (Suc n) V c s ui = chat_apply (Suc k) V c s ui"
  by (simp add: apply_step_def)

lemma send_join_fuel:
  "send_refs_with (chat_apply (Suc n) V) V c (Join x y z w) signer ui refs = send_refs_with (chat_apply (Suc k) V) V c (Join x y z w) signer ui refs"
  unfolding send_refs_with_def Let_def merge_message_with_def
  by (intro and_then_cong refl if_cong chat_apply_join) simp

lemma apply_step_send:
  assumes "\<And>c' x y z w refs. send c' (Join x y z w) ui refs = send' c' (Join x y z w) ui refs"
  shows "apply_step V send c s ui = apply_step V send' c s ui"
  unfolding apply_step_def apply_invite_def assms ..

text \<open>
  C31. The mutual recursion of applying and sending ends: \<open>apply_message\<close>, defined with fuel two,
  satisfies the equation of the source in which it calls \<open>send_message_refs\<close>, which merges and applies in
  turn, and any larger fuel gives the same function.
\<close>

theorem apply_message_unfold:
  "apply_message V c s ui = apply_step V (\<lambda>c' b signer refs. send_message_refs V c' b signer ui refs) c s ui \<and>
   chat_apply (Suc (Suc n)) V c s ui = apply_message V c s ui"
proof -
  have "chat_apply (Suc (Suc k)) V c s ui = apply_step V (\<lambda>c' b signer refs. send_message_refs V c' b signer ui refs) c s ui" for k
    unfolding chat_apply.simps(2) [of "Suc k"] send_message_refs_def apply_message_def numeral_2_eq_2
    by (rule apply_step_send) (rule send_join_fuel)
  then show ?thesis by (simp add: apply_message_def numeral_2_eq_2 del: chat_apply.simps)
qed

end
