(* ===== verification/Chat_Group.thy ===== *)
theory Chat_Group
  imports Chat_Props
begin

text \<open>
  Group properties under reordering of messages, and the CBOR form of a chat.
\<close>

section \<open>An example\<close>

text \<open>A group of three members and messages that set its title.\<close>

definition demo_clock :: "i64 \<Rightarrow> i64 \<Rightarrow> i64 \<Rightarrow> tree_clock" where
  "demo_clock x y z = \<lparr>time = [(id_single 0, x), (id_single 1, y), (id_single 2, z)]\<rparr>"

definition demo_title :: "i32 \<Rightarrow> tree_clock \<Rightarrow> string \<Rightarrow> signed_message" where
  "demo_title i t v = \<lparr>signature = [], msg = \<lparr>env_author = id_single i, timestamp = t, creation_time_millis = 0,
     previous_messages = [], payload = GroupState ''title'' v\<rparr>\<rparr>"

definition demo_group :: chat where
  "demo_group = (case create_new_group ''chat'' [''ann'', ''bob'', ''cat''] [demo_owner, demo_owner, demo_owner] of
     Inr (c # _) \<Rightarrow> c | _ \<Rightarrow> create_new [] [] demo_owner)"

section \<open>Convergence of group properties\<close>

lemma apply_group_state_map:
  assumes "bt_sorted cmp_str (group_state c)"
  shows "map_of (group_state (state (apply_group_state c s a k v))) =
      (if property_wins c (msg s) a k
       then (map_of (group_state c))(k \<mapsto> \<lparr>gp_author = env_author (msg s), update_timestamp = timestamp (msg s), gp_value = v\<rparr>)
       else map_of (group_state c))"
    "bt_sorted cmp_str (group_state (state (apply_group_state c s a k v)))"
  using assms by (auto simp: apply_group_state_def map_of_str_insert sorted_str_insert)

lemma property_wins_local:
  "map_of (group_state c) k = map_of (group_state d) k \<Longrightarrow> property_wins c m a k = property_wins d m a k"
  by (cases "k = ADMINS_STATE_KEY") (simp_all add: property_wins_def get_admins_def split: option.split)

lemma before_antisym: "wf_clock a \<Longrightarrow> wf_clock b \<Longrightarrow> is_before_or_equal a b \<Longrightarrow> is_before_or_equal b a \<Longrightarrow> a = b"
  using opt_le_order(3) by (intro clock_eqI ext) (auto simp: before_counters)

lemma wins_over:
  assumes "wf_clock t" "wf_clock (timestamp m)" "dom (counter_of t) = dom (counter_of (timestamp m))" "k \<noteq> ADMINS_STATE_KEY"
    "map_of (group_state c) k = Some \<lparr>gp_author = i, update_timestamp = t, gp_value = v\<rparr>"
  shows "property_wins c m a k \<longleftrightarrow> is_before_or_equal t (timestamp m) \<or>
    \<not> is_before_or_equal (timestamp m) t \<and> cmp_id (env_author m) i = Less"
  using assms greater_not_before [OF assms(1,2,3)] greater_not_before [OF assms(2,1) assms(3) [symmetric]]
  by (auto simp: property_wins_def is_concurrent_with_def)

text \<open>
  C23. Two concurrent or successive settings of group properties give the same group state in either
  order: always for different properties, and for the same one, other than the admins, when both follow
  the value they replace, have different authors and different timestamps over the same members.
\<close>

theorem group_state_converges:
  assumes "wf_chat c" "wf_clock (timestamp (msg s1))" "wf_clock (timestamp (msg s2))"
    "k1 = k2 \<Longrightarrow> k1 \<noteq> ADMINS_STATE_KEY \<and> env_author (msg s1) \<noteq> env_author (msg s2) \<and> timestamp (msg s1) \<noteq> timestamp (msg s2) \<and>
       dom (counter_of (timestamp (msg s1))) = dom (counter_of (timestamp (msg s2)))"
    "\<And>p. k1 = k2 \<Longrightarrow> map_of (group_state c) k1 = Some p \<Longrightarrow>
       is_before_or_equal (update_timestamp p) (timestamp (msg s1)) \<and> is_before_or_equal (update_timestamp p) (timestamp (msg s2))"
  shows "group_state (state (apply_group_state (state (apply_group_state c s1 a1 k1 v1)) s2 a2 k2 v2)) =
    group_state (state (apply_group_state (state (apply_group_state c s2 a2 k2 v2)) s1 a1 k1 v1))"
proof (rule str_map_eqI)
  note srt = wf_chatD(4) [OF assms(1)]
  let ?c1 = "state (apply_group_state c s1 a1 k1 v1)" and ?c2 = "state (apply_group_state c s2 a2 k2 v2)"
  note m1 = apply_group_state_map [OF srt, of s1 a1 k1 v1] and m2 = apply_group_state_map [OF srt, of s2 a2 k2 v2]
  show "bt_sorted cmp_str (group_state (state (apply_group_state ?c1 s2 a2 k2 v2)))"
      "bt_sorted cmp_str (group_state (state (apply_group_state ?c2 s1 a1 k1 v1)))"
    by (intro apply_group_state_map(2) m1(2) m2(2))+
  show "map_of (group_state (state (apply_group_state ?c1 s2 a2 k2 v2))) = map_of (group_state (state (apply_group_state ?c2 s1 a1 k1 v1)))"
  proof (cases "k1 = k2")
    case False
    then have "property_wins ?c1 (msg s2) a2 k2 = property_wins c (msg s2) a2 k2"
        "property_wins ?c2 (msg s1) a1 k1 = property_wins c (msg s1) a1 k1"
      by (auto intro!: property_wins_local simp: m1(1) m2(1))
    then show ?thesis
      using False by (auto simp: apply_group_state_map(1) [OF m1(2)] apply_group_state_map(1) [OF m2(2)] m1(1) m2(1) fun_upd_twist)
  next
    case True
    note h = assms(4) [OF True]
    let ?t1 = "timestamp (msg s1)" and ?t2 = "timestamp (msg s2)"
    have w: "property_wins c (msg s1) a1 k1" "property_wins c (msg s2) a2 k1"
      using h assms(5) [OF True] by (auto simp: property_wins_def split: option.splits)
    have w2: "property_wins ?c1 (msg s2) a2 k1 \<longleftrightarrow> is_before_or_equal ?t1 ?t2 \<or> \<not> is_before_or_equal ?t2 ?t1 \<and> cmp_id (env_author (msg s2)) (env_author (msg s1)) = Less"
      by (rule wins_over [where v = v1]) (use assms(2,3) h w(1) in \<open>simp_all add: m1(1)\<close>)
    have w1: "property_wins ?c2 (msg s1) a1 k1 \<longleftrightarrow> is_before_or_equal ?t2 ?t1 \<or> \<not> is_before_or_equal ?t1 ?t2 \<and> cmp_id (env_author (msg s1)) (env_author (msg s2)) = Less"
      by (rule wins_over [where v = v2]) (use assms(2,3) h w(2) True in \<open>simp_all add: m2(1)\<close>)
    have "property_wins ?c1 (msg s2) a2 k1 \<longleftrightarrow> \<not> property_wins ?c2 (msg s1) a1 k1"
    proof -
      have "\<not> (is_before_or_equal ?t1 ?t2 \<and> is_before_or_equal ?t2 ?t1)"
        using h before_antisym [OF assms(2,3)] by blast
      moreover have "cmp_id (env_author (msg s2)) (env_author (msg s1)) = Less \<longleftrightarrow> cmp_id (env_author (msg s1)) (env_author (msg s2)) \<noteq> Less"
        using h id_key.cmp_equal [of "env_author (msg s1)" "env_author (msg s2)"] id_key.cmp_greater [of "env_author (msg s1)" "env_author (msg s2)"]
          id_key.cmp_greater [of "env_author (msg s2)" "env_author (msg s1)"]
        by (cases "cmp_id (env_author (msg s1)) (env_author (msg s2))") auto
      ultimately show ?thesis using w1 w2 by blast
    qed
    then show ?thesis
      using w unfolding True
      by (auto simp: apply_group_state_map(1) [OF m1(2) [unfolded True]] apply_group_state_map(1) [OF m2(2)] m1(1) [unfolded True] m2(1))
  qed
qed

theorem group_state_converges_witness:
  "group_state (state (apply_group_state (state (apply_group_state demo_group (demo_title 0 (demo_clock 1 0 0) ''A'') demo_ann ''title'' ''A''))
     (demo_title 1 (demo_clock 0 1 0) ''B'') demo_ann ''title'' ''B'')) =
   group_state (state (apply_group_state (state (apply_group_state demo_group (demo_title 1 (demo_clock 0 1 0) ''B'') demo_ann ''title'' ''B''))
     (demo_title 0 (demo_clock 1 0 0) ''A'') demo_ann ''title'' ''A''))"
proof (rule group_state_converges)
  have "\<exists>cs. create_new_group ''chat'' [''ann'', ''bob'', ''cat''] [demo_owner, demo_owner, demo_owner] = Inr (demo_group # cs)"
    by (simp add: demo_group_def create_new_group_def Let_def)
  then show "wf_chat demo_group" using chat_start_wf [OF chat_start.grouped] by fastforce
  show "wf_clock (timestamp (msg (demo_title 0 (demo_clock 1 0 0) ''A'')))" "wf_clock (timestamp (msg (demo_title 1 (demo_clock 0 1 0) ''B'')))"
    by code_simp+
  show "''title'' \<noteq> ADMINS_STATE_KEY \<and> env_author (msg (demo_title 0 (demo_clock 1 0 0) ''A'')) \<noteq> env_author (msg (demo_title 1 (demo_clock 0 1 0) ''B'')) \<and>
      timestamp (msg (demo_title 0 (demo_clock 1 0 0) ''A'')) \<noteq> timestamp (msg (demo_title 1 (demo_clock 0 1 0) ''B'')) \<and>
      dom (counter_of (timestamp (msg (demo_title 0 (demo_clock 1 0 0) ''A'')))) = dom (counter_of (timestamp (msg (demo_title 1 (demo_clock 0 1 0) ''B''))))"
    by (auto simp: ADMINS_STATE_KEY_def demo_title_def demo_clock_def counter_of_def id_single_def)
  have "group_state demo_group = []" by code_simp
  then show "map_of (group_state demo_group) ''title'' = Some p \<Longrightarrow>
      is_before_or_equal (update_timestamp p) (timestamp (msg (demo_title 0 (demo_clock 1 0 0) ''A''))) \<and>
      is_before_or_equal (update_timestamp p) (timestamp (msg (demo_title 1 (demo_clock 0 1 0) ''B'')))" for p by simp
qed

text \<open>Applying a sequence of messages, as their recipient does.\<close>

fun apply_all :: "chat_env \<Rightarrow> signing_private_key_and_public_hash \<Rightarrow> chat \<Rightarrow> signed_message list \<Rightarrow> error + chat" where
  "apply_all V ui c [] = Inr c"
| "apply_all V ui c (s # ss) = and_then (apply_message V c s ui) (\<lambda>u. apply_all V ui (state u) ss)"

text \<open>
  The limit of that convergence: with three settings of one property the order of delivery can matter.
  In a group of three, Ann sets the title, Cat, who has seen it, replaces it, and Bob sets it concurrently with
  both.  A view that receives Bob's message before Cat's ends with Cat's title, one that receives it after
  ends with Bob's: the tie-break by author is not transitive with the order of the clocks.
\<close>

lemma group_title_diverges:
  "map_err (\<lambda>_. ()) (and_then (apply_all V ui demo_group
     [demo_title 0 (demo_clock 1 0 0) ''A'', demo_title 1 (demo_clock 0 1 0) ''B'', demo_title 2 (demo_clock 1 0 1) ''C''])
       (\<lambda>c. Inr (get_title c))) = Inr ''C'' \<and>
   map_err (\<lambda>_. ()) (and_then (apply_all V ui demo_group
     [demo_title 0 (demo_clock 1 0 0) ''A'', demo_title 2 (demo_clock 1 0 1) ''C'', demo_title 1 (demo_clock 0 1 0) ''B''])
       (\<lambda>c. Inr (get_title c))) = Inr ''B''"
  by code_simp

section \<open>CBOR\<close>

definition wf_stored :: "chat \<Rightarrow> bool" where
  "wf_stored c \<longleftrightarrow> wf_chat c \<and> valid_utf8 (chat_uid c) \<and> list_all (\<lambda>(i, m). wf_member m) (members c) \<and>
     list_all (\<lambda>(k, p). valid_utf8 k \<and> wf_gp p) (group_state c) \<and> list_all wf_envelope (recent_messages c)"

lemma members_roundtrip:
  "list_all (\<lambda>(i, m). wf_member m) ms \<Longrightarrow>
   \<exists>ml. collect_results (\<lambda>(i, m). and_then (id_to_cbor i) (\<lambda>i'. and_then (member_to_cbor m) (\<lambda>m'. Inr [i', m']))) ms = Inr ml \<and>
     member_pairs (concat ml) = Inr ms \<and> even (length (concat ml)) \<and> list_all wf_cbor (concat ml)"
proof (induction ms)
  case (Cons e ms)
  obtain i m where e: "e = (i, m)" by force
  with Cons obtain ml where ml: "collect_results (\<lambda>(i, m). and_then (id_to_cbor i) (\<lambda>i'. and_then (member_to_cbor m) (\<lambda>m'. Inr [i', m']))) ms = Inr ml"
      "member_pairs (concat ml) = Inr ms" "even (length (concat ml))" "list_all wf_cbor (concat ml)" by auto
  obtain i' where i': "id_to_cbor i = Inr i'" "id_from_cbor i' = Inr i" "wf_cbor i'" using id_codec.encodes by blast
  obtain m' where "member_to_cbor m = Inr m'" "member_from_cbor m' = Inr m" "wf_cbor m'" using Cons.prems e member.encodes by auto
  with ml i' e show ?case by (intro exI [of _ "[i', m'] # ml"]) simp
qed simp

lemma collect_group_enc:
  "list_all (\<lambda>(k, p). valid_utf8 k \<and> wf_gp p) gs \<Longrightarrow>
   \<exists>xs. collect_results (\<lambda>(k, p). and_then (gp_to_cbor p) (\<lambda>v. Inr (k, v))) gs = Inr xs \<and> map fst xs = map fst gs \<and>
     list_all2 (\<lambda>(k, v) (k', p). k = k' \<and> gp_from_cbor v = Inr p \<and> wf_cbor v) xs gs"
proof (induction gs)
  case (Cons e gs)
  obtain k p where e: "e = (k, p)" by force
  obtain x where x: "gp_to_cbor p = Inr x" "gp_from_cbor x = Inr p" "wf_cbor x" using Cons.prems e gp.encodes by auto
  obtain xs where "collect_results (\<lambda>(k, p). and_then (gp_to_cbor p) (\<lambda>v. Inr (k, v))) gs = Inr xs" "map fst xs = map fst gs"
     "list_all2 (\<lambda>(k, v) (k', p). k = k' \<and> gp_from_cbor v = Inr p \<and> wf_cbor v) xs gs" using Cons by auto
  with x e show ?case by (intro exI [of _ "(k, x) # xs"]) simp
qed simp

lemma collect_group_dec:
  "(\<And>k v. (k, v) \<in> set m \<Longrightarrow> gp_from_cbor v = Inr (f k)) \<Longrightarrow>
   collect_results (\<lambda>(k, v). and_then (gp_from_cbor v) (\<lambda>p. Inr (k, p))) m = Inr (map (\<lambda>(k, v). (k, f k)) m)"
  using collect_results_map [of m "\<lambda>(k, v). and_then (gp_from_cbor v) (\<lambda>p. Inr (k, p))" "\<lambda>x. x" "\<lambda>(k, v). (k, f k)"] by auto

lemma group_roundtrip:
  assumes "bt_sorted cmp_str gs" "list_all (\<lambda>(k, p). valid_utf8 k \<and> wf_gp p) gs"
  shows "\<exists>xs. collect_results (\<lambda>(k, p). and_then (gp_to_cbor p) (\<lambda>v. Inr (k, v))) gs = Inr xs \<and>
    wf_cbor (CMap (foldl (\<lambda>t (k, v). bt_insert cmp_cbor_string k v t) [] xs)) \<and>
    (\<exists>ys. collect_results (\<lambda>(k, v). and_then (gp_from_cbor v) (\<lambda>p. Inr (k, p))) (foldl (\<lambda>t (k, v). bt_insert cmp_cbor_string k v t) [] xs) = Inr ys \<and>
       foldl (\<lambda>t (k, p). bt_insert cmp_str k p t) [] ys = gs)"
proof -
  obtain xs where xs: "collect_results (\<lambda>(k, p). and_then (gp_to_cbor p) (\<lambda>v. Inr (k, v))) gs = Inr xs" "map fst xs = map fst gs"
      "list_all2 (\<lambda>(k, v) (k', p). k = k' \<and> gp_from_cbor v = Inr p \<and> wf_cbor v) xs gs"
    using collect_group_enc [OF assms(2)] by blast
  have dist: "distinct (map fst gs)" using str_key.sorted_distinct [OF _ assms(1)] by simp
  have utf: "list_all valid_utf8 (map fst xs)" using assms(2) by (auto simp: xs(2) list_all_iff)
  let ?m = "foldl (\<lambda>t (k, v). bt_insert cmp_cbor_string k v t) [] xs"
  note m = cbor_key.bt_collect [OF utf, unfolded xs(2), OF dist]
  have elem: "gp_from_cbor v = Inr (the (map_of gs k)) \<and> wf_cbor v \<and> map_of gs k \<noteq> None" if "(k, v) \<in> set ?m" for k v
  proof -
    have "map_of xs k = Some v" using that cbor_key.sorted_distinct [OF m(2,1)] by (simp flip: m(3))
    then have "(k, v) \<in> set xs" by (rule map_of_SomeD)
    then obtain p where "(k, p) \<in> set gs" "gp_from_cbor v = Inr p" "wf_cbor v"
      using xs(3) by (fastforce simp: list_all2_conv_all_nth in_set_conv_nth)
    then show ?thesis using dist by simp
  qed
  let ?ys = "map (\<lambda>(k, v). (k, the (map_of gs k))) ?m"
  have ys: "collect_results (\<lambda>(k, v). and_then (gp_from_cbor v) (\<lambda>p. Inr (k, p))) ?m = Inr ?ys"
    by (rule collect_group_dec) (use elem in blast)
  have dom: "fst ` set ?m = fst ` set gs"
    using m(3) xs(2) by (metis dom_map_of_conv_image_fst list.set_map)
  have mys: "map_of ?ys k = map_of gs k" for k
  proof -
    have "map_of ?ys k = (if k \<in> fst ` set ?m then Some (the (map_of gs k)) else None)"
      by (rule map_of_keyed)
    then show ?thesis unfolding dom by (auto simp: map_of_eq_None_iff dom_map_of_conv_image_fst) (metis domIff dom_map_of_conv_image_fst image_eqI fst_conv option.collapse)
  qed
  have "distinct (map fst ?ys)" using cbor_key.sorted_distinct [OF m(2,1)] by (simp add: comp_def case_prod_unfold)
  then have "foldl (\<lambda>t (k, p). bt_insert cmp_str k p t) [] ?ys = gs"
    using str_key.bt_collect [of ?ys] mys assms(1) by (intro str_map_eqI ext) simp_all
  moreover have "wf_cbor (CMap ?m)" using m(1,2) elem by (auto simp: list_all_iff)
  ultimately show ?thesis using xs(1) ys by blast
qed

interpretation chat_codec: cbor_codec chat_to_cbor chat_from_cbor wf_stored
proof
  fix c
  assume wf: "wf_stored c"
  then have wfc: "wf_chat c" by (simp add: wf_stored_def)
  have parts: "list_all (\<lambda>(i, m). wf_member m) (members c)" "list_all (\<lambda>(k, p). valid_utf8 k \<and> wf_gp p) (group_state c)"
      "list_all wf_envelope (recent_messages c)"
    using wf by (simp_all add: wf_stored_def)
  obtain ml where ml: "collect_results (\<lambda>(i, m). and_then (id_to_cbor i) (\<lambda>i'. and_then (member_to_cbor m) (\<lambda>m'. Inr [i', m']))) (members c) = Inr ml"
      "member_pairs (concat ml) = Inr (members c)" "even (length (concat ml))" "list_all wf_cbor (concat ml)"
    using members_roundtrip [OF parts(1)] by (elim exE conjE) (rule that)
  have ms: "foldl (\<lambda>t (i, m). bt_insert cmp_id i m t) [] (members c) = members c"
    using id_key.bt_rebuild wf_chatD(5) [OF wfc] by simp
  obtain xs ys where gs: "collect_results (\<lambda>(k, p). and_then (gp_to_cbor p) (\<lambda>v. Inr (k, v))) (group_state c) = Inr xs"
      "wf_cbor (CMap (foldl (\<lambda>t (k, v). bt_insert cmp_cbor_string k v t) [] xs))"
      "collect_results (\<lambda>(k, v). and_then (gp_from_cbor v) (\<lambda>p. Inr (k, p))) (foldl (\<lambda>t (k, v). bt_insert cmp_cbor_string k v t) [] xs) = Inr ys"
      "foldl (\<lambda>t (k, p). bt_insert cmp_str k p t) [] ys = group_state c"
    using group_roundtrip [OF wf_chatD(4) [OF wfc] parts(2)] by (elim exE conjE) (rule that)
  obtain h where h: "id_to_cbor (host c) = Inr h" "id_from_cbor h = Inr (host c)" "wf_cbor h" using id_codec.encodes by blast
  obtain t where t: "clock_to_cbor (current c) = Inr t" "clock_from_cbor t = Inr (current c)" "wf_cbor t"
    using clock_codec.encodes [OF wf_chatD(3) [OF wfc]] by blast
  obtain rl where rl: "collect_results envelope_to_cbor (recent_messages c) = Inr rl" "collect_results envelope_from_cbor rl = Inr (recent_messages c)"
      "list_all wf_cbor rl"
    using parts(3) by (rule envelope.encodes_list)
  let ?x = "build (put ''r'' (CList rl) (put ''g'' (CMap (foldl (\<lambda>t (k, v). bt_insert cmp_cbor_string k v t) [] xs))
    (put ''m'' (CList (concat ml)) (put ''c'' t (put ''h'' h (put ''i'' (CStr (chat_uid c)) (put ''v'' (CLong 0) map_builder)))))))"
  have enc: "chat_to_cbor c = Inr ?x" using ml(1) gs(1) h(1) t(1) rl(1) by (simp add: chat_to_cbor_def)
  have wfx: "wf_cbor ?x" using ml(4) gs(2) h(3) t(3) rl(3) wf by (simp add: wf_stored_def)
  have m: "as_map ?x \<noteq> None" by (simp add: build_def)
  have "chat_from_cbor ?x = Inr c"
    using m ml(2,3) ms gs(3,4) h(2) t(2) rl(2) by (auto simp: chat_from_cbor_def field_def Let_def)
  then show "\<exists>x. chat_to_cbor c = Inr x \<and> chat_from_cbor x = Inr c \<and> wf_cbor x" using enc wfx by blast
qed

text \<open>
  C28. A chat survives storage: a well-formed chat serialises to bytes from which the same chat is read back,
  members and group properties in their order although CBOR orders its keys differently.
\<close>

theorem chat_roundtrip:
  assumes "wf_stored c"
  shows "\<exists>bs. serialize chat_to_cbor c = Inr bs \<and> (length bs < 2 ^ 64 \<longrightarrow> parse chat_from_cbor bs = Inr c)"
  using assms by (rule chat_codec.bytes_roundtrip)

theorem chat_roundtrip_witness:
  "\<exists>bs. serialize chat_to_cbor (create_new ''chat'' ''ann'' demo_owner) = Inr bs \<and> (length bs < 2 ^ 64 \<longrightarrow> parse chat_from_cbor bs = Inr (create_new ''chat'' ''ann'' demo_owner))"
proof (rule chat_roundtrip)
  show "wf_stored (create_new ''chat'' ''ann'' demo_owner)"
    using wf_create_new [of "''chat''" "''ann''" demo_owner] demo_owner_wf
    by (simp add: wf_stored_def create_new_def member_simple_def wf_member_def)
qed

section \<open>Message store\<close>

lemma clamp_of_nat: "i < 2 ^ 63 \<Longrightarrow> clamp (of_nat i) n = min i n"
  using signed_take_bit_int_eq_self [of 63 "int i"] by (simp add: clamp_def signed_of_nat)

text \<open>
  The in-memory message log: appended messages are read back from the index where the log ended, a
  window between two indices is that slice of the log, and negative or too large indices are clamped, so no
  index panics.
\<close>

theorem message_store_reads:
  assumes "length (messages st) < 2 ^ 63" "i < 2 ^ 63" "j < 2 ^ 63"
  shows "get_messages_from (add_messages st ms) (of_nat (length (messages st))) = ms \<and>
    get_messages st (of_nat i) (of_nat j) = take (j - i) (drop i (messages st)) \<and>
    get_messages_from st (of_nat i) = drop i (messages st) \<and>
    (k <s 0 \<longrightarrow> get_messages_from st k = messages st \<and> get_messages st k (of_nat j) = take j (messages st))"
proof -
  have "clamp k n = 0" if "k <s 0" for n using that by (simp add: clamp_def word_sless_alt)
  then show ?thesis
    using assms by (auto simp: get_messages_from_def get_messages_def add_messages_def clamp_of_nat Let_def min_def)
qed

theorem message_store_reads_witness:
  "get_messages_from (add_messages rms_new [demo_signed]) 0 = [demo_signed]"
  using message_store_reads [of rms_new 0 0 "[demo_signed]" 0] by (simp add: rms_new_def)

end
