(* ===== verification/Sync_State.thy ===== *)
theory Sync_State
  imports Ordered_Maps
begin

text \<open>
  The state of the directory synchroniser (\<open>peergos-sync/src/file_state.rs\<close>, \<open>state.rs\<close>): what was last seen of a file,
  and the in-memory tree that indexes files by path and by content hash.  \<open>HashMap\<close> and \<open>HashSet\<close> are kept
  in key order; their iteration order is only used to build ordered sets.
\<close>

section \<open>File states\<close>

definition LEGACY_CHUNK_SIZE :: u64 where
  "LEGACY_CHUNK_SIZE = 5 * 1024 * 1024"

definition DEFAULT_CHUNK_SIZE :: u64 where
  "DEFAULT_CHUNK_SIZE = 4 * 1024 * 1024"

definition chunk_size_for_new_files :: u64 where
  "chunk_size_for_new_files = LEGACY_CHUNK_SIZE"

definition chunk_size_from_log2 :: "i64 \<Rightarrow> error + u64" where
  "chunk_size_from_log2 log2 =
     (if \<not> (0 \<le>s log2 \<and> log2 \<le>s 30) then Inl (CborMsg ''Unsupported chunk size in file properties'')
      else let sz = push_bit (unat log2) 1
           in if sz \<noteq> DEFAULT_CHUNK_SIZE \<and> sz \<noteq> LEGACY_CHUNK_SIZE
              then Inl (CborMsg ''Unsupported chunk size in file properties'') else Inr sz)"

text \<open>\<open>u64::trailing_zeros\<close>, which is 64 on zero.\<close>

primrec trailing_zeros_upto :: "nat \<Rightarrow> u64 \<Rightarrow> nat" where
  "trailing_zeros_upto 0 w = 0"
| "trailing_zeros_upto (Suc n) w = (if bit w 0 then 0 else Suc (trailing_zeros_upto n (drop_bit 1 w)))"

definition trailing_zeros :: "u64 \<Rightarrow> nat" where
  "trailing_zeros w = trailing_zeros_upto 64 w"

record file_state =
  rel_path :: string
  modification_time :: i64
  file_size :: u64
  file_hash :: bytes
  chunk_size :: u64

definition file_state_new :: "string \<Rightarrow> i64 \<Rightarrow> u64 \<Rightarrow> bytes \<Rightarrow> file_state" where
  "file_state_new p t sz h =
     \<lparr>rel_path = p, modification_time = t, file_size = sz, file_hash = h, chunk_size = LEGACY_CHUNK_SIZE\<rparr>"

definition with_chunk_size :: "file_state \<Rightarrow> u64 \<Rightarrow> file_state" where
  "with_chunk_size f cs = f\<lparr>chunk_size := cs\<rparr>"

definition file_state_to_cbor :: "file_state \<Rightarrow> error + cbor" where
  "file_state_to_cbor f =
     (let b = put ''h'' (CByteString (file_hash f)) (put ''s'' (CLong (file_size f))
        (put ''m'' (CLong (modification_time f)) (put ''r'' (CStr (rel_path f)) map_builder)))
      in Inr (build (if chunk_size f \<noteq> LEGACY_CHUNK_SIZE
        then put ''cs'' (CLong (of_nat (trailing_zeros (chunk_size f)))) b else b)))"

text \<open>Missing fields get defaults; the hash is cut or padded to 32 bytes.\<close>

definition file_state_from_cbor :: "cbor \<Rightarrow> error + file_state" where
  "file_state_from_cbor c =
     (let r = (case Option.bind (cbor_get c ''r'') as_string of Some s \<Rightarrow> s | None \<Rightarrow> []);
          m = (case Option.bind (cbor_get c ''m'') as_long of Some v \<Rightarrow> v | None \<Rightarrow> 0);
          sz = (case Option.bind (cbor_get c ''s'') as_long of Some v \<Rightarrow> v | None \<Rightarrow> 0);
          b = (case Option.bind (cbor_get c ''h'') as_byte_string of Some v \<Rightarrow> v | None \<Rightarrow> [])
      in and_then (case Option.bind (cbor_get c ''cs'') as_long of
             Some log2 \<Rightarrow> chunk_size_from_log2 log2
           | None \<Rightarrow> Inr LEGACY_CHUNK_SIZE) (\<lambda>cs.
         Inr \<lparr>rel_path = r, modification_time = m, file_size = sz,
              file_hash = take 32 b @ replicate (32 - length b) 0, chunk_size = cs\<rparr>))"

definition equals_ignore_modtime :: "file_state \<Rightarrow> file_state \<Rightarrow> bool" where
  "equals_ignore_modtime a b \<longleftrightarrow> rel_path a = rel_path b \<and> file_size a = file_size b \<and> file_hash a = file_hash b"

section \<open>The tree state\<close>

definition cmp_bytes :: "bytes \<Rightarrow> bytes \<Rightarrow> ordering" where
  "cmp_bytes a b = cmp_slice cmp a b"

record copy_op =
  is_local_target :: bool
  op_source :: string
  op_target :: string
  source_state :: file_state
  target_state :: file_state

record ram_tree_state =
  files_by_path :: "(string, file_state) btree"
  files_by_hash :: "(bytes, string list) btree"
  dirs :: string_set
  local_deletes :: string_set
  remote_deletes :: string_set
  completed_sync :: bool
  in_progress_copies :: "copy_op list"

definition tree_new :: ram_tree_state where
  "tree_new = \<lparr>files_by_path = [], files_by_hash = [], dirs = [], local_deletes = [], remote_deletes = [],
     completed_sync = False, in_progress_copies = []\<rparr>"

definition set_completed_sync :: "ram_tree_state \<Rightarrow> bool \<Rightarrow> ram_tree_state" where
  "set_completed_sync t d = t\<lparr>completed_sync := d\<rparr>"

definition tree_files_count :: "ram_tree_state \<Rightarrow> nat" where
  "tree_files_count t = length (files_by_path t)"

definition all_file_paths :: "ram_tree_state \<Rightarrow> string list" where
  "all_file_paths t = map fst (files_by_path t)"

text \<open>Dropping a path from the paths of a hash, and the hash when no path is left.\<close>

definition drop_hashed :: "string \<Rightarrow> bytes \<Rightarrow> (bytes, string list) btree \<Rightarrow> (bytes, string list) btree" where
  "drop_hashed path h m =
     (case bt_get cmp_bytes h m of
        Some paths \<Rightarrow>
          let left = filter (\<lambda>p. p \<noteq> path) paths
          in if left = [] then bt_remove cmp_bytes h m else bt_insert cmp_bytes h left m
      | None \<Rightarrow> m)"

definition tree_remove :: "ram_tree_state \<Rightarrow> string \<Rightarrow> ram_tree_state" where
  "tree_remove t path =
     (case bt_get cmp_str path (files_by_path t) of
        Some f \<Rightarrow> t\<lparr>files_by_path := bt_remove cmp_str path (files_by_path t),
                    files_by_hash := drop_hashed path (file_hash f) (files_by_hash t)\<rparr>
      | None \<Rightarrow> t)"

definition tree_add :: "ram_tree_state \<Rightarrow> file_state \<Rightarrow> ram_tree_state" where
  "tree_add t f =
     (let t' = (case bt_get cmp_str (rel_path f) (files_by_path t) of
            Some old \<Rightarrow> t\<lparr>files_by_path := bt_remove cmp_str (rel_path f) (files_by_path t),
                          files_by_hash := drop_hashed (rel_path f) (file_hash old) (files_by_hash t)\<rparr>
          | None \<Rightarrow> t);
          paths = (case bt_get cmp_bytes (file_hash f) (files_by_hash t') of Some ps \<Rightarrow> ps | None \<Rightarrow> [])
      in t'\<lparr>files_by_path := bt_insert cmp_str (rel_path f) f (files_by_path t'),
            files_by_hash := bt_insert cmp_bytes (file_hash f) (paths @ [rel_path f]) (files_by_hash t')\<rparr>)"

definition by_path :: "ram_tree_state \<Rightarrow> string \<Rightarrow> file_state option" where
  "by_path t path = bt_get cmp_str path (files_by_path t)"

definition by_hash :: "ram_tree_state \<Rightarrow> bytes \<Rightarrow> file_state list" where
  "by_hash t h =
     (case bt_get cmp_bytes h (files_by_hash t) of
        Some paths \<Rightarrow> List.map_filter (by_path t) paths
      | None \<Rightarrow> [])"

definition add_dir :: "ram_tree_state \<Rightarrow> string \<Rightarrow> ram_tree_state" where
  "add_dir t p = t\<lparr>dirs := set_add p (dirs t)\<rparr>"

definition remove_dir :: "ram_tree_state \<Rightarrow> string \<Rightarrow> ram_tree_state" where
  "remove_dir t p = t\<lparr>dirs := bt_remove cmp_str p (dirs t)\<rparr>"

definition has_dir :: "ram_tree_state \<Rightarrow> string \<Rightarrow> bool" where
  "has_dir t p = set_has p (dirs t)"

definition get_dirs :: "ram_tree_state \<Rightarrow> string list" where
  "get_dirs t = map fst (dirs t)"

definition add_local_delete :: "ram_tree_state \<Rightarrow> string \<Rightarrow> ram_tree_state" where
  "add_local_delete t p = t\<lparr>local_deletes := set_add p (local_deletes t)\<rparr>"

definition remove_local_delete :: "ram_tree_state \<Rightarrow> string \<Rightarrow> ram_tree_state" where
  "remove_local_delete t p = t\<lparr>local_deletes := bt_remove cmp_str p (local_deletes t)\<rparr>"

definition has_local_delete :: "ram_tree_state \<Rightarrow> string \<Rightarrow> bool" where
  "has_local_delete t p = set_has p (local_deletes t)"

definition add_remote_delete :: "ram_tree_state \<Rightarrow> string \<Rightarrow> ram_tree_state" where
  "add_remote_delete t p = t\<lparr>remote_deletes := set_add p (remote_deletes t)\<rparr>"

definition remove_remote_delete :: "ram_tree_state \<Rightarrow> string \<Rightarrow> ram_tree_state" where
  "remove_remote_delete t p = t\<lparr>remote_deletes := bt_remove cmp_str p (remote_deletes t)\<rparr>"

definition has_remote_delete :: "ram_tree_state \<Rightarrow> string \<Rightarrow> bool" where
  "has_remote_delete t p = set_has p (remote_deletes t)"

definition start_copies :: "ram_tree_state \<Rightarrow> copy_op list \<Rightarrow> ram_tree_state" where
  "start_copies t ops = t\<lparr>in_progress_copies := in_progress_copies t @ ops\<rparr>"

definition finish_copies :: "ram_tree_state \<Rightarrow> copy_op list \<Rightarrow> ram_tree_state" where
  "finish_copies t ops =
     t\<lparr>in_progress_copies := foldl (\<lambda>cs oper. filter (\<lambda>c. op_target c \<noteq> op_target oper) cs) (in_progress_copies t) ops\<rparr>"

section \<open>The two indexes agree\<close>

interpretation bytes_key: ord_key cmp_bytes "\<lambda>_. True"
proof
  fix a b d :: bytes
  have t: "list_all (\<lambda>_. True) xs" for xs :: bytes by simp
  show "cmp_bytes a b = Equal \<longleftrightarrow> a = b" unfolding cmp_bytes_def linorder_key.slice_equal [OF t t] ..
  show "cmp_bytes b a = reverse_ord (cmp_bytes a b)" unfolding cmp_bytes_def by (rule linorder_key.slice_swap [OF t t])
  show "cmp_bytes a b = Less \<Longrightarrow> cmp_bytes b d = Less \<Longrightarrow> cmp_bytes a d = Less"
    unfolding cmp_bytes_def by (rule linorder_key.slice_trans [OF t t t])
qed

lemma bt_get_bytes [simp]: "bt_get cmp_bytes k m = map_of m k"
  by (rule bytes_key.bt_get_map_of) simp_all

lemma map_of_bytes_insert: "bt_sorted cmp_bytes m \<Longrightarrow> map_of (bt_insert cmp_bytes k v m) = (map_of m)(k \<mapsto> v)"
  by (rule bytes_key.map_of_bt_insert) simp_all

lemma map_of_bytes_remove: "bt_sorted cmp_bytes m \<Longrightarrow> map_of (bt_remove cmp_bytes k m) = (map_of m)(k := None)"
  by (rule bytes_key.map_of_bt_remove) simp_all

lemma map_of_str_remove: "bt_sorted cmp_str m \<Longrightarrow> map_of (bt_remove cmp_str k m) = (map_of m)(k := None)"
  by (rule str_key.map_of_bt_remove) simp_all

text \<open>The paths stored under a hash.\<close>

definition hashed :: "ram_tree_state \<Rightarrow> bytes \<Rightarrow> string list" where
  "hashed t h = (case map_of (files_by_hash t) h of Some ps \<Rightarrow> ps | None \<Rightarrow> [])"

definition wf_tree :: "ram_tree_state \<Rightarrow> bool" where
  "wf_tree t \<longleftrightarrow> bt_sorted cmp_str (files_by_path t) \<and> bt_sorted cmp_bytes (files_by_hash t) \<and>
     (\<forall>p f. map_of (files_by_path t) p = Some f \<longrightarrow> rel_path f = p) \<and>
     (\<forall>h. distinct (hashed t h) \<and> map_of (files_by_hash t) h \<noteq> Some [] \<and>
        set (hashed t h) = {p. \<exists>f. map_of (files_by_path t) p = Some f \<and> file_hash f = h})"

lemma wf_treeD:
  assumes "wf_tree t"
  shows "bt_sorted cmp_str (files_by_path t)" "bt_sorted cmp_bytes (files_by_hash t)"
    "map_of (files_by_path t) p = Some f \<Longrightarrow> rel_path f = p" "distinct (hashed t h)" "map_of (files_by_hash t) h \<noteq> Some []"
    "p \<in> set (hashed t h) \<longleftrightarrow> (\<exists>f. map_of (files_by_path t) p = Some f \<and> file_hash f = h)"
  using assms unfolding wf_tree_def by blast+

lemma drop_hashed_map:
  assumes "bt_sorted cmp_bytes m"
  shows "bt_sorted cmp_bytes (drop_hashed path h m)"
    "map_of (drop_hashed path h m) h' =
       (if h' = h then (case map_of m h of Some ps \<Rightarrow> if filter (\<lambda>p. p \<noteq> path) ps = [] then None else Some (filter (\<lambda>p. p \<noteq> path) ps) | None \<Rightarrow> None)
        else map_of m h')"
  using assms
  by (auto simp: drop_hashed_def Let_def map_of_bytes_remove map_of_bytes_insert
      intro: bytes_key.sorted_bt_remove bytes_key.sorted_bt_insert split: option.splits)

lemma hashed_drop:
  assumes "wf_tree t"
  shows "hashed (t\<lparr>files_by_hash := drop_hashed path h (files_by_hash t), files_by_path := fp\<rparr>) h' =
    (if h' = h then filter (\<lambda>p. p \<noteq> path) (hashed t h) else hashed t h')"
  using assms by (auto simp: hashed_def wf_tree_def drop_hashed_map split: option.splits)

lemma tree_remove_map:
  assumes "wf_tree t"
  shows "wf_tree (tree_remove t path)" "map_of (files_by_path (tree_remove t path)) = (map_of (files_by_path t))(path := None)"
proof -
  show m: "map_of (files_by_path (tree_remove t path)) = (map_of (files_by_path t))(path := None)"
    using assms by (auto simp: tree_remove_def wf_tree_def map_of_str_remove split: option.splits)
  show "wf_tree (tree_remove t path)"
  proof (cases "map_of (files_by_path t) path")
    case (Some f)
    let ?t = "t\<lparr>files_by_hash := drop_hashed path (file_hash f) (files_by_hash t), files_by_path := bt_remove cmp_str path (files_by_path t)\<rparr>"
    have t: "tree_remove t path = ?t" using Some by (simp add: tree_remove_def)
    have "bt_sorted cmp_str (files_by_path ?t)" "bt_sorted cmp_bytes (files_by_hash ?t)"
      using assms by (auto simp: wf_tree_def drop_hashed_map intro: str_key.sorted_bt_remove)
    moreover have "map_of (files_by_path ?t) p = Some g \<Longrightarrow> rel_path g = p" for p g
      using assms m unfolding t by (auto simp: wf_tree_def split: if_splits)
    moreover have "distinct (hashed ?t h) \<and> map_of (files_by_hash ?t) h \<noteq> Some [] \<and>
        set (hashed ?t h) = {p. \<exists>g. map_of (files_by_path ?t) p = Some g \<and> file_hash g = h}" for h
    proof -
      have "set (hashed ?t h) = {p. \<exists>g. map_of (files_by_path ?t) p = Some g \<and> file_hash g = h}"
        using assms Some m unfolding t hashed_drop [OF assms] by (auto simp: wf_tree_def)
      moreover have "distinct (hashed ?t h)" unfolding hashed_drop [OF assms] using assms by (simp add: wf_tree_def)
      moreover have "map_of (files_by_hash ?t) h \<noteq> Some []"
        using assms by (auto simp: wf_tree_def drop_hashed_map split: option.splits)
      ultimately show ?thesis by blast
    qed
    ultimately show ?thesis unfolding t wf_tree_def by blast
  next
    case None
    then show ?thesis using assms by (simp add: tree_remove_def)
  qed
qed

lemma tree_add_as_remove:
  "tree_add t f = (let t' = tree_remove t (rel_path f) in
     t'\<lparr>files_by_path := bt_insert cmp_str (rel_path f) f (files_by_path t'),
        files_by_hash := bt_insert cmp_bytes (file_hash f) (hashed t' (file_hash f) @ [rel_path f]) (files_by_hash t')\<rparr>)"
  by (cases "map_of (files_by_path t) (rel_path f)") (simp_all add: tree_add_def tree_remove_def hashed_def Let_def)

lemma tree_add_map:
  assumes "wf_tree t"
  shows "wf_tree (tree_add t f)" "map_of (files_by_path (tree_add t f)) = (map_of (files_by_path t))(rel_path f \<mapsto> f)"
proof -
  let ?u = "tree_remove t (rel_path f)"
  note u = tree_remove_map [OF assms, of "rel_path f"]
  have srt: "bt_sorted cmp_str (files_by_path ?u)" "bt_sorted cmp_bytes (files_by_hash ?u)" using wf_treeD(1,2) [OF u(1)] .
  have m: "map_of (files_by_path (tree_add t f)) = (map_of (files_by_path ?u))(rel_path f \<mapsto> f)"
    by (simp add: tree_add_as_remove Let_def map_of_str_insert [OF srt(1)])
  then show "map_of (files_by_path (tree_add t f)) = (map_of (files_by_path t))(rel_path f \<mapsto> f)" by (simp add: u(2))
  have h: "map_of (files_by_hash (tree_add t f)) = (map_of (files_by_hash ?u))(file_hash f \<mapsto> hashed ?u (file_hash f) @ [rel_path f])"
    by (simp add: tree_add_as_remove Let_def map_of_bytes_insert [OF srt(2)])
  have hd: "hashed (tree_add t f) h = (if h = file_hash f then hashed ?u h @ [rel_path f] else hashed ?u h)" for h
    by (simp add: hashed_def h)
  have "bt_sorted cmp_str (files_by_path (tree_add t f))" "bt_sorted cmp_bytes (files_by_hash (tree_add t f))"
    using srt by (simp_all add: tree_add_as_remove Let_def sorted_str_insert bytes_key.sorted_bt_insert)
  moreover have "map_of (files_by_path (tree_add t f)) p = Some g \<Longrightarrow> rel_path g = p" for p g
    using wf_treeD(3) [OF u(1), of p g] by (cases "p = rel_path f") (auto simp: m)
  moreover have "distinct (hashed (tree_add t f) h) \<and> map_of (files_by_hash (tree_add t f)) h \<noteq> Some [] \<and>
      set (hashed (tree_add t f) h) = {p. \<exists>g. map_of (files_by_path (tree_add t f)) p = Some g \<and> file_hash g = h}" for h
  proof -
    have fresh: "rel_path f \<notin> set (hashed ?u h)" using wf_treeD(6) [OF u(1), of "rel_path f" h] u(2) by simp
    have "p \<in> set (hashed (tree_add t f) h) \<longleftrightarrow> (\<exists>g. map_of (files_by_path (tree_add t f)) p = Some g \<and> file_hash g = h)" for p
      using wf_treeD(6) [OF u(1), of p h] u(2) by (cases "p = rel_path f") (auto simp: hd m)
    then have "set (hashed (tree_add t f) h) = {p. \<exists>g. map_of (files_by_path (tree_add t f)) p = Some g \<and> file_hash g = h}" by blast
    moreover have "map_of (files_by_hash (tree_add t f)) h \<noteq> Some []" using wf_treeD(5) [OF u(1), of h] by (simp add: h)
    moreover have "distinct (hashed (tree_add t f) h)" using fresh wf_treeD(4) [OF u(1), of h] by (auto simp: hd)
    ultimately show ?thesis by blast
  qed
  ultimately show "wf_tree (tree_add t f)" unfolding wf_tree_def by blast
qed

lemma by_hash_files:
  assumes "wf_tree t"
  shows "distinct (by_hash t h)" "set (by_hash t h) = {f. by_path t (rel_path f) = Some f \<and> file_hash f = h}"
proof -
  let ?g = "\<lambda>p. the (by_path t p)"
  have mem: "p \<in> set (hashed t h) \<longleftrightarrow> (\<exists>f. by_path t p = Some f \<and> file_hash f = h)" for p
    using wf_treeD(6) [OF assms] by (simp add: by_path_def)
  have "by_hash t h = List.map_filter (by_path t) (hashed t h)"
    by (simp add: by_hash_def hashed_def List.map_filter_def split: option.splits)
  also have "\<dots> = map ?g (hashed t h)"
  proof -
    have "filter (\<lambda>x. by_path t x \<noteq> None) (hashed t h) = hashed t h" using mem by (intro filter_True) auto
    then show ?thesis by (simp add: List.map_filter_def comp_def)
  qed
  finally have eq: "by_hash t h = map ?g (hashed t h)" .
  have path: "by_path t p = Some f \<Longrightarrow> rel_path f = p" for p f
    using wf_treeD(3) [OF assms] by (simp add: by_path_def)
  have "inj_on ?g (set (hashed t h))"
  proof (rule inj_onI)
    fix x y
    assume "x \<in> set (hashed t h)" "y \<in> set (hashed t h)" "?g x = ?g y"
    then show "x = y" using mem path by (metis option.sel)
  qed
  then show "distinct (by_hash t h)" using wf_treeD(4) [OF assms] by (simp add: eq distinct_map)
  show "set (by_hash t h) = {f. by_path t (rel_path f) = Some f \<and> file_hash f = h}"
  proof (intro set_eqI iffI)
    fix f
    assume "f \<in> set (by_hash t h)"
    then obtain p where "p \<in> set (hashed t h)" "f = ?g p" by (auto simp: eq)
    then obtain "by_path t p = Some f" "file_hash f = h" using mem by auto
    then show "f \<in> {f. by_path t (rel_path f) = Some f \<and> file_hash f = h}" using path by simp
  next
    fix f
    assume "f \<in> {f. by_path t (rel_path f) = Some f \<and> file_hash f = h}"
    then have "rel_path f \<in> set (hashed t h)" "?g (rel_path f) = f" using mem by auto
    then show "f \<in> set (by_hash t h)" by (metis eq imageI list.set_map)
  qed
qed

lemma wf_tree_new [simp]: "wf_tree tree_new"
  by (simp add: wf_tree_def tree_new_def hashed_def)

datatype tree_op = AddFile file_state | RemoveFile string

fun run_tree :: "ram_tree_state \<Rightarrow> tree_op \<Rightarrow> ram_tree_state" where
  "run_tree t (AddFile f) = tree_add t f"
| "run_tree t (RemoveFile p) = tree_remove t p"

fun spec_tree :: "(string \<rightharpoonup> file_state) \<Rightarrow> tree_op \<Rightarrow> (string \<rightharpoonup> file_state)" where
  "spec_tree m (AddFile f) = m(rel_path f \<mapsto> f)"
| "spec_tree m (RemoveFile p) = m(p := None)"

lemma run_tree_spec:
  "wf_tree t \<Longrightarrow> wf_tree (foldl run_tree t ops) \<and> by_path (foldl run_tree t ops) = foldl spec_tree (by_path t) ops"
proof (induction ops arbitrary: t)
  case (Cons x ops)
  have "wf_tree (run_tree t x) \<and> by_path (run_tree t x) = spec_tree (by_path t) x"
    using Cons.prems tree_add_map tree_remove_map by (cases x) (auto simp: by_path_def fun_eq_iff)
  then show ?case using Cons.IH by simp
qed simp

text \<open>
  C24. The tree state is a map from paths to files with an index by content: after any sequence of additions
  and removals, the lookup by path is that of the map, and the lookup by hash gives each file of the map with
  that hash exactly once.
\<close>

theorem tree_state_refines:
  "by_path (foldl run_tree tree_new ops) = foldl spec_tree Map.empty ops \<and>
   distinct (by_hash (foldl run_tree tree_new ops) h) \<and>
   set (by_hash (foldl run_tree tree_new ops) h) = {f. foldl spec_tree Map.empty ops (rel_path f) = Some f \<and> file_hash f = h}"
proof -
  have "by_path tree_new = Map.empty" by (simp add: by_path_def tree_new_def fun_eq_iff)
  then show ?thesis using run_tree_spec [OF wf_tree_new, of ops] by_hash_files [of "foldl run_tree tree_new ops" h] by simp
qed

section \<open>CBOR\<close>

definition wf_file_state :: "file_state \<Rightarrow> bool" where
  "wf_file_state f \<longleftrightarrow> valid_utf8 (rel_path f) \<and> length (file_hash f) = 32 \<and> chunk_size f \<in> {LEGACY_CHUNK_SIZE, DEFAULT_CHUNK_SIZE}"

lemma default_log2: "chunk_size_from_log2 (of_nat (trailing_zeros DEFAULT_CHUNK_SIZE)) = Inr DEFAULT_CHUNK_SIZE"
  by code_simp

interpretation file_state_codec: cbor_codec file_state_to_cbor file_state_from_cbor wf_file_state
proof
  fix f
  assume wf: "wf_file_state f"
  show "\<exists>x. file_state_to_cbor f = Inr x \<and> file_state_from_cbor x = Inr f \<and> wf_cbor x"
  proof (cases "chunk_size f = LEGACY_CHUNK_SIZE")
    case True
    then show ?thesis using wf by (simp add: file_state_to_cbor_def file_state_from_cbor_def wf_file_state_def)
  next
    case False
    then have "chunk_size f = DEFAULT_CHUNK_SIZE" using wf by (simp add: wf_file_state_def)
    then show ?thesis using wf False default_log2
      by (simp add: file_state_to_cbor_def file_state_from_cbor_def wf_file_state_def Let_def)
  qed
qed

text \<open>
  A file state with one of the two chunk sizes in use is read back from its bytes, sizes above two to the
  sixty-third included.
\<close>

theorem file_state_roundtrip:
  assumes "wf_file_state f"
  shows "\<exists>bs. serialize file_state_to_cbor f = Inr bs \<and> (length bs < 2 ^ 64 \<longrightarrow> parse file_state_from_cbor bs = Inr f)"
  using assms by (rule file_state_codec.bytes_roundtrip)

definition demo_file :: "string \<Rightarrow> byte \<Rightarrow> u64 \<Rightarrow> file_state" where
  "demo_file p h sz = file_state_new p 1000 sz (replicate 32 h)"

theorem file_state_roundtrip_witness:
  "\<exists>bs. serialize file_state_to_cbor (with_chunk_size (demo_file ''a'' 1 (2 ^ 63)) DEFAULT_CHUNK_SIZE) = Inr bs \<and>
     (length bs < 2 ^ 64 \<longrightarrow> parse file_state_from_cbor bs = Inr (with_chunk_size (demo_file ''a'' 1 (2 ^ 63)) DEFAULT_CHUNK_SIZE))"
  by (rule file_state_roundtrip) (simp add: wf_file_state_def demo_file_def with_chunk_size_def file_state_new_def)

end
