(* ===== verification/Sync.thy ===== *)
theory Sync
  imports Sync_State
begin

text \<open>
  The directory synchroniser (\<open>peergos-sync/src/filesystem.rs\<close>, \<open>sync.rs\<close>).  The two sides are file systems given by their
  operations (a \<open>sync_fs\<close>) on states of their own; a \<open>world\<close> holds both states and the tree of what was last synced.
  An error abandons the run; what was done up to then is not described.  Paths are relative, separated by
  slashes, without empty or dot components, as a walk of a tree yields them.  Iterating over a hash map has no fixed order,
  so a \<open>sync_config\<close> holds the orders used.
\<close>

section \<open>Paths\<close>

fun find_last :: "char \<Rightarrow> string \<Rightarrow> nat option" where
  "find_last c [] = None"
| "find_last c (x # s) = (case find_last c s of Some i \<Rightarrow> Some (Suc i) | None \<Rightarrow> if x = c then Some 0 else None)"

definition split_path :: "string \<Rightarrow> string \<times> string" where
  "split_path p = (case find_last CHR ''/'' p of Some i \<Rightarrow> (take i p, drop (i + 1) p) | None \<Rightarrow> ([], p))"

text \<open>\<open>Path::file_name\<close>, \<open>Path::parent\<close> and \<open>Path::join\<close>.\<close>

definition file_name :: "string \<Rightarrow> string option" where
  "file_name p = (let n = snd (split_path p) in if n = [] \<or> n = ''..'' then None else Some n)"

definition path_parent :: "string \<Rightarrow> string option" where
  "path_parent p = (if p = [] then None else Some (fst (split_path p)))"

definition path_join :: "string \<Rightarrow> string \<Rightarrow> string" where
  "path_join d n = (if d = [] \<or> d = ''.'' then n else d @ ''/'' @ n)"

section \<open>File systems\<close>

record file_props =
  props_path :: string
  modified_time :: i64
  props_size :: u64

record upload_file =
  upload_name :: string
  upload_size :: u64
  upload_data :: bytes

record upload_folder =
  folder_path :: "string list"
  folder_files :: "upload_file list"

text \<open>\<open>apply_to_subtree\<close> is the list of files and the list of directories it visits.\<close>

record 's sync_fs =
  fs_exists :: "'s \<Rightarrow> string \<Rightarrow> error + bool"
  fs_mkdirs :: "'s \<Rightarrow> string \<Rightarrow> error + 's"
  fs_delete :: "'s \<Rightarrow> string \<Rightarrow> error + 's"
  fs_bulk_delete :: "'s \<Rightarrow> string \<Rightarrow> string list \<Rightarrow> error + 's"
  fs_move_to :: "'s \<Rightarrow> string \<Rightarrow> string \<Rightarrow> error + 's"
  fs_get_last_modified :: "'s \<Rightarrow> string \<Rightarrow> error + i64"
  fs_set_modification_time :: "'s \<Rightarrow> string \<Rightarrow> i64 \<Rightarrow> error + 's"
  fs_read :: "'s \<Rightarrow> string \<Rightarrow> error + bytes"
  fs_write :: "'s \<Rightarrow> string \<Rightarrow> bytes \<Rightarrow> u64 \<Rightarrow> error + 's"
  fs_hash_file :: "'s \<Rightarrow> string \<Rightarrow> u64 \<Rightarrow> u64 \<Rightarrow> error + bytes \<times> u64"
  fs_upload_subtree :: "'s \<Rightarrow> upload_folder list \<Rightarrow> error + 's"
  fs_walk :: "'s \<Rightarrow> error + file_props list \<times> file_props list"

record ('l, 'r) world =
  local_side :: 'l
  remote_side :: 'r
  synced :: ram_tree_state

record sync_config =
  sync_local_deletes :: bool
  sync_remote_deletes :: bool
  order_folders :: "upload_folder list \<Rightarrow> upload_folder list"
  order_by_folder :: "(string \<times> string_set) list \<Rightarrow> (string \<times> string_set) list"
  order_children :: "string list \<Rightarrow> string list"
  rename_fuel :: nat

section \<open>Scanning a side\<close>

definition zero_hash :: bytes where
  "zero_hash = replicate 32 0"

definition scan_entry :: "ram_tree_state \<Rightarrow> file_props \<Rightarrow> file_state" where
  "scan_entry known p =
     (case by_path known (props_path p) of
        Some f \<Rightarrow> if modification_time f = modified_time p \<and> file_size f = props_size p then f
                  else file_state_new (props_path p) (modified_time p) (props_size p) zero_hash
      | None \<Rightarrow> file_state_new (props_path p) (modified_time p) (props_size p) zero_hash)"

fun hash_pending :: "'s sync_fs \<Rightarrow> 's \<Rightarrow> ram_tree_state \<Rightarrow> ram_tree_state \<Rightarrow> file_state list \<Rightarrow> error + ram_tree_state" where
  "hash_pending F s known res [] = Inr res"
| "hash_pending F s known res (f # fs) =
     and_then (fs_hash_file F s (rel_path f) (file_size f)
         (case by_path known (rel_path f) of Some g \<Rightarrow> chunk_size g | None \<Rightarrow> chunk_size_for_new_files)) (\<lambda>(h, cs).
       hash_pending F s known
         (tree_add res (with_chunk_size (file_state_new (rel_path f) (modification_time f) (file_size f) h) cs)) fs)"

definition build_dir_state :: "'s sync_fs \<Rightarrow> 's \<Rightarrow> ram_tree_state \<Rightarrow> ram_tree_state \<Rightarrow> error + ram_tree_state" where
  "build_dir_state F s res known =
     and_then (fs_walk F s) (\<lambda>(files, ds).
       let entries = map (scan_entry known) files
       in and_then (hash_pending F s known (foldl add_dir res (map props_path ds)) (filter (\<lambda>f. file_hash f = zero_hash) entries)) (\<lambda>t.
          Inr (foldl tree_add t (filter (\<lambda>f. file_hash f \<noteq> zero_hash) entries))))"

definition is_ignored :: "string \<Rightarrow> bool" where
  "is_ignored n \<longleftrightarrow> n = ''.DS_Store''"

section \<open>Copying and renaming\<close>

definition make_parent :: "'s sync_fs \<Rightarrow> 's \<Rightarrow> string \<Rightarrow> error + 's" where
  "make_parent F s p =
     (case path_parent p of Some d \<Rightarrow> if d \<noteq> [] then fs_mkdirs F s d else Inr s | None \<Rightarrow> Inr s)"

definition copy_down :: "'l sync_fs \<Rightarrow> 'r sync_fs \<Rightarrow> ('l, 'r) world \<Rightarrow> string \<Rightarrow> error + ('l, 'r) world" where
  "copy_down L R w p =
     and_then (make_parent L (local_side w) p) (\<lambda>l.
     and_then (fs_read R (remote_side w) p) (\<lambda>data.
     and_then (fs_write L l p data 0) (\<lambda>l'. Inr (w\<lparr>local_side := l'\<rparr>))))"

definition copy_up :: "'l sync_fs \<Rightarrow> 'r sync_fs \<Rightarrow> ('l, 'r) world \<Rightarrow> string \<Rightarrow> error + ('l, 'r) world" where
  "copy_up L R w p =
     and_then (make_parent R (remote_side w) p) (\<lambda>r.
     and_then (fs_read L (local_side w) p) (\<lambda>data.
     and_then (fs_write R r p data 0) (\<lambda>r'. Inr (w\<lparr>remote_side := r'\<rparr>))))"

definition record_synced :: "file_state \<Rightarrow> ('l, 'r) world \<Rightarrow> ('l, 'r) world" where
  "record_synced f w = w\<lparr>synced := tree_add (synced w) f\<rparr>"

definition forget_synced :: "string \<Rightarrow> ('l, 'r) world \<Rightarrow> ('l, 'r) world" where
  "forget_synced p w = w\<lparr>synced := tree_remove (synced w) p\<rparr>"

text \<open>\<open>exists(..).unwrap_or(false)\<close>\<close>

definition exists_or_false :: "'s sync_fs \<Rightarrow> 's \<Rightarrow> string \<Rightarrow> bool" where
  "exists_or_false F s p = (case fs_exists F s p of Inr b \<Rightarrow> b | Inl _ \<Rightarrow> False)"

text \<open>
  The two loops of \<open>rename_on_conflict\<close>.  The first tests the same candidate in every round; the second counts
  up from the given version, as a \<open>u32\<close>.
\<close>

primrec retry_same :: "nat \<Rightarrow> 's sync_fs \<Rightarrow> 's \<Rightarrow> string \<Rightarrow> string \<Rightarrow> error + string" where
  "retry_same 0 F s d candidate = Inl FuelExhausted"
| "retry_same (Suc n) F s d candidate =
     (if \<not> exists_or_false F s (path_join d candidate) then Inr candidate else retry_same n F s d candidate)"

definition fresh_candidate :: "string \<Rightarrow> u32 \<Rightarrow> string" where
  "fresh_candidate n v =
     (case find_last CHR ''.'' n of
        Some dot \<Rightarrow> take dot n @ ''[conflict-'' @ show_nat (unat v) @ '']'' @ drop dot n
      | None \<Rightarrow> n @ ''[conflict-'' @ show_nat (unat v) @ '']'')"

primrec retry_next :: "nat \<Rightarrow> 's sync_fs \<Rightarrow> 's \<Rightarrow> string \<Rightarrow> string \<Rightarrow> u32 \<Rightarrow> error + string" where
  "retry_next 0 F s d n v = Inl FuelExhausted"
| "retry_next (Suc k) F s d n v =
     (if \<not> exists_or_false F s (path_join d (fresh_candidate n v)) then Inr (fresh_candidate n v)
      else retry_next k F s d n (v + 1))"

text \<open>The name after a conflict with a file that already is a conflict copy: slicing past the end panics.\<close>

definition renamed_again :: "string \<Rightarrow> nat \<Rightarrow> error + string" where
  "renamed_again n cs =
     (let closing = find_char CHR '']'' (drop cs n);
          after = cs + (case closing of Some i \<Rightarrow> i + 1 | None \<Rightarrow> length n);
          upto = (case closing of Some i \<Rightarrow> cs + i | None \<Rightarrow> length n);
          ver = (case parse_u32 (take (upto - (cs + 10)) (drop (cs + 10) n)) of Some v \<Rightarrow> v | None \<Rightarrow> 0)
      in if length n < after then Inl Panicked
         else Inr (take cs n @ ''[conflict-'' @ show_nat (unat (ver + 1)) @ '']'' @ drop after n))"

definition conflict_name :: "nat \<Rightarrow> 's sync_fs \<Rightarrow> 's \<Rightarrow> string \<Rightarrow> string \<Rightarrow> error + string" where
  "conflict_name fuel F s d n =
     (case find_sub ''[conflict-'' n of
        Some cs \<Rightarrow> and_then (renamed_again n cs) (retry_same fuel F s d)
      | None \<Rightarrow> retry_next fuel F s d n 0)"

definition strip_suffix :: "string \<Rightarrow> string \<Rightarrow> string option" where
  "strip_suffix suf s =
     (if length suf \<le> length s \<and> drop (length s - length suf) s = suf then Some (take (length s - length suf) s) else None)"

definition rename_on_conflict :: "nat \<Rightarrow> 's sync_fs \<Rightarrow> 's \<Rightarrow> string \<Rightarrow> file_state \<Rightarrow> error + 's \<times> file_state" where
  "rename_on_conflict fuel F s path f =
     and_then (ok_or Panicked (file_name path)) (\<lambda>n.
       let d = (case path_parent path of Some d \<Rightarrow> d | None \<Rightarrow> ''.'')
       in and_then (conflict_name fuel F s d n) (\<lambda>new_name.
          and_then (fs_move_to F s path (path_join d new_name)) (\<lambda>s'.
            let t = (case fs_get_last_modified F s' (path_join d new_name) of Inr t \<Rightarrow> t | Inl _ \<Rightarrow> modification_time f);
                p = (case strip_suffix n (rel_path f) of Some prefix \<Rightarrow> prefix @ new_name | None \<Rightarrow> new_name)
            in Inr (s', with_chunk_size (file_state_new p t (file_size f) (file_hash f)) (chunk_size f)))))"

text \<open>A conflict: the local version is renamed, the remote one copied down, the renamed one copied up.\<close>

definition keep_both :: "nat \<Rightarrow> 'l sync_fs \<Rightarrow> 'r sync_fs \<Rightarrow> ('l, 'r) world \<Rightarrow> file_state \<Rightarrow> file_state \<Rightarrow> error + ('l, 'r) world" where
  "keep_both fuel L R w l r =
     and_then (rename_on_conflict fuel L (local_side w) (rel_path l) l) (\<lambda>(s, renamed).
     and_then (copy_down L R (w\<lparr>local_side := s\<rparr>) (rel_path r)) (\<lambda>w1.
     and_then (copy_up L R (record_synced r w1) (rel_path renamed)) (\<lambda>w2.
       Inr (record_synced renamed w2))))"

section \<open>Handlers of one path\<close>

text \<open>The files with a hash that only one side has, and the twin of a path among those of the other side.\<close>

definition extras :: "file_state list \<Rightarrow> file_state list \<Rightarrow> file_state list" where
  "extras xs ys = filter (\<lambda>f. f \<notin> set ys) xs"

fun position_of :: "string \<Rightarrow> file_state list \<Rightarrow> nat option" where
  "position_of p [] = None"
| "position_of p (f # fs) = (if rel_path f = p then Some 0 else map_option Suc (position_of p fs))"

definition at_hashed_path :: "file_state list \<Rightarrow> file_state list \<Rightarrow> ram_tree_state \<Rightarrow> string \<Rightarrow> file_state option" where
  "at_hashed_path theirs ours t p =
     (if length theirs = length ours then
        Option.bind (position_of p ours) (\<lambda>i. if i < length theirs then by_path t (rel_path (theirs ! i)) else None)
      else None)"

definition handle_remote_addition ::
  "'l sync_fs \<Rightarrow> 'r sync_fs \<Rightarrow> ram_tree_state \<Rightarrow> ram_tree_state \<Rightarrow> ('l, 'r) world \<Rightarrow> file_state \<Rightarrow> error + ('l, 'r) world" where
  "handle_remote_addition L R local_tree remote_tree w r =
     (let extra_local = extras (by_hash local_tree (file_hash r)) (by_hash remote_tree (file_hash r));
          extra_remote = extras (by_hash remote_tree (file_hash r)) (by_hash local_tree (file_hash r))
      in if length extra_local = length extra_remote \<and> at_hashed_path extra_local extra_remote remote_tree (rel_path r) = None then
           and_then (ok_or Panicked (position_of (rel_path r) extra_remote)) (\<lambda>i.
             if \<not> exists_or_false R (remote_side w) (rel_path r) then Inr w
             else and_then (fs_move_to L (local_side w) (rel_path (extra_local ! i)) (rel_path r)) (\<lambda>l.
               Inr (record_synced r (forget_synced (rel_path (extra_local ! i)) (w\<lparr>local_side := l\<rparr>)))))
         else and_then (copy_down L R w (rel_path r)) (\<lambda>w'. Inr (record_synced r w')))"

definition handle_local_addition ::
  "'l sync_fs \<Rightarrow> 'r sync_fs \<Rightarrow> ram_tree_state \<Rightarrow> ram_tree_state \<Rightarrow> ('l, 'r) world \<Rightarrow> file_state \<Rightarrow> error + ('l, 'r) world" where
  "handle_local_addition L R local_tree remote_tree w l =
     (let extra_remote = extras (by_hash remote_tree (file_hash l)) (by_hash local_tree (file_hash l));
          extra_local = extras (by_hash local_tree (file_hash l)) (by_hash remote_tree (file_hash l))
      in if length extra_remote = length extra_local \<and> at_hashed_path extra_remote extra_local local_tree (rel_path l) = None then
           and_then (ok_or Panicked (position_of (rel_path l) extra_local)) (\<lambda>i.
             if \<not> exists_or_false L (local_side w) (rel_path l) then Inr w
             else and_then (fs_move_to R (remote_side w) (rel_path (extra_remote ! i)) (rel_path l)) (\<lambda>r.
               Inr (record_synced l (forget_synced (rel_path (extra_remote ! i)) (w\<lparr>remote_side := r\<rparr>)))))
         else and_then (copy_up L R w (rel_path l)) (\<lambda>w'. Inr (record_synced l w')))"

definition handle_concurrent_addition ::
  "sync_config \<Rightarrow> 'l sync_fs \<Rightarrow> 'r sync_fs \<Rightarrow> ('l, 'r) world \<Rightarrow> file_state \<Rightarrow> file_state \<Rightarrow> error + ('l, 'r) world" where
  "handle_concurrent_addition C L R w l r =
     (if file_hash l = file_hash r then
        if modification_time r <s modification_time l then
          and_then (fs_set_modification_time R (remote_side w) (rel_path l) (modification_time l)) (\<lambda>s.
            Inr (record_synced l (w\<lparr>remote_side := s\<rparr>)))
        else if modification_time l <s modification_time r then
          and_then (fs_set_modification_time L (local_side w) (rel_path l) (modification_time r)) (\<lambda>s.
            Inr (record_synced r (w\<lparr>local_side := s\<rparr>)))
        else Inr (record_synced l w)
      else keep_both (rename_fuel C) L R w l r)"

definition handle_local_delete ::
  "sync_config \<Rightarrow> 'l sync_fs \<Rightarrow> 'r sync_fs \<Rightarrow> ram_tree_state \<Rightarrow> ram_tree_state \<Rightarrow> ('l, 'r) world \<Rightarrow> file_state \<Rightarrow> file_state \<Rightarrow>
   error + ('l, 'r) world" where
  "handle_local_delete C L R local_tree remote_tree w s r =
     (if equals_ignore_modtime s r then
        let extra_remote = extras (by_hash remote_tree (file_hash r)) (by_hash local_tree (file_hash r));
            extra_local = extras (by_hash local_tree (file_hash r)) (by_hash remote_tree (file_hash r))
        in if length extra_remote = length extra_local \<and> at_hashed_path extra_remote extra_local local_tree (rel_path s) = None
           then Inr w
           else if sync_local_deletes C then
             and_then (fs_delete R (remote_side w) (rel_path s)) (\<lambda>r'. Inr (forget_synced (rel_path s) (w\<lparr>remote_side := r'\<rparr>)))
           else Inr (w\<lparr>synced := add_local_delete (synced w) (rel_path s)\<rparr>)
      else if file_hash r = file_hash s then Inr (record_synced r w)
      else and_then (copy_down L R w (rel_path r)) (\<lambda>w'.
        let w'' = record_synced r w'
        in Inr (if \<not> sync_local_deletes C \<and> has_local_delete (synced w'') (rel_path r)
                then w''\<lparr>synced := remove_local_delete (synced w'') (rel_path r)\<rparr> else w'')))"

definition handle_remote_delete ::
  "sync_config \<Rightarrow> 'l sync_fs \<Rightarrow> 'r sync_fs \<Rightarrow> ram_tree_state \<Rightarrow> ram_tree_state \<Rightarrow> ('l, 'r) world \<Rightarrow> file_state \<Rightarrow> file_state \<Rightarrow>
   error + ('l, 'r) world" where
  "handle_remote_delete C L R local_tree remote_tree w s l =
     (if equals_ignore_modtime s l then
        let extra_local = extras (by_hash local_tree (file_hash l)) (by_hash remote_tree (file_hash l));
            extra_remote = extras (by_hash remote_tree (file_hash l)) (by_hash local_tree (file_hash l))
        in if length extra_local = length extra_remote \<and> at_hashed_path extra_local extra_remote remote_tree (rel_path s) = None
           then Inr w
           else if sync_remote_deletes C then
             and_then (fs_delete L (local_side w) (rel_path s)) (\<lambda>l'. Inr (forget_synced (rel_path s) (w\<lparr>local_side := l'\<rparr>)))
           else Inr (w\<lparr>synced := add_remote_delete (synced w) (rel_path s)\<rparr>)
      else if file_hash l = file_hash s then Inr (record_synced l w)
      else and_then (copy_up L R w (rel_path l)) (\<lambda>w'.
        let w'' = record_synced l w'
        in Inr (if \<not> sync_remote_deletes C \<and> has_remote_delete (synced w'') (rel_path l)
                then w''\<lparr>synced := remove_remote_delete (synced w'') (rel_path l)\<rparr> else w'')))"

definition handle_concurrent_change ::
  "sync_config \<Rightarrow> 'l sync_fs \<Rightarrow> 'r sync_fs \<Rightarrow> ('l, 'r) world \<Rightarrow> file_state \<Rightarrow> file_state \<Rightarrow> file_state \<Rightarrow> error + ('l, 'r) world" where
  "handle_concurrent_change C L R w s l r =
     (if l = r then Inr (record_synced l w)
      else if file_hash s = file_hash r then and_then (copy_up L R w (rel_path l)) (\<lambda>w'. Inr (record_synced l w'))
      else keep_both (rename_fuel C) L R w l r)"

text \<open>Pending deletions of a path that is in sync again, when deletions are not propagated.\<close>

definition settle_deletes :: "sync_config \<Rightarrow> string \<Rightarrow> ram_tree_state \<Rightarrow> ram_tree_state" where
  "settle_deletes C p t =
     (let t = (if \<not> sync_local_deletes C \<and> has_local_delete t p then remove_local_delete t p else t)
      in if \<not> sync_remote_deletes C \<and> has_remote_delete t p then remove_remote_delete t p else t)"

definition handle_both_exist ::
  "sync_config \<Rightarrow> 'l sync_fs \<Rightarrow> 'r sync_fs \<Rightarrow> ('l, 'r) world \<Rightarrow> file_state \<Rightarrow> file_state \<Rightarrow> file_state \<Rightarrow> error + ('l, 'r) world" where
  "handle_both_exist C L R w s l r =
     (if equals_ignore_modtime s l then
        if file_hash r = file_hash l then
          Inr ((record_synced l w)\<lparr>synced := settle_deletes C (rel_path r) (synced (record_synced l w))\<rparr>)
        else if has_remote_delete (synced w) (rel_path r) then
          and_then (keep_both (rename_fuel C) L R w l r) (\<lambda>w'.
            Inr (w'\<lparr>synced := remove_remote_delete (synced w') (rel_path r)\<rparr>))
        else and_then (copy_down L R w (rel_path r)) (\<lambda>w'. Inr (record_synced r w'))
      else if equals_ignore_modtime s r then
        if file_hash l = file_hash r then
          Inr ((record_synced l w)\<lparr>synced := settle_deletes C (rel_path l) (synced (record_synced l w))\<rparr>)
        else if has_local_delete (synced w) (rel_path l) then
          and_then (keep_both (rename_fuel C) L R w l r) (\<lambda>w'.
            Inr (w'\<lparr>synced := remove_local_delete (synced w') (rel_path l)\<rparr>))
        else and_then (copy_up L R w (rel_path l)) (\<lambda>w'. Inr (record_synced l w'))
      else handle_concurrent_change C L R w s l r)"

definition sync_file ::
  "sync_config \<Rightarrow> 'l sync_fs \<Rightarrow> 'r sync_fs \<Rightarrow> ram_tree_state \<Rightarrow> ram_tree_state \<Rightarrow> ('l, 'r) world \<Rightarrow>
   file_state option \<Rightarrow> file_state option \<Rightarrow> file_state option \<Rightarrow> error + ('l, 'r) world" where
  "sync_file C L R local_tree remote_tree w at_sync l r =
     (case at_sync of
        None \<Rightarrow>
          (case (l, r) of
             (None, Some r) \<Rightarrow> handle_remote_addition L R local_tree remote_tree w r
           | (Some l, None) \<Rightarrow> handle_local_addition L R local_tree remote_tree w l
           | (Some l, Some r) \<Rightarrow> handle_concurrent_addition C L R w l r
           | (None, None) \<Rightarrow> Inr w)
      | Some s \<Rightarrow>
          (case (l, r) of
             (None, None) \<Rightarrow> Inr (forget_synced (rel_path s) w)
           | (None, Some r) \<Rightarrow> handle_local_delete C L R local_tree remote_tree w s r
           | (Some l, None) \<Rightarrow> handle_remote_delete C L R local_tree remote_tree w s l
           | (Some l, Some r) \<Rightarrow> handle_both_exist C L R w s l r))"

section \<open>One run\<close>

text \<open>The first pass keeps the paths that need work, in order.\<close>

definition same_file :: "file_state \<Rightarrow> file_state \<Rightarrow> bool" where
  "same_file l r \<longleftrightarrow> file_hash l = file_hash r \<and> modification_time l = modification_time r \<and> file_size l = file_size r"

fun first_pass ::
  "sync_config \<Rightarrow> ram_tree_state \<Rightarrow> ram_tree_state \<Rightarrow> ram_tree_state \<Rightarrow> string list \<Rightarrow> string list \<Rightarrow> ram_tree_state \<times> string list" where
  "first_pass C local_tree remote_tree t changed [] = (t, changed)"
| "first_pass C local_tree remote_tree t changed (p # ps) =
     (let l = by_path local_tree p; r = by_path remote_tree p; s = by_path t p in
      if (case (l, r) of (Some l, Some r) \<Rightarrow> same_file l r | _ \<Rightarrow> False) then
        let t' = (case (s, l) of (None, Some l) \<Rightarrow> tree_add t l | _ \<Rightarrow> t)
        in first_pass C local_tree remote_tree (settle_deletes C p t') changed ps
      else if (case (l, r, s) of
            (Some l, Some r, Some s) \<Rightarrow> file_hash l = file_hash r \<and> (equals_ignore_modtime s l \<or> equals_ignore_modtime s r)
          | _ \<Rightarrow> False) then
        first_pass C local_tree remote_tree (settle_deletes C p t) changed ps
      else if is_ignored (case file_name p of Some n \<Rightarrow> n | None \<Rightarrow> []) then
        first_pass C local_tree remote_tree t changed ps
      else first_pass C local_tree remote_tree t (changed @ [p]) ps)"

text \<open>The second pass picks batches of small files to upload and the files to delete remotely in bulk.\<close>

definition BATCH_MAX_COUNT :: u64 where
  "BATCH_MAX_COUNT = 1000"

definition BATCH_MAX_SIZE :: u64 where
  "BATCH_MAX_SIZE = 100 * 1024 * 1024"

record plan =
  batches :: "string list list"
  batch_count :: u64
  batch_size :: u64
  to_delete :: "string list"
  done_files :: string_set

definition is_small_upload :: "ram_tree_state \<Rightarrow> ram_tree_state \<Rightarrow> ram_tree_state \<Rightarrow> string \<Rightarrow> bool" where
  "is_small_upload local_tree remote_tree t p =
     (by_path t p = None \<and> by_path remote_tree p = None \<and>
      (case by_path local_tree p of
         Some l \<Rightarrow> file_size l < chunk_size_for_new_files \<and>
           (let extra_remote = extras (by_hash remote_tree (file_hash l)) (by_hash local_tree (file_hash l));
                extra_local = extras (by_hash local_tree (file_hash l)) (by_hash remote_tree (file_hash l))
            in length extra_remote \<noteq> length extra_local \<or> at_hashed_path extra_remote extra_local local_tree p \<noteq> None)
       | None \<Rightarrow> False))"

definition is_bulk_delete :: "ram_tree_state \<Rightarrow> ram_tree_state \<Rightarrow> ram_tree_state \<Rightarrow> string \<Rightarrow> bool" where
  "is_bulk_delete local_tree remote_tree t p =
     (by_path local_tree p = None \<and>
      (case (by_path remote_tree p, by_path t p) of
         (Some r, Some s) \<Rightarrow> equals_ignore_modtime r s \<and>
           (let extra_local = extras (by_hash local_tree (file_hash r)) (by_hash remote_tree (file_hash r));
                extra_remote = extras (by_hash remote_tree (file_hash r)) (by_hash local_tree (file_hash r))
            in length extra_local \<noteq> length extra_remote \<or> at_hashed_path extra_local extra_remote remote_tree p \<noteq> None)
       | _ \<Rightarrow> False))"

text \<open>A batch that reaches a limit is closed before the file that reached it is added.\<close>

definition add_to_batch :: "u64 \<Rightarrow> string \<Rightarrow> plan \<Rightarrow> plan" where
  "add_to_batch sz p pl =
     (let n = batch_count pl + 1; total = batch_size pl + sz;
          full = BATCH_MAX_COUNT \<le> n \<or> BATCH_MAX_SIZE \<le> total;
          bs = (if full then batches pl @ [[]] else batches pl)
      in pl\<lparr>batches := butlast bs @ [last bs @ [p]], batch_count := (if full then 0 else n),
            batch_size := (if full then 0 else total), done_files := set_add p (done_files pl)\<rparr>)"

definition second_pass :: "ram_tree_state \<Rightarrow> ram_tree_state \<Rightarrow> ram_tree_state \<Rightarrow> string list \<Rightarrow> plan" where
  "second_pass local_tree remote_tree t paths =
     foldl (\<lambda>pl p.
       if is_small_upload local_tree remote_tree t p then
         add_to_batch (case by_path local_tree p of Some l \<Rightarrow> file_size l | None \<Rightarrow> 0) p pl
       else if is_bulk_delete local_tree remote_tree t p then
         pl\<lparr>to_delete := to_delete pl @ [p], done_files := set_add p (done_files pl)\<rparr>
       else pl)
     \<lparr>batches = [[]], batch_count = 0, batch_size = 0, to_delete = [], done_files = []\<rparr> paths"

fun gather_folders ::
  "'l sync_fs \<Rightarrow> 'l \<Rightarrow> ram_tree_state \<Rightarrow> (string, upload_folder) btree \<Rightarrow> string list \<Rightarrow> error + (string, upload_folder) btree" where
  "gather_folders L s local_tree m [] = Inr m"
| "gather_folders L s local_tree m (p # ps) =
     and_then (ok_or Panicked (by_path local_tree p)) (\<lambda>f.
     and_then (fs_read L s p) (\<lambda>data.
       let (d, n) = split_path p;
           folder = (case bt_get cmp_str d m of
               Some u \<Rightarrow> u
             | None \<Rightarrow> \<lparr>folder_path = (if d = [] then [] else split_on CHR ''/'' d), folder_files = []\<rparr>)
       in gather_folders L s local_tree
            (bt_insert cmp_str d (folder\<lparr>folder_files := folder_files folder @ [\<lparr>upload_name = n, upload_size = file_size f, upload_data = data\<rparr>]\<rparr>) m) ps))"

fun record_all :: "ram_tree_state \<Rightarrow> string list \<Rightarrow> ('l, 'r) world \<Rightarrow> error + ('l, 'r) world" where
  "record_all local_tree [] w = Inr w"
| "record_all local_tree (p # ps) w =
     and_then (ok_or Panicked (by_path local_tree p)) (\<lambda>f. record_all local_tree ps (record_synced f w))"

fun upload_batches ::
  "sync_config \<Rightarrow> 'l sync_fs \<Rightarrow> 'r sync_fs \<Rightarrow> ram_tree_state \<Rightarrow> string list list \<Rightarrow> ('l, 'r) world \<Rightarrow> error + ('l, 'r) world" where
  "upload_batches C L R local_tree [] w = Inr w"
| "upload_batches C L R local_tree (b # bs) w =
     (if b = [] then upload_batches C L R local_tree bs w
      else and_then (gather_folders L (local_side w) local_tree [] b) (\<lambda>m.
        and_then (fs_upload_subtree R (remote_side w) (order_folders C (map snd m))) (\<lambda>r.
        and_then (record_all local_tree b (w\<lparr>remote_side := r\<rparr>)) (upload_batches C L R local_tree bs))))"

text \<open>The files to delete by folder, or the deletions to remember when they are not propagated.\<close>

fun group_deletes ::
  "sync_config \<Rightarrow> ram_tree_state \<Rightarrow> (string, string_set) btree \<Rightarrow> string list \<Rightarrow> ram_tree_state \<times> (string, string_set) btree" where
  "group_deletes C t m [] = (t, m)"
| "group_deletes C t m (p # ps) =
     (if \<not> sync_local_deletes C then group_deletes C (add_local_delete t p) m ps
      else let (d, n) = split_path p;
               names = (case bt_get cmp_str d m of Some ns \<Rightarrow> ns | None \<Rightarrow> [])
           in group_deletes C t (bt_insert cmp_str d (set_add n names) m) ps)"

fun delete_folders ::
  "sync_config \<Rightarrow> 'r sync_fs \<Rightarrow> (string \<times> string_set) list \<Rightarrow> ('l, 'r) world \<Rightarrow> error + ('l, 'r) world" where
  "delete_folders C R [] w = Inr w"
| "delete_folders C R ((d, names) # fs) w =
     (let children = order_children C (map fst names)
      in and_then (fs_bulk_delete R (remote_side w) (if d = [] then ''.'' else d) children) (\<lambda>r.
         delete_folders C R fs (foldl (\<lambda>w n. forget_synced (if d = [] then n else d @ ''/'' @ n) w) (w\<lparr>remote_side := r\<rparr>) children)))"

fun sync_files ::
  "sync_config \<Rightarrow> 'l sync_fs \<Rightarrow> 'r sync_fs \<Rightarrow> ram_tree_state \<Rightarrow> ram_tree_state \<Rightarrow> string_set \<Rightarrow> string list \<Rightarrow> ('l, 'r) world \<Rightarrow>
   error + ('l, 'r) world" where
  "sync_files C L R local_tree remote_tree skip [] w = Inr w"
| "sync_files C L R local_tree remote_tree skip (p # ps) w =
     (if set_has p skip then sync_files C L R local_tree remote_tree skip ps w
      else and_then (sync_file C L R local_tree remote_tree w (by_path (synced w) p) (by_path local_tree p) (by_path remote_tree p))
        (sync_files C L R local_tree remote_tree skip ps))"

text \<open>Directories, longest path first.\<close>

definition dir_before :: "string \<Rightarrow> string \<Rightarrow> bool" where
  "dir_before a b \<longleftrightarrow> then_with (cmp (length b) (length a)) (cmp_str b a) \<noteq> Greater"

fun insert_dir :: "string \<Rightarrow> string list \<Rightarrow> string list" where
  "insert_dir d [] = [d]"
| "insert_dir d (e # es) = (if dir_before d e then d # e # es else e # insert_dir d es)"

definition sort_dirs :: "string list \<Rightarrow> string list" where
  "sort_dirs ds = foldr insert_dir ds []"

definition sync_one_dir ::
  "sync_config \<Rightarrow> 'l sync_fs \<Rightarrow> 'r sync_fs \<Rightarrow> ram_tree_state \<Rightarrow> ram_tree_state \<Rightarrow> string \<Rightarrow> ('l, 'r) world \<Rightarrow> error + ('l, 'r) world" where
  "sync_one_dir C L R local_tree remote_tree d w =
     (let has_local = has_dir local_tree d; has_remote = has_dir remote_tree d; has_synced = has_dir (synced w) d in
      if has_local \<and> has_remote then Inr (w\<lparr>synced := add_dir (synced w) d\<rparr>)
      else if \<not> has_local \<and> \<not> has_remote then Inr (w\<lparr>synced := remove_dir (synced w) d\<rparr>)
      else if has_local then
        if has_synced then
          if sync_remote_deletes C then
            and_then (fs_delete L (local_side w) d) (\<lambda>l. Inr (w\<lparr>local_side := l, synced := remove_dir (synced w) d\<rparr>))
          else Inr w
        else and_then (fs_mkdirs R (remote_side w) d) (\<lambda>r. Inr (w\<lparr>remote_side := r, synced := add_dir (synced w) d\<rparr>))
      else
        if has_synced then
          if sync_local_deletes C then
            and_then (fs_delete R (remote_side w) d) (\<lambda>r. Inr (w\<lparr>remote_side := r, synced := remove_dir (synced w) d\<rparr>))
          else Inr w
        else and_then (fs_mkdirs L (local_side w) d) (\<lambda>l. Inr (w\<lparr>local_side := l, synced := add_dir (synced w) d\<rparr>)))"

fun sync_dirs ::
  "sync_config \<Rightarrow> 'l sync_fs \<Rightarrow> 'r sync_fs \<Rightarrow> ram_tree_state \<Rightarrow> ram_tree_state \<Rightarrow> string list \<Rightarrow> ('l, 'r) world \<Rightarrow> error + ('l, 'r) world" where
  "sync_dirs C L R local_tree remote_tree [] w = Inr w"
| "sync_dirs C L R local_tree remote_tree (d # ds) w =
     and_then (sync_one_dir C L R local_tree remote_tree d w) (sync_dirs C L R local_tree remote_tree ds)"

text \<open>A \<open>BTreeSet\<close> of strings from a list.\<close>

definition string_set_of :: "string list \<Rightarrow> string_set" where
  "string_set_of xs = foldl (\<lambda>t x. set_add x t) [] xs"

definition sync_dir :: "sync_config \<Rightarrow> 'l sync_fs \<Rightarrow> 'r sync_fs \<Rightarrow> ('l, 'r) world \<Rightarrow> error + ('l, 'r) world" where
  "sync_dir C L R w =
     and_then (build_dir_state L (local_side w) tree_new (synced w)) (\<lambda>local_tree.
     and_then (build_dir_state R (remote_side w) tree_new (synced w)) (\<lambda>remote_tree.
       let paths = map fst (string_set_of (all_file_paths local_tree @ all_file_paths remote_tree));
           (t1, changed) = first_pass C local_tree remote_tree (synced w) [] paths;
           pl = second_pass local_tree remote_tree t1 changed
       in and_then (upload_batches C L R local_tree (batches pl) (w\<lparr>synced := t1\<rparr>)) (\<lambda>w1.
          let (t2, folders) = group_deletes C (synced w1) [] (to_delete pl)
          in and_then (delete_folders C R (order_by_folder C folders) (w1\<lparr>synced := t2\<rparr>)) (\<lambda>w2.
             and_then (sync_files C L R local_tree remote_tree (done_files pl) changed w2) (\<lambda>w3.
               sync_dirs C L R local_tree remote_tree
                 (sort_dirs (map fst (string_set_of (get_dirs local_tree @ get_dirs remote_tree @ get_dirs (synced w3))))) w3)))))"

end
