(* ===== verification/Sync_Fs.thy ===== *)
theory Sync_Fs
  imports Sync
begin

text \<open>
  What the synchroniser relies on of a file system, as a locale, and the local file system
  (\<open>peergos-sync/src/local_fs.rs\<close>) over a model of the operating system's files.
\<close>

section \<open>The contract of a side\<close>

text \<open>
  \<open>content\<close> gives the bytes of the file at a path.  Writing at offset zero puts the data at the start; what an
  older, longer file had after it may stay.
\<close>

locale sync_side =
  fixes F :: "'s sync_fs"
    and valid :: "'s \<Rightarrow> bool"
    and content :: "'s \<Rightarrow> string \<Rightarrow> bytes option"
  assumes read_content: "valid s \<Longrightarrow> fs_read F s p = Inr d \<Longrightarrow> content s p = Some d"
    and exists_content: "valid s \<Longrightarrow> content s p \<noteq> None \<Longrightarrow> fs_exists F s p = Inr True"
    and mkdirs_content: "valid s \<Longrightarrow> fs_mkdirs F s p = Inr s' \<Longrightarrow> valid s' \<and> content s' = content s"
    and write_content: "valid s \<Longrightarrow> fs_write F s p d 0 = Inr s' \<Longrightarrow>
      valid s' \<and> (\<exists>tail. content s' = (content s)(p \<mapsto> d @ tail) \<and> (content s p = None \<longrightarrow> tail = []))"
    and move_content: "valid s \<Longrightarrow> fs_move_to F s p q = Inr s' \<Longrightarrow> content s p = Some d \<Longrightarrow>
      valid s' \<and> content s' = (content s)(p := None, q \<mapsto> d)"
    and delete_content: "valid s \<Longrightarrow> fs_delete F s p = Inr s' \<Longrightarrow> content s p \<noteq> None \<Longrightarrow>
      valid s' \<and> content s' = (content s)(p := None)"
    and touch_content: "valid s \<Longrightarrow> fs_set_modification_time F s p t = Inr s' \<Longrightarrow> valid s' \<and> content s' = content s"
begin

lemma make_parent_content: "valid s \<Longrightarrow> make_parent F s p = Inr s' \<Longrightarrow> valid s' \<and> content s' = content s"
  by (auto simp: make_parent_def dest: mkdirs_content split: option.splits if_splits)

lemma absent_content: "valid s \<Longrightarrow> \<not> exists_or_false F s p \<Longrightarrow> content s p = None"
  using exists_content [of s p] by (cases "content s p") (auto simp: exists_or_false_def)

end

section \<open>The operating system's files\<close>

text \<open>
  Files with their bytes and modification times, and directories, all below the root; times of directories are given.
\<close>

record os_tree =
  os_files :: "(string, bytes \<times> i64) btree"
  os_dirs :: string_set
  os_now :: i64
  os_dir_time :: "string \<Rightarrow> i64"

definition is_root :: "string \<Rightarrow> bool" where
  "is_root p \<longleftrightarrow> p = [] \<or> p = ''.''"

definition is_os_file :: "os_tree \<Rightarrow> string \<Rightarrow> bool" where
  "is_os_file s p \<longleftrightarrow> bt_get cmp_str p (os_files s) \<noteq> None"

definition is_os_dir :: "os_tree \<Rightarrow> string \<Rightarrow> bool" where
  "is_os_dir s p \<longleftrightarrow> is_root p \<or> set_has p (os_dirs s)"

text \<open>A path with all its ancestors below the root.\<close>

fun path_prefixes :: "string \<Rightarrow> string list \<Rightarrow> string list" where
  "path_prefixes acc [] = []"
| "path_prefixes acc (c # cs) = (let q = path_join acc c in q # path_prefixes q cs)"

definition ancestors :: "string \<Rightarrow> string list" where
  "ancestors p = (if is_root p then [] else path_prefixes [] (split_on CHR ''/'' p))"

text \<open>\<open>fs::create_dir_all\<close>\<close>

definition create_dir_all :: "os_tree \<Rightarrow> string \<Rightarrow> error + os_tree" where
  "create_dir_all s p =
     (if list_ex (is_os_file s) (ancestors p) then Inl (Protocol ''not a directory'')
      else Inr (s\<lparr>os_dirs := foldl (\<lambda>t d. set_add d t) (os_dirs s) (ancestors p)\<rparr>))"

definition remove_file :: "os_tree \<Rightarrow> string \<Rightarrow> error + os_tree" where
  "remove_file s p =
     (if is_os_file s p then Inr (s\<lparr>os_files := bt_remove cmp_str p (os_files s)\<rparr>) else Inl (Protocol ''not a file''))"

text \<open>The entries directly in a directory.\<close>

definition child_of :: "string \<Rightarrow> string \<Rightarrow> bool" where
  "child_of d p \<longleftrightarrow> (if is_root d then fst (split_path p) = [] else fst (split_path p) = d)"

definition os_children :: "os_tree \<Rightarrow> string \<Rightarrow> string list" where
  "os_children s d = filter (child_of d) (map fst (os_files s) @ map fst (os_dirs s))"

definition remove_empty_dir :: "os_tree \<Rightarrow> string \<Rightarrow> error + os_tree" where
  "remove_empty_dir s p =
     (if \<not> set_has p (os_dirs s) \<or> os_children s p \<noteq> [] then Inl (Protocol ''delete failed'')
      else Inr (s\<lparr>os_dirs := bt_remove cmp_str p (os_dirs s)\<rparr>))"

text \<open>\<open>fs::remove_file\<close>, or else \<open>fs::remove_dir\<close>.\<close>

definition remove_entry :: "os_tree \<Rightarrow> string \<Rightarrow> error + os_tree" where
  "remove_entry s p = (case remove_file s p of Inr s' \<Rightarrow> Inr s' | Inl _ \<Rightarrow> remove_empty_dir s p)"

text \<open>\<open>fs::rename\<close>: a file replaces a file; a directory moves with what it holds, to a path that is free.\<close>

definition under_dir :: "string \<Rightarrow> string \<Rightarrow> bool" where
  "under_dir d p \<longleftrightarrow> take (length d + 1) p = d @ ''/''"

definition os_rename :: "os_tree \<Rightarrow> string \<Rightarrow> string \<Rightarrow> error + os_tree" where
  "os_rename s p q =
     (case bt_get cmp_str p (os_files s) of
        Some f \<Rightarrow>
          if is_os_dir s q then Inl (Protocol ''move failed'')
          else Inr (s\<lparr>os_files := bt_insert cmp_str q f (bt_remove cmp_str p (os_files s))\<rparr>)
      | None \<Rightarrow>
          if \<not> set_has p (os_dirs s) \<or> is_os_file s q \<or> under_dir p q then Inl (Protocol ''move failed'')
          else if p = q then Inr s
          else if set_has q (os_dirs s) \<and> os_children s q \<noteq> [] then Inl (Protocol ''move failed'')
          else let there = (\<lambda>x. if x = p \<or> under_dir p x then q @ drop (length p) x else x)
               in Inr (s\<lparr>os_files := foldl (\<lambda>t (x, f). bt_insert cmp_str (there x) f t) [] (os_files s),
                         os_dirs := foldl (\<lambda>t (x, _). set_add (there x) t) [] (os_dirs s)\<rparr>))"

section \<open>The local file system\<close>

definition local_exists :: "os_tree \<Rightarrow> string \<Rightarrow> error + bool" where
  "local_exists s p = Inr (is_os_file s p \<or> is_os_dir s p)"

definition local_mkdirs :: "os_tree \<Rightarrow> string \<Rightarrow> error + os_tree" where
  "local_mkdirs s p = (if is_os_dir s p then Inr s else create_dir_all s p)"

fun remove_files :: "os_tree \<Rightarrow> string list \<Rightarrow> error + os_tree" where
  "remove_files s [] = Inr s"
| "remove_files s (c # cs) = and_then (remove_file s c) (\<lambda>s'. remove_files s' cs)"

definition local_delete :: "os_tree \<Rightarrow> string \<Rightarrow> error + os_tree" where
  "local_delete s p =
     and_then (if is_os_dir s p then
         if \<not> list_all (\<lambda>c. is_ignored (snd (split_path c))) (os_children s p) then Inl (Protocol ''Dir not empty'')
         else remove_files s (os_children s p)
       else Inr s) (\<lambda>s'. remove_entry s' p)"

fun local_bulk_delete :: "os_tree \<Rightarrow> string \<Rightarrow> string list \<Rightarrow> error + os_tree" where
  "local_bulk_delete s d [] = Inr s"
| "local_bulk_delete s d (c # cs) =
     (let p = path_join d c
      in and_then (if is_os_file s p \<or> is_os_dir s p then remove_entry s p else Inr s) (\<lambda>s'. local_bulk_delete s' d cs))"

text \<open>The parent of a target below the root is at least the root, which exists.\<close>

definition make_os_parent :: "os_tree \<Rightarrow> string \<Rightarrow> error + os_tree" where
  "make_os_parent s p = create_dir_all s (fst (split_path p))"

definition local_move_to :: "os_tree \<Rightarrow> string \<Rightarrow> string \<Rightarrow> error + os_tree" where
  "local_move_to s p q = and_then (make_os_parent s q) (\<lambda>s'. os_rename s' p q)"

text \<open>Milliseconds since the epoch cut to whole seconds; a time before the epoch counts as the epoch.\<close>

definition to_seconds :: "i64 \<Rightarrow> i64" where
  "to_seconds t = (if t <s 0 then 0 else word_of_int (sint t div 1000 * 1000))"

definition local_get_last_modified :: "os_tree \<Rightarrow> string \<Rightarrow> error + i64" where
  "local_get_last_modified s p =
     (case bt_get cmp_str p (os_files s) of
        Some (_, t) \<Rightarrow> Inr (to_seconds t)
      | None \<Rightarrow> if is_os_dir s p then Inr (to_seconds (os_dir_time s p)) else Inl (Protocol ''no such file''))"

definition local_set_modification_time :: "os_tree \<Rightarrow> string \<Rightarrow> i64 \<Rightarrow> error + os_tree" where
  "local_set_modification_time s p t =
     (let t' = to_seconds t
      in case bt_get cmp_str p (os_files s) of
           Some (d, _) \<Rightarrow> Inr (s\<lparr>os_files := bt_insert cmp_str p (d, t') (os_files s)\<rparr>)
         | None \<Rightarrow> if is_os_dir s p then Inr (s\<lparr>os_dir_time := (os_dir_time s)(p := t')\<rparr>)
                  else Inl (Protocol ''set_modification_time failed''))"

definition local_size :: "os_tree \<Rightarrow> string \<Rightarrow> error + u64" where
  "local_size s p = and_then (ok_or (Protocol ''no such file'') (bt_get cmp_str p (os_files s))) (\<lambda>(d, _). Inr (of_nat (length d)))"

definition local_truncate :: "os_tree \<Rightarrow> string \<Rightarrow> u64 \<Rightarrow> error + os_tree" where
  "local_truncate s p sz =
     and_then (ok_or (Protocol ''no such file'') (bt_get cmp_str p (os_files s))) (\<lambda>(d, _).
       Inr (s\<lparr>os_files := bt_insert cmp_str p (take (unat sz) d @ replicate (unat sz - length d) 0, os_now s) (os_files s)\<rparr>))"

definition local_read :: "os_tree \<Rightarrow> string \<Rightarrow> error + bytes" where
  "local_read s p = and_then (ok_or (Protocol ''no such file'') (bt_get cmp_str p (os_files s))) (\<lambda>(d, _). Inr d)"

text \<open>The bytes of a file after writing \<open>data\<close> at an offset: the rest of the old ones stays.\<close>

definition written_at :: "nat \<Rightarrow> bytes \<Rightarrow> bytes \<Rightarrow> bytes" where
  "written_at off data old =
     (if data = [] then old else take off (old @ replicate (off - length old) 0) @ data @ drop (off + length data) old)"

definition local_write :: "os_tree \<Rightarrow> string \<Rightarrow> bytes \<Rightarrow> u64 \<Rightarrow> error + os_tree" where
  "local_write s p data off =
     and_then (make_os_parent s p) (\<lambda>s'.
       if is_os_dir s' p then Inl (Protocol ''is a directory'')
       else let old = (case bt_get cmp_str p (os_files s') of Some (d, _) \<Rightarrow> d | None \<Rightarrow> [])
            in Inr (s'\<lparr>os_files := bt_insert cmp_str p (written_at (unat off) data old, os_now s') (os_files s')\<rparr>))"

text \<open>The content hash of a file is a parameter.\<close>

definition local_hash_file :: "(bytes \<Rightarrow> u64 \<Rightarrow> bytes) \<Rightarrow> os_tree \<Rightarrow> string \<Rightarrow> u64 \<Rightarrow> u64 \<Rightarrow> error + bytes \<times> u64" where
  "local_hash_file hash_tree s p sz cs = and_then (local_read s p) (\<lambda>d. Inr (hash_tree (take (unat sz) d) cs, cs))"

fun upload_files :: "os_tree \<Rightarrow> string \<Rightarrow> upload_file list \<Rightarrow> error + os_tree" where
  "upload_files s d [] = Inr s"
| "upload_files s d (f # fs) =
     (let p = path_join d (upload_name f)
      in and_then (case path_parent p of Some q \<Rightarrow> if q \<noteq> [] then local_mkdirs s q else Inr s | None \<Rightarrow> Inr s) (\<lambda>s'.
         and_then (local_write s' p (upload_data f) 0) (\<lambda>s''. upload_files s'' d fs)))"

fun local_upload_subtree :: "os_tree \<Rightarrow> upload_folder list \<Rightarrow> error + os_tree" where
  "local_upload_subtree s [] = Inr s"
| "local_upload_subtree s (f # fs) =
     and_then (upload_files s (join_with ''/'' (folder_path f)) (folder_files f)) (\<lambda>s'. local_upload_subtree s' fs)"

text \<open>The files directly below the root.\<close>

definition local_files_count :: "os_tree \<Rightarrow> nat" where
  "local_files_count s = length (filter (child_of []) (map fst (os_files s)))"

text \<open>
  The walk skips hidden entries, and with a hidden directory all it holds; a path below one has a hidden component itself.
  It visits the entries in the order of their paths, the source in the order in which the directory lists them, which
  decides nothing but the order of paths with equal contents; the size of a directory is not used.
\<close>

definition is_hidden :: "string \<Rightarrow> bool" where
  "is_hidden p \<longleftrightarrow> take 1 p = ''.'' \<or> find_sub ''/.'' p \<noteq> None"

definition local_walk :: "os_tree \<Rightarrow> error + file_props list \<times> file_props list" where
  "local_walk s =
     Inr (map (\<lambda>(p, d, t). \<lparr>props_path = p, modified_time = to_seconds t, props_size = of_nat (length d)\<rparr>)
            (filter (\<lambda>(p, _). \<not> is_hidden p) (os_files s)),
          map (\<lambda>(p, _). \<lparr>props_path = p, modified_time = to_seconds (os_dir_time s p), props_size = 0\<rparr>)
            (filter (\<lambda>(p, _). \<not> is_hidden p) (os_dirs s)))"

definition local_fs :: "(bytes \<Rightarrow> u64 \<Rightarrow> bytes) \<Rightarrow> os_tree sync_fs" where
  "local_fs hash_tree =
     \<lparr>fs_exists = local_exists, fs_mkdirs = local_mkdirs, fs_delete = local_delete, fs_bulk_delete = local_bulk_delete,
      fs_move_to = local_move_to, fs_get_last_modified = local_get_last_modified,
      fs_set_modification_time = local_set_modification_time, fs_read = local_read, fs_write = local_write,
      fs_hash_file = local_hash_file hash_tree, fs_upload_subtree = local_upload_subtree, fs_walk = local_walk\<rparr>"

section \<open>The local file system keeps the contract\<close>

definition os_ok :: "os_tree \<Rightarrow> bool" where
  "os_ok s \<longleftrightarrow> bt_sorted cmp_str (os_files s) \<and> bt_sorted cmp_str (os_dirs s) \<and>
     (\<forall>p. map_of (os_files s) p \<noteq> None \<longrightarrow> \<not> is_os_dir s p)"

definition os_content :: "os_tree \<Rightarrow> string \<Rightarrow> bytes option" where
  "os_content s p = map_option fst (map_of (os_files s) p)"

lemma set_add_map: "bt_sorted cmp_str t \<Longrightarrow> map_of (set_add x t) = (map_of t)(x \<mapsto> ())" "bt_sorted cmp_str t \<Longrightarrow> bt_sorted cmp_str (set_add x t)"
  by (simp_all add: set_add_def map_of_str_insert sorted_str_insert)

lemma foldl_set_add:
  "bt_sorted cmp_str t \<Longrightarrow> bt_sorted cmp_str (foldl (\<lambda>t d. set_add d t) t ds) \<and>
     (map_of (foldl (\<lambda>t d. set_add d t) t ds) x \<noteq> None \<longleftrightarrow> map_of t x \<noteq> None \<or> x \<in> set ds)"
proof (induction ds arbitrary: t)
  case (Cons d ds)
  then show ?case using Cons.IH [OF set_add_map(2) [OF Cons.prems], of d] by (auto simp: set_add_map)
qed simp

lemma create_dir_all_content:
  assumes "os_ok s" "create_dir_all s p = Inr s'"
  shows "os_ok s' \<and> os_files s' = os_files s \<and> os_now s' = os_now s"
proof -
  have s': "s' = s\<lparr>os_dirs := foldl (\<lambda>t d. set_add d t) (os_dirs s) (ancestors p)\<rparr>" and anc: "\<not> list_ex (is_os_file s) (ancestors p)"
    using assms(2) by (auto simp: create_dir_all_def split: if_splits)
  have "bt_sorted cmp_str (os_dirs s)" using assms(1) by (simp add: os_ok_def)
  note d = foldl_set_add [OF this, of "ancestors p"]
  have "\<not> is_os_dir s' q" if "map_of (os_files s) q \<noteq> None" for q
    using that d [of q] anc assms(1) by (auto simp: s' is_os_dir_def set_has_def os_ok_def is_os_file_def list_ex_iff)
  then show ?thesis using assms(1) d by (simp add: os_ok_def s')
qed

lemma insert_file_ok:
  assumes "os_ok s" "\<not> is_os_dir s p"
  shows "os_ok (s\<lparr>os_files := bt_insert cmp_str p f (os_files s)\<rparr>)"
    "os_content (s\<lparr>os_files := bt_insert cmp_str p f (os_files s)\<rparr>) = (os_content s)(p \<mapsto> fst f)"
  using assms by (auto simp: os_ok_def os_content_def map_of_str_insert sorted_str_insert is_os_dir_def fun_eq_iff)

lemma remove_file_ok:
  assumes "os_ok s"
  shows "os_ok (s\<lparr>os_files := bt_remove cmp_str p (os_files s)\<rparr>)"
    "os_content (s\<lparr>os_files := bt_remove cmp_str p (os_files s)\<rparr>) = (os_content s)(p := None)"
  using assms by (auto simp: os_ok_def os_content_def map_of_str_remove is_os_dir_def fun_eq_iff intro: str_key.sorted_bt_remove)

lemma written_at_zero: "\<exists>tail. written_at 0 d old = d @ tail \<and> (old = [] \<longrightarrow> tail = [])"
  by (auto simp: written_at_def)

interpretation local_side: sync_side "local_fs hash_tree" os_ok os_content for hash_tree
proof
  fix s :: os_tree and s' p q d t
  assume ok: "os_ok s"
  show "os_content s p = Some d" if "fs_read (local_fs hash_tree) s p = Inr d"
    using that by (auto simp: local_fs_def local_read_def and_then_Inr_iff ok_or_Inr_iff os_content_def)
  show "fs_exists (local_fs hash_tree) s p = Inr True" if "os_content s p \<noteq> None"
    using that by (auto simp: local_fs_def local_exists_def is_os_file_def os_content_def)
  show "os_ok s' \<and> os_content s' = os_content s" if "fs_mkdirs (local_fs hash_tree) s p = Inr s'"
    using that ok create_dir_all_content [OF ok] by (auto simp: local_fs_def local_mkdirs_def os_content_def fun_eq_iff split: if_splits)
  show "os_ok s' \<and> (\<exists>tail. os_content s' = (os_content s)(p \<mapsto> d @ tail) \<and> (os_content s p = None \<longrightarrow> tail = []))"
    if wr: "fs_write (local_fs hash_tree) s p d 0 = Inr s'"
  proof -
    obtain s1 where s1: "make_os_parent s p = Inr s1" "\<not> is_os_dir s1 p"
      and s': "s' = s1\<lparr>os_files := bt_insert cmp_str p (written_at 0 d (case map_of (os_files s1) p of Some (d, _) \<Rightarrow> d | None \<Rightarrow> []), os_now s1) (os_files s1)\<rparr>"
      using wr by (auto simp: local_fs_def local_write_def and_then_Inr_iff Let_def split: if_splits)
    have ok1: "os_ok s1" "os_content s1 = os_content s"
      using create_dir_all_content [OF ok s1(1) [unfolded make_os_parent_def]] by (auto simp: os_content_def)
    obtain tail where tail: "written_at 0 d (case map_of (os_files s1) p of Some (d, _) \<Rightarrow> d | None \<Rightarrow> []) = d @ tail"
        "(case map_of (os_files s1) p of Some (d, _) \<Rightarrow> d | None \<Rightarrow> []) = [] \<longrightarrow> tail = []"
      using written_at_zero by blast
    moreover have "os_content s1 p = None \<Longrightarrow> map_of (os_files s1) p = None" by (simp add: os_content_def)
    ultimately have "os_content s p = None \<longrightarrow> tail = []" using ok1(2) by auto
    then show ?thesis using insert_file_ok [OF ok1(1) s1(2)] ok1(2) tail(1) by (auto simp: s')
  qed
  show "os_ok s' \<and> os_content s' = (os_content s)(p := None, q \<mapsto> d)"
    if mv: "fs_move_to (local_fs hash_tree) s p q = Inr s'" "os_content s p = Some d"
  proof -
    obtain s1 where s1: "make_os_parent s q = Inr s1" "os_rename s1 p q = Inr s'"
      using mv(1) by (auto simp: local_fs_def local_move_to_def and_then_Inr_iff)
    have ok1: "os_ok s1" "os_content s1 = os_content s"
      using create_dir_all_content [OF ok s1(1) [unfolded make_os_parent_def]] by (auto simp: os_content_def)
    from ok1(2) mv(2) have "os_content s1 p = Some d" by simp
    then obtain f where f: "map_of (os_files s1) p = Some f" "fst f = d" by (auto simp: os_content_def)
    then have "\<not> is_os_dir s1 q" and s': "s' = s1\<lparr>os_files := bt_insert cmp_str q f (bt_remove cmp_str p (os_files s1))\<rparr>"
      using s1(2) by (auto simp: os_rename_def split: if_splits)
    then show ?thesis
      using insert_file_ok [OF remove_file_ok(1) [OF ok1(1), of p], of q f] remove_file_ok(2) [OF ok1(1), of p] ok1(2) f(2)
      by (simp add: is_os_dir_def)
  qed
  show "os_ok s' \<and> os_content s' = (os_content s)(p := None)"
    if "fs_delete (local_fs hash_tree) s p = Inr s'" "os_content s p \<noteq> None"
  proof -
    have f: "map_of (os_files s) p \<noteq> None" using that(2) by (simp add: os_content_def)
    then have "\<not> is_os_dir s p" using ok by (simp add: os_ok_def)
    then have "s' = s\<lparr>os_files := bt_remove cmp_str p (os_files s)\<rparr>"
      using that(1) f by (auto simp: local_fs_def local_delete_def remove_entry_def remove_file_def is_os_file_def)
    then show ?thesis using remove_file_ok [OF ok] by simp
  qed
  show "os_ok s' \<and> os_content s' = os_content s" if "fs_set_modification_time (local_fs hash_tree) s p t = Inr s'"
  proof (cases "map_of (os_files s) p")
    case (Some f)
    then have "\<not> is_os_dir s p" using ok by (simp add: os_ok_def)
    moreover have "os_content s p = Some (fst f)" using Some by (simp add: os_content_def)
    moreover have "\<exists>t'. s' = s\<lparr>os_files := bt_insert cmp_str p (fst f, t') (os_files s)\<rparr>"
      using that Some by (cases f) (auto simp: local_fs_def local_set_modification_time_def Let_def)
    ultimately show ?thesis using insert_file_ok [OF ok] by (auto simp: fun_eq_iff)
  next
    case None
    then have "\<exists>t'. s' = s\<lparr>os_dir_time := t'\<rparr>"
      using that by (auto simp: local_fs_def local_set_modification_time_def Let_def split: if_splits)
    then show ?thesis using ok by (auto simp: os_ok_def os_content_def is_os_dir_def)
  qed
qed

end
