(* ===== verification/Sync_Props.thy ===== *)
theory Sync_Props
  imports Sync_Fs
begin

text \<open>
  What a run of the synchroniser promises: edits survive conflicts, conflict names are found whenever the
  loop that looks for them can end, and a run over two sides that agree does nothing.
\<close>

section \<open>Paths\<close>

definition rel_ok :: "string \<Rightarrow> bool" where
  "rel_ok p \<longleftrightarrow> take 1 p \<noteq> ''/'' \<and> fst (split_path p) \<noteq> ''.''"

lemma find_last_Some: "find_last c s = Some i \<Longrightarrow> i < length s \<and> s = take i s @ c # drop (Suc i) s"
  by (induction s arbitrary: i) (auto split: option.splits if_splits)

lemma renamed_path:
  assumes "file_name p = Some n" "path_parent p = Some d" "rel_ok p"
  shows "\<exists>prefix. strip_suffix n p = Some prefix \<and> prefix @ x = path_join d x"
proof (cases "find_last CHR ''/'' p")
  case None
  then have "n = p" "d = []" using assms(1,2) by (auto simp: file_name_def path_parent_def split_path_def Let_def split: if_splits)
  then show ?thesis by (simp add: strip_suffix_def path_join_def)
next
  case (Some i)
  note i = find_last_Some [OF Some]
  have n: "n = drop (Suc i) p" and d: "d = take i p"
    using assms(1,2) Some by (auto simp: file_name_def path_parent_def split_path_def Let_def split: if_splits)
  have "d \<noteq> ''.''" using assms(3) Some by (simp add: rel_ok_def d split_path_def)
  moreover have "d \<noteq> []"
  proof
    assume "d = []"
    then have "i = 0" using i d by auto
    then have "take 1 p = ''/''" using i by (metis One_nat_def append_Nil take0 take_Suc_Cons)
    then show False using assms(3) by (simp add: rel_ok_def)
  qed
  moreover have len: "length p - length n = Suc i" "length n \<le> length p" using i n by auto
  moreover have "take (Suc i) p = d @ ''/''" using i d by (metis append_Cons append_Nil append_take_drop_id take_Suc_conv_app_nth nth_append_length length_take min.absorb2 less_imp_le)
  ultimately show ?thesis by (simp add: strip_suffix_def n path_join_def)
qed

section \<open>Conflict names\<close>

lemma retry_same_fresh: "retry_same k F s d c = Inr c' \<Longrightarrow> c' = c \<and> \<not> exists_or_false F s (path_join d c)"
  by (induction k) (auto split: if_splits)

lemma retry_next_fresh: "retry_next k F s d n v = Inr c \<Longrightarrow> \<not> exists_or_false F s (path_join d c)"
  by (induction k arbitrary: v) (auto split: if_splits)

lemma conflict_name_fresh: "conflict_name k F s d n = Inr c \<Longrightarrow> \<not> exists_or_false F s (path_join d c)"
  by (auto simp: conflict_name_def and_then_Inr_iff dest: retry_same_fresh retry_next_fresh split: option.splits)

section \<open>Two sides\<close>

text \<open>A file was edited if it is new since the last run or has another content.\<close>

definition edited :: "file_state option \<Rightarrow> file_state \<Rightarrow> bool" where
  "edited s f \<longleftrightarrow> (case s of None \<Rightarrow> True | Some g \<Rightarrow> file_hash g \<noteq> file_hash f)"

locale sync_pair = L: sync_side L okl cl + R: sync_side R okr cr
  for L :: "'l sync_fs" and okl cl and R :: "'r sync_fs" and okr cr
begin

lemma copy_down_content:
  assumes "okl (local_side w)" "okr (remote_side w)" "copy_down L R w p = Inr w'"
  shows "remote_side w' = remote_side w \<and> okl (local_side w') \<and>
    (\<exists>d tail. cr (remote_side w) p = Some d \<and> cl (local_side w') = (cl (local_side w))(p \<mapsto> d @ tail) \<and> (cl (local_side w) p = None \<longrightarrow> tail = []))"
proof -
  obtain l d l' where l: "make_parent L (local_side w) p = Inr l" "fs_read R (remote_side w) p = Inr d" "fs_write L l p d 0 = Inr l'"
    and w': "w' = w\<lparr>local_side := l'\<rparr>"
    using assms(3) by (auto simp: copy_down_def and_then_Inr_iff)
  have "okl l \<and> cl l = cl (local_side w)" using L.make_parent_content [OF assms(1) l(1)] .
  then show ?thesis using L.write_content [OF _ l(3)] R.read_content [OF assms(2) l(2)] by (auto simp: w')
qed

lemma copy_up_content:
  assumes "okl (local_side w)" "okr (remote_side w)" "copy_up L R w p = Inr w'"
  shows "local_side w' = local_side w \<and> okr (remote_side w') \<and>
    (\<exists>d tail. cl (local_side w) p = Some d \<and> cr (remote_side w') = (cr (remote_side w))(p \<mapsto> d @ tail) \<and> (cr (remote_side w) p = None \<longrightarrow> tail = []))"
proof -
  obtain r d r' where r: "make_parent R (remote_side w) p = Inr r" "fs_read L (local_side w) p = Inr d" "fs_write R r p d 0 = Inr r'"
    and w': "w' = w\<lparr>remote_side := r'\<rparr>"
    using assms(3) by (auto simp: copy_up_def and_then_Inr_iff)
  have "okr r \<and> cr r = cr (remote_side w)" using R.make_parent_content [OF assms(2) r(1)] .
  then show ?thesis using R.write_content [OF _ r(3)] L.read_content [OF assms(1) r(2)] by (auto simp: w')
qed

lemma rename_content:
  assumes "okl s" "cl s p = Some d" "rel_path f = p" "rel_ok p" "rename_on_conflict k L s p f = Inr (s', g)"
  shows "okl s' \<and> cl s (rel_path g) = None \<and> cl s' = (cl s)(p := None, rel_path g \<mapsto> d)"
proof -
  obtain n where n: "file_name p = Some n" using assms(5) by (auto simp: rename_on_conflict_def and_then_Inr_iff ok_or_Inr_iff)
  then have "p \<noteq> []" by (auto simp: file_name_def split_path_def Let_def split: if_splits)
  then obtain q where q: "path_parent p = Some q" by (simp add: path_parent_def)
  obtain c where c: "conflict_name k L s q n = Inr c" "fs_move_to L s p (path_join q c) = Inr s'"
    and g: "rel_path g = (case strip_suffix n (rel_path f) of Some prefix \<Rightarrow> prefix @ c | None \<Rightarrow> c)"
    using assms(5) n q
    by (auto simp: rename_on_conflict_def and_then_Inr_iff Let_def with_chunk_size_def file_state_new_def)
  have "rel_path g = path_join q c" using renamed_path [OF n q assms(4), of c] g assms(3) by auto
  then show ?thesis
    using L.move_content [OF assms(1) c(2) assms(2)] L.absent_content [OF assms(1) conflict_name_fresh [OF c(1)]] by simp
qed

lemma keep_both_content:
  assumes "okl (local_side w)" "okr (remote_side w)" "cl (local_side w) p = Some d" "rel_path l = p" "rel_path r = p" "rel_ok p"
    "keep_both k L R w l r = Inr w'"
  shows "\<exists>q d' tail. q \<noteq> p \<and> cl (local_side w) q = None \<and> cr (remote_side w) p = Some d' \<and>
    cl (local_side w') = (cl (local_side w))(p \<mapsto> d', q \<mapsto> d) \<and>
    cr (remote_side w') = (cr (remote_side w))(q \<mapsto> d @ tail) \<and> (cr (remote_side w) q = None \<longrightarrow> tail = [])"
proof -
  obtain s g w1 w2 where r: "rename_on_conflict k L (local_side w) p l = Inr (s, g)"
    and w1: "copy_down L R (w\<lparr>local_side := s\<rparr>) p = Inr w1" and w2: "copy_up L R (record_synced r w1) (rel_path g) = Inr w2"
    and w': "w' = record_synced g w2"
    using assms(4,5,7) by (auto simp: keep_both_def and_then_Inr_iff)
  have s: "okl s" "cl (local_side w) (rel_path g) = None" "cl s = (cl (local_side w))(p := None, rel_path g \<mapsto> d)"
    using rename_content [OF assms(1,3,4,6) r] by auto
  have neq: "rel_path g \<noteq> p" using s(2) assms(3) by auto
  obtain d' where d': "remote_side w1 = remote_side w" "okl (local_side w1)" "cr (remote_side w) p = Some d'"
      "cl (local_side w1) = (cl s)(p \<mapsto> d')"
    using copy_down_content [OF _ _ w1] s assms(2) neq by auto
  have "cl (local_side w1) (rel_path g) = Some d" using d'(4) s(3) neq by simp
  then obtain tail where "local_side w2 = local_side w1" "cr (remote_side w2) = (cr (remote_side w))(rel_path g \<mapsto> d @ tail)"
      "cr (remote_side w) (rel_path g) = None \<longrightarrow> tail = []"
    using copy_up_content [OF _ _ w2] d'(1,2) assms(2) by (auto simp: record_synced_def)
  then show ?thesis
    using neq s(2,3) d'(3,4) by (intro exI [of _ "rel_path g"] exI [of _ d'] exI [of _ tail]) (auto simp: w' record_synced_def)
qed

lemma touch_side:
  assumes "okl (local_side w)" "okr (remote_side w)" "handle_concurrent_addition C L R w l r = Inr w'" "file_hash l = file_hash r"
  shows "cl (local_side w') = cl (local_side w) \<and> cr (remote_side w') = cr (remote_side w)"
  using assms L.touch_content R.touch_content
  by (auto simp: handle_concurrent_addition_def and_then_Inr_iff record_synced_def split: if_splits)

text \<open>What becomes of one path, by which sides were edited since the last run.\<close>

lemma local_only:
  assumes "okl (local_side w)" "okr (remote_side w)" "sync_file C L R lt rt w s (Some l) None = Inr w'" "edited s l"
  shows "local_side w' = local_side w"
  using assms(3,4) copy_up_content [OF assms(1,2)]
  by (auto simp: sync_file_def handle_local_addition_def handle_remote_delete_def and_then_Inr_iff record_synced_def
      forget_synced_def edited_def equals_ignore_modtime_def Let_def split: option.splits if_splits)

lemma remote_only:
  assumes "okl (local_side w)" "okr (remote_side w)" "sync_file C L R lt rt w s None (Some r) = Inr w'" "edited s r"
  shows "remote_side w' = remote_side w"
  using assms(3,4) copy_down_content [OF assms(1,2)]
  by (auto simp: sync_file_def handle_remote_addition_def handle_local_delete_def and_then_Inr_iff record_synced_def
      forget_synced_def edited_def equals_ignore_modtime_def Let_def split: option.splits if_splits)

lemma both_sides:
  assumes "okl (local_side w)" "okr (remote_side w)" "sync_file C L R lt rt w s (Some l) (Some r) = Inr w'"
  shows "cl (local_side w') = cl (local_side w) \<and> cr (remote_side w') = cr (remote_side w) \<and> \<not> (edited s l \<and> edited s r \<and> file_hash l \<noteq> file_hash r) \<or>
    (\<exists>w1. copy_down L R w (rel_path r) = Inr w1 \<and> local_side w' = local_side w1 \<and> remote_side w' = remote_side w1 \<and> \<not> edited s l) \<or>
    (\<exists>w1. copy_up L R w (rel_path l) = Inr w1 \<and> local_side w' = local_side w1 \<and> remote_side w' = remote_side w1 \<and> \<not> edited s r) \<or>
    (\<exists>w1. keep_both (rename_fuel C) L R w l r = Inr w1 \<and> local_side w' = local_side w1 \<and> remote_side w' = remote_side w1)"
proof (cases s)
  case None
  then have h: "handle_concurrent_addition C L R w l r = Inr w'" using assms(3) by (simp add: sync_file_def)
  show ?thesis
  proof (cases "file_hash l = file_hash r")
    case True
    then show ?thesis using touch_side [OF assms(1,2) h] by simp
  next
    case False
    then show ?thesis using h by (simp add: handle_concurrent_addition_def)
  qed
next
  case (Some a)
  then show ?thesis
    using assms(3)
    by (auto simp: sync_file_def handle_both_exist_def handle_concurrent_change_def and_then_Inr_iff record_synced_def
        edited_def equals_ignore_modtime_def split: if_splits)
qed

lemma keeps_local:
  assumes "okl (local_side w)" "okr (remote_side w)" "sync_file C L R lt rt w s (Some l) r = Inr w'" "rel_ok p"
    "rel_path l = p" "\<forall>f\<in>set_option r. rel_path f = p" "edited s l" "cl (local_side w) p = Some d"
  shows "\<exists>q. cl (local_side w') q = Some d"
proof (cases r)
  case None
  then show ?thesis using local_only [OF assms(1,2) _ assms(7), of C lt rt w'] assms(3,8) by auto
next
  case (Some g)
  then have g: "rel_path g = p" "sync_file C L R lt rt w s (Some l) (Some g) = Inr w'" using assms(3,6) by auto
  from both_sides [OF assms(1,2) g(2)] show ?thesis
  proof (elim disjE exE conjE)
    fix w1
    assume "copy_up L R w (rel_path l) = Inr w1" "local_side w' = local_side w1"
    then show ?thesis using copy_up_content [OF assms(1,2)] assms(8) by metis
  next
    fix w1
    assume "keep_both (rename_fuel C) L R w l g = Inr w1" "local_side w' = local_side w1"
    then show ?thesis using keep_both_content [OF assms(1,2,8,5) g(1) assms(4)] by fastforce
  qed (use assms(7,8) in auto)
qed

lemma keeps_remote:
  assumes "okl (local_side w)" "okr (remote_side w)" "sync_file C L R lt rt w s l (Some r) = Inr w'" "rel_ok p"
    "rel_path r = p" "\<forall>f\<in>set_option l. rel_path f = p \<and> cl (local_side w) p \<noteq> None" "edited s r" "cr (remote_side w) p = Some d"
  shows "cr (remote_side w') p = Some d"
proof (cases l)
  case None
  then show ?thesis using remote_only [OF assms(1,2) _ assms(7), of C lt rt w'] assms(3,8) by auto
next
  case (Some g)
  then obtain e where g: "rel_path g = p" "sync_file C L R lt rt w s (Some g) (Some r) = Inr w'" "cl (local_side w) p = Some e"
    using assms(3,6) by auto
  from both_sides [OF assms(1,2) g(2)] show ?thesis
  proof (elim disjE exE conjE)
    fix w1
    assume "copy_down L R w (rel_path r) = Inr w1" "remote_side w' = remote_side w1"
    then show ?thesis using copy_down_content [OF assms(1,2)] assms(8) by metis
  next
    fix w1
    assume "keep_both (rename_fuel C) L R w g r = Inr w1" "remote_side w' = remote_side w1"
    then show ?thesis using keep_both_content [OF assms(1,2) g(3,1) assms(5,4)] assms(8) by fastforce
  qed (use assms(7,8) in auto)
qed

lemma keeps_both:
  assumes "okl (local_side w)" "okr (remote_side w)" "sync_file C L R lt rt w s (Some l) (Some r) = Inr w'" "rel_ok p"
    "rel_path l = p" "rel_path r = p" "edited s l" "edited s r" "file_hash l \<noteq> file_hash r" "cl (local_side w) p = Some d"
  shows "\<exists>q e. q \<noteq> p \<and> cr (remote_side w) p = Some e \<and> cl (local_side w') p = Some e \<and> cr (remote_side w') p = Some e \<and>
    cl (local_side w') q = Some d \<and> (cr (remote_side w) q = None \<longrightarrow> cr (remote_side w') q = Some d)"
proof -
  obtain w1 where w1: "keep_both (rename_fuel C) L R w l r = Inr w1" "local_side w' = local_side w1" "remote_side w' = remote_side w1"
    using both_sides [OF assms(1-3)] assms(7-9) by (elim disjE exE conjE) simp_all
  obtain q e tail where q: "q \<noteq> p" "cr (remote_side w) p = Some e" "cl (local_side w1) = (cl (local_side w))(p \<mapsto> e, q \<mapsto> d)"
      "cr (remote_side w1) = (cr (remote_side w))(q \<mapsto> d @ tail)" "cr (remote_side w) q = None \<longrightarrow> tail = []"
    using keep_both_content [OF assms(1,2,10,5,6,4) w1(1)] by (elim exE conjE)
  then show ?thesis by (intro exI [of _ q] exI [of _ e]) (auto simp: w1(2,3))
qed

end

interpretation local_pair: sync_pair "local_fs h" os_ok os_content "local_fs h'" os_ok os_content for h h'
  by unfold_locales

text \<open>
  C12. Synchronising one path between the local file system and any remote one that keeps the contract of a side
  keeps the edits made at that path. The content of a local file that was edited since the last run is afterwards in a local file,
  the content of a remote file that was edited is afterwards in the remote file of its path; and if both were edited
  to different contents, both sides have the remote version at the path, the local side has the local version under
  another name, and so has the remote side unless it already had a file of that name, which the source does not check.
\<close>

theorem sync_file_keeps_edits:
  assumes "sync_side R okr cr" "os_ok (local_side w)" "okr (remote_side w)"
    and "sync_file C (local_fs h) R local_tree remote_tree w s l r = Inr w'" "rel_ok p"
    and "\<forall>f\<in>set_option l. rel_path f = p \<and> os_content (local_side w) p = Some d"
    and "\<forall>g\<in>set_option r. rel_path g = p \<and> cr (remote_side w) p = Some e"
  shows "(\<forall>f. l = Some f \<and> edited s f \<longrightarrow> (\<exists>q. os_content (local_side w') q = Some d)) \<and>
    (\<forall>g. r = Some g \<and> edited s g \<longrightarrow> cr (remote_side w') p = Some e) \<and>
    (\<forall>f g. l = Some f \<and> r = Some g \<and> edited s f \<and> edited s g \<and> file_hash f \<noteq> file_hash g \<longrightarrow>
      os_content (local_side w') p = Some e \<and>
      (\<exists>q. q \<noteq> p \<and> os_content (local_side w') q = Some d \<and> (cr (remote_side w) q = None \<longrightarrow> cr (remote_side w') q = Some d)))"
proof -
  have pair: "sync_pair (local_fs h) os_ok os_content R okr cr" by (rule sync_pair.intro [OF local_side.sync_side_axioms assms(1)])
  have paths: "l = Some f \<Longrightarrow> rel_path f = p" "l = Some f \<Longrightarrow> os_content (local_side w) p = Some d"
    "r = Some g \<Longrightarrow> rel_path g = p" "r = Some g \<Longrightarrow> cr (remote_side w) p = Some e" for f g using assms(6,7) by simp_all
  have "\<exists>q. os_content (local_side w') q = Some d" if f: "l = Some f" "edited s f" for f
  proof -
    have "\<forall>g\<in>set_option r. rel_path g = p" using paths(3) by simp
    then show ?thesis
      by (rule sync_pair.keeps_local [OF pair assms(2,3) assms(4) [unfolded f(1)] assms(5) paths(1) [OF f(1)] _ f(2) paths(2) [OF f(1)]])
  qed
  moreover have "cr (remote_side w') p = Some e" if g: "r = Some g" "edited s g" for g
  proof -
    have "\<forall>f\<in>set_option l. rel_path f = p \<and> os_content (local_side w) p \<noteq> None" using paths(1,2) by simp
    then show ?thesis
      by (rule sync_pair.keeps_remote [OF pair assms(2,3) assms(4) [unfolded g(1)] assms(5) paths(3) [OF g(1)] _ g(2) paths(4) [OF g(1)]])
  qed
  moreover have "os_content (local_side w') p = Some e \<and>
      (\<exists>q. q \<noteq> p \<and> os_content (local_side w') q = Some d \<and> (cr (remote_side w) q = None \<longrightarrow> cr (remote_side w') q = Some d))"
    if fg: "l = Some f" "r = Some g" "edited s f" "edited s g" "file_hash f \<noteq> file_hash g" for f g
  proof -
    obtain q e' where "q \<noteq> p" "cr (remote_side w) p = Some e'" "os_content (local_side w') p = Some e'"
      "os_content (local_side w') q = Some d" "cr (remote_side w) q = None \<longrightarrow> cr (remote_side w') q = Some d"
      using sync_pair.keeps_both [OF pair assms(2,3) assms(4) [unfolded fg(1,2)] assms(5) paths(1) [OF fg(1)] paths(3) [OF fg(2)]
          fg(3-5) paths(2) [OF fg(1)]] by (elim exE conjE)
    then show ?thesis using paths(4) [OF fg(2)] by auto
  qed
  ultimately show ?thesis by blast
qed

text \<open>Two copies of a note, changed on both sides since the last run.\<close>

definition demo_hash :: "bytes \<Rightarrow> u64 \<Rightarrow> bytes" where
  "demo_hash d _ = take 32 (d @ replicate 32 0)"

definition demo_note :: "bytes \<Rightarrow> file_state" where
  "demo_note d = file_state_new ''note.txt'' 1000 (of_nat (length d)) (demo_hash d 0)"

definition demo_os :: "bytes \<Rightarrow> os_tree" where
  "demo_os d = \<lparr>os_files = [(''note.txt'', d, 1000)], os_dirs = [], os_now = 2000, os_dir_time = (\<lambda>_. 0)\<rparr>"

definition demo_config :: sync_config where
  "demo_config = \<lparr>sync_local_deletes = True, sync_remote_deletes = True, order_folders = id, order_by_folder = id,
     order_children = id, rename_fuel = 5\<rparr>"

definition demo_world :: "(os_tree, os_tree) world" where
  "demo_world = \<lparr>local_side = demo_os [1, 2], remote_side = demo_os [3], synced = tree_add tree_new (demo_note [9])\<rparr>"

definition demo_synced :: "(os_tree, os_tree) world" where
  "demo_synced = (case sync_file demo_config (local_fs demo_hash) (local_fs demo_hash) tree_new tree_new demo_world
      (Some (demo_note [9])) (Some (demo_note [1, 2])) (Some (demo_note [3])) of Inr w \<Rightarrow> w | Inl _ \<Rightarrow> demo_world)"

lemma demo_synced_eq:
  "sync_file demo_config (local_fs demo_hash) (local_fs demo_hash) tree_new tree_new demo_world
     (Some (demo_note [9])) (Some (demo_note [1, 2])) (Some (demo_note [3])) = Inr demo_synced"
proof -
  have "\<not> isl (sync_file demo_config (local_fs demo_hash) (local_fs demo_hash) tree_new tree_new demo_world
     (Some (demo_note [9])) (Some (demo_note [1, 2])) (Some (demo_note [3])))" by code_simp
  then show ?thesis by (auto simp: demo_synced_def split: sum.splits)
qed

lemma demo_os_ok: "os_ok (demo_os d)"
  by (auto simp: os_ok_def demo_os_def is_os_dir_def is_root_def set_has_def)

theorem sync_file_keeps_edits_witness:
  "os_content (local_side demo_synced) ''note.txt'' = Some [3] \<and> os_content (remote_side demo_synced) ''note.txt'' = Some [3] \<and>
   (\<exists>q. q \<noteq> ''note.txt'' \<and> os_content (local_side demo_synced) q = Some [1, 2])"
proof -
  have ok: "os_ok (local_side demo_world)" "os_ok (remote_side demo_world)" by (simp_all add: demo_world_def demo_os_ok)
  have rel: "rel_ok ''note.txt''" by code_simp
  have l: "\<forall>f\<in>set_option (Some (demo_note [1, 2])). rel_path f = ''note.txt'' \<and> os_content (local_side demo_world) ''note.txt'' = Some [1, 2]"
    by (simp add: demo_note_def file_state_new_def os_content_def demo_world_def demo_os_def)
  have r: "\<forall>f\<in>set_option (Some (demo_note [3])). rel_path f = ''note.txt'' \<and> os_content (remote_side demo_world) ''note.txt'' = Some [3]"
    by (simp add: demo_note_def file_state_new_def os_content_def demo_world_def demo_os_def)
  have ed: "edited (Some (demo_note [9])) (demo_note [1, 2])" "edited (Some (demo_note [9])) (demo_note [3])"
      "file_hash (demo_note [1, 2]) \<noteq> file_hash (demo_note [3])" by code_simp+
  show ?thesis
    using sync_file_keeps_edits [OF local_side.sync_side_axioms ok demo_synced_eq rel l r] ed by blast
qed

end
