(* ===== verification/Sync_Run.thy ===== *)
theory Sync_Run
  imports Sync_Props
begin

text \<open>
  The loops of the synchroniser end where they can, and a run over two sides that agree changes neither.
\<close>

section \<open>Names for conflicting copies\<close>

lemma show_nat_inj: "show_nat m = show_nat n \<Longrightarrow> m = n"
  by (metis parse_show_nat option.inject)

lemma fresh_candidate_inj: "fresh_candidate n v = fresh_candidate n u \<Longrightarrow> v = u"
  by (auto simp: fresh_candidate_def word_unat_eq_iff dest!: show_nat_inj split: option.splits)

lemma path_join_inj: "path_join d a = path_join d b \<Longrightarrow> a = b"
  by (auto simp: path_join_def split: if_splits)

text \<open>Looking at more names than there are entries finds a free one.\<close>

lemma retry_next_exhausted:
  "retry_next k F s d n v = Inl e \<Longrightarrow> i < k \<Longrightarrow> exists_or_false F s (path_join d (fresh_candidate n (v + of_nat i)))"
proof (induction k arbitrary: v i)
  case (Suc k)
  then show ?case using Suc.IH [of "v + 1" "i - 1"] by (cases i) (auto simp: algebra_simps split: if_splits)
qed simp

lemma retry_next_returns:
  assumes "finite E" "\<And>q. exists_or_false F s q \<Longrightarrow> q \<in> E" "card E < k" "k \<le> 2 ^ 32"
  shows "\<exists>c. retry_next k F s d n v = Inr c \<and> \<not> exists_or_false F s (path_join d c)"
proof (cases "retry_next k F s d n v")
  case (Inr c)
  then show ?thesis using retry_next_fresh [OF Inr] by simp
next
  case (Inl e)
  let ?g = "\<lambda>i. path_join d (fresh_candidate n (v + of_nat i))"
  have "inj_on ?g {..<k}"
  proof (rule inj_onI)
    fix i j
    assume "i \<in> {..<k}" "j \<in> {..<k}" "?g i = ?g j"
    then have "(of_nat i :: u32) = of_nat j" "i < 2 ^ 32" "j < 2 ^ 32"
      using assms(4) fresh_candidate_inj [OF path_join_inj, of d n "v + of_nat i" "v + of_nat j"] by auto
    then show "i = j" by (simp add: word_of_nat_eq_iff take_bit_nat_eq_self)
  qed
  moreover have "?g ` {..<k} \<subseteq> E" using retry_next_exhausted [OF Inl] assms(2) by auto
  ultimately have "k \<le> card E" using card_inj_on_le [OF _ _ assms(1)] by fastforce
  then show ?thesis using assms(3) by simp
qed

lemma retry_same_taken: "exists_or_false F s (path_join d c) \<Longrightarrow> retry_same k F s d c = Inl FuelExhausted"
  by (induction k) simp_all

lemma renamed_again_panics:
  assumes "renamed_again n cs = Inl e"
  shows "e = Panicked \<and> 0 < cs \<and> CHR '']'' \<notin> set (drop cs n)"
proof -
  have "i < length (drop cs n)" if "find_char CHR '']'' (drop cs n) = Some i" for i using find_char_Some [OF that] by simp
  then have "find_char CHR '']'' (drop cs n) = None"
    using assms by (cases "find_char CHR '']'' (drop cs n)") (fastforce simp: renamed_again_def Let_def split: if_splits)+
  then show ?thesis using assms find_char_None [of "CHR '']''" "drop cs n"] by (auto simp: renamed_again_def Let_def split: if_splits)
qed

text \<open>The paths that exist in a tree of the operating system.\<close>

definition os_paths :: "os_tree \<Rightarrow> string list" where
  "os_paths s = [] # ''.'' # map fst (os_files s) @ map fst (os_dirs s)"

lemma local_exists_paths: "exists_or_false (local_fs h) s q \<Longrightarrow> q \<in> set (os_paths s)"
  by (auto simp: exists_or_false_def local_fs_def local_exists_def os_paths_def is_os_file_def is_os_dir_def is_root_def set_has_def
      map_of_eq_None_iff image_iff dest: map_of_SomeD)

text \<open>
  C29. Looking for the name of a conflicting copy. For a file that is no conflict copy the loop ends within one
  round more than there are paths, with a name that is free. For a conflict copy the one candidate is
  used if it is free; if it is not, the loop never ends, whatever the fuel; and a name without a closing
  bracket after the marker, which does not start with it, panics.
\<close>

theorem conflict_name_outcome:
  assumes "length (os_files s) + length (os_dirs s) + 2 < k" "k \<le> 2 ^ 32"
  shows "case find_sub ''[conflict-'' n of
      None \<Rightarrow> (\<exists>c. conflict_name k (local_fs h) s d n = Inr c \<and> \<not> exists_or_false (local_fs h) s (path_join d c))
    | Some cs \<Rightarrow>
        (case renamed_again n cs of
           Inl e \<Rightarrow> 0 < cs \<and> CHR '']'' \<notin> set (drop cs n) \<and> (\<forall>m. conflict_name m (local_fs h) s d n = Inl Panicked)
         | Inr c \<Rightarrow> (\<forall>m. conflict_name (Suc m) (local_fs h) s d n =
             (if exists_or_false (local_fs h) s (path_join d c) then Inl FuelExhausted else Inr c)))"
proof (cases "find_sub ''[conflict-'' n")
  case None
  have "card (set (os_paths s)) < k" using card_length [of "os_paths s"] assms(1) by (simp add: os_paths_def)
  then have "\<exists>c. retry_next k (local_fs h) s d n 0 = Inr c \<and> \<not> exists_or_false (local_fs h) s (path_join d c)"
    by (intro retry_next_returns [OF _ local_exists_paths _ assms(2)]) simp_all
  then show ?thesis using None by (simp add: conflict_name_def)
next
  case (Some cs)
  show ?thesis
  proof (cases "renamed_again n cs")
    case (Inl e)
    then show ?thesis using Some renamed_again_panics [OF Inl] by (simp add: conflict_name_def)
  next
    case (Inr c)
    then show ?thesis using Some by (simp add: conflict_name_def retry_same_taken)
  qed
qed

text \<open>A conflict copy whose next name is taken.\<close>

definition demo_taken :: os_tree where
  "demo_taken = \<lparr>os_files = [(''a[conflict-0]'', [1], 0), (''a[conflict-1]'', [2], 0)], os_dirs = [], os_now = 0, os_dir_time = (\<lambda>_. 0)\<rparr>"

theorem conflict_name_outcome_witness:
  "(\<exists>c. conflict_name 10 (local_fs demo_hash) demo_taken [] ''a'' = Inr c) \<and>
   (\<forall>m. conflict_name (Suc m) (local_fs demo_hash) demo_taken [] ''a[conflict-0]'' = Inl FuelExhausted)"
proof -
  have len: "length (os_files demo_taken) + length (os_dirs demo_taken) + 2 < 10" "(10 :: nat) \<le> 2 ^ 32" by (simp_all add: demo_taken_def)
  have a: "find_sub ''[conflict-'' ''a'' = None" "find_sub ''[conflict-'' ''a[conflict-0]'' = Some (Suc 0)"
    "renamed_again ''a[conflict-0]'' (Suc 0) = Inr ''a[conflict-1]''"
    "exists_or_false (local_fs demo_hash) demo_taken (path_join [] ''a[conflict-1]'')" by code_simp+
  show ?thesis
    using conflict_name_outcome [OF len, where n = "''a''" and h = demo_hash and d = "[]"] 
      conflict_name_outcome [OF len, where n = "''a[conflict-0]''" and h = demo_hash and d = "[]"]
    by (auto simp: a)
qed

section \<open>A run over two sides that agree\<close>

text \<open>The orders in which hash maps are visited are permutations.\<close>

definition wf_config :: "sync_config \<Rightarrow> bool" where
  "wf_config C \<longleftrightarrow> (\<forall>fs. mset (order_folders C fs) = mset fs) \<and> (\<forall>ds. mset (order_by_folder C ds) = mset ds) \<and>
     (\<forall>cs. mset (order_children C cs) = mset cs)"

definition trees_agree :: "ram_tree_state \<Rightarrow> ram_tree_state \<Rightarrow> bool" where
  "trees_agree l r \<longleftrightarrow> dirs l = dirs r \<and> all_file_paths l = all_file_paths r \<and>
     (\<forall>p f g. by_path l p = Some f \<and> by_path r p = Some g \<longrightarrow> same_file f g)"

lemma by_path_settle [simp]: "by_path (settle_deletes C p t) q = by_path t q"
  by (simp add: settle_deletes_def by_path_def remove_local_delete_def remove_remote_delete_def Let_def)

lemma wf_settle: "wf_tree (settle_deletes C p t) = wf_tree t"
  by (simp add: settle_deletes_def wf_tree_def hashed_def remove_local_delete_def remove_remote_delete_def Let_def)

lemma dirs_settle [simp]: "dirs (settle_deletes C p t) = dirs t"
  by (simp add: settle_deletes_def remove_local_delete_def remove_remote_delete_def Let_def)

lemma dirs_tree_add [simp]: "dirs (tree_add t f) = dirs t"
  by (simp add: tree_add_def Let_def split: option.splits)

lemma first_pass_agree:
  assumes "wf_tree t" "\<forall>p\<in>set ps. \<exists>f g. by_path lt p = Some f \<and> rel_path f = p \<and> by_path rt p = Some g \<and> same_file f g"
  shows "\<exists>t'. first_pass C lt rt t changed ps = (t', changed) \<and> wf_tree t' \<and> dirs t' = dirs t \<and>
    (\<forall>p. by_path t' p = (case by_path t p of Some f \<Rightarrow> Some f | None \<Rightarrow> if p \<in> set ps then by_path lt p else None))"
  using assms
proof (induction ps arbitrary: t)
  case (Cons p ps)
  obtain f g where f: "by_path lt p = Some f" "rel_path f = p" "by_path rt p = Some g" "same_file f g" using Cons.prems(2) by auto
  define u where "u = settle_deletes C p (case by_path t p of None \<Rightarrow> tree_add t f | Some _ \<Rightarrow> t)"
  have u: "wf_tree u" "dirs u = dirs t" using Cons.prems(1) tree_add_map(1) by (auto simp: u_def wf_settle split: option.splits)
  have bu: "by_path u q = (case by_path t q of Some f \<Rightarrow> Some f | None \<Rightarrow> if q = p then Some f else None)" for q
  proof -
    have "by_path (tree_add t f) q = (if q = p then Some f else by_path t q)"
      using tree_add_map(2) [OF Cons.prems(1), of f] f(2) by (simp add: by_path_def)
    then show ?thesis by (auto simp: u_def split: option.splits)
  qed
  have fp: "first_pass C lt rt t changed (p # ps) = first_pass C lt rt u changed ps"
    using f by (cases "by_path t p") (simp_all add: u_def)
  obtain t' where t': "first_pass C lt rt u changed ps = (t', changed)" "wf_tree t'" "dirs t' = dirs u"
      "\<forall>q. by_path t' q = (case by_path u q of Some f \<Rightarrow> Some f | None \<Rightarrow> if q \<in> set ps then by_path lt q else None)"
    using Cons.IH [OF u(1)] Cons.prems(2) by auto
  have "by_path t' q = (case by_path t q of Some f \<Rightarrow> Some f | None \<Rightarrow> if q \<in> set (p # ps) then by_path lt q else None)" for q
    using t'(4) bu [of q] f(1) by (auto split: option.splits)
  then show ?case using t'(1-3) u(2) fp by auto
qed (auto split: option.splits)

lemma sync_dirs_agree:
  "dirs lt = dirs rt \<Longrightarrow> \<exists>t. sync_dirs C L R lt rt ds w = Inr (w\<lparr>synced := t\<rparr>) \<and> files_by_path t = files_by_path (synced w)"
proof (induction ds arbitrary: w)
  case Nil
  then show ?case by (intro exI [of _ "synced w"]) simp
next
  case (Cons d ds)
  let ?t = "if has_dir lt d then add_dir (synced w) d else remove_dir (synced w) d"
  have one: "sync_one_dir C L R lt rt d w = Inr (w\<lparr>synced := ?t\<rparr>)"
    using Cons.prems by (simp add: sync_one_dir_def has_dir_def Let_def)
  have "files_by_path ?t = files_by_path (synced w)" by (simp add: add_dir_def remove_dir_def)
  then show ?case using Cons.IH [OF Cons.prems, of "w\<lparr>synced := ?t\<rparr>"] one by auto
qed

lemma hash_pending_wf: "hash_pending F s known res fs = Inr t \<Longrightarrow> wf_tree res \<Longrightarrow> wf_tree t"
  by (induction fs arbitrary: res) (auto simp: and_then_Inr_iff tree_add_map(1) split: prod.splits)

lemma foldl_wf: "(\<And>t x. wf_tree t \<Longrightarrow> wf_tree (g t x)) \<Longrightarrow> wf_tree t \<Longrightarrow> wf_tree (foldl g t xs)"
  by (induction xs arbitrary: t) auto

lemma wf_add_dir: "wf_tree t \<Longrightarrow> wf_tree (add_dir t d)"
  unfolding wf_tree_def hashed_def add_dir_def by simp

lemma build_dir_state_wf:
  assumes "build_dir_state F s tree_new known = Inr t"
  shows "wf_tree t"
proof -
  obtain ds pending unchanged u where u: "hash_pending F s known (foldl add_dir tree_new ds) pending = Inr u" "t = foldl tree_add u unchanged"
    using assms by (auto simp: build_dir_state_def Let_def and_then_Inr_iff)
  have "wf_tree (foldl add_dir tree_new ds)" by (rule foldl_wf [OF wf_add_dir wf_tree_new])
  then have "wf_tree u" by (rule hash_pending_wf [OF u(1)])
  then show ?thesis unfolding u(2) by (rule foldl_wf [rotated]) (rule tree_add_map(1))
qed

lemma string_set_of_mem: "fst ` set (string_set_of xs) = set xs"
proof -
  have "map_of (string_set_of xs) x \<noteq> None \<longleftrightarrow> x \<in> set xs" for x
    using foldl_set_add [of "[]" xs x] by (simp add: string_set_of_def)
  then show ?thesis by (auto simp: map_of_eq_None_iff)
qed

lemma by_path_known: "by_path t p \<noteq> None \<longleftrightarrow> p \<in> set (all_file_paths t)"
  by (simp add: by_path_def all_file_paths_def map_of_eq_None_iff)

text \<open>
  C30. A run is idle when the scans of both sides agree: whatever the file systems are, it returns with both sides as
  they were, and records for every path the file it already had recorded or else the one that was scanned.
\<close>

theorem sync_dir_idle:
  assumes "wf_config C" "wf_tree (synced w)"
    and "build_dir_state L (local_side w) tree_new (synced w) = Inr lt"
    and "build_dir_state R (remote_side w) tree_new (synced w) = Inr rt"
    and "trees_agree lt rt"
  shows "\<exists>t. sync_dir C L R w = Inr (w\<lparr>synced := t\<rparr>) \<and>
    (\<forall>p. by_path t p = (case by_path (synced w) p of Some f \<Rightarrow> Some f | None \<Rightarrow> by_path lt p))"
proof -
  define ps where "ps = map fst (string_set_of (all_file_paths lt @ all_file_paths rt))"
  have ps: "p \<in> set ps \<longleftrightarrow> by_path lt p \<noteq> None" "p \<in> set ps \<longleftrightarrow> by_path rt p \<noteq> None" for p
    using assms(5) by (simp_all add: ps_def string_set_of_mem trees_agree_def by_path_known del: not_None_eq)
  have "\<forall>p\<in>set ps. \<exists>f g. by_path lt p = Some f \<and> rel_path f = p \<and> by_path rt p = Some g \<and> same_file f g"
  proof
    fix p
    assume "p \<in> set ps"
    then obtain f g where fg: "by_path lt p = Some f" "by_path rt p = Some g" using ps [of p] by (meson not_None_eq)
    moreover have "rel_path f = p" using wf_treeD(3) [OF build_dir_state_wf [OF assms(3)]] fg(1) by (simp add: by_path_def)
    moreover have "same_file f g" using assms(5) fg by (auto simp: trees_agree_def)
    ultimately show "\<exists>f g. by_path lt p = Some f \<and> rel_path f = p \<and> by_path rt p = Some g \<and> same_file f g" by blast
  qed
  from first_pass_agree [OF assms(2) this, of C "[]"] obtain t where t: "first_pass C lt rt (synced w) [] ps = (t, [])"
      "\<forall>p. by_path t p = (case by_path (synced w) p of Some f \<Rightarrow> Some f | None \<Rightarrow> if p \<in> set ps then by_path lt p else None)" by blast
  have idle: "order_by_folder C [] = []" using assms(1) by (metis wf_config_def mset_zero_iff)
  let ?ds = "sort_dirs (map fst (string_set_of (get_dirs lt @ get_dirs rt @ get_dirs t)))"
  have "dirs lt = dirs rt" using assms(5) by (simp add: trees_agree_def)
  from sync_dirs_agree [OF this, of C L R ?ds "w\<lparr>synced := t\<rparr>"] obtain t' where
      t': "sync_dirs C L R lt rt ?ds (w\<lparr>synced := t\<rparr>) = Inr (w\<lparr>synced := t'\<rparr>)" "files_by_path t' = files_by_path t" by auto
  have "by_path t' p = (case by_path (synced w) p of Some f \<Rightarrow> Some f | None \<Rightarrow> by_path lt p)" for p
    using t(2) t'(2) ps(1) [of p] by (auto simp: by_path_def split: option.splits)
  moreover have "sync_dir C L R w = Inr (w\<lparr>synced := t'\<rparr>)"
    using t(1) t'(1) idle by (simp add: sync_dir_def assms(3,4) ps_def [symmetric] second_pass_def)
  ultimately show ?thesis by blast
qed

definition demo_idle :: "(os_tree, os_tree) world" where
  "demo_idle = \<lparr>local_side = demo_os [1, 2], remote_side = demo_os [1, 2], synced = tree_new\<rparr>"

theorem sync_dir_idle_witness:
  "\<exists>t. sync_dir demo_config (local_fs demo_hash) (local_fs demo_hash) demo_idle = Inr (demo_idle\<lparr>synced := t\<rparr>) \<and> by_path t ''note.txt'' \<noteq> None"
proof -
  define lt where "lt = tree_add tree_new (with_chunk_size (demo_note [1, 2]) chunk_size_for_new_files)"
  have cfg: "wf_config demo_config" by (simp add: wf_config_def demo_config_def)
  have new: "wf_tree (synced demo_idle)" by (simp add: demo_idle_def)
  have scan: "build_dir_state (local_fs demo_hash) (local_side demo_idle) tree_new (synced demo_idle) = Inr lt"
    "build_dir_state (local_fs demo_hash) (remote_side demo_idle) tree_new (synced demo_idle) = Inr lt"
    unfolding lt_def by code_simp+
  have agree: "trees_agree lt lt" by (auto simp: trees_agree_def same_file_def)
  have "by_path (synced demo_idle) ''note.txt'' = None" "by_path lt ''note.txt'' \<noteq> None" unfolding lt_def by code_simp+
  then show ?thesis using sync_dir_idle [OF cfg new scan agree] by auto
qed

end
