(* ===== verification/Mutable.thy ===== *)
theory Mutable
  imports Keys
begin

text \<open>
  Mutable pointers (\<open>peergos-core/src/mutable.rs\<close>): the signed compare-and-swap of a writer's root, its CBOR forms,
  the operations every pointer store derives from \<open>set_pointer\<close> and \<open>get_pointer\<close>, and the HTTP client.  The transport is
  a parameter, and so is the state \<open>'w\<close> of whatever stands behind it.
\<close>

section \<open>Pointer updates\<close>

definition maybe_to_cbor :: "cid option \<Rightarrow> error + cbor" where
  "maybe_to_cbor h = (case h of Some c \<Rightarrow> and_then (cid_bytes c) (\<lambda>bs. Inr (CByteString bs)) | None \<Rightarrow> Inr CNull)"

definition maybe_from_cbor :: "cbor \<Rightarrow> error + cid option" where
  "maybe_from_cbor c =
     (if is_null c then Inr None
      else and_then (ok_or (CborMsg ''Incorrect cbor for MaybeMultihash'') (as_byte_string c)) (\<lambda>bs.
        and_then (map_err Multiformat (cid_cast bs)) (\<lambda>h. Inr (Some h))))"

record pointer_update =
  pu_original :: "cid option"
  pu_updated :: "cid option"
  pu_sequence :: "i64 option"

definition pu_empty :: pointer_update where
  "pu_empty = \<lparr>pu_original = None, pu_updated = None, pu_sequence = None\<rparr>"

text \<open>The addition wraps, as in a release build.\<close>

definition pu_increment :: "i64 option \<Rightarrow> i64 option" where
  "pu_increment s = Some (case s of Some s \<Rightarrow> s + 1 | None \<Rightarrow> 1)"

definition pu_from_cbor :: "cbor \<Rightarrow> error + pointer_update" where
  "pu_from_cbor c =
     and_then (ok_or (CborMsg ''Incorrect cbor for PointerUpdate'') (as_list c)) (\<lambda>l.
       if length l < 2 then Inl (CborMsg ''PointerUpdate needs at least 2 elements'')
       else and_then (if length l < 3 then Inr None
                      else and_then (ok_or (CborMsg ''bad sequence in PointerUpdate'') (as_long (l ! 2))) (\<lambda>s. Inr (Some s))) (\<lambda>s.
         and_then (maybe_from_cbor (l ! 0)) (\<lambda>original.
         and_then (maybe_from_cbor (l ! 1)) (\<lambda>updated.
           Inr \<lparr>pu_original = original, pu_updated = updated, pu_sequence = s\<rparr>))))"

definition pu_to_cbor :: "pointer_update \<Rightarrow> error + cbor" where
  "pu_to_cbor u =
     and_then (maybe_to_cbor (pu_original u)) (\<lambda>original.
     and_then (maybe_to_cbor (pu_updated u)) (\<lambda>updated.
       Inr (CList ([original, updated] @ (case pu_sequence u of Some s \<Rightarrow> [CLong s] | None \<Rightarrow> [])))))"

record signed_pointer_update =
  spu_writer :: public_key_hash
  spu_signed :: bytes

definition spu_from_cbor :: "cbor \<Rightarrow> error + signed_pointer_update" where
  "spu_from_cbor c =
     and_then (and_then (field ''missing 'w' in SignedPointerUpdate'' c ''w'') pkh_from_cbor) (\<lambda>w.
     and_then (ok_or (CborMsg ''missing 's' in SignedPointerUpdate'') (Option.bind (cbor_get c ''s'') as_byte_string)) (\<lambda>s.
       Inr \<lparr>spu_writer = w, spu_signed = s\<rparr>))"

definition spu_to_cbor :: "signed_pointer_update \<Rightarrow> error + cbor" where
  "spu_to_cbor u =
     and_then (pkh_to_cbor (spu_writer u)) (\<lambda>w.
       Inr (build (put ''s'' (CByteString (spu_signed u)) (put ''w'' w map_builder))))"

definition mwc_to_cbor :: "signed_pointer_update list \<Rightarrow> error + cbor" where
  "mwc_to_cbor us = and_then (collect_results spu_to_cbor us) (\<lambda>xs. Inr (build (put ''p'' (CList xs) map_builder)))"

section \<open>Pointer stores\<close>

record 'w pointers =
  set_pointer :: "public_key_hash \<Rightarrow> public_key_hash \<Rightarrow> bytes \<Rightarrow> ('w, error, bool) io"
  set_pointers :: "public_key_hash \<Rightarrow> signed_pointer_update list \<Rightarrow> ('w, error, bool) io"
  get_pointer :: "public_key_hash \<Rightarrow> public_key_hash \<Rightarrow> ('w, error, bytes option) io"

definition sign_update :: "ed25519 \<Rightarrow> signing_private_key_and_public_hash \<Rightarrow> pointer_update \<Rightarrow> error + bytes" where
  "sign_update E signer u = and_then (serialize pu_to_cbor u) (sign_message E (spk_secret signer))"

definition set_pointer_update ::
  "ed25519 \<Rightarrow> 'w pointers \<Rightarrow> public_key_hash \<Rightarrow> signing_private_key_and_public_hash \<Rightarrow> pointer_update \<Rightarrow> ('w, error, bool) io" where
  "set_pointer_update E P owner writer cas_update =
     io_bind (io_lift (sign_update E writer cas_update)) (\<lambda>signed. set_pointer P owner (spk_public_key_hash writer) signed)"

definition parse_pointer_target ::
  "ed25519 \<Rightarrow> (cid \<Rightarrow> error + cbor option) \<Rightarrow> bytes \<Rightarrow> public_key_hash \<Rightarrow> error + pointer_update" where
  "parse_pointer_target E sg pointer_cas writer =
     and_then (get_signing_key sg writer) (\<lambda>found.
       case found of
         Some k \<Rightarrow> and_then (unsign_message E k pointer_cas) (parse pu_from_cbor)
       | None \<Rightarrow> Inr pu_empty)"

definition get_pointer_target ::
  "ed25519 \<Rightarrow> 'w pointers \<Rightarrow> ('w \<Rightarrow> cid \<Rightarrow> error + cbor option) \<Rightarrow> public_key_hash \<Rightarrow> public_key_hash \<Rightarrow> ('w, error, pointer_update) io" where
  "get_pointer_target E P sget owner writer =
     io_bind (get_pointer P owner writer) (\<lambda>found.
       case found of
         Some cas \<Rightarrow> (\<lambda>w. (parse_pointer_target E (sget w) cas writer, w))
       | None \<Rightarrow> io_ret pu_empty)"

section \<open>The HTTP client\<close>

record 'w poster =
  post :: "string \<Rightarrow> bytes \<Rightarrow> bool \<Rightarrow> nat \<Rightarrow> ('w, error, bytes) io"
  http_get :: "string \<Rightarrow> ('w, error, bytes) io"

definition post_unzip :: "'w poster \<Rightarrow> string \<Rightarrow> bytes \<Rightarrow> nat \<Rightarrow> ('w, error, bytes) io" where
  "post_unzip H url payload timeout_ms = post H url payload True timeout_ms"

definition pkh_to_string :: "public_key_hash \<Rightarrow> error + string" where
  "pkh_to_string h = map_err Multiformat (cid_to_string (pkh_target h))"

definition read_boolean :: "bytes \<Rightarrow> bool" where
  "read_boolean res = (case res of b # _ \<Rightarrow> b \<noteq> 0 | [] \<Rightarrow> False)"

definition owner_writer_url :: "string \<Rightarrow> public_key_hash \<Rightarrow> public_key_hash \<Rightarrow> error + string" where
  "owner_writer_url call owner writer =
     and_then (pkh_to_string owner) (\<lambda>s. and_then (pkh_to_string writer) (\<lambda>t.
       Inr (''peergos/v0/mutable/'' @ call @ ''?owner='' @ s @ ''&writer='' @ t)))"

definition http_mutable_pointers :: "'w poster \<Rightarrow> 'w pointers" where
  "http_mutable_pointers H =
     \<lparr>set_pointer = (\<lambda>owner writer payload.
        io_bind (io_lift (owner_writer_url ''setPointer'' owner writer)) (\<lambda>url.
        io_bind (post_unzip H url payload 60000) (\<lambda>res. io_ret (read_boolean res)))),
      set_pointers = (\<lambda>owner updates.
        io_bind (io_lift (and_then (pkh_to_string owner) (\<lambda>s. Inr (''peergos/v0/mutable/setPointers?owner='' @ s)))) (\<lambda>url.
        io_bind (io_lift (serialize mwc_to_cbor updates)) (\<lambda>body.
        io_bind (post_unzip H url body 60000) (\<lambda>res. io_ret (read_boolean res))))),
      get_pointer = (\<lambda>owner writer.
        io_bind (io_lift (owner_writer_url ''getPointer'' owner writer)) (\<lambda>url.
        io_bind (http_get H url) (\<lambda>res. io_ret (if res = [] then None else Some res))))\<rparr>"

section \<open>Round trips\<close>

definition wf_update :: "pointer_update \<Rightarrow> bool" where
  "wf_update u \<longleftrightarrow> pred_option wf_cid (pu_original u) \<and> pred_option wf_cid (pu_updated u)"

interpretation maybe: cbor_codec maybe_to_cbor maybe_from_cbor "pred_option wf_cid"
proof
  fix h :: "cid option"
  assume "pred_option wf_cid h"
  then show "\<exists>x. maybe_to_cbor h = Inr x \<and> maybe_from_cbor x = Inr h \<and> wf_cbor x"
    using cid_bytes_roundtrip by (cases h) (fastforce simp: maybe_to_cbor_def maybe_from_cbor_def cid_bytes_def is_null_def)+
qed

interpretation pu: cbor_codec pu_to_cbor pu_from_cbor wf_update
proof
  fix u
  assume "wf_update u"
  then obtain x y where "maybe_to_cbor (pu_original u) = Inr x" "maybe_from_cbor x = Inr (pu_original u)" "wf_cbor x"
      "maybe_to_cbor (pu_updated u) = Inr y" "maybe_from_cbor y = Inr (pu_updated u)" "wf_cbor y"
    using maybe.encodes by (metis wf_update_def)
  then show "\<exists>x. pu_to_cbor u = Inr x \<and> pu_from_cbor x = Inr u \<and> wf_cbor x"
    by (cases "pu_sequence u") (auto simp: pu_to_cbor_def pu_from_cbor_def)
qed

definition wf_spu :: "signed_pointer_update \<Rightarrow> bool" where
  "wf_spu u \<longleftrightarrow> wf_pkh (spu_writer u)"

interpretation spu: cbor_codec spu_to_cbor spu_from_cbor wf_spu
proof
  fix u
  assume "wf_spu u"
  then obtain x where "pkh_to_cbor (spu_writer u) = Inr x" "pkh_from_cbor x = Inr (spu_writer u)" "wf_cbor x"
    using pkh.encodes by (metis wf_spu_def)
  then show "\<exists>x. spu_to_cbor u = Inr x \<and> spu_from_cbor x = Inr u \<and> wf_cbor x"
    by (simp add: spu_to_cbor_def spu_from_cbor_def field_def)
qed

section \<open>Pointer updates are small\<close>

lemma length_write_uint: "length (write_uint out mt v) \<le> length out + 9"
  by (simp add: write_uint_def)

lemma length_write_string: "length (write_string out mt bs) \<le> length out + 9 + length bs"
  using length_write_uint [of out "push_bit 5 mt"] by (simp add: write_string_def write_type_def)

lemma length_put_uvarint: "length (put_uvarint [] x) \<le> Suc (unat x)"
proof (induction x rule: measure_induct_rule [where f = unat])
  case (less x)
  show ?case
  proof (cases "x \<ge> 0x80")
    case True
    then show ?thesis using less.IH [OF drop7_less [OF True]] drop7_less [OF True] by (simp add: put_uvarint_big)
  qed (simp add: put_uvarint_small)
qed

lemma length_cid_bytes:
  assumes "wf_cid c" "cid_to_bytes c = Inr bs"
  shows "length bs \<le> 8300"
proof -
  let ?h = "hash (cid_multihash c)"
  have "length ?h \<le> 4112" using assms(1) by (auto simp: wf_cid_def wf_multihash_def multihash_new_def split: if_splits)
  moreover have "unat (of_nat (length ?h) :: u64) \<le> length ?h" by (simp add: unat_of_nat)
  ultimately have "length (multihash_to_bytes (cid_multihash c)) \<le> 8250"
    using length_put_uvarint [of "of_nat (length ?h)"] by (simp add: multihash_to_bytes_eq)
  then show ?thesis using assms(2) by (auto simp: cid_to_bytes_def to_bytes_v1_eq split: if_splits)
qed

lemma length_maybe:
  assumes "pred_option wf_cid h" "maybe_to_cbor h = Inr x"
  shows "length (write_object out x) \<le> length out + 9000"
proof (cases h)
  case None
  then show ?thesis using assms(2) by (simp add: maybe_to_cbor_def write_simple_type_def)
next
  case (Some c)
  then obtain bs where "x = CByteString bs" "length bs \<le> 8300"
    using assms length_cid_bytes by (auto simp: maybe_to_cbor_def cid_bytes_def and_then_Inr_iff map_err_Inr_iff)
  then show ?thesis using length_write_string [of out TYPE_BYTE_STRING bs] by simp
qed

lemma length_update:
  assumes "wf_update u" "serialize pu_to_cbor u = Inr bs"
  shows "length bs \<le> 20000"
proof -
  obtain x y where x: "maybe_to_cbor (pu_original u) = Inr x" and y: "maybe_to_cbor (pu_updated u) = Inr y"
      and bs: "bs = to_bytes (CList ([x, y] @ (case pu_sequence u of Some s \<Rightarrow> [CLong s] | None \<Rightarrow> [])))"
    using assms(2) by (auto simp: serialize_def pu_to_cbor_def and_then_Inr_iff)
  have seq: "length (case pu_sequence u of Some s \<Rightarrow> write_object out (CLong s) | None \<Rightarrow> out) \<le> length out + 9" for out
    by (cases "pu_sequence u") (simp_all add: write_int_def Let_def length_write_uint)
  define o1 where "o1 = write_type [] TYPE_ARRAY (of_nat (length ([x, y] @ (case pu_sequence u of Some s \<Rightarrow> [CLong s] | None \<Rightarrow> []))))"
  have "bs = (case pu_sequence u of Some s \<Rightarrow> write_object (write_object (write_object o1 x) y) (CLong s) | None \<Rightarrow> write_object (write_object o1 x) y)"
    by (cases "pu_sequence u") (simp_all add: bs to_bytes_def o1_def)
  then have "length bs \<le> length (write_object (write_object o1 x) y) + 9" using seq by simp
  moreover have "length o1 \<le> 9" using length_write_uint [of "[]"] by (simp add: o1_def write_type_def)
  moreover have "length (write_object o1 x) \<le> length o1 + 9000" "length (write_object (write_object o1 x) y) \<le> length (write_object o1 x) + 9000"
    using length_maybe [OF _ x] length_maybe [OF _ y] assms(1) by (auto simp: wf_update_def)
  ultimately show ?thesis by linarith
qed

section \<open>Signed pointers\<close>

text \<open>The key pair of a signer.\<close>

definition signer_of :: "ed25519 \<Rightarrow> bytes \<Rightarrow> error + signing_private_key_and_public_hash" where
  "signer_of E sk = and_then (skp_from_secret E sk) to_private_and_hash"

lemma signer_of_key:
  assumes "signer_of E sk = Inr spk"
  obtains pk where "public_from_secret E sk = Inr pk" "psk_hash \<lparr>psk_bytes = pk\<rparr> = Inr (spk_public_key_hash spk)"
    "spk_secret spk = \<lparr>ssk_bytes = sk\<rparr>"
  using assms by (auto simp: signer_of_def skp_from_secret_def to_private_and_hash_def and_then_Inr_iff)

lemma sign_update_parse:
  assumes "ed25519_ok E" "signer_of E sk = Inr spk" "wf_update u" "sign_update E spk u = Inr cas"
  shows "parse_pointer_target E sg cas (spk_public_key_hash spk) = Inr u" "parse pu_from_cbor (drop 64 cas) = Inr u" "64 \<le> length cas"
proof -
  obtain pk where k: "public_from_secret E sk = Inr pk" "psk_hash \<lparr>psk_bytes = pk\<rparr> = Inr (spk_public_key_hash spk)"
      "spk_secret spk = \<lparr>ssk_bytes = sk\<rparr>"
    using assms(2) by (rule signer_of_key)
  obtain bs where bs: "serialize pu_to_cbor u = Inr bs" "length bs < 2 ^ 64 \<longrightarrow> parse pu_from_cbor bs = Inr u"
    using pu.bytes_roundtrip [OF assms(3)] by blast
  then have u: "parse pu_from_cbor bs = Inr u" using length_update [OF assms(3) bs(1)] by simp
  have sm: "crypto_sign E bs sk = Inr cas" using assms(4) bs(1) k(3) by (simp add: sign_update_def sign_message_def)
  then have cas: "cas = ed_sign E (take 32 sk) bs @ bs" by (auto simp: crypto_sign_def split: if_splits)
  have len: "length (ed_sign E (take 32 sk) bs) = 64" using assms(1) by (simp add: ed25519_ok_def)
  then show "parse pu_from_cbor (drop 64 cas) = Inr u" "64 \<le> length cas" using u by (simp_all add: cas)
  show "parse_pointer_target E sg cas (spk_public_key_hash spk) = Inr u"
    using psk_hash_lookup(1) [OF k(2), of sg] crypto_sign_open_sign [OF assms(1) sm k(1)] u
    by (simp add: parse_pointer_target_def unsign_message_def cas)
qed

text \<open>
  C18. Signed pointers: an update signed by the owner of a key pair is read back by everyone who knows the key's
  hash, whatever the block store holds; and a pointer that reads as anything but the empty update carries a signature
  that Ed25519 accepts under the writer's key, over the update that is read.
\<close>

theorem pointer_target_verifies:
  assumes "ed25519_ok E" "signer_of E sk = Inr spk" "wf_update u" "sign_update E spk u = Inr cas"
  shows "parse_pointer_target E sg cas (spk_public_key_hash spk) = Inr u \<and>
    (\<forall>writer cas' u'. parse_pointer_target E sg cas' writer = Inr u' \<longrightarrow>
      get_signing_key sg writer = Inr None \<and> u' = pu_empty \<or>
      (\<exists>k. get_signing_key sg writer = Inr (Some k) \<and> ed_verify E (psk_bytes k) (drop 64 cas') (take 64 cas') \<and>
        parse pu_from_cbor (drop 64 cas') = Inr u'))"
proof (intro conjI allI impI)
  show "parse_pointer_target E sg cas (spk_public_key_hash spk) = Inr u" by (rule sign_update_parse(1) [OF assms])
next
  fix writer cas' u'
  assume "parse_pointer_target E sg cas' writer = Inr u'"
  then obtain found where f: "get_signing_key sg writer = Inr found"
      "(case found of Some k \<Rightarrow> and_then (unsign_message E k cas') (parse pu_from_cbor) | None \<Rightarrow> Inr pu_empty) = Inr u'"
    by (auto simp: parse_pointer_target_def and_then_Inr_iff)
  then show "get_signing_key sg writer = Inr None \<and> u' = pu_empty \<or>
      (\<exists>k. get_signing_key sg writer = Inr (Some k) \<and> ed_verify E (psk_bytes k) (drop 64 cas') (take 64 cas') \<and>
        parse pu_from_cbor (drop 64 cas') = Inr u')"
    by (cases found) (auto simp: unsign_message_def crypto_sign_open_def and_then_Inr_iff split: if_splits)
qed

definition demo_update :: pointer_update where
  "demo_update = \<lparr>pu_original = None, pu_updated = Some (pkh_target demo_owner), pu_sequence = Some 1\<rparr>"

lemma demo_update_wf: "wf_update demo_update"
  using demo_owner_wf by (simp add: demo_update_def wf_update_def wf_pkh_def)

definition demo_cas :: "error + signing_private_key_and_public_hash \<times> bytes" where
  "demo_cas = and_then (signer_of demo_ed (replicate 64 7)) (\<lambda>spk.
     and_then (sign_update demo_ed spk demo_update) (\<lambda>cas. Inr (spk, cas)))"

theorem pointer_target_verifies_witness:
  "\<exists>spk cas. demo_cas = Inr (spk, cas) \<and> parse_pointer_target demo_ed (\<lambda>_. Inr None) cas (spk_public_key_hash spk) = Inr demo_update"
proof -
  have "case demo_cas of Inr (spk, cas) \<Rightarrow> True | _ \<Rightarrow> False" by code_simp
  then obtain spk cas where c: "demo_cas = Inr (spk, cas)" by (auto split: sum.splits)
  then have "signer_of demo_ed (replicate 64 7) = Inr spk" "sign_update demo_ed spk demo_update = Inr cas"
    by (auto simp: demo_cas_def and_then_Inr_iff)
  from pointer_target_verifies [OF demo_ed_ok this(1) demo_update_wf this(2)] c show ?thesis by blast
qed

end
