(* ===== verification/Bulk.thy ===== *)
theory Bulk
  imports Mutable
begin

text \<open>
  The bulk write protocol (\<open>peergos-core/src/bulk.rs\<close>): commits of several writers in one call, their CBOR forms, the
  payloads that are signed, and the recognition of server errors; with \<open>BlockWriteGroup\<close> of \<open>storage.rs\<close>.
  SHA-256 is a parameter.
\<close>

abbreviation (input) MAX_BULK_COMMIT_SIZE :: nat where "MAX_BULK_COMMIT_SIZE \<equiv> 2097152"
abbreviation (input) MAX_BULK_COMMIT_BLOCKS :: nat where "MAX_BULK_COMMIT_BLOCKS \<equiv> 1000"

section \<open>Lists of blocks and links\<close>

definition byte_list :: "bytes list \<Rightarrow> cbor" where
  "byte_list bs = CList (map CByteString bs)"

definition parse_byte_list :: "cbor option \<Rightarrow> string \<Rightarrow> error + bytes list" where
  "parse_byte_list c what =
     and_then (ok_or (CborMsg (''missing '' @ what)) (Option.bind c as_list))
       (collect_results (\<lambda>b. ok_or (CborMsg (''bad '' @ what)) (as_byte_string b)))"

definition link_list :: "cid list \<Rightarrow> error + cbor" where
  "link_list cids = and_then (collect_results (\<lambda>c. and_then (cid_bytes c) (\<lambda>bs. Inr (CMerkleLink bs))) cids) (\<lambda>xs. Inr (CList xs))"

definition parse_link_list :: "cbor option \<Rightarrow> string \<Rightarrow> error + cid list" where
  "parse_link_list c what =
     and_then (ok_or (CborMsg (''missing '' @ what)) (Option.bind c as_list))
       (collect_results (\<lambda>x. and_then (ok_or (CborMsg (''bad '' @ what)) (as_link x)) (\<lambda>bs. map_err Multiformat (cid_cast bs))))"

section \<open>Commits\<close>

record writer_commit =
  wc_writer :: public_key_hash
  cbor_blocks :: "bytes list"
  raw_blocks :: "bytes list"
  pre_written :: "cid list"
  wc_pointer :: "signed_pointer_update option"
  block_list_signature :: "bytes option"

definition to_be_bytes :: "i64 \<Rightarrow> bytes" where
  "to_be_bytes v = map (\<lambda>i. ucast (drop_bit (8 * i) v)) [7, 6, 5, 4, 3, 2, 1, 0]"

fun concat_cids :: "bytes \<Rightarrow> cid list \<Rightarrow> error + bytes" where
  "concat_cids bs [] = Inr bs"
| "concat_cids bs (c # cs) = and_then (cid_bytes c) (\<lambda>x. concat_cids (bs @ x) cs)"

definition block_list_payload :: "(bytes \<Rightarrow> bytes) \<Rightarrow> cid list \<Rightarrow> i64 option \<Rightarrow> error + bytes" where
  "block_list_payload sha256 cids next_sequence =
     and_then (concat_cids [] cids) (\<lambda>bs. Inr (sha256 (bs @ to_be_bytes (case next_sequence of Some s \<Rightarrow> s | None \<Rightarrow> 0))))"

definition wc_inline_size :: "writer_commit \<Rightarrow> nat" where
  "wc_inline_size w = sum_list (map length (cbor_blocks w @ raw_blocks w))"

definition wc_block_count :: "writer_commit \<Rightarrow> nat" where
  "wc_block_count w = length (cbor_blocks w) + length (raw_blocks w)"

definition wc_from_cbor :: "cbor \<Rightarrow> error + writer_commit" where
  "wc_from_cbor c =
     and_then (and_then (field (''WriterCommit missing 'w'' @ [CHR 0x27]) c ''w'') pkh_from_cbor) (\<lambda>w.
     and_then (parse_byte_list (cbor_get c ''c'') ''cbor blocks'') (\<lambda>cs.
     and_then (parse_byte_list (cbor_get c ''r'') ''raw blocks'') (\<lambda>rs.
     and_then (parse_link_list (cbor_get c ''p'') ''pre-written blocks'') (\<lambda>ps.
     and_then (opt_field spu_from_cbor c ''u'') (\<lambda>u.
       Inr \<lparr>wc_writer = w, cbor_blocks = cs, raw_blocks = rs, pre_written = ps, wc_pointer = u,
         block_list_signature = Option.bind (cbor_get c ''s'') as_byte_string\<rparr>)))))"

definition wc_to_cbor :: "writer_commit \<Rightarrow> error + cbor" where
  "wc_to_cbor w =
     and_then (pkh_to_cbor (wc_writer w)) (\<lambda>h.
     and_then (link_list (pre_written w)) (\<lambda>ps.
     and_then (opt_enc spu_to_cbor (wc_pointer w)) (\<lambda>u.
       Inr (build (put_opt ''s'' (map_option CByteString (block_list_signature w)) (put_opt ''u'' u
         (put ''p'' ps (put ''r'' (byte_list (raw_blocks w)) (put ''c'' (byte_list (cbor_blocks w)) (put ''w'' h map_builder)))))))))) "

record bulk_commit =
  bc_tid :: "string option"
  writers :: "writer_commit list"

definition inline_size :: "bulk_commit \<Rightarrow> nat" where
  "inline_size c = sum_list (map wc_inline_size (writers c))"

definition block_count :: "bulk_commit \<Rightarrow> nat" where
  "block_count c = sum_list (map wc_block_count (writers c))"

definition pre_written_count :: "bulk_commit \<Rightarrow> nat" where
  "pre_written_count c = sum_list (map (\<lambda>w. length (pre_written w)) (writers c))"

definition has_pointer_update :: "bulk_commit \<Rightarrow> bool" where
  "has_pointer_update c = list_ex (\<lambda>w. wc_pointer w \<noteq> None) (writers c)"

definition bc_from_cbor :: "cbor \<Rightarrow> error + bulk_commit" where
  "bc_from_cbor c =
     and_then (and_then (ok_or (CborMsg (''BulkCommit missing 'w'' @ [CHR 0x27])) (Option.bind (cbor_get c ''w'') as_list))
         (collect_results wc_from_cbor)) (\<lambda>ws.
       Inr \<lparr>bc_tid = Option.bind (cbor_get c ''t'') as_string, writers = ws\<rparr>)"

definition bc_to_cbor :: "bulk_commit \<Rightarrow> error + cbor" where
  "bc_to_cbor c =
     and_then (collect_results wc_to_cbor (writers c)) (\<lambda>ws.
       Inr (build (put_opt ''t'' (map_option CStr (bc_tid c)) (put ''w'' (CList ws) map_builder))))"

section \<open>Batches\<close>

definition block_write_payload :: "(bytes \<Rightarrow> bytes) \<Rightarrow> public_key_hash \<Rightarrow> cid list \<Rightarrow> error + bytes" where
  "block_write_payload sha256 owner hashes =
     and_then (cid_bytes (pkh_target owner)) (\<lambda>start. and_then (concat_cids start hashes) (\<lambda>bs. Inr (sha256 bs)))"

record block_write_auth =
  bwa_hashes :: "cid list"
  bwa_sizes :: "i64 list"
  bwa_bat_ids :: "bat_id list list"
  bwa_signature :: bytes

definition bwa_to_cbor :: "block_write_auth \<Rightarrow> error + cbor" where
  "bwa_to_cbor a =
     and_then (link_list (bwa_hashes a)) (\<lambda>h.
     and_then (collect_results (\<lambda>ids. and_then (collect_results bat_to_cbor ids) (\<lambda>xs. Inr (CList xs))) (bwa_bat_ids a)) (\<lambda>bs.
       Inr (build (put ''s'' (CByteString (bwa_signature a)) (put ''b'' (CList bs)
         (put ''l'' (CList (map CLong (bwa_sizes a))) (put ''h'' h map_builder)))))))"

record block_write_batch =
  bwb_blocks :: "bytes list"
  bwb_signature :: bytes

definition bwb_from_cbor :: "cbor \<Rightarrow> error + block_write_batch" where
  "bwb_from_cbor c =
     and_then (parse_byte_list (cbor_get c ''b'') ''blocks'') (\<lambda>bs.
     and_then (ok_or (CborMsg (''BlockWriteBatch missing 's'' @ [CHR 0x27])) (Option.bind (cbor_get c ''s'') as_byte_string)) (\<lambda>s.
       Inr \<lparr>bwb_blocks = bs, bwb_signature = s\<rparr>))"

definition bwb_to_cbor :: "block_write_batch \<Rightarrow> error + cbor" where
  "bwb_to_cbor b = Inr (build (put ''s'' (CByteString (bwb_signature b)) (put ''b'' (byte_list (bwb_blocks b)) map_builder)))"

record block_write_group =
  bwg_blocks :: "bytes list"
  bwg_signatures :: "bytes list"

definition bwg_to_cbor :: "block_write_group \<Rightarrow> error + cbor" where
  "bwg_to_cbor g = Inr (build (put ''s'' (byte_list (bwg_signatures g)) (put ''b'' (byte_list (bwg_blocks g)) map_builder)))"

text \<open>Elements that are not byte strings are left out.\<close>

definition bwg_list :: "cbor \<Rightarrow> string \<Rightarrow> error + bytes list" where
  "bwg_list c f =
     and_then (ok_or (CborMsg (''BlockWriteGroup missing '' @ f)) (Option.bind (cbor_get c f) as_list)) (\<lambda>l.
       Inr (List.map_filter as_byte_string l))"

definition bwg_from_cbor :: "cbor \<Rightarrow> error + block_write_group" where
  "bwg_from_cbor c =
     and_then (bwg_list c ''b'') (\<lambda>b. and_then (bwg_list c ''s'') (\<lambda>s. Inr \<lparr>bwg_blocks = b, bwg_signatures = s\<rparr>))"

section \<open>Server errors\<close>

text \<open>The text of an error; \<open>detail\<close> is the message of the CBOR and multiformat errors, which the model does not spell out.\<close>

fun error_text :: "(error \<Rightarrow> string) \<Rightarrow> error \<Rightarrow> string" where
  "error_text detail (Http s) = ''http error: '' @ s"
| "error_text detail RateLimited = ''rate limited''"
| "error_text detail (QuotaExceeded s) = ''storage quota exceeded: '' @ s"
| "error_text detail (Protocol s) = ''protocol error: '' @ s"
| "error_text detail (CborMsg s) = ''cbor error: '' @ s"
| "error_text detail (CborErr e) = ''cbor error: '' @ detail (CborErr e)"
| "error_text detail (Multiformat e) = ''multiformat error: '' @ detail (Multiformat e)"
| "error_text detail (Crypto s) = ''crypto error: '' @ s"
| "error_text detail e = detail e"

fun contains :: "string \<Rightarrow> string \<Rightarrow> bool" where
  "contains [] pat = (pat = [])"
| "contains (c # s) pat = (take (length pat) (c # s) = pat \<or> contains s pat)"

definition is_unimplemented :: "(error \<Rightarrow> string) \<Rightarrow> error \<Rightarrow> bool" where
  "is_unimplemented detail e =
     (let msg = map (\<lambda>c. if c = CHR ''+'' then CHR '' '' else c) (error_text detail e)
      in contains msg ''status 404'' \<or> contains msg ''Not Found'' \<or> contains msg ''Unimplemented call'')"

definition is_pointer_cas_failure :: "(error \<Rightarrow> string) \<Rightarrow> error \<Rightarrow> bool" where
  "is_pointer_cas_failure detail e = contains (error_text detail e) ''PointerCAS:''"

lemma contains_iff: "contains s pat \<longleftrightarrow> (\<exists>a b. s = a @ pat @ b)"
proof (induction s)
  case (Cons c s)
  have "take (length pat) (c # s) = pat \<longleftrightarrow> (\<exists>b. c # s = pat @ b)"
    by (metis append_eq_conv_conj append_take_drop_id)
  then show ?case unfolding contains.simps Cons.IH by (metis append_Cons append_Nil list.exhaust list.inject)
qed simp

section \<open>Round trips\<close>

lemma byte_list_roundtrip [simp]: "parse_byte_list (Some (byte_list bs)) what = Inr bs"
  by (simp add: parse_byte_list_def byte_list_def collect_results_roundtrip)

lemma byte_list_wf [simp]: "wf_cbor (byte_list bs)"
  by (simp add: byte_list_def list_all_iff)

lemma link_list_roundtrip:
  "list_all wf_cid cs \<Longrightarrow> \<exists>x. link_list cs = Inr x \<and> wf_cbor x \<and> (\<forall>what. parse_link_list (Some x) what = Inr cs)"
proof (induction cs)
  case (Cons c cs)
  then obtain bs x where c: "cid_to_bytes c = Inr bs" "cid_cast bs = Inr c" and x: "link_list cs = Inr x" "wf_cbor x"
      "\<forall>what. parse_link_list (Some x) what = Inr cs"
    using cid_bytes_roundtrip [of c] by auto
  then obtain xs where "x = CList xs" by (auto simp: link_list_def and_then_Inr_iff)
  with c x show ?case by (auto simp: link_list_def parse_link_list_def cid_bytes_def and_then_Inr_iff)
qed (simp add: link_list_def parse_link_list_def)

definition wf_wc :: "writer_commit \<Rightarrow> bool" where
  "wf_wc w \<longleftrightarrow> wf_pkh (wc_writer w) \<and> list_all wf_cid (pre_written w) \<and> pred_option wf_spu (wc_pointer w)"

definition wf_bc :: "bulk_commit \<Rightarrow> bool" where
  "wf_bc c \<longleftrightarrow> list_all wf_wc (writers c) \<and> pred_option valid_utf8 (bc_tid c)"

interpretation wc: cbor_codec wc_to_cbor wc_from_cbor wf_wc
proof
  fix w
  assume wf: "wf_wc w"
  obtain h where h: "pkh_to_cbor (wc_writer w) = Inr h" "pkh_from_cbor h = Inr (wc_writer w)" "wf_cbor h"
    using wf pkh.encodes by (metis wf_wc_def)
  obtain ps where ps: "link_list (pre_written w) = Inr ps" "wf_cbor ps" "\<forall>what. parse_link_list (Some ps) what = Inr (pre_written w)"
    using wf link_list_roundtrip by (metis wf_wc_def)
  have "\<And>b. wc_pointer w = Some b \<Longrightarrow> wf_spu b" using wf by (auto simp: wf_wc_def)
  then obtain u where u: "opt_enc spu_to_cbor (wc_pointer w) = Inr u" "\<And>y. u = Some y \<Longrightarrow> wf_cbor y"
      "\<And>c k. cbor_get c k = u \<Longrightarrow> opt_field spu_from_cbor c k = Inr (wc_pointer w)"
    using spu.encodes_opt by blast
  have "Option.bind (map_option CByteString (block_list_signature w)) as_byte_string = block_list_signature w"
    by (cases "block_list_signature w") simp_all
  then show "\<exists>x. wc_to_cbor w = Inr x \<and> wc_from_cbor x = Inr w \<and> wf_cbor x"
    using h ps u by (auto simp: wc_to_cbor_def wc_from_cbor_def field_def intro!: wf_build_put_opt)
qed

interpretation bc: cbor_codec bc_to_cbor bc_from_cbor wf_bc
proof
  fix c
  assume wf: "wf_bc c"
  obtain ws where "collect_results wc_to_cbor (writers c) = Inr ws" "collect_results wc_from_cbor ws = Inr (writers c)" "list_all wf_cbor ws"
    using wf wc.encodes_list by (metis wf_bc_def)
  then show "\<exists>x. bc_to_cbor c = Inr x \<and> bc_from_cbor x = Inr c \<and> wf_cbor x"
    using wf by (cases "bc_tid c") (auto simp: bc_to_cbor_def bc_from_cbor_def wf_bc_def intro!: wf_build_put_opt)
qed

interpretation bwb: cbor_codec bwb_to_cbor bwb_from_cbor "\<lambda>_. True"
  by unfold_locales (simp add: bwb_to_cbor_def bwb_from_cbor_def)

interpretation bwg: cbor_codec bwg_to_cbor bwg_from_cbor "\<lambda>_. True"
proof
  have *: "List.map_filter as_byte_string (map CByteString bs) = bs" for bs
    by (induction bs) (simp_all add: List.map_filter_simps)
  show "\<exists>x. bwg_to_cbor g = Inr x \<and> bwg_from_cbor x = Inr g \<and> wf_cbor x" for g
    using * by (simp add: bwg_to_cbor_def bwg_from_cbor_def bwg_list_def, simp add: byte_list_def)
qed

text \<open>
  C34. Bulk commits survive the call: the body of a well-formed commit is parsed back to the same commit, blocks,
  pre-written links, signatures and pointer updates included.
\<close>

theorem bulk_commit_roundtrip:
  assumes "wf_bc c"
  shows "\<exists>body. serialize bc_to_cbor c = Inr body \<and> (length body < 2 ^ 64 \<longrightarrow> parse bc_from_cbor body = Inr c)"
  by (rule bc.bytes_roundtrip [OF assms])

theorem bulk_commit_roundtrip_witness:
  "\<exists>body. serialize bc_to_cbor \<lparr>bc_tid = Some ''42'', writers = [\<lparr>wc_writer = demo_owner, cbor_blocks = [[7]], raw_blocks = [[1, 2, 3]],
     pre_written = [pkh_target demo_owner], wc_pointer = Some \<lparr>spu_writer = demo_owner, spu_signed = [9]\<rparr>, block_list_signature = None\<rparr>]\<rparr> = Inr body"
  using demo_owner_wf bulk_commit_roundtrip [of "\<lparr>bc_tid = Some ''42'', writers = [\<lparr>wc_writer = demo_owner, cbor_blocks = [[7]], raw_blocks = [[1, 2, 3]],
     pre_written = [pkh_target demo_owner], wc_pointer = Some \<lparr>spu_writer = demo_owner, spu_signed = [9]\<rparr>, block_list_signature = None\<rparr>]\<rparr>"]
  by (auto simp: wf_bc_def wf_wc_def wf_spu_def wf_pkh_def)

end
