(* ===== verification/Champ_Merge.thy ===== *)
theory Champ_Merge
  imports Champ_Props Codec "HOL-Library.AList"
begin

text \<open>
  \<open>peergos-core/src/champ_merge.rs\<close>: the three-way merge of CHAMPs after a concurrent update of a writer's pointer.  The
  store is a parameter as in \<open>Champ\<close>.  A \<open>HashMap\<close> is an association list; the order in which it is visited is the
  argument \<open>ord\<close>.  The recursion of \<open>diff\<close> into child nodes is bounded by fuel.
\<close>

section \<open>Reading\<close>

definition get_block :: "(cid \<Rightarrow> error + cbor option) \<Rightarrow> cid \<Rightarrow> error + cbor" where
  "get_block sg c = and_then (sg c) (ok_or (Protocol ''block missing for merge''))"

definition tree_root :: "cbor \<Rightarrow> error + cid" where
  "tree_root wd =
     and_then (ok_or (CborMsg ''WriterData has no champ tree'') (Option.bind (cbor_get wd ''tree'') as_link)) (\<lambda>bs.
       map_err Multiformat (cid_cast bs))"

definition with_tree :: "cbor \<Rightarrow> cid \<Rightarrow> error + cbor" where
  "with_tree wd r =
     (case wd of
        CMap m \<Rightarrow> and_then (map_err Multiformat (cid_to_bytes r)) (\<lambda>bs.
          Inr (CMap (bt_insert cmp_cbor_string ''tree'' (CMerkleLink bs) m)))
      | _ \<Rightarrow> Inl (CborMsg ''WriterData is not a map''))"

definition load_champ :: "(cid \<Rightarrow> error + cbor option) \<Rightarrow> cid option \<Rightarrow> error + champ option" where
  "load_champ sg c =
     (case c of
        Some l \<Rightarrow> and_then (get_block sg l) (\<lambda>y. and_then (champ_from_cbor y) (\<lambda>c. Inr (Some c)))
      | None \<Rightarrow> Inr None)"

text \<open>\<open>contents.get(i)\<close>; an index below zero wraps to one that is out of range.\<close>

definition vec_get :: "'a list \<Rightarrow> nat \<Rightarrow> 'a option" where
  "vec_get xs i = (if i < length xs then Some (xs ! i) else None)"

definition get_element :: "nat \<Rightarrow> nat \<Rightarrow> nat \<Rightarrow> champ option \<Rightarrow> payload option" where
  "get_element b data_index node_index c =
     (case c of
        None \<Rightarrow> None
      | Some c \<Rightarrow>
          if bit_get (data_map c) b then vec_get (contents c) data_index
          else if bit_get (node_map c) b then
            if length (contents c) < 1 + node_index then None else vec_get (contents c) (length (contents c) - 1 - node_index)
          else None)"

text \<open>The mappings of a higher level that fall into slot \<open>i\<close>.\<close>

definition hash_and_mask :: "key_element list \<Rightarrow> nat \<Rightarrow> nat \<Rightarrow> key_element list" where
  "hash_and_mask ms depth i = filter (\<lambda>m. champ_mask (ke_key m) depth BIT_WIDTH = i) ms"

section \<open>Differences\<close>

record diff_entry =
  de_key :: bytes
  de_base :: "cbor option"
  de_other :: "cbor option"

type_synonym entries = "(bytes \<times> cbor option) list"

definition entry_map :: "key_element list \<Rightarrow> entries" where
  "entry_map ms = foldl (\<lambda>t m. AList.update (ke_key m) (ke_value m) t) [] ms"

definition bucket_diff :: "(entries \<Rightarrow> entries) \<Rightarrow> key_element list \<Rightarrow> key_element list \<Rightarrow> diff_entry list" where
  "bucket_diff ord lms rms =
     (let lmap = entry_map lms; rmap = entry_map rms
      in List.map_filter (\<lambda>(k, v).
           case map_of rmap k of
             None \<Rightarrow> Some \<lparr>de_key = k, de_base = v, de_other = None\<rparr>
           | Some rv \<Rightarrow> if rv \<noteq> v then Some \<lparr>de_key = k, de_base = v, de_other = rv\<rparr> else None) (ord lmap) @
         List.map_filter (\<lambda>(k, v).
           if map_of lmap k = None then Some \<lparr>de_key = k, de_base = None, de_other = v\<rparr> else None) (ord rmap))"

type_synonym half_pair = "cid option \<times> cid option \<times> key_element list \<times> key_element list"

record scan =
  left_data :: nat
  right_data :: nat
  left_nodes :: nat
  right_nodes :: nat
  deeper :: "half_pair list"
  found :: "diff_entry list"

definition slot_mappings :: "payload option \<Rightarrow> key_element list \<Rightarrow> key_element list" where
  "slot_mappings p higher = (case p of Some (Mappings ms) \<Rightarrow> ms | _ \<Rightarrow> higher)"

definition slot_shard :: "payload option \<Rightarrow> cid option" where
  "slot_shard p = (case p of Some (Link l) \<Rightarrow> Some l | _ \<Rightarrow> None)"

definition scan_payloads ::
  "(entries \<Rightarrow> entries) \<Rightarrow> payload option \<Rightarrow> payload option \<Rightarrow> key_element list \<Rightarrow> key_element list \<Rightarrow> scan \<Rightarrow> scan" where
  "scan_payloads ord lp rp left_higher right_higher sc =
     (let lms = slot_mappings lp left_higher; rms = slot_mappings rp right_higher;
          ls = slot_shard lp; rs = slot_shard rp;
          sc' = (if ls \<noteq> None \<or> rs \<noteq> None then sc\<lparr>deeper := deeper sc @ [(ls, rs, lms, rms)]\<rparr>
                 else sc\<lparr>found := found sc @ bucket_diff ord lms rms\<rparr>)
      in sc'\<lparr>left_nodes := left_nodes sc + (case lp of Some p \<Rightarrow> if is_shard p then 1 else 0 | None \<Rightarrow> 0),
             left_data := left_data sc + (case lp of Some p \<Rightarrow> if is_shard p then 0 else 1 | None \<Rightarrow> 0),
             right_nodes := right_nodes sc + (case rp of Some p \<Rightarrow> if is_shard p then 1 else 0 | None \<Rightarrow> 0),
             right_data := right_data sc + (case rp of Some p \<Rightarrow> if is_shard p then 0 else 1 | None \<Rightarrow> 0)\<rparr>)"

definition scan_slot ::
  "(entries \<Rightarrow> entries) \<Rightarrow> champ option \<Rightarrow> champ option \<Rightarrow> (nat \<Rightarrow> key_element list) \<Rightarrow> (nat \<Rightarrow> key_element list) \<Rightarrow>
   scan \<Rightarrow> nat \<Rightarrow> scan" where
  "scan_slot ord left right left_higher right_higher sc i =
     scan_payloads ord (get_element i (left_data sc) (left_nodes sc) left) (get_element i (right_data sc) (right_nodes sc) right)
       (left_higher i) (right_higher i) sc"

fun diff_deeper :: "(half_pair \<Rightarrow> diff_entry list \<Rightarrow> error + diff_entry list) \<Rightarrow> half_pair list \<Rightarrow> diff_entry list \<Rightarrow> error + diff_entry list" where
  "diff_deeper f [] out = Inr out"
| "diff_deeper f (p # ps) out = and_then (f p out) (diff_deeper f ps)"

definition diff_scanned :: "(half_pair \<Rightarrow> diff_entry list \<Rightarrow> error + diff_entry list) \<Rightarrow> scan \<Rightarrow> error + diff_entry list" where
  "diff_scanned f sc = diff_deeper f (deeper sc) (found sc)"

text \<open>The comparison of two loaded nodes, or the first error of loading them.\<close>

fun diff_nodes ::
  "(half_pair \<Rightarrow> diff_entry list \<Rightarrow> error + diff_entry list) \<Rightarrow> (entries \<Rightarrow> entries) \<Rightarrow> (nat \<Rightarrow> key_element list) \<Rightarrow> (nat \<Rightarrow> key_element list) \<Rightarrow>
   diff_entry list \<Rightarrow> error + champ option \<Rightarrow> error + champ option \<Rightarrow> error + diff_entry list" where
  "diff_nodes f ord left_higher right_higher out (Inl e) _ = Inl e"
| "diff_nodes f ord left_higher right_higher out (Inr left) (Inl e) = Inl e"
| "diff_nodes f ord left_higher right_higher out (Inr left) (Inr right) =
     diff_scanned f (foldl (scan_slot ord left right left_higher right_higher)
       \<lparr>left_data = 0, right_data = 0, left_nodes = 0, right_nodes = 0, deeper = [], found = out\<rparr> [0..<8])"

primrec diff ::
  "nat \<Rightarrow> (entries \<Rightarrow> entries) \<Rightarrow> (cid \<Rightarrow> error + cbor option) \<Rightarrow> nat \<Rightarrow> half_pair \<Rightarrow> diff_entry list \<Rightarrow> error + diff_entry list" where
  "diff 0 ord sg depth p out = Inl FuelExhausted"
| "diff (Suc fuel) ord sg depth p out =
     (case p of (original, updated, higher_left, higher_right) \<Rightarrow>
        if original = updated then Inr out
        else diff_nodes (diff fuel ord sg (depth + 1)) ord (hash_and_mask higher_left depth) (hash_and_mask higher_right depth) out
               (load_champ sg original) (load_champ sg updated))"

section \<open>Merging\<close>

definition apply_entry ::
  "('s \<Rightarrow> cid \<Rightarrow> error + cbor option) \<Rightarrow> (bytes \<Rightarrow> ('s, error, cid) io) \<Rightarrow> champ_wrapper \<Rightarrow> diff_entry \<Rightarrow> ('s, error, champ_wrapper) io" where
  "apply_entry sget sput w d =
     (case de_other d of
        Some val \<Rightarrow> wrapper_put sget sput identity_key_hasher w (de_key d) (de_base d) (Some val)
      | None \<Rightarrow> wrapper_remove sget sput identity_key_hasher w (de_key d) (de_base d))"

definition merge_champ ::
  "(entries \<Rightarrow> entries) \<Rightarrow> ('s \<Rightarrow> cid \<Rightarrow> error + cbor option) \<Rightarrow> (bytes \<Rightarrow> ('s, error, cid) io) \<Rightarrow> cid \<Rightarrow> cid \<Rightarrow> cid \<Rightarrow> ('s, error, cid) io" where
  "merge_champ ord sget sput base ours theirs =
     (\<lambda>st. io_bind (io_lift (diff champ_fuel ord (sget st) 0 (Some base, Some ours, [], []) [])) (\<lambda>our_diff.
           io_bind (io_lift (diff champ_fuel ord (sget st) 0 (Some base, Some theirs, [], []) [])) (\<lambda>remote_diff.
             if set (map de_key our_diff) \<inter> set (map de_key remote_diff) \<noteq> {}
             then io_lift (Inl (Protocol ''Concurrent modification of a file or directory!''))
             else io_bind (io_lift (wrapper_create (sget st) ours)) (\<lambda>w.
                  io_bind (io_fold (apply_entry sget sput) w remote_diff) (\<lambda>merged. io_ret (root_hash merged))))) st)"

definition merge_writer_data ::
  "(entries \<Rightarrow> entries) \<Rightarrow> ('s \<Rightarrow> cid \<Rightarrow> error + cbor option) \<Rightarrow> (bytes \<Rightarrow> ('s, error, cid) io) \<Rightarrow> cid \<Rightarrow> cid \<Rightarrow> cid \<Rightarrow>
   ('s, error, bytes) io" where
  "merge_writer_data ord sget sput base_wd our_wd their_wd =
     (\<lambda>st. io_bind (io_lift (get_block (sget st) base_wd)) (\<lambda>base.
           io_bind (io_lift (get_block (sget st) our_wd)) (\<lambda>ours.
           io_bind (io_lift (get_block (sget st) their_wd)) (\<lambda>theirs.
           io_bind (io_lift (tree_root base)) (\<lambda>b.
           io_bind (io_lift (tree_root ours)) (\<lambda>r.
           io_bind (io_lift (tree_root theirs)) (\<lambda>t.
           io_bind (merge_champ ord sget sput b r t) (\<lambda>merged_root.
           io_bind (io_lift (with_tree theirs merged_root)) (\<lambda>wd. io_ret (to_bytes wd))))))))) st)"

section \<open>What a difference is\<close>

text \<open>The entries are exactly the keys at which two maps differ, each once, with its values on both sides.\<close>

definition change_at :: "(bytes \<rightharpoonup> cbor option) \<Rightarrow> (bytes \<rightharpoonup> cbor option) \<Rightarrow> bytes \<Rightarrow> diff_entry" where
  "change_at l r k = \<lparr>de_key = k, de_base = flat (l k), de_other = flat (r k)\<rparr>"

lemma change_at_simps [simp]: "de_key (change_at l r k) = k" "de_base (change_at l r k) = flat (l k)" "de_other (change_at l r k) = flat (r k)"
  by (simp_all add: change_at_def)

definition differs :: "(bytes \<rightharpoonup> cbor option) \<Rightarrow> (bytes \<rightharpoonup> cbor option) \<Rightarrow> diff_entry list \<Rightarrow> bool" where
  "differs l r ds \<longleftrightarrow> distinct (map de_key ds) \<and> set ds = change_at l r ` {k. l k \<noteq> r k}"

lemma differs_keys: "differs l r ds \<Longrightarrow> de_key ` set ds = {k. l k \<noteq> r k}"
  by (simp add: differs_def image_image)

lemma change_at_slot:
  "change_at (l |` slot_keys_of kh d i) (r |` slot_keys_of kh d i) ` {k. (l |` slot_keys_of kh d i) k \<noteq> (r |` slot_keys_of kh d i) k} =
   change_at l r ` {k. l k \<noteq> r k \<and> champ_mask (kh k) d 3 = i}"
proof -
  have "{k. (l |` slot_keys_of kh d i) k \<noteq> (r |` slot_keys_of kh d i) k} = {k. l k \<noteq> r k \<and> champ_mask (kh k) d 3 = i}"
    by (auto simp: restrict_map_def)
  then show ?thesis by (simp only:) (rule image_cong, auto simp: change_at_def)
qed

lemma differs_slots:
  assumes "\<And>i. i < 8 \<Longrightarrow> differs (l |` slot_keys_of kh d i) (r |` slot_keys_of kh d i) (D i)"
    and "distinct I" "set I = {..<8}"
  shows "differs l r (concat (map D I))"
proof -
  have D: "set (D i) = change_at l r ` {k. l k \<noteq> r k \<and> champ_mask (kh k) d 3 = i}" "distinct (map de_key (D i))" if "i < 8" for i
    using assms(1) [OF that] unfolding differs_def change_at_slot by auto
  have keys: "de_key ` set (D i) = {k. l k \<noteq> r k \<and> champ_mask (kh k) d 3 = i}" if "i < 8" for i
    by (simp add: D(1) [OF that] image_image)
  have "set (concat (map D I)) = (\<Union>i<8. set (D i))" using assms(3) by auto
  also have "\<dots> = change_at l r ` (\<Union>i<8. {k. l k \<noteq> r k \<and> champ_mask (kh k) d 3 = i})" using D(1) by (simp add: image_UN)
  also have "\<dots> = change_at l r ` {k. l k \<noteq> r k}" by (rule arg_cong [of _ _ "image (change_at l r)"]) (use champ_mask_3 in auto)
  finally have "set (concat (map D I)) = change_at l r ` {k. l k \<noteq> r k}" .
  moreover have "distinct (concat (map (\<lambda>i. map de_key (D i)) J))" if "distinct J" "set J \<subseteq> {..<8}" for J
    using that
  proof (induction J)
    case (Cons i J)
    have i: "i < 8" "i \<notin> set J" using Cons.prems by auto
    have "k \<notin> set (concat (map (\<lambda>i. map de_key (D i)) J))" if k: "k \<in> set (map de_key (D i))" for k
    proof
      assume "k \<in> set (concat (map (\<lambda>i. map de_key (D i)) J))"
      then obtain j where j: "j \<in> set J" "k \<in> de_key ` set (D j)" by auto
      have "k \<in> de_key ` set (D i)" using k by simp
      then have "champ_mask (kh k) d 3 = i" unfolding keys [OF i(1)] by simp
      moreover have "j < 8" using j(1) Cons.prems(2) by auto
      then have "champ_mask (kh k) d 3 = j" using j(2) unfolding keys [OF \<open>j < 8\<close>] by simp
      ultimately show False using i(2) j(1) by simp
    qed
    then have "set (map de_key (D i)) \<inter> set (concat (map (\<lambda>i. map de_key (D i)) J)) = {}" by blast
    then show ?case using Cons D(2) by auto
  qed simp
  ultimately show ?thesis unfolding differs_def using assms(2,3) by (simp add: map_concat comp_def)
qed

section \<open>Buckets\<close>

definition visits_all :: "(entries \<Rightarrow> entries) \<Rightarrow> bool" where
  "visits_all ord \<longleftrightarrow> (\<forall>es. mset (ord es) = mset es)"

lemma visits_set: "visits_all ord \<Longrightarrow> set (ord es) = set es" "visits_all ord \<Longrightarrow> distinct (map fst (ord es)) = distinct (map fst es)"
  unfolding visits_all_def by (metis set_mset_mset, metis mset_map mset_eq_imp_distinct_iff)

lemma entry_map_ke:
  assumes "ke_distinct ms"
  shows "map_of (entry_map ms) = ke_map ms" "distinct (map fst (entry_map ms))"
proof -
  have "map_of (foldl (\<lambda>t m. AList.update (ke_key m) (ke_value m) t) t ms) k = (case ke_map ms k of Some v \<Rightarrow> Some v | None \<Rightarrow> map_of t k) \<and>
      (distinct (map fst t) \<longrightarrow> distinct (map fst (foldl (\<lambda>t m. AList.update (ke_key m) (ke_value m) t) t ms)))" for t k
    using assms
  proof (induction ms arbitrary: t)
    case (Cons m ms)
    have "ke_map ms (ke_key m) = None" using Cons.prems by (auto simp: ke_map_None)
    then show ?case using Cons.IH [of "AList.update (ke_key m) (ke_value m) t"] Cons.prems
      by (auto simp: update_conv' distinct_update split: option.splits)
  qed simp
  from this [of "[]"] show "map_of (entry_map ms) = ke_map ms" "distinct (map fst (entry_map ms))"
    by (auto simp: entry_map_def fun_eq_iff split: option.splits)
qed

lemma distinct_keys_filter:
  assumes "distinct (map fst xs)" "\<And>x e. x \<in> set xs \<Longrightarrow> f x = Some e \<Longrightarrow> de_key e = fst x"
  shows "distinct (map de_key (List.map_filter f xs)) \<and> de_key ` set (List.map_filter f xs) \<subseteq> fst ` set xs"
  using assms
proof (induction xs)
  case (Cons x xs)
  have IH: "distinct (map de_key (List.map_filter f xs))" "de_key ` set (List.map_filter f xs) \<subseteq> fst ` set xs"
    using Cons.IH Cons.prems by auto
  show ?case
  proof (cases "f x")
    case None
    then show ?thesis using IH by (auto simp: List.map_filter_simps)
  next
    case (Some e)
    have "de_key e = fst x" using Cons.prems(2) Some by simp
    then have "de_key e \<notin> de_key ` set (List.map_filter f xs)" using IH(2) Cons.prems(1) by auto
    then show ?thesis using IH Some \<open>de_key e = fst x\<close> by (auto simp: List.map_filter_simps)
  qed
qed (simp add: List.map_filter_simps)

lemma set_map_filter:
  assumes "\<And>k v. (k, v) \<in> set xs \<longleftrightarrow> m k = Some v" "\<And>k v e. m k = Some v \<Longrightarrow> f (k, v) = Some e \<longleftrightarrow> e = g k \<and> P k"
  shows "set (List.map_filter f xs) = g ` {k. m k \<noteq> None \<and> P k}"
proof -
  have "e \<in> set (List.map_filter f xs) \<longleftrightarrow> (\<exists>k v. (k, v) \<in> set xs \<and> f (k, v) = Some e)" for e
    by (induction xs) (auto simp: List.map_filter_simps split: option.splits)
  then have "e \<in> set (List.map_filter f xs) \<longleftrightarrow> (\<exists>k. m k \<noteq> None \<and> e = g k \<and> P k)" for e
    using assms(1) assms(2) by (metis option.exhaust option.distinct(1))
  then show ?thesis by blast
qed

lemma bucket_diff_differs:
  assumes "visits_all ord" "ke_distinct lms" "ke_distinct rms"
  shows "differs (ke_map lms) (ke_map rms) (bucket_diff ord lms rms)"
proof -
  note L = entry_map_ke [OF assms(2)] and R = entry_map_ke [OF assms(3)]
  let ?l = "ke_map lms" and ?r = "ke_map rms"
  let ?f = "\<lambda>(k, v). case ?r k of None \<Rightarrow> Some \<lparr>de_key = k, de_base = v, de_other = None\<rparr>
      | Some rv \<Rightarrow> if rv \<noteq> v then Some \<lparr>de_key = k, de_base = v, de_other = rv\<rparr> else None"
  let ?g = "\<lambda>(k, v). if ?l k = None then Some \<lparr>de_key = k, de_base = None, de_other = v\<rparr> else None"
  let ?P = "List.map_filter ?f (ord (entry_map lms))" and ?Q = "List.map_filter ?g (ord (entry_map rms))"
  have eq: "bucket_diff ord lms rms = ?P @ ?Q" by (simp add: bucket_diff_def L R)
  have l: "(k, v) \<in> set (ord (entry_map lms)) \<longleftrightarrow> ?l k = Some v" for k v
    using L visits_set(1) [OF assms(1)] by (metis map_of_eq_Some_iff)
  have r: "(k, v) \<in> set (ord (entry_map rms)) \<longleftrightarrow> ?r k = Some v" for k v
    using R visits_set(1) [OF assms(1)] by (metis map_of_eq_Some_iff)
  have f: "?f (k, v) = Some e \<longleftrightarrow> e = change_at ?l ?r k \<and> ?l k \<noteq> ?r k" if "?l k = Some v" for k v e
    using that by (cases "?r k") (auto simp: change_at_def flat_def)
  have g: "?g (k, v) = Some e \<longleftrightarrow> e = change_at ?l ?r k \<and> ?l k = None" if "?r k = Some v" for k v e
    using that by (auto simp: change_at_def flat_def)
  have P: "set ?P = change_at ?l ?r ` {k. ?l k \<noteq> None \<and> ?l k \<noteq> ?r k}" by (rule set_map_filter [where m = ?l]) (rule l, rule f)
  have Q: "set ?Q = change_at ?l ?r ` {k. ?r k \<noteq> None \<and> ?l k = None}" by (rule set_map_filter [where m = ?r]) (rule r, rule g)
  have "{k. ?l k \<noteq> ?r k} = {k. ?l k \<noteq> None \<and> ?l k \<noteq> ?r k} \<union> {k. ?r k \<noteq> None \<and> ?l k = None}" by auto
  then have "set (?P @ ?Q) = change_at ?l ?r ` {k. ?l k \<noteq> ?r k}" by (simp only: set_append P Q image_Un)
  moreover have "distinct (map de_key ?P)" "distinct (map de_key ?Q)"
    using L(2) R(2) visits_set(2) [OF assms(1)]
    by (auto intro!: distinct_keys_filter [THEN conjunct1] split: option.splits if_splits)
  moreover have "de_key ` set ?P \<inter> de_key ` set ?Q = {}" unfolding P Q image_image change_at_simps by auto
  ultimately show ?thesis unfolding differs_def eq by simp
qed

section \<open>Both sides of a comparison\<close>

text \<open>
  A side is a node, or, where the other side is deeper, the mappings that a higher level holds inline.
\<close>

definition half :: "(cid \<Rightarrow> error + cbor option) \<Rightarrow> nat \<Rightarrow> nat \<Rightarrow> cid option \<Rightarrow> key_element list \<Rightarrow> (bytes \<rightharpoonup> cbor option) \<Rightarrow> bool" where
  "half sg h d c hs m \<longleftrightarrow>
     (case c of
        None \<Rightarrow> ke_distinct hs \<and> ke_map hs = m
      | Some l \<Rightarrow> hs = [] \<and> (\<exists>n. holds sg l n \<and> repr sg identity_key_hasher h d n m))"

definition data_before :: "slots \<Rightarrow> nat \<Rightarrow> nat" where
  "data_before s i = length (filter (\<lambda>j. dat (s j) \<noteq> []) [0..<i])"

definition links_before :: "slots \<Rightarrow> nat \<Rightarrow> nat" where
  "links_before s i = length (filter (\<lambda>j. lnk (s j) \<noteq> []) [0..<i])"

lemma before_simps:
  "data_before s 0 = 0" "links_before s 0 = 0"
  "data_before s (Suc i) = data_before s i + (case s i of Some p \<Rightarrow> if is_shard p then 0 else 1 | None \<Rightarrow> 0)"
  "links_before s (Suc i) = links_before s i + (case s i of Some p \<Rightarrow> if is_shard p then 1 else 0 | None \<Rightarrow> 0)"
  by (cases "s i" rule: slot_cases; simp add: data_before_def links_before_def)+

lemma get_element_slot:
  assumes "is_node c s" "i < 8"
  shows "get_element i (data_before s i) (links_before s i) (Some c) = s i"
proof (rule node_split [OF assms])
  fix A B Y
  assume a: "get_index (data_map c) i = length A" "get_index (node_map c) i = length Y" "contents c = A @ dat (s i) @ B @ lnk (s i) @ Y"
  have "filter (bit_get (data_map c)) [0..<i] = filter (\<lambda>j. dat (s j) \<noteq> []) [0..<i]"
    "filter (bit_get (node_map c)) [0..<i] = filter (\<lambda>j. lnk (s j) \<noteq> []) [0..<i]"
    using assms by (auto simp: is_node_def intro!: filter_cong)
  then have "data_before s i = length A" "links_before s i = length Y" using a(1,2) by (simp_all add: data_before_def links_before_def get_index_def)
  then show ?thesis
    using a(3) is_node_bits [OF assms]
    by (cases "s i" rule: slot_cases) (auto simp: get_element_def vec_get_def nth_append)
qed

lemma ke_map_slot: "ke_map (hash_and_mask hs d i) = ke_map hs |` slot_keys_of identity_key_hasher d i"
proof
  fix k
  show "ke_map (hash_and_mask hs d i) k = (ke_map hs |` slot_keys_of identity_key_hasher d i) k"
    by (induction hs) (auto simp: hash_and_mask_def restrict_map_def identity_key_hasher_def)
qed

lemma half_slots:
  assumes "half sg (Suc h) d c hs m"
  obtains n s where "load_champ sg c = Inr n" "\<And>i. i < 8 \<Longrightarrow> get_element i (data_before s i) (links_before s i) n = s i"
    "\<And>i. i < 8 \<Longrightarrow> half sg h (Suc d) (slot_shard (s i)) (slot_mappings (s i) (hash_and_mask hs d i)) (m |` slot_keys_of identity_key_hasher d i)"
proof (cases c)
  case None
  then have hs: "ke_distinct hs" "ke_map hs = m" using assms by (simp_all add: half_def)
  have "ke_distinct (hash_and_mask hs d i)" for i using hs(1) by (simp add: hash_and_mask_def distinct_map_filter)
  then show ?thesis
    using that [of None "\<lambda>_. None"] None hs(2)
    by (simp add: load_champ_def get_element_def half_def slot_shard_def slot_mappings_def ke_map_slot)
next
  case (Some l)
  then obtain n where n: "holds sg l n" "repr sg identity_key_hasher (Suc h) d n m" and hs: "hs = []" using assms by (auto simp: half_def)
  obtain s where s: "is_node n s"
      "\<And>i. i < 8 \<Longrightarrow> slot_repr (repr sg identity_key_hasher h (Suc d)) sg (s i) (m |` slot_keys_of identity_key_hasher d i)"
    using repr_slot [OF n(2)] by blast
  have "half sg h (Suc d) (slot_shard (s i)) (slot_mappings (s i) (hash_and_mask hs d i)) (m |` slot_keys_of identity_key_hasher d i)" if "i < 8" for i
    using s(2) [OF that] by (cases "s i" rule: slot_cases) (auto simp: half_def slot_shard_def slot_mappings_def hs hash_and_mask_def)
  moreover have "load_champ sg c = Inr (Some n)" using n(1) Some by (auto simp: load_champ_def get_block_def holds_def)
  ultimately show ?thesis using that get_element_slot [OF s(1)] by blast
qed

section \<open>The comparison of two trees\<close>

text \<open>What a scan of the slots gathers, in terms of the slots of the two sides.\<close>

definition slot_pair :: "slots \<Rightarrow> slots \<Rightarrow> (nat \<Rightarrow> key_element list) \<Rightarrow> (nat \<Rightarrow> key_element list) \<Rightarrow> nat \<Rightarrow> half_pair" where
  "slot_pair sl sr lh rh i = (slot_shard (sl i), slot_shard (sr i), slot_mappings (sl i) (lh i), slot_mappings (sr i) (rh i))"

definition goes_deeper :: "slots \<Rightarrow> slots \<Rightarrow> nat \<Rightarrow> bool" where
  "goes_deeper sl sr i \<longleftrightarrow> slot_shard (sl i) \<noteq> None \<or> slot_shard (sr i) \<noteq> None"

lemma scan_slots:
  assumes "\<And>i. i < 8 \<Longrightarrow> get_element i (data_before sl i) (links_before sl i) left = sl i"
    and "\<And>i. i < 8 \<Longrightarrow> get_element i (data_before sr i) (links_before sr i) right = sr i" "n \<le> 8"
  shows "foldl (scan_slot ord left right lh rh)
      \<lparr>left_data = 0, right_data = 0, left_nodes = 0, right_nodes = 0, deeper = [], found = out\<rparr> [0..<n] =
    \<lparr>left_data = data_before sl n, right_data = data_before sr n, left_nodes = links_before sl n, right_nodes = links_before sr n,
     deeper = map (slot_pair sl sr lh rh) (filter (goes_deeper sl sr) [0..<n]),
     found = out @ concat (map (\<lambda>i. bucket_diff ord (slot_mappings (sl i) (lh i)) (slot_mappings (sr i) (rh i)))
       (filter (\<lambda>i. \<not> goes_deeper sl sr i) [0..<n]))\<rparr>"
  using assms(3)
proof (induction n)
  case 0
  then show ?case by (simp add: before_simps)
next
  case (Suc n)
  then have "n < 8" by simp
  note el = assms(1) [OF this] assms(2) [OF this]
  show ?case
    using Suc by (simp add: scan_slot_def scan_payloads_def Let_def el before_simps goes_deeper_def slot_pair_def)
qed

lemma diff_deeper_all:
  assumes "\<And>i out. i \<in> set I \<Longrightarrow> f (P i) out = Inr (out @ D i)"
  shows "diff_deeper f (map P I) out = Inr (out @ concat (map D I))"
  using assms by (induction I arbitrary: out) simp_all

lemma half_same:
  assumes "half sg h d c hl ml" "half sg h d c hr mr" "c \<noteq> None"
  shows "ml = mr"
  using assms holds_unique repr_unique by (auto simp: half_def) blast

lemma diff_correct:
  assumes "visits_all ord"
  shows "half sg h d a hl ml \<Longrightarrow> half sg h d b hr mr \<Longrightarrow> a \<noteq> None \<or> b \<noteq> None \<Longrightarrow> h \<le> fuel \<Longrightarrow>
    \<exists>ds. differs ml mr ds \<and> (\<forall>out. diff fuel ord sg d (a, b, hl, hr) out = Inr (out @ ds))"
proof (induction h arbitrary: fuel d a b hl hr ml mr)
  case 0
  then show ?case by (auto simp: half_def)
next
  case (Suc h)
  then obtain f where f: "fuel = Suc f" "h \<le> f" by (cases fuel) auto
  show ?case
  proof (cases "a = b")
    case True
    then have "ml = mr" using half_same [of sg "Suc h" d a hl ml hr mr] Suc.prems by auto
    then show ?thesis using True f(1) by (intro exI [of _ "[]"]) (simp add: differs_def)
  next
    case False
    obtain left sl where l: "load_champ sg a = Inr left"
        "\<And>i. i < 8 \<Longrightarrow> get_element i (data_before sl i) (links_before sl i) left = sl i"
        "\<And>i. i < 8 \<Longrightarrow> half sg h (Suc d) (slot_shard (sl i)) (slot_mappings (sl i) (hash_and_mask hl d i)) (ml |` slot_keys_of identity_key_hasher d i)"
      using half_slots [OF Suc.prems(1)] by blast
    obtain right sr where r: "load_champ sg b = Inr right"
        "\<And>i. i < 8 \<Longrightarrow> get_element i (data_before sr i) (links_before sr i) right = sr i"
        "\<And>i. i < 8 \<Longrightarrow> half sg h (Suc d) (slot_shard (sr i)) (slot_mappings (sr i) (hash_and_mask hr d i)) (mr |` slot_keys_of identity_key_hasher d i)"
      using half_slots [OF Suc.prems(2)] by blast
    let ?P = "slot_pair sl sr (hash_and_mask hl d) (hash_and_mask hr d)" and ?deep = "goes_deeper sl sr"
    let ?B = "\<lambda>i. bucket_diff ord (slot_mappings (sl i) (hash_and_mask hl d i)) (slot_mappings (sr i) (hash_and_mask hr d i))"
    have "\<exists>ds. differs (ml |` slot_keys_of identity_key_hasher d i) (mr |` slot_keys_of identity_key_hasher d i) ds \<and>
        (if ?deep i then \<forall>out. diff f ord sg (Suc d) (?P i) out = Inr (out @ ds) else ds = ?B i)" if i: "i < 8" for i
    proof (cases "?deep i")
      case True
      then show ?thesis using Suc.IH [OF l(3) [OF i] r(3) [OF i] _ f(2)] by (simp add: goes_deeper_def slot_pair_def)
    next
      case False
      then have "ke_distinct (slot_mappings (sl i) (hash_and_mask hl d i))" "ke_distinct (slot_mappings (sr i) (hash_and_mask hr d i))"
        "ke_map (slot_mappings (sl i) (hash_and_mask hl d i)) = ml |` slot_keys_of identity_key_hasher d i"
        "ke_map (slot_mappings (sr i) (hash_and_mask hr d i)) = mr |` slot_keys_of identity_key_hasher d i"
        using l(3) [OF i] r(3) [OF i] by (auto simp: goes_deeper_def half_def)
      then show ?thesis using bucket_diff_differs [OF assms] False by metis
    qed
    then obtain D where D: "\<And>i. i < 8 \<Longrightarrow> differs (ml |` slot_keys_of identity_key_hasher d i) (mr |` slot_keys_of identity_key_hasher d i) (D i)"
        "\<And>i out. i < 8 \<Longrightarrow> ?deep i \<Longrightarrow> diff f ord sg (Suc d) (?P i) out = Inr (out @ D i)" "\<And>i. i < 8 \<Longrightarrow> \<not> ?deep i \<Longrightarrow> D i = ?B i"
      by metis
    let ?I = "filter (\<lambda>i. \<not> ?deep i) [0..<8]" and ?J = "filter ?deep [0..<8]"
    have "differs ml mr (concat (map D (?I @ ?J)))" by (rule differs_slots [OF D(1)]) auto
    moreover have "diff fuel ord sg d (a, b, hl, hr) out = Inr (out @ concat (map D (?I @ ?J)))" for out
    proof -
      have B: "map ?B ?I = map D ?I" using D(3) by simp
      have "diff_deeper (diff f ord sg (Suc d)) (map ?P ?J) (out @ concat (map D ?I)) = Inr ((out @ concat (map D ?I)) @ concat (map D ?J))"
        by (rule diff_deeper_all) (use D(2) in auto)
      then show ?thesis
        using False by (simp add: f(1) l(1) r(1) diff_scanned_def scan_slots [OF l(2) r(2) order_refl] B del: upt.simps)
    qed
    ultimately show ?thesis by blast
  qed
qed

section \<open>The merged map\<close>

definition three_way :: "(bytes \<rightharpoonup> cbor option) \<Rightarrow> (bytes \<rightharpoonup> cbor option) \<Rightarrow> (bytes \<rightharpoonup> cbor option) \<Rightarrow> bytes \<rightharpoonup> cbor option" where
  "three_way base ours theirs k = (if base k = theirs k then ours k else theirs k)"

text \<open>No key is mapped to a null value.\<close>

definition no_null :: "(bytes \<rightharpoonup> cbor option) \<Rightarrow> bool" where
  "no_null m \<longleftrightarrow> (\<forall>k. m k \<noteq> Some None)"

lemma repr_val_ok: "repr sg kh h d c m \<Longrightarrow> m k = Some v \<Longrightarrow> val_ok v"
proof (induction h arbitrary: d c m)
  case (Suc h)
  obtain s where s: "is_node c s" "\<And>i. i < 8 \<Longrightarrow> slot_repr (repr sg kh h (Suc d)) sg (s i) (m |` slot_keys_of kh d i)" "wf_champ c"
    using repr_slot [OF Suc.prems(1)] by blast
  let ?i = "champ_mask (kh k) d 3" and ?m = "m |` slot_keys_of kh d (champ_mask (kh k) d 3)"
  have mk: "?m k = Some v" using Suc.prems(2) by simp
  have r: "slot_repr (repr sg kh h (Suc d)) sg (s ?i) ?m" using s(2) by simp
  show ?case
  proof (cases "s ?i" rule: slot_cases)
    case (data ms)
    have "wf_payload (Mappings ms)" using s(1,3) data by (metis wf_champ_slots champ_mask_3)
    moreover have "ke_map ms k = Some v" using r data mk by simp
    then obtain m where "m \<in> set ms" "ke_value m = v" using ke_map_Some by blast
    ultimately show ?thesis using wf_payload_mappings by blast
  next
    case (link l)
    then obtain c' where "repr sg kh h (Suc d) c' ?m" using r by auto
    then show ?thesis using Suc.IH mk by blast
  qed (use r mk in simp)
qed simp

fun entry_op :: "diff_entry \<Rightarrow> champ_op" where
  "entry_op d = (case de_other d of Some v \<Rightarrow> PutOp (de_key d) (de_base d) (Some v) | None \<Rightarrow> RemoveOp (de_key d) (de_base d))"

lemma apply_entry_op: "apply_entry sget sput w d = wrapper_op sget sput identity_key_hasher w (entry_op d)"
  by (simp add: apply_entry_def split: option.splits)

lemma ram_mono_entry: "ram.mono_io sha256 (apply_entry logged_get (logged_put sha256 sign) w d)"
  unfolding apply_entry_op by (rule ram_mono_wrapper)

lemma apply_change:
  assumes "hash_params sha256 sign" "represents sha256 identity_key_hasher st w m" "m k = base k" "base k \<noteq> theirs k" "no_null base" "no_null theirs"
    "\<And>v. theirs k = Some v \<Longrightarrow> val_ok v" "apply_entry logged_get (logged_put sha256 sign) w (change_at base theirs k) st = (r, st')"
    "no_collision sha256 (snd st')"
  shows "case r of
      Inr w' \<Rightarrow> represents sha256 identity_key_hasher st' w' (m(k := theirs k))
    | Inl e \<Rightarrow> e = Protocol ''Hash collision!'' \<and> collide identity_key_hasher (insert k (dom m)) \<and> theirs k \<noteq> None"
proof (cases "theirs k")
  case None
  then obtain u where u: "base k = Some (Some u)" using assms(4,5) unfolding no_null_def by (metis option.exhaust)
  have "wrapper_remove logged_get (logged_put sha256 sign) identity_key_hasher w k (Some u) st = (r, st')"
    using assms(8) None u by (simp add: apply_entry_def flat_def)
  from wrapper_remove_step [OF assms(1,2) this assms(9)] show ?thesis by (cases r) (use u assms(3) None in simp_all)
next
  case (Some x)
  then obtain v where v: "theirs k = Some (Some v)" using assms(6) by (cases x) (auto simp: no_null_def)
  have "wrapper_put logged_get (logged_put sha256 sign) identity_key_hasher w k (flat (base k)) (Some v) st = (r, st')"
    using assms(8) v by (simp add: apply_entry_def flat_def)
  from wrapper_put_step [OF assms(1,2) assms(7) [OF v] this assms(9)] show ?thesis
    by (cases r; cases "base k") (use v assms(3) in \<open>simp_all add: flat_def\<close>)
qed

lemma apply_changes:
  assumes "hash_params sha256 sign" "no_null base" "no_null theirs" "\<And>k v. theirs k = Some v \<Longrightarrow> val_ok v"
  shows "represents sha256 identity_key_hasher st w m \<Longrightarrow> distinct ks \<Longrightarrow> \<forall>k\<in>set ks. m k = base k \<and> base k \<noteq> theirs k \<Longrightarrow>
    io_fold (apply_entry logged_get (logged_put sha256 sign)) w (map (change_at base theirs) ks) st = (r, st') \<Longrightarrow>
    no_collision sha256 (snd st') \<Longrightarrow>
    case r of
      Inr w' \<Rightarrow> represents sha256 identity_key_hasher st' w' (\<lambda>k. if k \<in> set ks then theirs k else m k)
    | Inl e \<Rightarrow> e = Protocol ''Hash collision!'' \<and> collide identity_key_hasher (dom m \<union> dom theirs)"
proof (induction ks arbitrary: w m st)
  case (Cons k ks)
  let ?ap = "apply_entry logged_get (logged_put sha256 sign)"
  from Cons.prems(4) have "io_bind (?ap w (change_at base theirs k)) (\<lambda>w. io_fold ?ap w (map (change_at base theirs) ks)) st = (r, st')" by simp
  then show ?case
  proof (cases rule: io_bind_cases)
    case (err e)
    have "e = Protocol ''Hash collision!''" "collide identity_key_hasher (insert k (dom m))" "theirs k \<noteq> None"
      using apply_change [OF assms(1) Cons.prems(1) _ _ assms(2,3,4) err(1) Cons.prems(5)] Cons.prems(3) by auto
    moreover have "insert k (dom m) \<subseteq> dom m \<union> dom theirs" using calculation(3) by auto
    ultimately show ?thesis using err(2) collide_mono by auto
  next
    case (val w1 st1)
    have l: "ram.later sha256 st st1" "ram.later sha256 st1 st'"
      using ram.mono_ioD [OF ram_mono_entry val(1)] ram.mono_ioD [OF ram.mono_fold [OF ram_mono_entry] val(2)] .
    have ad: "addressed sha256 st" using Cons.prems(1) by (simp add: represents_def)
    have ok: "no_collision sha256 (snd st1)" using ram.later_ok [OF l(2) ram.later_inv [OF l(1) ad]] Cons.prems(5) by blast
    have rep: "represents sha256 identity_key_hasher st1 w1 (m(k := theirs k))"
      using apply_change [OF assms(1) Cons.prems(1) _ _ assms(2,3,4) val(1) ok] Cons.prems(3) by simp
    have "\<forall>j\<in>set ks. (m(k := theirs k)) j = base j \<and> base j \<noteq> theirs j" using Cons.prems(2,3) by auto
    note IH = Cons.IH [OF rep _ this val(2) Cons.prems(5)]
    have "(\<lambda>j. if j \<in> set ks then theirs j else (m(k := theirs k)) j) = (\<lambda>j. if j \<in> set (k # ks) then theirs j else m j)" by auto
    moreover have "dom (m(k := theirs k)) \<union> dom theirs \<subseteq> dom m \<union> dom theirs" by (auto split: if_splits)
    ultimately show ?thesis using IH Cons.prems(2) collide_mono by (auto split: sum.splits)
  qed
qed auto

lemma merge_champ_runs:
  assumes "visits_all ord" "hash_params sha256 sign"
    and "represents sha256 identity_key_hasher st wb base" "represents sha256 identity_key_hasher st wo ours"
    and "represents sha256 identity_key_hasher st wt theirs" "no_null base" "no_null theirs"
    and "merge_champ ord logged_get (logged_put sha256 sign) (root_hash wb) (root_hash wo) (root_hash wt) st = (r, st')"
    and "no_collision sha256 (snd st')"
  shows "if \<exists>k. base k \<noteq> ours k \<and> base k \<noteq> theirs k
    then r = Inl (Protocol ''Concurrent modification of a file or directory!'') \<and> st' = st
    else case r of
        Inr c \<Rightarrow> \<exists>w. root_hash w = c \<and> represents sha256 identity_key_hasher st' w (three_way base ours theirs)
      | Inl e \<Rightarrow> e = Protocol ''Hash collision!'' \<and> collide identity_key_hasher (dom ours \<union> dom theirs)"
proof -
  let ?sg = "logged_get st"
  have half: "half ?sg 32 0 (Some (root_hash w)) [] m" if "represents sha256 identity_key_hasher st w m" for w m
    using that by (auto simp: half_def represents_def simp del: repr.simps)
  have fuel: "(32 :: nat) \<le> champ_fuel" by (simp add: champ_fuel_def)
  obtain our where our: "differs base ours our" "diff champ_fuel ord ?sg 0 (Some (root_hash wb), Some (root_hash wo), [], []) [] = Inr our"
    using diff_correct [OF assms(1) half [OF assms(3)] half [OF assms(4)] _ fuel] by auto
  obtain rem where rem: "differs base theirs rem" "diff champ_fuel ord ?sg 0 (Some (root_hash wb), Some (root_hash wt), [], []) [] = Inr rem"
    using diff_correct [OF assms(1) half [OF assms(3)] half [OF assms(5)] _ fuel] by auto
  have conflict: "set (map de_key our) \<inter> set (map de_key rem) \<noteq> {} \<longleftrightarrow> (\<exists>k. base k \<noteq> ours k \<and> base k \<noteq> theirs k)"
    using differs_keys [OF our(1)] differs_keys [OF rem(1)] by auto
  have create: "wrapper_create ?sg (root_hash wo) = Inr wo"
    using assms(4) by (auto simp: represents_def wrapper_create_def holds_def simp del: repr.simps)
  show ?thesis
  proof (cases "\<exists>k. base k \<noteq> ours k \<and> base k \<noteq> theirs k")
    case True
    then show ?thesis using assms(8) conflict by (simp add: merge_champ_def our(2) rem(2) io_bind_def)
  next
    case False
    define ks where "ks = map de_key rem"
    have "map (change_at base theirs) ks = rem"
    proof -
      have "change_at base theirs (de_key d) = d" if "d \<in> set rem" for d using rem(1) that by (auto simp: differs_def)
      then show ?thesis unfolding ks_def by (simp add: map_idI)
    qed
    then have fold: "io_bind (io_fold (apply_entry logged_get (logged_put sha256 sign)) wo (map (change_at base theirs) ks))
        (\<lambda>merged. io_ret (root_hash merged)) st = (r, st')"
      using assms(8) conflict False by (simp add: merge_champ_def our(2) rem(2) create io_bind_def)
    have ks: "distinct ks" "set ks = {k. base k \<noteq> theirs k}" using rem(1) differs_keys [OF rem(1)] by (auto simp: ks_def differs_def)
    have vals: "val_ok v" if "theirs k = Some v" for k v
      using repr_val_ok that assms(5) unfolding represents_def by blast
    have eq: "\<forall>k\<in>set ks. ours k = base k \<and> base k \<noteq> theirs k" 
    proof
      fix k
      assume "k \<in> set ks"
      then have "base k \<noteq> theirs k" using ks(2) by simp
      then show "ours k = base k \<and> base k \<noteq> theirs k" using False by metis
    qed
    have three: "(\<lambda>k. if k \<in> set ks then theirs k else ours k) = three_way base ours theirs" by (auto simp: ks(2) three_way_def)
    have run: "case r' of
        Inr w' \<Rightarrow> represents sha256 identity_key_hasher st2 w' (three_way base ours theirs)
      | Inl e \<Rightarrow> e = Protocol ''Hash collision!'' \<and> collide identity_key_hasher (dom ours \<union> dom theirs)"
      if "io_fold (apply_entry logged_get (logged_put sha256 sign)) wo (map (change_at base theirs) ks) st = (r', st2)"
        "no_collision sha256 (snd st2)" for r' st2
      unfolding three [symmetric] by (rule apply_changes [OF assms(2,6,7) _ assms(4) ks(1) eq that]) (rule vals)
    from fold show ?thesis
    proof (cases rule: io_bind_cases)
      case (err e)
      then show ?thesis using run [OF err(1) assms(9)] unfolding if_not_P [OF False] by simp
    next
      case (val w st1)
      then have "st1 = st'" "r = Inr (root_hash w)" by auto
      then show ?thesis using run [OF val(1)] assms(9) unfolding if_not_P [OF False] by auto
    qed
  qed
qed

section \<open>Writer data\<close>

text \<open>Replacing the tree of a writer's data changes that field only.\<close>

lemma with_tree_field:
  assumes "cbor_get wd ''tree'' \<noteq> None" "wf_cbor wd" "wf_cid c"
  shows "\<exists>wd'. with_tree wd c = Inr wd' \<and> tree_root wd' = Inr c \<and> wf_cbor wd' \<and> (\<forall>k. valid_utf8 k \<and> k \<noteq> ''tree'' \<longrightarrow> cbor_get wd' k = cbor_get wd k)"
proof -
  obtain m where m: "wd = CMap m" using assms(1) by (cases wd) (auto simp: cbor_get_def)
  obtain bs where bs: "cid_to_bytes c = Inr bs" "cid_cast bs = Inr c" using cid_bytes_roundtrip [OF assms(3)] by blast
  have "Codec.fields m" using assms(2) wf_map_keys [of m] by (simp add: m Codec.fields_def)
  moreover have "with_tree wd c = Inr (build (put ''tree'' (CMerkleLink bs) m))" by (simp add: with_tree_def m bs(1) build_def put_def)
  moreover have "wd = build m" by (simp add: m build_def)
  moreover have "wf_cbor (build (put ''tree'' (CMerkleLink bs) m))" using assms(2) by (intro wf_build_put) (simp_all add: m build_def valid_literal)
  ultimately show ?thesis using bs(2) by (intro exI [of _ "build (put ''tree'' (CMerkleLink bs) m)"]) (simp add: tree_root_def valid_literal)
qed

lemma tree_root_field: "tree_root wd = Inr c \<Longrightarrow> cbor_get wd ''tree'' \<noteq> None"
  by (cases "cbor_get wd ''tree''") (auto simp: tree_root_def and_then_Inr_iff ok_or_Inr_iff)

text \<open>Blocks of the store are well-formed values.\<close>

lemma logged_get_wf: "logged_get st g = Inr (Some c) \<Longrightarrow> wf_cbor c"
  using consumed_shape by (auto simp: logged_get_some from_bytes_via_consumed and_then_Inr_iff split: if_splits)

lemma merge_writer_data_runs:
  assumes "visits_all ord" "hash_params sha256 sign"
    and "logged_get st base_wd = Inr (Some b)" "tree_root b = Inr (root_hash wb)" "represents sha256 identity_key_hasher st wb base"
    and "logged_get st our_wd = Inr (Some s)" "tree_root s = Inr (root_hash wo)" "represents sha256 identity_key_hasher st wo ours"
    and "logged_get st their_wd = Inr (Some t)" "tree_root t = Inr (root_hash wt)" "represents sha256 identity_key_hasher st wt theirs"
    and "no_null base" "no_null theirs"
    and "merge_writer_data ord logged_get (logged_put sha256 sign) base_wd our_wd their_wd st = (r, st')" "no_collision sha256 (snd st')"
  shows "if \<exists>k. base k \<noteq> ours k \<and> base k \<noteq> theirs k
    then r = Inl (Protocol ''Concurrent modification of a file or directory!'') \<and> st' = st
    else case r of
        Inr bs \<Rightarrow> \<exists>wd w. bs = to_bytes wd \<and> wf_cbor wd \<and> tree_root wd = Inr (root_hash w) \<and>
          represents sha256 identity_key_hasher st' w (three_way base ours theirs) \<and>
          (\<forall>k. valid_utf8 k \<and> k \<noteq> ''tree'' \<longrightarrow> cbor_get wd k = cbor_get t k)
      | Inl e \<Rightarrow> e = Protocol ''Hash collision!'' \<and> collide identity_key_hasher (dom ours \<union> dom theirs)"
proof -
  have "io_bind (merge_champ ord logged_get (logged_put sha256 sign) (root_hash wb) (root_hash wo) (root_hash wt))
      (\<lambda>c. io_bind (io_lift (with_tree t c)) (\<lambda>wd. io_ret (to_bytes wd))) st = (r, st')"
    using assms(14) by (simp add: merge_writer_data_def get_block_def assms(3,4,6,7,9,10) io_bind_def)
  then show ?thesis
  proof (cases rule: io_bind_cases)
    case (err e)
    show ?thesis using merge_champ_runs [OF assms(1,2,5,8,11-13) err(1) assms(15)] by (simp only: err(2) sum.case sum.inject)
  next
    case (val c st1)
    have st: "st' = st1" using val(2) by (auto simp: io_bind_def split: sum.splits)
    note run = merge_champ_runs [OF assms(1,2,5,8,11-13) val(1) assms(15) [unfolded st]]
    have nc: "\<not> (\<exists>k. base k \<noteq> ours k \<and> base k \<noteq> theirs k)"
    proof
      assume "\<exists>k. base k \<noteq> ours k \<and> base k \<noteq> theirs k"
      then show False using run by (simp only: if_True) simp
    qed
    obtain w where w: "root_hash w = c" "represents sha256 identity_key_hasher st1 w (three_way base ours theirs)"
      using run unfolding if_not_P [OF nc] sum.case by blast
    have "wf_cid c" using w by (auto simp: represents_def)
    from with_tree_field [OF tree_root_field [OF assms(10)] logged_get_wf [OF assms(9)] this]
    obtain wd where "with_tree t c = Inr wd" "tree_root wd = Inr c" "wf_cbor wd" "\<forall>k. valid_utf8 k \<and> k \<noteq> ''tree'' \<longrightarrow> cbor_get wd k = cbor_get t k"
      by blast
    then have "r = Inr (to_bytes wd)" "tree_root wd = Inr (root_hash w)" "wf_cbor wd" "\<forall>k. valid_utf8 k \<and> k \<noteq> ''tree'' \<longrightarrow> cbor_get wd k = cbor_get t k"
      using val(2) w(1) by auto
    then show ?thesis using w(2) st unfolding if_not_P [OF nc] by auto
  qed
qed

text \<open>
  C5. Merging the data of a writer after a concurrent update. If both sides changed a common key since the base, the
  merge is refused and nothing is written. Otherwise the result is their data with the tree replaced by one that
  stands for the three-way merge of the maps: their value where they changed the key, ours elsewhere. It fails only if
  five keys collide at every level.
\<close>

theorem merge_writer_data_three_way:
  assumes "visits_all ord" "hash_params sha256 sign"
    and "logged_get st base_wd = Inr (Some b)" "tree_root b = Inr (root_hash wb)" "represents sha256 identity_key_hasher st wb base"
    and "logged_get st our_wd = Inr (Some s)" "tree_root s = Inr (root_hash wo)" "represents sha256 identity_key_hasher st wo ours"
    and "logged_get st their_wd = Inr (Some t)" "tree_root t = Inr (root_hash wt)" "represents sha256 identity_key_hasher st wt theirs"
    and "no_null base" "no_null theirs"
    and "merge_writer_data ord logged_get (logged_put sha256 sign) base_wd our_wd their_wd st = (r, st')" "no_collision sha256 (snd st')"
  shows "if \<exists>k. base k \<noteq> ours k \<and> base k \<noteq> theirs k
    then r = Inl (Protocol ''Concurrent modification of a file or directory!'') \<and> st' = st
    else case r of
        Inr bs \<Rightarrow> \<exists>wd w. bs = to_bytes wd \<and> tree_root wd = Inr (root_hash w) \<and>
          represents sha256 identity_key_hasher st' w (three_way base ours theirs) \<and>
          (\<forall>k. valid_utf8 k \<and> k \<noteq> ''tree'' \<longrightarrow> cbor_get wd k = cbor_get t k)
      | Inl e \<Rightarrow> e = Protocol ''Hash collision!'' \<and> collide identity_key_hasher (dom ours \<union> dom theirs)"
proof (cases "\<exists>k. base k \<noteq> ours k \<and> base k \<noteq> theirs k")
  case True
  then show ?thesis using merge_writer_data_runs [OF assms] by (simp only: if_True)
next
  case False
  show ?thesis using merge_writer_data_runs [OF assms] unfolding if_not_P [OF False] by (cases r) (simp only: sum.case, simp only: sum.case, blast)
qed

section \<open>An instance\<close>

lemma represents_later:
  assumes "represents sha256 kh st w m" "ram.later sha256 st st'" "no_collision sha256 (snd st')"
  shows "represents sha256 kh st' w m"
proof -
  have ad: "addressed sha256 st" using assms(1) by (simp add: represents_def)
  have "repr (logged_get st') kh 32 0 (root w) m"
    by (rule ram.tree_later [OF assms(2) ad assms(3)]) (use assms(1) in \<open>unfold represents_def, blast\<close>)
  moreover have "holds (logged_get st') (root_hash w) (root w)"
    by (rule ram.holds_later [OF assms(2) ad assms(3)]) (use assms(1) in \<open>unfold represents_def, blast\<close>)
  moreover have "addressed sha256 st'" by (rule ram.later_inv [OF assms(2) ad])
  ultimately show ?thesis using assms(1) unfolding represents_def by blast
qed

definition demo_writer_data :: "champ_wrapper \<Rightarrow> (logged, error, cid) io" where
  "demo_writer_data w =
     (case with_tree (CMap [(''tree'', CNull)]) (root_hash w) of Inr wd \<Rightarrow> demo_put (to_bytes wd) | Inl e \<Rightarrow> io_lift (Inl e))"

definition demo_setup :: "(logged, error, champ_wrapper \<times> champ_wrapper \<times> cid \<times> cid) io" where
  "demo_setup =
     io_bind (empty_wrapper demo_sha demo_sign) (\<lambda>wb.
     io_bind (wrapper_put logged_get demo_put identity_key_hasher wb [1] None (Some (CLong 7))) (\<lambda>wo.
     io_bind (demo_writer_data wb) (\<lambda>b.
     io_bind (demo_writer_data wo) (\<lambda>s. io_ret (wb, wo, b, s)))))"

lemma mono_demo: "ram.mono_io demo_sha (demo_writer_data w)"
  by (auto simp: demo_writer_data_def split: sum.splits)

lemma tree_self: "cmp_cbor_string ''tree'' ''tree'' = Equal"
  by code_simp

lemma demo_writer_data_reads:
  assumes "demo_writer_data w st = (Inr c, st1)" "represents demo_sha kh st w m" "ram.later demo_sha st1 st'" "no_collision demo_sha (snd st')"
  shows "\<exists>b. logged_get st' c = Inr (Some b) \<and> tree_root b = Inr (root_hash w)"
proof -
  have ad: "addressed demo_sha st" and "wf_cid (root_hash w)" using assms(2) by (auto simp: represents_def)
  then obtain bs where bs: "cid_to_bytes (root_hash w) = Inr bs" "cid_cast bs = Inr (root_hash w)" using cid_bytes_roundtrip by blast
  define wd where "wd = CMap [(''tree'', CMerkleLink bs)]"
  have p: "demo_put (to_bytes wd) st = (Inr c, st1)"
    using assms(1) by (simp add: demo_writer_data_def with_tree_def bs(1) wd_def tree_self)
  have ad1: "addressed demo_sha st1" by (rule ram.later_inv [OF ram.put_later [OF p] ad])
  have ok: "no_collision demo_sha (snd st1)" by (rule ram.later_ok [OF assms(3) ad1 assms(4)])
  have wf: "wf_cbor wd" by (simp add: wd_def valid_literal bt_sorted_def)
  have "from_bytes (to_bytes wd) = Inr wd" by (rule from_bytes_to_bytes [OF wf ram.put_size [OF p ok]])
  then have "logged_get st' c = Inr (Some wd)" using ram.later_get [OF assms(3) ad1 assms(4) ram.put_get [OF p ad ok]] by blast
  moreover have "tree_root wd = Inr (root_hash w)" using bs(2) by (simp add: tree_root_def wd_def cbor_get_def tree_self)
  ultimately show ?thesis by blast
qed

lemma diff_same: "diff champ_fuel ord sg n (c, c, ls, rs) out = Inr out"
  by (simp add: champ_fuel_def eval_nat_numeral)

lemma merge_unchanged: "snd (merge_writer_data ord sget sput b s b st) = st"
  by (simp add: merge_writer_data_def merge_champ_def io_bind_def diff_same split: sum.splits prod.splits)

lemma demo_log_checked: "case demo_setup demo_empty of (Inr _, st) \<Rightarrow> demo_log_ok (snd st) | _ \<Rightarrow> False"
  by code_simp

lemma demo_setup_runs:
  "\<exists>wb wo b s st b' s'. demo_setup demo_empty = (Inr (wb, wo, b, s), st) \<and> no_collision demo_sha (snd st) \<and>
     logged_get st b = Inr (Some b') \<and> tree_root b' = Inr (root_hash wb) \<and> represents demo_sha identity_key_hasher st wb Map.empty \<and>
     logged_get st s = Inr (Some s') \<and> tree_root s' = Inr (root_hash wo) \<and>
     represents demo_sha identity_key_hasher st wo [[1] \<mapsto> Some (CLong 7)]"
proof -
  obtain wb wo b s st where run: "demo_setup demo_empty = (Inr (wb, wo, b, s), st)" and ok: "no_collision demo_sha (snd st)"
    using demo_log_checked by (auto split: prod.splits sum.splits dest: demo_log)
  from run obtain st1 st2 st3 where e: "empty_wrapper demo_sha demo_sign demo_empty = (Inr wb, st1)"
      and p: "wrapper_put logged_get demo_put identity_key_hasher wb [1] None (Some (CLong 7)) st1 = (Inr wo, st2)"
      and d: "demo_writer_data wb st2 = (Inr b, st3)" "demo_writer_data wo st3 = (Inr s, st)"
    unfolding demo_setup_def by (elim io_bind_cases) auto
  note l3 = ram.mono_ioD [OF mono_demo d(2)]
  note l2 = ram.later_trans [OF ram.mono_ioD [OF mono_demo d(1)] l3]
  have l1: "ram.later demo_sha st1 st2"
    using ram.mono_ioD [OF ram_mono_wrapper [of demo_sha demo_sign identity_key_hasher wb "PutOp [1] None (Some (CLong 7))"]] p by simp
  have "ram.mono_io demo_sha (empty_wrapper demo_sha demo_sign)" unfolding empty_wrapper_def by (intro ram.mono_intros ram.mono_write)
  then have ad1: "addressed demo_sha st1" using ram.mono_ioD e ram.later_inv demo_addressed by blast
  then have ad2: "addressed demo_sha st2" and ad3: "addressed demo_sha st3"
    using l1 d(1) ram.later_inv ram.mono_ioD [OF mono_demo] by blast+
  have ok2: "no_collision demo_sha (snd st2)" and ok3: "no_collision demo_sha (snd st3)"
    using ram.later_ok [OF l2 ad2 ok] ram.later_ok [OF l3 ad3 ok] by simp_all
  have wb1: "represents demo_sha identity_key_hasher st1 wb Map.empty"
    using represents_empty [OF demo_params demo_addressed e ram.later_ok [OF l1 ad1 ok2]] by simp
  have "val_ok (Some (CLong 7))" by (simp add: val_ok_def)
  from wrapper_put_step [OF demo_params wb1 this p ok2]
  have wo2: "represents demo_sha identity_key_hasher st2 wo [[1] \<mapsto> Some (CLong 7)]" by simp
  have wo3: "represents demo_sha identity_key_hasher st3 wo [[1] \<mapsto> Some (CLong 7)]"
    by (rule represents_later [OF wo2 ram.mono_ioD [OF mono_demo d(1)] ok3])
  have wb2: "represents demo_sha identity_key_hasher st2 wb Map.empty" by (rule represents_later [OF wb1 l1 ok2])
  show ?thesis
    using run ok demo_writer_data_reads [OF d(1) wb2 l3 ok] demo_writer_data_reads [OF d(2) wo3 ram.later_refl ok]
      represents_later [OF wb2 l2 ok] represents_later [OF wo3 l3 ok] by blast
qed

text \<open>We added a key, the remote side changed nothing: the merge is our tree.\<close>

theorem merge_writer_data_three_way_witness:
  "\<exists>wb wo b s st bs wd w. demo_setup demo_empty = (Inr (wb, wo, b, s), st) \<and>
     merge_writer_data id logged_get demo_put b s b st = (Inr bs, st) \<and> bs = to_bytes wd \<and> tree_root wd = Inr (root_hash w) \<and>
     represents demo_sha identity_key_hasher st w [[1] \<mapsto> Some (CLong 7)]"
proof -
  obtain wb wo b s st b' s' where x: "demo_setup demo_empty = (Inr (wb, wo, b, s), st)" "no_collision demo_sha (snd st)"
      "logged_get st b = Inr (Some b')" "tree_root b' = Inr (root_hash wb)" "represents demo_sha identity_key_hasher st wb Map.empty"
      "logged_get st s = Inr (Some s')" "tree_root s' = Inr (root_hash wo)"
      "represents demo_sha identity_key_hasher st wo [[1] \<mapsto> Some (CLong 7)]"
    using demo_setup_runs by blast
  obtain r where run: "merge_writer_data id logged_get demo_put b s b st = (r, st)"
    using merge_unchanged [of id logged_get demo_put b s st] by (metis prod.collapse)
  have v: "visits_all id" "no_null Map.empty" by (simp_all add: visits_all_def no_null_def)
  have three: "three_way Map.empty [[1] \<mapsto> Some (CLong 7)] Map.empty = [[1] \<mapsto> Some (CLong 7)]"
    by (auto simp: three_way_def)
  have nc: "\<not> (\<exists>k. Map.empty k \<noteq> ([[1] \<mapsto> Some (CLong 7)] k) \<and> Map.empty k \<noteq> (Map.empty k))" by simp
  have ncol: "\<not> collide identity_key_hasher (dom [[1 :: 8 word] \<mapsto> Some (CLong 7)] \<union> dom (Map.empty :: bytes \<rightharpoonup> cbor option))"
  proof
    assume "collide identity_key_hasher (dom [[1 :: 8 word] \<mapsto> Some (CLong 7)] \<union> dom (Map.empty :: bytes \<rightharpoonup> cbor option))"
    then obtain S :: "bytes set" where "S \<subseteq> {[1]}" "card S = 5" unfolding collide_def by auto
    then show False using card_mono [of "{[1]}" S] by simp
  qed
  show ?thesis
    using merge_writer_data_three_way [OF v(1) demo_params x(3-8,3-5) v(2,2) run x(2), unfolded if_not_P [OF nc] three]
      run x(1) ncol by (cases r) auto
qed

end
