(* ===== verification/Buffered.thy ===== *)
theory Buffered
  imports Bulk Champ_Merge
begin

text \<open>
  The block half of \<open>peergos-core/src/buffered.rs\<close>: the read cache, the buffer of blocks not yet written, the collection of
  the blocks that a commit keeps, and their upload in batches.  The store behind the buffer is a parameter.

  A \<open>HashMap\<close> is an association list; the order in which it is visited is a field of \<open>orders\<close>.  Uploads run as
  concurrent tasks: every task puts one batch, the tasks run in any order (\<open>ord_tasks\<close>), and the error reported is that of
  the first batch that failed.
\<close>

section \<open>The store behind the buffer\<close>

text \<open>Reads leave the state of a store as it is; a bulk commit also changes the pointers.\<close>

record ('s, 'p) target =
  tg_get :: "'s \<Rightarrow> public_key_hash \<Rightarrow> cid \<Rightarrow> error + cbor option"
  tg_get_raw :: "'s \<Rightarrow> public_key_hash \<Rightarrow> cid \<Rightarrow> error + bytes option"
  tg_get_size :: "'s \<Rightarrow> public_key_hash \<Rightarrow> multihash \<Rightarrow> error + u64 option"
  tg_put :: "public_key_hash \<Rightarrow> public_key_hash \<Rightarrow> bytes list \<Rightarrow> bytes list \<Rightarrow> string \<Rightarrow> ('s, error, cid list) io"
  tg_put_raw :: "public_key_hash \<Rightarrow> public_key_hash \<Rightarrow> bytes list \<Rightarrow> bytes list \<Rightarrow> string \<Rightarrow> ('s, error, cid list) io"
  tg_put_batch :: "public_key_hash \<Rightarrow> signing_private_key_and_public_hash \<Rightarrow> bytes list \<Rightarrow> string \<Rightarrow> ('s, error, cid list) io"
  tg_put_raw_batch :: "public_key_hash \<Rightarrow> signing_private_key_and_public_hash \<Rightarrow> bytes list \<Rightarrow> string \<Rightarrow> ('s, error, cid list) io"
  tg_start :: "public_key_hash \<Rightarrow> ('s, error, string) io"
  tg_close :: "public_key_hash \<Rightarrow> string \<Rightarrow> ('s, error, bool) io"
  tg_bulk_commit :: "public_key_hash \<Rightarrow> bulk_commit \<Rightarrow> ('s \<times> 'p, error, cid list) io"
  tg_pointers :: "'p pointers"

section \<open>Data\<close>

abbreviation (input) MAX_SMALL_BLOCK_SIZE :: nat where "MAX_SMALL_BLOCK_SIZE \<equiv> 102400"
abbreviation (input) MAX_BLOCK_AUTHS :: nat where "MAX_BLOCK_AUTHS \<equiv> 50"
abbreviation (input) MAX_CBOR_BATCH_SIZE :: nat where "MAX_CBOR_BATCH_SIZE \<equiv> 1048576"
abbreviation (input) MAX_CBOR_BLOCKS_PER_BATCH :: nat where "MAX_CBOR_BLOCKS_PER_BATCH \<equiv> 1000"

record buffered_block =
  bb_data :: bytes
  bb_signature :: bytes
  bb_owner :: public_key_hash
  bb_writer :: public_key_hash
  bb_is_raw :: bool

type_synonym buffer_map = "(cid \<times> buffered_block) list"
type_synonym batch = "public_key_hash \<times> bool \<times> bytes list \<times> bytes list"
type_synonym signed_groups = "(public_key_hash \<times> (bytes \<times> bytes) list) list"

record inline_block =
  ib_cid :: cid
  ib_data :: bytes
  ib_is_raw :: bool

record orders =
  ord_entries :: "entries \<Rightarrow> entries"
  ord_buffer :: "buffer_map \<Rightarrow> buffer_map"
  ord_cids :: "cid list \<Rightarrow> cid list"
  ord_groups :: "signed_groups \<Rightarrow> signed_groups"
  ord_inline :: "(cid \<times> inline_block) list \<Rightarrow> (cid \<times> inline_block) list"
  ord_tasks :: "nat list \<Rightarrow> nat list"

record block_cache =
  cache_map :: "(cid \<times> bytes) list"
  cache_order :: "cid list"
  cache_cap :: nat

record buffered_storage =
  buffer :: buffer_map
  cache :: block_cache
  bulk_unsupported :: "public_key_hash list"

section \<open>The read cache\<close>

definition cache_new :: "nat \<Rightarrow> block_cache" where
  "cache_new n = \<lparr>cache_map = [], cache_order = [], cache_cap = n\<rparr>"

definition cache_get :: "block_cache \<Rightarrow> cid \<Rightarrow> bytes option" where
  "cache_get c h = map_of (cache_map c) h"

fun cache_evict :: "nat \<Rightarrow> (cid \<times> bytes) list \<Rightarrow> cid list \<Rightarrow> (cid \<times> bytes) list \<times> cid list" where
  "cache_evict cap m [] = (m, [])"
| "cache_evict cap m (old # order) =
     (if length m \<ge> cap then cache_evict cap (AList.delete old m) order else (m, old # order))"

definition cache_put :: "cid \<Rightarrow> bytes \<Rightarrow> block_cache \<Rightarrow> block_cache" where
  "cache_put h data c =
     (if cache_cap c = 0 \<or> map_of (cache_map c) h \<noteq> None then c
      else case cache_evict (cache_cap c) (cache_map c) (cache_order c) of (m, order) \<Rightarrow>
        c\<lparr>cache_order := order @ [h], cache_map := AList.update h data m\<rparr>)"

section \<open>Buffering\<close>

definition storage_new :: "nat \<Rightarrow> buffered_storage" where
  "storage_new read_cache_size = \<lparr>buffer = [], cache = cache_new read_cache_size, bulk_unsupported = []\<rparr>"

definition storage_is_empty :: "buffered_storage \<Rightarrow> bool" where
  "storage_is_empty s = (buffer s = [])"

definition has_buffered_block :: "buffered_storage \<Rightarrow> cid \<Rightarrow> bool" where
  "has_buffered_block s c = (map_of (buffer s) c \<noteq> None)"

definition total_size :: "buffered_storage \<Rightarrow> nat" where
  "total_size s = sum_list (map (\<lambda>(c, b). length (bb_data b)) (buffer s))"

definition storage_clear :: "buffered_storage \<Rightarrow> buffered_storage" where
  "storage_clear s = s\<lparr>buffer := []\<rparr>"

fun buffer_put_loop ::
  "(bytes \<Rightarrow> bytes) \<Rightarrow> public_key_hash \<Rightarrow> public_key_hash \<Rightarrow> bool \<Rightarrow> cid list \<Rightarrow> (bytes \<times> bytes) list \<Rightarrow> (buffer_map, error, cid list) io" where
  "buffer_put_loop sha256 owner writer raw cids [] bf = (Inr cids, bf)"
| "buffer_put_loop sha256 owner writer raw cids ((block, signature) # more_blocks) bf =
     (case build_cid (sha256 block) raw of
        Inl e \<Rightarrow> (Inl e, bf)
      | Inr c \<Rightarrow> buffer_put_loop sha256 owner writer raw (cids @ [c]) more_blocks
          (AList.update c \<lparr>bb_data = block, bb_signature = signature, bb_owner = owner, bb_writer = writer, bb_is_raw = raw\<rparr> bf))"

definition buffer_put ::
  "(bytes \<Rightarrow> bytes) \<Rightarrow> public_key_hash \<Rightarrow> public_key_hash \<Rightarrow> bytes list \<Rightarrow> bytes list \<Rightarrow> bool \<Rightarrow> (buffered_storage, error, cid list) io" where
  "buffer_put sha256 owner writer sigs bs raw s =
     (if length sigs \<noteq> length bs then (Inl (Protocol ''blocks/signatures length mismatch''), s)
      else case buffer_put_loop sha256 owner writer raw [] (zip bs sigs) (buffer s) of (r, bf) \<Rightarrow> (r, s\<lparr>buffer := bf\<rparr>))"

definition buffered_get_size ::
  "('s, 'p) target \<Rightarrow> orders \<Rightarrow> public_key_hash \<Rightarrow> multihash \<Rightarrow> 's \<Rightarrow> buffered_storage \<Rightarrow> error + u64 option" where
  "buffered_get_size T ho owner block st s =
     (if is_identity block then Inr (Some (of_nat (length (hash block))))
      else case List.find (\<lambda>(c, b). cid_multihash c = block) (ord_buffer ho (buffer s)) of
          Some (c, b) \<Rightarrow> Inr (Some (of_nat (length (bb_data b))))
        | None \<Rightarrow> tg_get_size T st owner block)"

definition buffered_get_raw :: "('s, 'p) target \<Rightarrow> public_key_hash \<Rightarrow> cid \<Rightarrow> 's \<Rightarrow> (buffered_storage, error, bytes option) io" where
  "buffered_get_raw T owner h st s =
     (if is_identity (cid_multihash h) then (Inr (Some (hash (cid_multihash h))), s)
      else case map_of (buffer s) h of
          Some b \<Rightarrow> (Inr (Some (bb_data b)), s)
        | None \<Rightarrow>
            (case cache_get (cache s) h of
               Some cached \<Rightarrow> (Inr (Some cached), s)
             | None \<Rightarrow>
                 (case tg_get_raw T st owner h of
                    Inl e \<Rightarrow> (Inl e, s)
                  | Inr None \<Rightarrow> (Inr None, s)
                  | Inr (Some bs) \<Rightarrow> (Inr (Some bs), s\<lparr>cache := cache_put h bs (cache s)\<rparr>))))"

definition buffered_get :: "('s, 'p) target \<Rightarrow> public_key_hash \<Rightarrow> cid \<Rightarrow> 's \<Rightarrow> (buffered_storage, error, cbor option) io" where
  "buffered_get T owner h st =
     io_bind (buffered_get_raw T owner h st) (\<lambda>found.
       case found of
         Some raw \<Rightarrow> io_lift (and_then (map_err CborErr (from_bytes raw)) (\<lambda>c. Inr (Some c)))
       | None \<Rightarrow> io_ret None)"

section \<open>The blocks a commit keeps\<close>

text \<open>The links out of a block that can be read as CIDs.\<close>

definition block_links :: "bool \<Rightarrow> bytes \<Rightarrow> cid list" where
  "block_links raw data =
     (if raw then []
      else case from_bytes data of
          Inl _ \<Rightarrow> []
        | Inr c \<Rightarrow> List.map_filter (\<lambda>l. case cid_cast l of Inr c \<Rightarrow> Some c | Inl _ \<Rightarrow> None) (links c))"

text \<open>The end of the stack is the head of the list.\<close>

function reach :: "buffer_map \<Rightarrow> cid list \<Rightarrow> cid list \<Rightarrow> cid list" where
  "reach bf keep [] = keep"
| "reach bf keep (c # stack) =
     (if c \<in> set keep then reach bf keep stack
      else case map_of bf c of
          None \<Rightarrow> reach bf keep stack
        | Some b \<Rightarrow> reach bf (keep @ [c]) (rev (block_links (bb_is_raw b) (bb_data b)) @ stack))"
  by pat_completeness auto

lemma fewer_left:
  assumes "map_of bf c = Some b" "c \<notin> set keep"
  shows "card (set (map fst bf) - set (keep @ [c])) < card (set (map fst bf) - set keep)"
proof (rule psubset_card_mono)
  have "c \<in> set (map fst bf)" using assms(1) by (force dest: map_of_SomeD)
  then show "set (map fst bf) - set (keep @ [c]) \<subset> set (map fst bf) - set keep" using assms(2) by auto
qed simp

termination reach
  by (relation "measures [\<lambda>(bf, keep, stack). card (set (map fst bf) - set keep), \<lambda>(bf, keep, stack). length stack]")
    (auto dest: fewer_left)

definition reachable :: "buffer_map \<Rightarrow> cid list \<Rightarrow> cid list" where
  "reachable bf roots = reach bf [] (rev roots)"

fun claim_blocks :: "buffer_map \<Rightarrow> public_key_hash \<Rightarrow> cid list \<Rightarrow> cid list \<Rightarrow> (cid \<times> buffered_block) list \<times> cid list" where
  "claim_blocks bf owner claimed [] = ([], claimed)"
| "claim_blocks bf owner claimed (c # cs) =
     (case map_of bf c of
        Some b \<Rightarrow>
          if bb_owner b = owner \<and> c \<notin> set claimed
          then case claim_blocks bf owner (claimed @ [c]) cs of (part, claimed') \<Rightarrow> ((c, b) # part, claimed')
          else claim_blocks bf owner claimed cs
      | None \<Rightarrow> claim_blocks bf owner claimed cs)"

fun partition_roots ::
  "orders \<Rightarrow> buffer_map \<Rightarrow> public_key_hash \<Rightarrow> cid list \<Rightarrow> cid option list \<Rightarrow> (cid \<times> buffered_block) list list" where
  "partition_roots ho bf owner claimed [] = []"
| "partition_roots ho bf owner claimed (new_root # roots) =
     (case claim_blocks bf owner claimed (ord_cids ho (case new_root of Some r \<Rightarrow> reachable bf [r] | None \<Rightarrow> [])) of (part, claimed') \<Rightarrow>
        part # partition_roots ho bf owner claimed' roots)"

definition partition_by_root ::
  "orders \<Rightarrow> buffered_storage \<Rightarrow> public_key_hash \<Rightarrow> cid option list \<Rightarrow> (cid \<times> buffered_block) list list" where
  "partition_by_root ho s owner roots = partition_roots ho (buffer s) owner [] roots"

section \<open>Batches\<close>

fun add_to_group :: "public_key_hash \<Rightarrow> bytes \<times> bytes \<Rightarrow> signed_groups \<Rightarrow> signed_groups" where
  "add_to_group w x [] = [(w, [x])]"
| "add_to_group w x ((w', xs) # gs) = (if w' = w then (w', xs @ [x]) # gs else (w', xs) # add_to_group w x gs)"

definition grouped :: "buffered_block list \<Rightarrow> signed_groups" where
  "grouped bs = foldl (\<lambda>gs b. add_to_group (bb_writer b) (bb_signature b, bb_data b) gs) [] bs"

fun cbor_batches :: "public_key_hash \<Rightarrow> bytes list \<Rightarrow> bytes list \<Rightarrow> nat \<Rightarrow> (bytes \<times> bytes) list \<Rightarrow> batch list" where
  "cbor_batches w sigs bs sz [] = (if bs = [] then [] else [(w, False, sigs, bs)])"
| "cbor_batches w sigs bs sz ((sig, block) # items) =
     (if bs \<noteq> [] \<and> (sz + length block > MAX_CBOR_BATCH_SIZE \<or> length bs \<ge> MAX_CBOR_BLOCKS_PER_BATCH)
      then (w, False, sigs, bs) # cbor_batches w [sig] [block] (length block) items
      else cbor_batches w (sigs @ [sig]) (bs @ [block]) (sz + length block) items)"

fun raw_batches :: "public_key_hash \<Rightarrow> bytes list \<Rightarrow> bytes list \<Rightarrow> (bytes \<times> bytes) list \<Rightarrow> batch list" where
  "raw_batches w sigs bs [] = (if bs = [] then [] else [(w, True, sigs, bs)])"
| "raw_batches w sigs bs ((sig, block) # items) =
     (if length bs + 1 \<ge> MAX_BLOCK_AUTHS then (w, True, sigs @ [sig], bs @ [block]) # raw_batches w [] [] items
      else raw_batches w (sigs @ [sig]) (bs @ [block]) items)"

definition commit_keep :: "orders \<Rightarrow> buffer_map \<Rightarrow> public_key_hash \<Rightarrow> cid list \<Rightarrow> cid list" where
  "commit_keep ho bf owner roots =
     filter (\<lambda>c. case map_of bf c of Some b \<Rightarrow> bb_owner b = owner | None \<Rightarrow> False) (ord_cids ho (reachable bf roots))"

definition commit_batches :: "orders \<Rightarrow> buffer_map \<Rightarrow> cid list \<Rightarrow> batch list" where
  "commit_batches ho bf keep =
     (let kept = map snd (filter (\<lambda>(c, b). c \<in> set keep) (ord_buffer ho bf));
          cbor = grouped (filter (\<lambda>b. \<not> bb_is_raw b) kept);
          small_raw = grouped (filter (\<lambda>b. bb_is_raw b \<and> length (bb_data b) < MAX_SMALL_BLOCK_SIZE) kept);
          large_raw = grouped (filter (\<lambda>b. bb_is_raw b \<and> \<not> length (bb_data b) < MAX_SMALL_BLOCK_SIZE) kept)
      in concat (map (\<lambda>(w, items). cbor_batches w [] [] 0 items) (ord_groups ho cbor)) @
         concat (map (\<lambda>(w, items). raw_batches w [] [] items) (ord_groups ho small_raw)) @
         concat (map (\<lambda>(w, items). raw_batches w [] [] items) (ord_groups ho large_raw)))"

text \<open>Concurrent tasks, by their number.\<close>

fun run_tasks :: "(nat \<Rightarrow> ('s, error, 'a) io) \<Rightarrow> nat list \<Rightarrow> 's \<Rightarrow> (nat \<times> (error + 'a)) list \<times> 's" where
  "run_tasks f [] st = ([], st)"
| "run_tasks f (i # is) st = (case f i st of (r, st1) \<Rightarrow> case run_tasks f is st1 of (rs, st2) \<Rightarrow> ((i, r) # rs, st2))"

definition spawn_all :: "orders \<Rightarrow> ('b \<Rightarrow> ('s, error, 'a) io) \<Rightarrow> 'b list \<Rightarrow> ('s, error, 'a list) io" where
  "spawn_all ho f xs st =
     (case run_tasks (\<lambda>i. f (xs ! i)) (ord_tasks ho [0..<length xs]) st of (rs, st') \<Rightarrow>
        (collect_results (\<lambda>i. case map_of rs i of Some r \<Rightarrow> r | None \<Rightarrow> Inl Panicked) [0..<length xs], st'))"

definition upload_batch :: "('s, 'p) target \<Rightarrow> public_key_hash \<Rightarrow> string \<Rightarrow> batch \<Rightarrow> ('s, error, cid list) io" where
  "upload_batch T owner tid b =
     (case b of (writer, raw, sigs, bs) \<Rightarrow> if raw then tg_put_raw T owner writer sigs bs tid else tg_put T owner writer sigs bs tid)"

definition commit_blocks ::
  "('s, 'p) target \<Rightarrow> orders \<Rightarrow> public_key_hash \<Rightarrow> cid list \<Rightarrow> string \<Rightarrow> ('s \<times> buffered_storage, error, unit) io" where
  "commit_blocks T ho owner roots tid = (\<lambda>(st, s).
     let keep = commit_keep ho (buffer s) owner roots
     in case spawn_all ho (upload_batch T owner tid) (commit_batches ho (buffer s) keep) st of
          (Inl e, st') \<Rightarrow> (Inl e, (st', s))
        | (Inr _, st') \<Rightarrow> (Inr (), (st', s\<lparr>buffer := filter (\<lambda>(c, b). c \<notin> set keep) (buffer s)\<rparr>)))"

end
