(* ===== verification/Buffered_Net.thy ===== *)
theory Buffered_Net
  imports Buffered
begin

text \<open>
  The pointer half of \<open>peergos-core/src/buffered.rs\<close>: buffered pointer updates with checkpoints, their commit with a
  three-way merge on a conflict, the bulk commit of an owner's writes and its split into calls the server accepts, and the
  coordinator.  The state of the servers is the pair of the store's state and the pointers' state.
\<close>

section \<open>Buffered updates\<close>

record writer_update =
  wu_owner :: public_key_hash
  wu_writer :: public_key_hash
  wu_update :: pointer_update
  wu_signer :: signing_private_key_and_public_hash

record buffered_pointers =
  updates :: "writer_update list"
  generation :: u64

record checkpoint =
  cp_generation :: u64
  cp_len :: nat
  cp_last_target :: "cid option option"

definition pointers_new :: buffered_pointers where
  "pointers_new = \<lparr>updates = [], generation = 0\<rparr>"

definition pointers_is_empty :: "buffered_pointers \<Rightarrow> bool" where
  "pointers_is_empty p = (updates p = [])"

definition pointers_clear :: "buffered_pointers \<Rightarrow> buffered_pointers" where
  "pointers_clear p = \<lparr>updates = [], generation = generation p + 1\<rparr>"

definition take_checkpoint :: "buffered_pointers \<Rightarrow> checkpoint" where
  "take_checkpoint p =
     \<lparr>cp_generation = generation p, cp_len = length (updates p),
      cp_last_target = (if updates p = [] then None else Some (pu_updated (wu_update (last (updates p)))))\<rparr>"

definition retarget_last :: "cid option \<Rightarrow> writer_update list \<Rightarrow> writer_update list" where
  "retarget_last c ws = butlast ws @ [(last ws)\<lparr>wu_update := (wu_update (last ws))\<lparr>pu_updated := c\<rparr>\<rparr>]"

definition rollback :: "checkpoint \<Rightarrow> buffered_pointers \<Rightarrow> buffered_pointers" where
  "rollback cp p =
     (if generation p \<noteq> cp_generation cp then p\<lparr>updates := []\<rparr>
      else let ws = take (cp_len cp) (updates p)
           in p\<lparr>updates := (case cp_last_target cp of Some c \<Rightarrow> if ws = [] then ws else retarget_last c ws | None \<Rightarrow> ws)\<rparr>)"

definition roots :: "buffered_pointers \<Rightarrow> cid list" where
  "roots p = List.map_filter (\<lambda>w. pu_updated (wu_update w)) (updates p)"

definition writes_for :: "public_key_hash \<Rightarrow> buffered_pointers \<Rightarrow> writer_update list" where
  "writes_for owner p = filter (\<lambda>w. wu_owner w = owner) (updates p)"

definition roots_for :: "public_key_hash \<Rightarrow> buffered_pointers \<Rightarrow> cid list" where
  "roots_for owner p = List.map_filter (\<lambda>w. pu_updated (wu_update w)) (writes_for owner p)"

definition owners :: "buffered_pointers \<Rightarrow> public_key_hash list" where
  "owners p = foldl (\<lambda>res w. if wu_owner w \<in> set res then res else res @ [wu_owner w]) [] (updates p)"

definition drop_owner :: "public_key_hash \<Rightarrow> buffered_pointers \<Rightarrow> buffered_pointers" where
  "drop_owner owner p = \<lparr>updates = filter (\<lambda>w. wu_owner w \<noteq> owner) (updates p), generation = generation p + 1\<rparr>"

definition add_write ::
  "public_key_hash \<Rightarrow> signing_private_key_and_public_hash \<Rightarrow> pointer_update \<Rightarrow> buffered_pointers \<Rightarrow> buffered_pointers" where
  "add_write owner signer u p =
     (if updates p \<noteq> [] \<and> wu_writer (last (updates p)) = spk_public_key_hash signer \<and> wu_owner (last (updates p)) = owner
      then p\<lparr>updates := retarget_last (pu_updated u) (updates p)\<rparr>
      else p\<lparr>updates := updates p @ [\<lparr>wu_owner = owner, wu_writer = spk_public_key_hash signer, wu_update = u, wu_signer = signer\<rparr>]\<rparr>)"

definition buffered_pointer_target ::
  "ed25519 \<Rightarrow> ('s, 'p) target \<Rightarrow> (cid \<Rightarrow> error + cbor option) \<Rightarrow> buffered_pointers \<Rightarrow> public_key_hash \<Rightarrow> public_key_hash \<Rightarrow>
   ('p, error, pointer_update) io" where
  "buffered_pointer_target E T sg p owner writer =
     (case List.find (\<lambda>w. wu_writer w = writer) (rev (updates p)) of
        Some w \<Rightarrow> io_ret (wu_update w)
      | None \<Rightarrow> get_pointer_target E (tg_pointers T) (\<lambda>_. sg) owner writer)"

section \<open>Committing pointers\<close>

definition on_store :: "('s, error, 'a) io \<Rightarrow> ('s \<times> 'p, error, 'a) io" where
  "on_store f = (\<lambda>(s, p). case f s of (r, s') \<Rightarrow> (r, (s', p)))"

definition on_pointers :: "('p, error, 'a) io \<Rightarrow> ('s \<times> 'p, error, 'a) io" where
  "on_pointers f = (\<lambda>(s, p). case f p of (r, p') \<Rightarrow> (r, (s, p')))"

definition put_signed ::
  "('s, 'p) target \<Rightarrow> public_key_hash \<Rightarrow> signing_private_key_and_public_hash \<Rightarrow> string \<Rightarrow> bytes \<Rightarrow> ('s, error, cid) io" where
  "put_signed T owner signer tid = put_block_signed (\<lambda>bs. tg_put_batch T owner signer bs tid)"

text \<open>The pointer of a conflict: merge our tree into theirs and point at the merge.\<close>

definition resolve_conflict ::
  "ed25519 \<Rightarrow> ('s, 'p) target \<Rightarrow> orders \<Rightarrow> public_key_hash \<Rightarrow> writer_update \<Rightarrow> string \<Rightarrow> pointer_update \<Rightarrow> ('s \<times> 'p, error, unit) io" where
  "resolve_conflict E T ho owner w tid remote =
     (case (pu_original (wu_update w), pu_updated (wu_update w), pu_updated remote) of
        (Some base, Some ours, Some theirs) \<Rightarrow>
          io_bind (on_store (merge_writer_data (ord_entries ho) (\<lambda>st. tg_get T st owner) (put_signed T owner (wu_signer w) tid) base ours theirs)) (\<lambda>merged_wd.
          io_bind (on_store (put_signed T owner (wu_signer w) tid merged_wd)) (\<lambda>merged_root.
          io_bind (on_pointers (set_pointer_update E (tg_pointers T) owner (wu_signer w)
              \<lparr>pu_original = pu_updated remote, pu_updated = Some merged_root, pu_sequence = map_option (\<lambda>s. s + 1) (pu_sequence remote)\<rparr>)) (\<lambda>ok.
            if ok then io_ret () else io_lift (Inl (Protocol ''pointer commit rejected after merge'')))))
      | _ \<Rightarrow> io_lift (Inl (Protocol ''pointer CAS conflict with no mergeable roots'')))"

definition commit_one_with_merge ::
  "ed25519 \<Rightarrow> ('s, 'p) target \<Rightarrow> orders \<Rightarrow> public_key_hash \<Rightarrow> writer_update \<Rightarrow> string \<Rightarrow> ('s \<times> 'p, error, unit) io" where
  "commit_one_with_merge E T ho owner w tid st =
     (case on_pointers (set_pointer_update E (tg_pointers T) owner (wu_signer w) (wu_update w)) st of
        (Inr True, st1) \<Rightarrow> (Inr (), st1)
      | (_, st1) \<Rightarrow>
          io_bind (\<lambda>(s, p). on_pointers (get_pointer_target E (tg_pointers T) (\<lambda>_. tg_get T s owner) owner (wu_writer w)) (s, p)) (\<lambda>remote.
            if pu_updated remote = pu_updated (wu_update w) then io_ret () else resolve_conflict E T ho owner w tid remote) st1)"

definition commit_pointers ::
  "ed25519 \<Rightarrow> ('s, 'p) target \<Rightarrow> orders \<Rightarrow> public_key_hash \<Rightarrow> string \<Rightarrow> (('s \<times> 'p) \<times> buffered_pointers, error, unit) io" where
  "commit_pointers E T ho owner tid = (\<lambda>(st, p).
     case io_fold (\<lambda>_ w. commit_one_with_merge E T ho owner w tid) () (writes_for owner p) st of
       (Inl e, st') \<Rightarrow> (Inl e, (st', p))
     | (Inr _, st') \<Rightarrow> (Inr (), (st', p\<lparr>updates := filter (\<lambda>w. wu_owner w \<noteq> owner) (updates p)\<rparr>)))"

section \<open>Splitting a commit\<close>

abbreviation (input) MAX_BULK_INLINE :: nat where "MAX_BULK_INLINE \<equiv> 2031616"

text \<open>Breadth first from the root; \<open>by_hash\<close> holds the blocks that have not been placed.\<close>

function bfs :: "(cid \<times> inline_block) list \<Rightarrow> inline_block list \<Rightarrow> cid list \<Rightarrow> inline_block list \<times> (cid \<times> inline_block) list" where
  "bfs by_hash ordered [] = (ordered, by_hash)"
| "bfs by_hash ordered (c # queue) =
     (case map_of by_hash c of
        None \<Rightarrow> bfs by_hash ordered queue
      | Some b \<Rightarrow> bfs (AList.delete c by_hash) (ordered @ [b]) (queue @ block_links (ib_is_raw b) (ib_data b)))"
  by pat_completeness auto

lemma delete_shorter: "map_of m c = Some b \<Longrightarrow> length (AList.delete c m) < length m"
proof (induction m)
  case (Cons p m)
  then show ?case using AList.length_delete_le [of c m] by (cases "fst p = c") (auto simp: le_imp_less_Suc)
qed simp

termination bfs
  by (relation "measures [\<lambda>(m, ordered, queue). length m, \<lambda>(m, ordered, queue). length queue]") (auto dest: delete_shorter)

definition from_root_first :: "orders \<Rightarrow> inline_block list \<Rightarrow> cid option \<Rightarrow> inline_block list" where
  "from_root_first ho bs start =
     (case bfs (foldl (\<lambda>m b. AList.update (ib_cid b) b m) [] bs) [] (case start of Some r \<Rightarrow> [r] | None \<Rightarrow> []) of
        (ordered, left) \<Rightarrow> ordered @ map snd (ord_inline ho left))"

definition inline_blocks :: "(bytes \<Rightarrow> bytes) \<Rightarrow> writer_commit \<Rightarrow> error + inline_block list" where
  "inline_blocks sha256 w =
     collect_results (\<lambda>(raw, data). and_then (build_cid (sha256 data) raw) (\<lambda>c. Inr \<lparr>ib_cid = c, ib_data = data, ib_is_raw = raw\<rparr>))
       (map (Pair False) (cbor_blocks w) @ map (Pair True) (raw_blocks w))"

text \<open>The blocks that fit, up to the first that does not.\<close>

fun take_budget :: "nat \<Rightarrow> nat \<Rightarrow> inline_block list \<Rightarrow> inline_block list \<times> inline_block list \<times> nat \<times> nat" where
  "take_budget budget count_budget [] = ([], [], budget, count_budget)"
| "take_budget budget count_budget (b # bs) =
     (if length (ib_data b) \<le> budget \<and> count_budget > 0
      then case take_budget (budget - length (ib_data b)) (count_budget - 1) bs of (taken, left, x, y) \<Rightarrow> (b # taken, left, x, y)
      else ([], b # bs, budget, count_budget))"

definition data_of :: "bool \<Rightarrow> inline_block list \<Rightarrow> bytes list" where
  "data_of raw bs = map ib_data (filter (\<lambda>b. ib_is_raw b = raw) bs)"

type_synonym deferred = "(public_key_hash \<times> inline_block list) list"

fun split_last ::
  "(bytes \<Rightarrow> bytes) \<Rightarrow> orders \<Rightarrow> nat \<Rightarrow> nat \<Rightarrow> writer_commit list \<Rightarrow> cid option list \<Rightarrow> error + writer_commit list \<times> deferred" where
  "split_last sha256 ho budget count_budget [] starts = Inr ([], [])"
| "split_last sha256 ho budget count_budget (w # ws) [] = and_then (inline_blocks sha256 w) (\<lambda>_. Inl Panicked)"
| "split_last sha256 ho budget count_budget (w # ws) (start # starts) =
     and_then (inline_blocks sha256 w) (\<lambda>inline.
       case take_budget budget count_budget (from_root_first ho inline start) of (taken, left, budget', count_budget') \<Rightarrow>
         and_then (split_last sha256 ho budget' count_budget' ws starts) (\<lambda>(lasts, deferred).
           Inr (\<lparr>wc_writer = wc_writer w, cbor_blocks = data_of False taken, raw_blocks = data_of True taken,
                  pre_written = pre_written w, wc_pointer = wc_pointer w, block_list_signature = None\<rparr> # lasts,
                if left = [] then deferred else (wc_writer w, left) # deferred)))"

fun make_groups :: "inline_block list list \<Rightarrow> nat \<Rightarrow> inline_block list \<Rightarrow> inline_block list list" where
  "make_groups groups group_size [] = groups"
| "make_groups groups group_size (b # bs) =
     (if groups = [] \<or> group_size + length (ib_data b) > MAX_BULK_INLINE \<or> length (last groups) \<ge> MAX_BULK_COMMIT_BLOCKS
      then make_groups (groups @ [[b]]) (length (ib_data b)) bs
      else make_groups (butlast groups @ [last groups @ [b]]) (group_size + length (ib_data b)) bs)"

definition find_signer :: "writer_update list \<Rightarrow> public_key_hash \<Rightarrow> error + signing_private_key_and_public_hash" where
  "find_signer ws writer =
     (case List.find (\<lambda>w. wu_writer w = writer) ws of Some w \<Rightarrow> Inr (wu_signer w) | None \<Rightarrow> Inl Panicked)"

definition next_sequence :: "writer_update list \<Rightarrow> public_key_hash \<Rightarrow> i64 option" where
  "next_sequence ws writer = Option.bind (List.find (\<lambda>w. wu_writer w = writer) ws) (\<lambda>w. pu_sequence (wu_update w))"

type_synonym calls = "writer_commit list list \<times> nat \<times> nat"

definition group_commit ::
  "ed25519 \<Rightarrow> (bytes \<Rightarrow> bytes) \<Rightarrow> public_key_hash \<Rightarrow> signing_private_key_and_public_hash \<Rightarrow> i64 option \<Rightarrow> inline_block list \<Rightarrow> error + writer_commit" where
  "group_commit E sha256 writer signer sq grp =
     (let cbor = filter (\<lambda>b. \<not> ib_is_raw b) grp; raw = filter ib_is_raw grp
      in and_then (block_list_payload sha256 (map ib_cid (cbor @ raw)) sq) (\<lambda>payload.
         and_then (sign_message E (spk_secret signer) payload) (\<lambda>sig.
           Inr \<lparr>wc_writer = writer, cbor_blocks = map ib_data cbor, raw_blocks = map ib_data raw, pre_written = [],
             wc_pointer = None, block_list_signature = Some sig\<rparr>)))"

fun add_groups ::
  "ed25519 \<Rightarrow> (bytes \<Rightarrow> bytes) \<Rightarrow> public_key_hash \<Rightarrow> signing_private_key_and_public_hash \<Rightarrow> i64 option \<Rightarrow> calls \<Rightarrow>
   inline_block list list \<Rightarrow> error + calls" where
  "add_groups E sha256 writer signer sq acc [] = Inr acc"
| "add_groups E sha256 writer signer sq (calls, used, cnt) (grp # groups) =
     (let sz = sum_list (map (\<lambda>b. length (ib_data b)) grp);
          fresh = (calls = [] \<or> used > 0 \<and> (used + sz > MAX_BULK_INLINE \<or> cnt + length grp > MAX_BULK_COMMIT_BLOCKS))
      in and_then (group_commit E sha256 writer signer sq grp) (\<lambda>wc.
           add_groups E sha256 writer signer sq
             (if fresh then (calls @ [[wc]], sz, length grp)
              else (butlast calls @ [last calls @ [wc]], used + sz, cnt + length grp)) groups))"

fun defer_calls :: "ed25519 \<Rightarrow> (bytes \<Rightarrow> bytes) \<Rightarrow> writer_update list \<Rightarrow> calls \<Rightarrow> deferred \<Rightarrow> error + calls" where
  "defer_calls E sha256 ws acc [] = Inr acc"
| "defer_calls E sha256 ws acc ((writer, bs) # others) =
     and_then (find_signer ws writer) (\<lambda>signer.
     and_then (add_groups E sha256 writer signer (next_sequence ws writer) acc (make_groups [] 0 bs)) (\<lambda>acc'.
       defer_calls E sha256 ws acc' others))"

definition split ::
  "ed25519 \<Rightarrow> (bytes \<Rightarrow> bytes) \<Rightarrow> orders \<Rightarrow> bulk_commit \<Rightarrow> writer_update list \<Rightarrow> cid option list \<Rightarrow> string \<Rightarrow>
   error + bulk_commit list \<times> bulk_commit" where
  "split E sha256 ho commit ws starts tid =
     and_then (split_last sha256 ho MAX_BULK_INLINE (MAX_BULK_COMMIT_BLOCKS - pre_written_count commit) (writers commit) starts) (\<lambda>(lasts, deferred).
     and_then (defer_calls E sha256 ws ([], 0, 0) deferred) (\<lambda>(calls, used, cnt).
       Inr (map (\<lambda>c. \<lparr>bc_tid = Some tid, writers = c\<rparr>) (filter (\<lambda>c. c \<noteq> []) calls), \<lparr>bc_tid = bc_tid commit, writers = lasts\<rparr>)))"

definition send_bulk_commit ::
  "ed25519 \<Rightarrow> (bytes \<Rightarrow> bytes) \<Rightarrow> ('s, 'p) target \<Rightarrow> orders \<Rightarrow> public_key_hash \<Rightarrow> bulk_commit \<Rightarrow> writer_update list \<Rightarrow> cid option list \<Rightarrow>
   ('s \<times> 'p, error, unit) io" where
  "send_bulk_commit E sha256 T ho owner commit ws starts =
     (if inline_size commit \<le> MAX_BULK_INLINE \<and> block_count commit + pre_written_count commit \<le> MAX_BULK_COMMIT_BLOCKS
      then io_bind (tg_bulk_commit T owner commit) (\<lambda>_. io_ret ())
      else io_bind (case bc_tid commit of Some t \<Rightarrow> io_ret t | None \<Rightarrow> on_store (tg_start T owner)) (\<lambda>tid.
           io_bind (io_lift (split E sha256 ho commit ws starts tid)) (\<lambda>(blocks_only, final).
           io_bind (io_fold (\<lambda>_ call. io_bind (tg_bulk_commit T owner call) (\<lambda>_. io_ret ())) () blocks_only) (\<lambda>_.
           io_bind (tg_bulk_commit T owner final) (\<lambda>_.
             if bc_tid commit = None then io_bind (on_store (tg_close T owner tid)) (\<lambda>_. io_ret ()) else io_ret ())))))"

section \<open>Bulk commits\<close>

fun chunks :: "nat \<Rightarrow> 'a list \<Rightarrow> 'a list list" where
  "chunks n [] = []"
| "chunks n (x # xs) = (if n = 0 then [x # xs] else take n (x # xs) # chunks n (drop n (x # xs)))"

definition pre_write ::
  "('s, 'p) target \<Rightarrow> orders \<Rightarrow> public_key_hash \<Rightarrow> signing_private_key_and_public_hash \<Rightarrow> bytes list \<Rightarrow> string \<Rightarrow> ('s, error, cid list) io" where
  "pre_write T ho owner signer large tid =
     io_bind (spawn_all ho (\<lambda>b. tg_put_raw_batch T owner signer b tid) (chunks MAX_BLOCK_AUTHS large)) (\<lambda>cids. io_ret (concat cids))"

definition part_commit ::
  "ed25519 \<Rightarrow> ('s, 'p) target \<Rightarrow> orders \<Rightarrow> public_key_hash \<Rightarrow> string option \<Rightarrow> writer_update \<times> (cid \<times> buffered_block) list \<Rightarrow>
   ('s \<times> 'p, error, writer_commit) io" where
  "part_commit E T ho owner tid = (\<lambda>(w, part).
     let bs = map snd part;
         cbor = map bb_data (filter (\<lambda>b. \<not> bb_is_raw b) bs);
         raw = map bb_data (filter (\<lambda>b. bb_is_raw b \<and> length (bb_data b) < MAX_SMALL_BLOCK_SIZE) bs);
         large = map bb_data (filter (\<lambda>b. bb_is_raw b \<and> \<not> length (bb_data b) < MAX_SMALL_BLOCK_SIZE) bs)
     in io_bind (case tid of Some t \<Rightarrow> on_store (pre_write T ho owner (wu_signer w) large t) | None \<Rightarrow> io_ret []) (\<lambda>pre.
        io_bind (io_lift (sign_update E (wu_signer w) (wu_update w))) (\<lambda>sm.
          io_ret \<lparr>wc_writer = wu_writer w, cbor_blocks = cbor, raw_blocks = raw, pre_written = pre,
            wc_pointer = Some \<lparr>spu_writer = wu_writer w, spu_signed = sm\<rparr>, block_list_signature = None\<rparr>)))"

definition bulk_commit_owner ::
  "ed25519 \<Rightarrow> (bytes \<Rightarrow> bytes) \<Rightarrow> ('s, 'p) target \<Rightarrow> orders \<Rightarrow> buffered_storage \<Rightarrow> buffered_pointers \<Rightarrow> public_key_hash \<Rightarrow> ('s \<times> 'p, error, unit) io" where
  "bulk_commit_owner E sha256 T ho s p owner =
     (let ws = writes_for owner p; starts = map (\<lambda>w. pu_updated (wu_update w)) ws; parts = partition_by_root ho s owner starts;
          needs_tid = list_ex (\<lambda>(c, b). bb_is_raw b \<and> length (bb_data b) \<ge> MAX_SMALL_BLOCK_SIZE) (concat parts)
      in if ws = [] then io_ret ()
         else io_bind (if needs_tid then io_bind (on_store (tg_start T owner)) (\<lambda>t. io_ret (Some t)) else io_ret None) (\<lambda>tid st.
           case io_bind (io_fold (\<lambda>acc x. io_bind (part_commit E T ho owner tid x) (\<lambda>wc. io_ret (acc @ [wc]))) [] (zip ws parts)) (\<lambda>wcs.
               send_bulk_commit E sha256 T ho owner \<lparr>bc_tid = tid, writers = wcs\<rparr> ws starts) st of
             (Inl e, st') \<Rightarrow>
               (case tid of Some t \<Rightarrow> (Inl e, snd (on_store (tg_close T owner t) st')) | None \<Rightarrow> (Inl e, st'))
           | (Inr u, st') \<Rightarrow> (Inr u, st')))"

section \<open>The coordinator\<close>

record ('s, 'p) net =
  servers :: "'s \<times> 'p"
  nt_blocks :: buffered_storage
  nt_pointers :: buffered_pointers
  buffer_size :: nat
  safe_to_commit :: bool

definition net_new :: "'s \<times> 'p \<Rightarrow> nat \<Rightarrow> nat \<Rightarrow> ('s, 'p) net" where
  "net_new st bsize read_cache_size =
     \<lparr>servers = st, nt_blocks = storage_new read_cache_size, nt_pointers = pointers_new, buffer_size = bsize, safe_to_commit = True\<rparr>"

text \<open>The old path: upload the blocks, then commit the pointers one by one.\<close>

definition flush_old :: "ed25519 \<Rightarrow> ('s, 'p) target \<Rightarrow> orders \<Rightarrow> public_key_hash \<Rightarrow> (('s, 'p) net, error, unit) io" where
  "flush_old E T ho owner n =
     (case on_store (tg_start T owner) (servers n) of
        (Inl e, st1) \<Rightarrow> (Inl e, n\<lparr>servers := st1\<rparr>)
      | (Inr tid, (s1, p1)) \<Rightarrow>
          (case commit_blocks T ho owner (roots_for owner (nt_pointers n)) tid (s1, nt_blocks n) of
             (Inl e, (s2, b2)) \<Rightarrow> (Inl e, n\<lparr>servers := (s2, p1), nt_blocks := b2\<rparr>)
           | (Inr _, (s2, b2)) \<Rightarrow>
               (case commit_pointers E T ho owner tid ((s2, p1), nt_pointers n) of
                  (Inl e, (st3, q)) \<Rightarrow> (Inl e, n\<lparr>servers := st3, nt_blocks := b2, nt_pointers := q\<rparr>)
                | (Inr _, (st3, q)) \<Rightarrow>
                    (case on_store (tg_close T owner tid) st3 of
                       (Inl e, st4) \<Rightarrow> (Inl e, n\<lparr>servers := st4, nt_blocks := b2, nt_pointers := q\<rparr>)
                     | (Inr _, st4) \<Rightarrow> (Inr (), n\<lparr>servers := st4, nt_blocks := b2, nt_pointers := q\<rparr>)))))"

definition flush_owner ::
  "(error \<Rightarrow> string) \<Rightarrow> ed25519 \<Rightarrow> (bytes \<Rightarrow> bytes) \<Rightarrow> ('s, 'p) target \<Rightarrow> orders \<Rightarrow> public_key_hash \<Rightarrow> (('s, 'p) net, error, unit) io" where
  "flush_owner detail E sha256 T ho owner n =
     (if owner \<notin> set (bulk_unsupported (nt_blocks n)) then
        case bulk_commit_owner E sha256 T ho (nt_blocks n) (nt_pointers n) owner (servers n) of
          (Inr _, st) \<Rightarrow> (Inr (), n\<lparr>servers := st, nt_pointers := drop_owner owner (nt_pointers n)\<rparr>)
        | (Inl e, st) \<Rightarrow>
            if is_unimplemented detail e
            then flush_old E T ho owner (n\<lparr>servers := st, nt_blocks := (nt_blocks n)\<lparr>bulk_unsupported := owner # bulk_unsupported (nt_blocks n)\<rparr>\<rparr>)
            else if is_pointer_cas_failure detail e then flush_old E T ho owner (n\<lparr>servers := st\<rparr>)
            else (Inl e, n\<lparr>servers := st\<rparr>)
      else flush_old E T ho owner n)"

definition flush ::
  "(error \<Rightarrow> string) \<Rightarrow> ed25519 \<Rightarrow> (bytes \<Rightarrow> bytes) \<Rightarrow> ('s, 'p) target \<Rightarrow> orders \<Rightarrow> public_key_hash \<Rightarrow> (('s, 'p) net, error, unit) io" where
  "flush detail E sha256 T ho default_owner n =
     (let os = (if owners (nt_pointers n) = [] then [default_owner] else owners (nt_pointers n))
      in case io_fold (\<lambda>_ owner. flush_owner detail E sha256 T ho owner) () os n of
           (Inl e, n') \<Rightarrow> (Inl e, n')
         | (Inr _, n') \<Rightarrow> (Inr (), n'\<lparr>nt_blocks := storage_clear (nt_blocks n'), nt_pointers := pointers_clear (nt_pointers n')\<rparr>))"

definition maybe_auto_commit ::
  "(error \<Rightarrow> string) \<Rightarrow> ed25519 \<Rightarrow> (bytes \<Rightarrow> bytes) \<Rightarrow> ('s, 'p) target \<Rightarrow> orders \<Rightarrow> public_key_hash \<Rightarrow> (('s, 'p) net, error, unit) io" where
  "maybe_auto_commit detail E sha256 T ho owner n =
     (if \<not> safe_to_commit n \<or> total_size (nt_blocks n) < buffer_size n then (Inr (), n)
      else if roots (nt_pointers n) = [] then (Inr (), n)
      else flush detail E sha256 T ho owner n)"

definition buffered_set_pointer_update ::
  "(error \<Rightarrow> string) \<Rightarrow> ed25519 \<Rightarrow> (bytes \<Rightarrow> bytes) \<Rightarrow> ('s, 'p) target \<Rightarrow> orders \<Rightarrow> public_key_hash \<Rightarrow>
   signing_private_key_and_public_hash \<Rightarrow> pointer_update \<Rightarrow> (('s, 'p) net, error, bool) io" where
  "buffered_set_pointer_update detail E sha256 T ho owner signer u n =
     io_bind (maybe_auto_commit detail E sha256 T ho owner) (\<lambda>_. io_ret True)
       (n\<lparr>nt_pointers := add_write owner signer u (nt_pointers n)\<rparr>)"

definition is_full :: "('s, 'p) net \<Rightarrow> bool" where
  "is_full n = (total_size (nt_blocks n) \<ge> buffer_size n)"

definition net_commit ::
  "(error \<Rightarrow> string) \<Rightarrow> ed25519 \<Rightarrow> (bytes \<Rightarrow> bytes) \<Rightarrow> ('s, 'p) target \<Rightarrow> orders \<Rightarrow> public_key_hash \<Rightarrow> (('s, 'p) net, error, unit) io" where
  "net_commit detail E sha256 T ho owner n =
     (if storage_is_empty (nt_blocks n) \<and> pointers_is_empty (nt_pointers n) then (Inr (), n)
      else flush detail E sha256 T ho owner n)"

definition maybe_commit ::
  "(error \<Rightarrow> string) \<Rightarrow> ed25519 \<Rightarrow> (bytes \<Rightarrow> bytes) \<Rightarrow> ('s, 'p) target \<Rightarrow> orders \<Rightarrow> public_key_hash \<Rightarrow> (('s, 'p) net, error, bool) io" where
  "maybe_commit detail E sha256 T ho owner n =
     (if safe_to_commit n \<and> is_full n then io_bind (net_commit detail E sha256 T ho owner) (\<lambda>_. io_ret True) n else (Inr False, n))"

definition force_clear :: "('s, 'p) net \<Rightarrow> ('s, 'p) net" where
  "force_clear n = n\<lparr>nt_blocks := storage_clear (nt_blocks n), nt_pointers := pointers_clear (nt_pointers n)\<rparr>"

definition disable_commits :: "('s, 'p) net \<Rightarrow> ('s, 'p) net" where
  "disable_commits n = n\<lparr>safe_to_commit := False\<rparr>"

definition enable_commits :: "('s, 'p) net \<Rightarrow> ('s, 'p) net" where
  "enable_commits n = n\<lparr>safe_to_commit := True\<rparr>"

definition net_checkpoint :: "('s, 'p) net \<Rightarrow> checkpoint" where
  "net_checkpoint n = take_checkpoint (nt_pointers n)"

definition net_rollback :: "checkpoint \<Rightarrow> ('s, 'p) net \<Rightarrow> ('s, 'p) net" where
  "net_rollback cp n = n\<lparr>nt_pointers := rollback cp (nt_pointers n)\<rparr>"

end
