(* ===== verification/Buffered_Props.thy ===== *)
theory Buffered_Props
  imports Buffered "HOL-Library.Multiset"
begin

text \<open>
  What the buffered block store promises: a commit keeps exactly the buffered blocks that its roots reach, uploads each of
  them once in batches within the limits, and a read never returns bytes that do not belong to the CID.
\<close>

section \<open>Reachable blocks\<close>

inductive held :: "buffer_map \<Rightarrow> cid set \<Rightarrow> cid \<Rightarrow> bool" for bf :: buffer_map and R :: "cid set" where
  held_root: "r \<in> R \<Longrightarrow> map_of bf r = Some b \<Longrightarrow> held bf R r"
| held_link: "held bf R a \<Longrightarrow> map_of bf a = Some b \<Longrightarrow> c \<in> set (block_links (bb_is_raw b) (bb_data b)) \<Longrightarrow>
    map_of bf c = Some b' \<Longrightarrow> held bf R c"

lemma reach_sound:
  "\<forall>c \<in> set keep. held bf R c \<Longrightarrow> \<forall>c \<in> set stack. map_of bf c \<noteq> None \<longrightarrow> held bf R c \<Longrightarrow>
   c \<in> set (reach bf keep stack) \<Longrightarrow> held bf R c"
proof (induction bf keep stack rule: reach.induct)
  case (2 bf keep a stack)
  show ?case
  proof (cases "map_of bf a")
    case None
    then show ?thesis using 2 by (cases "a \<in> set keep") simp_all
  next
    case (Some b)
    then have "held bf R a" using "2.prems"(2) by simp
    moreover from this have "held bf R x" if "x \<in> set (block_links (bb_is_raw b) (bb_data b))" "map_of bf x \<noteq> None" for x
      using that Some held_link by blast
    ultimately show ?thesis using 2 Some by (auto split: if_splits)
  qed
qed simp

text \<open>The loop ends with a set that holds what was on the stack and is closed under links.\<close>

definition closed_upto :: "buffer_map \<Rightarrow> cid set \<Rightarrow> cid set \<Rightarrow> bool" where
  "closed_upto bf K S \<longleftrightarrow>
     (\<forall>a \<in> K. \<forall>b. map_of bf a = Some b \<longrightarrow> (\<forall>c \<in> set (block_links (bb_is_raw b) (bb_data b)). map_of bf c \<noteq> None \<longrightarrow> c \<in> K \<union> S))"

lemma reach_complete:
  "closed_upto bf (set keep) (set stack) \<Longrightarrow>
   set keep \<union> {c \<in> set stack. map_of bf c \<noteq> None} \<subseteq> set (reach bf keep stack) \<and>
   closed_upto bf (set (reach bf keep stack)) {}"
proof (induction bf keep stack rule: reach.induct)
  case (2 bf keep a stack)
  show ?case
  proof (cases "a \<in> set keep")
    case True
    then have "closed_upto bf (set keep) (set stack)" using "2.prems" by (auto simp: closed_upto_def)
    then show ?thesis using "2.IH"(1) True by auto
  next
    case new: False
    show ?thesis
    proof (cases "map_of bf a")
      case None
      then have "closed_upto bf (set keep) (set stack)" using "2.prems" unfolding closed_upto_def by fastforce
      then show ?thesis using "2.IH"(2) [OF new None] new None by auto
    next
      case (Some b)
      have "closed_upto bf (set (keep @ [a])) (set (rev (block_links (bb_is_raw b) (bb_data b)) @ stack))"
        using "2.prems" Some by (auto simp: closed_upto_def)
      then show ?thesis using "2.IH"(3) [OF new Some] new Some by auto
    qed
  qed
qed (simp add: closed_upto_def)

lemma reach_distinct: "distinct keep \<Longrightarrow> distinct (reach bf keep stack)"
  by (induction bf keep stack rule: reach.induct) (auto split: option.splits)

lemma reachable_set: "distinct (reachable bf roots) \<and> set (reachable bf roots) = {c. held bf (set roots) c}"
proof (intro conjI equalityI subsetI)
  show "distinct (reachable bf roots)" by (simp add: reachable_def reach_distinct)
next
  fix c
  assume "c \<in> set (reachable bf roots)"
  then have "held bf (set roots) c"
    unfolding reachable_def by (rule reach_sound [rotated 2]) (auto intro: held_root)
  then show "c \<in> {c. held bf (set roots) c}" by simp
next
  fix c
  assume "c \<in> {c. held bf (set roots) c}"
  then have "held bf (set roots) c" by simp
  moreover have R: "{c \<in> set roots. map_of bf c \<noteq> None} \<subseteq> set (reachable bf roots)" "closed_upto bf (set (reachable bf roots)) {}"
    using reach_complete [of bf "[]" "rev roots"] by (auto simp: reachable_def closed_upto_def)
  ultimately show "c \<in> set (reachable bf roots)"
  proof induction
    case (held_link a b c b')
    then show ?case by (auto simp: closed_upto_def)
  qed auto
qed

text \<open>
  C32. The collection before a commit keeps exactly the buffered blocks that a root reaches through buffered blocks,
  each once; in particular the search always ends, also on cyclic links.
\<close>

theorem reachable_held: "distinct (reachable bf roots) \<and> set (reachable bf roots) = {c. held bf (set roots) c}"
  by (rule reachable_set)

section \<open>Batches\<close>

definition orders_ok :: "orders \<Rightarrow> bool" where
  "orders_ok ho \<longleftrightarrow> visits_all (ord_entries ho) \<and> (\<forall>xs. mset (ord_buffer ho xs) = mset xs) \<and> (\<forall>xs. mset (ord_cids ho xs) = mset xs) \<and>
     (\<forall>xs. mset (ord_groups ho xs) = mset xs) \<and> (\<forall>xs. mset (ord_inline ho xs) = mset xs) \<and> (\<forall>xs. mset (ord_tasks ho xs) = mset xs)"

type_synonym upload = "public_key_hash \<times> bool \<times> bytes \<times> bytes"

definition batch_uploads :: "batch \<Rightarrow> upload list" where
  "batch_uploads b = (case b of (w, raw, sigs, bs) \<Rightarrow> map (\<lambda>p. (w, raw, p)) (zip sigs bs))"

definition batch_ok :: "batch \<Rightarrow> bool" where
  "batch_ok b = (case b of (w, raw, sigs, bs) \<Rightarrow> bs \<noteq> [] \<and> length sigs = length bs \<and>
     (if raw then length bs \<le> MAX_BLOCK_AUTHS
      else length bs \<le> MAX_CBOR_BLOCKS_PER_BATCH \<and> (sum_list (map length bs) \<le> MAX_CBOR_BATCH_SIZE \<or> length bs = 1)))"

lemma batch_simps:
  "batch_ok (w, raw, sigs, bs) \<longleftrightarrow> bs \<noteq> [] \<and> length sigs = length bs \<and>
     (if raw then length bs \<le> MAX_BLOCK_AUTHS
      else length bs \<le> MAX_CBOR_BLOCKS_PER_BATCH \<and> (sum_list (map length bs) \<le> MAX_CBOR_BATCH_SIZE \<or> length bs = 1))"
  "batch_uploads (w, raw, sigs, bs) = map (\<lambda>p. (w, raw, p)) (zip sigs bs)"
  by (simp_all add: batch_ok_def batch_uploads_def)

lemma cbor_batches_ok:
  assumes "length sigs = length bs" "sz = sum_list (map length bs)" "length bs \<le> 1000" "sz \<le> MAX_CBOR_BATCH_SIZE \<or> length bs = 1"
  shows "list_all batch_ok (cbor_batches w sigs bs sz items) \<and>
    concat (map batch_uploads (cbor_batches w sigs bs sz items)) = map (\<lambda>p. (w, False, p)) (zip sigs bs @ items)"
  using assms
proof (induction w sigs bs sz items rule: cbor_batches.induct)
  case (2 w sigs bs sz sig block items)
  show ?case
  proof (cases "bs \<noteq> [] \<and> (sz + length block > MAX_CBOR_BATCH_SIZE \<or> length bs \<ge> MAX_CBOR_BLOCKS_PER_BATCH)")
    case True
    have "list_all batch_ok (cbor_batches w [sig] [block] (length block) items) \<and>
      concat (map batch_uploads (cbor_batches w [sig] [block] (length block) items)) = map (\<lambda>p. (w, False, p)) (zip [sig] [block] @ items)"
      by (rule "2.IH"(1) [OF True]) simp_all
    then show ?thesis unfolding cbor_batches.simps if_P [OF True] using True "2.prems" by (simp add: batch_simps)
  next
    case False
    then have len: "length (bs @ [block]) \<le> 1000" and sz: "sz + length block \<le> MAX_CBOR_BATCH_SIZE \<or> length (bs @ [block]) = 1"
      by (cases bs; simp)+
    have "list_all batch_ok (cbor_batches w (sigs @ [sig]) (bs @ [block]) (sz + length block) items) \<and>
      concat (map batch_uploads (cbor_batches w (sigs @ [sig]) (bs @ [block]) (sz + length block) items)) =
      map (\<lambda>p. (w, False, p)) (zip (sigs @ [sig]) (bs @ [block]) @ items)"
      by (rule "2.IH"(2) [OF False _ _ len sz]) (simp_all add: "2.prems"(1,2))
    then show ?thesis unfolding cbor_batches.simps if_not_P [OF False] using "2.prems"(1) by simp
  qed
qed (auto simp: batch_simps)

lemma raw_batches_ok:
  assumes "length sigs = length bs" "length bs < 50"
  shows "list_all batch_ok (raw_batches w sigs bs items) \<and>
    concat (map batch_uploads (raw_batches w sigs bs items)) = map (\<lambda>p. (w, True, p)) (zip sigs bs @ items)"
  using assms
  by (induction w sigs bs items rule: raw_batches.induct) (auto simp: batch_simps)

definition group_uploads :: "bool \<Rightarrow> signed_groups \<Rightarrow> upload list" where
  "group_uploads raw gs = concat (map (\<lambda>(w, items). map (\<lambda>p. (w, raw, p)) items) gs)"

lemma mset_add_to_group: "mset (group_uploads raw (add_to_group w x gs)) = add_mset (w, raw, fst x, snd x) (mset (group_uploads raw gs))"
  by (induction w x gs rule: add_to_group.induct) (auto simp: group_uploads_def split: prod.splits)

definition block_upload :: "buffered_block \<Rightarrow> upload" where
  "block_upload b = (bb_writer b, bb_is_raw b, bb_signature b, bb_data b)"

lemma mset_grouped: "\<forall>b \<in> set bs. bb_is_raw b = raw \<Longrightarrow> mset (group_uploads raw (grouped bs)) = mset (map block_upload bs)"
proof (induction bs rule: rev_induct)
  case (snoc b bs)
  then show ?case by (simp add: grouped_def mset_add_to_group block_upload_def)
qed (simp add: grouped_def group_uploads_def)

lemma group_uploads_perm:
  assumes "mset gs = mset gs'"
  shows "mset (group_uploads raw gs) = mset (group_uploads raw gs')"
proof -
  have "mset (group_uploads raw gs) = (\<Sum>(w, items) \<in># mset gs. mset (map (\<lambda>p. (w, raw, p)) items))" for gs
    by (induction gs) (simp_all add: group_uploads_def case_prod_beta)
  then show ?thesis using assms by metis
qed

lemma batches_of_groups:
  assumes "\<And>w items. list_all batch_ok (f w items) \<and> concat (map batch_uploads (f w items)) = map (\<lambda>p. (w, raw, p)) items"
  shows "list_all batch_ok (concat (map (\<lambda>(w, items). f w items) gs))"
    "concat (map batch_uploads (concat (map (\<lambda>(w, items). f w items) gs))) = group_uploads raw gs"
  using assms by (induction gs) (auto simp: group_uploads_def)

lemma mset_three_filters:
  "mset (filter (\<lambda>b. \<not> P b) bs) + mset (filter (\<lambda>b. P b \<and> Q b) bs) + mset (filter (\<lambda>b. P b \<and> \<not> Q b) bs) = mset bs"
  by (induction bs) auto

lemma batches_cover:
  assumes "orders_ok ho"
  shows "list_all batch_ok (commit_batches ho bf keep) \<and>
    mset (concat (map batch_uploads (commit_batches ho bf keep))) =
    mset (map (\<lambda>(c, b). block_upload b) (filter (\<lambda>(c, b). c \<in> set keep) bf))"
proof -
  define kept where "kept = map snd (filter (\<lambda>(c, b). c \<in> set keep) (ord_buffer ho bf))"
  note cb = batches_of_groups [of "\<lambda>w items. cbor_batches w [] [] 0 items" False, OF cbor_batches_ok [of "[]" "[]" 0, simplified]]
  note rb = batches_of_groups [of "\<lambda>w items. raw_batches w [] [] items" True, OF raw_batches_ok [of "[]" "[]", simplified]]
  have groups: "mset (group_uploads raw (ord_groups ho (grouped bs))) = mset (map block_upload bs)"
    if "\<forall>b \<in> set bs. bb_is_raw b = raw" for raw bs
    using that assms group_uploads_perm [of "ord_groups ho (grouped bs)" "grouped bs" raw] mset_grouped by (simp add: orders_ok_def)
  have "mset (map snd (filter (\<lambda>(c, b). c \<in> set keep) (ord_buffer ho bf))) = mset (map snd (filter (\<lambda>(c, b). c \<in> set keep) bf))"
    using assms by (simp add: orders_ok_def mset_filter)
  then have "mset (map block_upload kept) = mset (map (\<lambda>(c, b). block_upload b) (filter (\<lambda>(c, b). c \<in> set keep) bf))"
    unfolding kept_def by (metis (no_types, lifting) map_map mset_map comp_def case_prod_beta' map_eq_conv)
  then show ?thesis
    unfolding commit_batches_def Let_def kept_def [symmetric]
    using mset_three_filters [of bb_is_raw kept "\<lambda>b. length (bb_data b) < MAX_SMALL_BLOCK_SIZE"]
    by (simp add: cb rb groups add.assoc flip: image_mset_union)
qed

text \<open>
  C33. A commit uploads every kept block exactly once, under its writer, codec and signature, in batches that are
  never empty and never exceed the limits: fifty raw blocks, a thousand CBOR blocks, and a mebibyte of CBOR unless a
  single block is larger.
\<close>

theorem commit_batches_cover:
  assumes "orders_ok ho"
  shows "list_all batch_ok (commit_batches ho bf keep) \<and>
    mset (concat (map batch_uploads (commit_batches ho bf keep))) =
    mset (map (\<lambda>(c, b). block_upload b) (filter (\<lambda>(c, b). c \<in> set keep) bf))"
  by (rule batches_cover [OF assms])

definition demo_orders :: orders where
  "demo_orders = \<lparr>ord_entries = id, ord_buffer = id, ord_cids = id, ord_groups = id, ord_inline = id, ord_tasks = id\<rparr>"

lemma demo_orders_ok: "orders_ok demo_orders"
  by (simp add: orders_ok_def demo_orders_def visits_all_def)

definition demo_block :: buffered_block where
  "demo_block = \<lparr>bb_data = [5], bb_signature = [], bb_owner = demo_owner, bb_writer = demo_owner, bb_is_raw = False\<rparr>"

abbreviation demo_block_cid :: cid where
  "demo_block_cid \<equiv> block_cid demo_sha False [5]"

theorem commit_batches_cover_witness:
  "batch_uploads (demo_owner, False, [[]], [[5]]) \<in> set (map batch_uploads (commit_batches demo_orders [(demo_block_cid, demo_block)] [demo_block_cid])) \<and>
   list_all batch_ok (commit_batches demo_orders [(demo_block_cid, demo_block)] [demo_block_cid])"
proof -
  have "commit_batches demo_orders [(demo_block_cid, demo_block)] [demo_block_cid] = [(demo_owner, False, [[]], [[5]])]"
    by (simp add: commit_batches_def demo_orders_def grouped_def demo_block_def)
  then show ?thesis using commit_batches_cover [OF demo_orders_ok, of "[(demo_block_cid, demo_block)]" "[demo_block_cid]"] by simp
qed

section \<open>Reads\<close>

definition matches :: "(bytes \<Rightarrow> bytes) \<Rightarrow> cid \<Rightarrow> bytes \<Rightarrow> bool" where
  "matches sha256 h x \<longleftrightarrow>
     (if is_identity (cid_multihash h) then x = hash (cid_multihash h) else \<exists>raw. h = block_cid sha256 raw x)"

text \<open>A cache whose entries are in \<open>R\<close>.\<close>

definition cache_ok :: "(cid \<Rightarrow> bytes \<Rightarrow> bool) \<Rightarrow> block_cache \<Rightarrow> bool" where
  "cache_ok R c \<longleftrightarrow> distinct (map fst (cache_map c)) \<and> distinct (cache_order c) \<and> set (cache_order c) = fst ` set (cache_map c) \<and>
     length (cache_map c) \<le> cache_cap c \<and> (\<forall>(h, x) \<in> set (cache_map c). R h x)"

definition buffer_ok :: "(bytes \<Rightarrow> bytes) \<Rightarrow> buffer_map \<Rightarrow> bool" where
  "buffer_ok sha256 bf \<longleftrightarrow> distinct (map fst bf) \<and> (\<forall>(h, b) \<in> set bf. h = block_cid sha256 (bb_is_raw b) (bb_data b))"

definition intact :: "(bytes \<Rightarrow> bytes) \<Rightarrow> buffered_storage \<Rightarrow> bool" where
  "intact sha256 s \<longleftrightarrow> buffer_ok sha256 (buffer s) \<and> cache_ok (matches sha256) (cache s)"

lemma block_cid_not_identity [simp]: "\<not> is_identity (cid_multihash (block_cid sha256 raw b))"
  by (simp add: is_identity_def block_cid_def)

lemma cache_evict_ok:
  assumes "distinct (map fst m)" "distinct order" "set order = fst ` set m" "0 < cap" "cache_evict cap m order = (m', order')"
  shows "distinct (map fst m') \<and> distinct order' \<and> set order' = fst ` set m' \<and> set m' \<subseteq> set m \<and> length m' < cap"
  using assms
proof (induction cap m order rule: cache_evict.induct)
  case (2 cap m old order)
  show ?case
  proof (cases "length m \<ge> cap")
    case True
    have "fst ` set (AList.delete old m) = fst ` set m - {old}" using AList.delete_keys [of old m] by (metis image_set set_removeAll)
    then have "set order = fst ` set (AList.delete old m)" "distinct (map fst (AList.delete old m))"
      using "2.prems" by (auto simp: AList.delete_keys distinct_removeAll)
    then have "distinct (map fst m') \<and> distinct order' \<and> set order' = fst ` set m' \<and> set m' \<subseteq> set (AList.delete old m) \<and> length m' < cap"
      using "2.IH" [OF True] "2.prems" True by simp
    then show ?thesis by (auto simp: AList.delete_eq)
  qed (use "2.prems" in force)
qed auto

lemma update_new: "k \<notin> fst ` set m \<Longrightarrow> AList.update k v m = m @ [(k, v)]"
  by (induction m) auto

lemma cache_put_ok:
  assumes "cache_ok R c" "R h x"
  shows "cache_ok R (cache_put h x c)"
proof (cases "cache_cap c = 0 \<or> map_of (cache_map c) h \<noteq> None")
  case True
  then show ?thesis using assms(1) by (auto simp: cache_put_def)
next
  case False
  then have new: "h \<notin> fst ` set (cache_map c)" and cap: "0 < cache_cap c" by (auto simp: map_of_eq_None_iff)
  obtain m order where e: "cache_evict (cache_cap c) (cache_map c) (cache_order c) = (m, order)" by (meson surj_pair)
  have ok: "distinct (map fst m) \<and> distinct order \<and> set order = fst ` set m \<and> set m \<subseteq> set (cache_map c) \<and> length m < cache_cap c"
    by (rule cache_evict_ok [OF _ _ _ cap e]) (use assms(1) in \<open>auto simp: cache_ok_def\<close>)
  then have "h \<notin> fst ` set m" using new by auto
  moreover have "cache_put h x c = c\<lparr>cache_order := order @ [h], cache_map := AList.update h x m\<rparr>" using False e by (auto simp: cache_put_def)
  ultimately show ?thesis using ok assms by (auto simp: cache_ok_def update_new)
qed

text \<open>
  The life of a buffered store.  A read and a commit name the state of the target at that time, which others may have
  changed in between.
\<close>

datatype 's buffer_op =
    PutBlocks public_key_hash public_key_hash "bytes list" "bytes list" bool
  | ReadBlock public_key_hash cid 's
  | CommitBlocks orders public_key_hash "cid list" string 's
  | ClearBlocks

fun buffer_step :: "(bytes \<Rightarrow> bytes) \<Rightarrow> ('s, 'p) target \<Rightarrow> buffered_storage \<Rightarrow> 's buffer_op \<Rightarrow> buffered_storage" where
  "buffer_step sha256 T s (PutBlocks owner writer sigs bs raw) = snd (buffer_put sha256 owner writer sigs bs raw s)"
| "buffer_step sha256 T s (ReadBlock owner h st) = snd (buffered_get_raw T owner h st s)"
| "buffer_step sha256 T s (CommitBlocks ho owner rs tid st) = snd (snd (commit_blocks T ho owner rs tid (st, s)))"
| "buffer_step sha256 T s ClearBlocks = storage_clear s"

text \<open>The target answered one of these reads with \<open>x\<close>.\<close>

definition served :: "('s, 'p) target \<Rightarrow> 's buffer_op list \<Rightarrow> cid \<Rightarrow> bytes \<Rightarrow> bool" where
  "served T ops h x \<longleftrightarrow> (\<exists>owner st. ReadBlock owner h st \<in> set ops \<and> tg_get_raw T st owner h = Inr (Some x))"

definition sound_for :: "(bytes \<Rightarrow> bytes) \<Rightarrow> ('s, 'p) target \<Rightarrow> 's buffer_op list \<Rightarrow> nat \<Rightarrow> buffered_storage \<Rightarrow> bool" where
  "sound_for sha256 T ops n s \<longleftrightarrow> buffer_ok sha256 (buffer s) \<and> cache_ok (served T ops) (cache s) \<and> cache_cap (cache s) = n"

lemma cache_put_cap [simp]: "cache_cap (cache_put h x c) = cache_cap c"
  by (simp add: cache_put_def split: prod.splits)

lemma buffer_put_loop_ok:
  assumes "\<forall>b. length (sha256 b) = 32" "buffer_ok sha256 bf"
  shows "\<exists>bf'. buffer_put_loop sha256 owner writer raw cids xs bf = (Inr (cids @ map (block_cid sha256 raw) (map fst xs)), bf') \<and> buffer_ok sha256 bf' \<and>
    (\<forall>h. case map_of bf' h of
        Some b \<Rightarrow> map_of bf h = Some b \<or> bb_data b \<in> set (map fst xs) \<and> h = block_cid sha256 raw (bb_data b)
      | None \<Rightarrow> map_of bf h = None) \<and>
    (\<forall>d \<in> set (map fst xs). \<exists>b. map_of bf' (block_cid sha256 raw d) = Some b \<and> bb_data b \<in> set (map fst xs))"
  using assms(2)
proof (induction xs arbitrary: bf cids)
  case Nil
  then show ?case by (auto split: option.splits)
next
  case (Cons x xs)
  obtain d sig where x: "x = (d, sig)" by (cases x)
  let ?c = "block_cid sha256 raw d" and ?b = "\<lparr>bb_data = d, bb_signature = sig, bb_owner = owner, bb_writer = writer, bb_is_raw = raw\<rparr>"
  let ?bf = "AList.update ?c ?b bf"
  have "set ?bf \<subseteq> insert (?c, ?b) (set bf)" by (induction bf) auto
  then have "buffer_ok sha256 ?bf" using Cons.prems AList.distinct_update [of bf ?c ?b] by (auto simp: buffer_ok_def)
  from Cons.IH [OF this, of "cids @ [?c]"] obtain bf' where IH:
      "buffer_put_loop sha256 owner writer raw (cids @ [?c]) xs ?bf = (Inr ((cids @ [?c]) @ map (block_cid sha256 raw) (map fst xs)), bf')"
      "buffer_ok sha256 bf'"
      "\<And>h. case map_of bf' h of
        Some b \<Rightarrow> map_of ?bf h = Some b \<or> bb_data b \<in> set (map fst xs) \<and> h = block_cid sha256 raw (bb_data b) | None \<Rightarrow> map_of ?bf h = None"
      "\<forall>e \<in> set (map fst xs). \<exists>b. map_of bf' (block_cid sha256 raw e) = Some b \<and> bb_data b \<in> set (map fst xs)"
    by blast
  have run: "buffer_put_loop sha256 owner writer raw cids (x # xs) bf = (Inr (cids @ map (block_cid sha256 raw) (map fst (x # xs))), bf')"
    using IH(1) assms(1) by (simp add: x build_cid_32)
  have sh: "case map_of bf' h of
      Some b \<Rightarrow> map_of bf h = Some b \<or> bb_data b \<in> set (map fst (x # xs)) \<and> h = block_cid sha256 raw (bb_data b)
    | None \<Rightarrow> map_of bf h = None" for h
    using IH(3) [of h] by (auto simp: x AList.update_conv' split: option.splits if_splits)
  have new: "\<exists>b. map_of bf' ?c = Some b \<and> bb_data b \<in> set (map fst (x # xs))"
    using IH(3) [of ?c] by (auto simp: x AList.update_conv' split: option.splits)
  have "\<exists>b. map_of bf' (block_cid sha256 raw e) = Some b \<and> bb_data b \<in> set (map fst (x # xs))" if "e \<in> set (map fst (x # xs))" for e
  proof (cases "e = d")
    case False
    then have "e \<in> set (map fst xs)" using that by (simp add: x)
    with IH(4) obtain b where "map_of bf' (block_cid sha256 raw e) = Some b" "bb_data b \<in> set (map fst xs)" by blast
    then show ?thesis by simp
  qed (use new in simp)
  then show ?case using run IH(2) sh by blast
qed

lemma buffer_put_ok:
  assumes "\<forall>b. length (sha256 b) = 32" "buffer_ok sha256 (buffer s)" "length sigs = length bs"
  obtains s' where "buffer_put sha256 owner writer sigs bs raw s = (Inr (map (block_cid sha256 raw) bs), s')" "buffer_ok sha256 (buffer s')"
    "cache s' = cache s" "\<And>d. d \<in> set bs \<Longrightarrow> \<exists>b. map_of (buffer s') (block_cid sha256 raw d) = Some b \<and> bb_data b \<in> set bs"
proof -
  have fst: "map fst (zip bs sigs) = bs" using assms(3) by simp
  obtain bf where bf: "buffer_put_loop sha256 owner writer raw [] (zip bs sigs) (buffer s) = (Inr (map (block_cid sha256 raw) bs), bf)"
      "buffer_ok sha256 bf" "\<forall>d \<in> set bs. \<exists>b. map_of bf (block_cid sha256 raw d) = Some b \<and> bb_data b \<in> set bs"
    using buffer_put_loop_ok [OF assms(1,2), of owner writer raw "[]" "zip bs sigs"] unfolding fst by auto
  show thesis by (rule that [of "s\<lparr>buffer := bf\<rparr>"]) (use bf assms(3) in \<open>simp_all add: buffer_put_def\<close>)
qed

lemma cache_ok_mono: "cache_ok R c \<Longrightarrow> (\<And>h x. R h x \<Longrightarrow> R' h x) \<Longrightarrow> cache_ok R' c"
  by (auto simp: cache_ok_def)

lemma served_more: "served T ops h x \<Longrightarrow> served T (ops @ [x']) h x"
  by (auto simp: served_def)

lemma read_ok:
  assumes "sound_for sha256 T ops n s" "buffered_get_raw T owner h st s = (r, s')"
  shows "sound_for sha256 T (ops @ [ReadBlock owner h st]) n s' \<and> buffer s' = buffer s \<and>
    (case r of
       Inr (Some x) \<Rightarrow> matches sha256 h x \<or> served T (ops @ [ReadBlock owner h st]) h x
     | _ \<Rightarrow> map_of (buffer s) h = None \<and> tg_get_raw T st owner h = r)"
proof -
  let ?ops = "ops @ [ReadBlock owner h st]"
  have s: "sound_for sha256 T ?ops n s" using assms(1) cache_ok_mono served_more unfolding sound_for_def by metis
  have buf: "matches sha256 h (bb_data b)" if "map_of (buffer s) h = Some b" for b
    using s that by (auto simp: sound_for_def buffer_ok_def matches_def dest!: map_of_SomeD)
  have cac: "served T ?ops h x" if "cache_get (cache s) h = Some x" for x
    using s that by (auto simp: sound_for_def cache_ok_def cache_get_def dest!: map_of_SomeD)
  consider "is_identity (cid_multihash h)" | b where "\<not> is_identity (cid_multihash h)" "map_of (buffer s) h = Some b"
    | x where "\<not> is_identity (cid_multihash h)" "map_of (buffer s) h = None" "cache_get (cache s) h = Some x"
    | "\<not> is_identity (cid_multihash h)" "map_of (buffer s) h = None" "cache_get (cache s) h = None"
    by fastforce
  then show ?thesis
  proof cases
    case 4
    show ?thesis
    proof (cases "\<exists>x. tg_get_raw T st owner h = Inr (Some x)")
      case True
      then obtain x where x: "tg_get_raw T st owner h = Inr (Some x)" by blast
      then have run: "r = Inr (Some x)" "s' = s\<lparr>cache := cache_put h x (cache s)\<rparr>" using assms(2) 4 by (simp_all add: buffered_get_raw_def)
      have sv: "served T ?ops h x" using x by (auto simp: served_def)
      then show ?thesis using s run cache_put_ok [of "served T ?ops" "cache s" h x] by (simp add: sound_for_def)
    next
      case False
      then have "r = tg_get_raw T st owner h" "s' = s" using assms(2) 4 by (auto simp: buffered_get_raw_def split: sum.splits option.splits)
      then show ?thesis using False 4 s by (auto split: sum.splits option.splits)
    qed
  qed (use assms(2) s buf cac in \<open>auto simp: buffered_get_raw_def matches_def\<close>)
qed

lemma step_ok:
  assumes "\<forall>b. length (sha256 b) = 32" "sound_for sha256 T ops n s"
  shows "sound_for sha256 T (ops @ [x]) n (buffer_step sha256 T s x)"
proof -
  have s: "sound_for sha256 T (ops @ [x]) n s" using assms(2) cache_ok_mono served_more unfolding sound_for_def by metis
  show ?thesis
  proof (cases x)
    case (PutBlocks owner writer sigs bs raw)
    show ?thesis
    proof (cases "length sigs = length bs")
      case True
      have "buffer_ok sha256 (buffer s)" using s by (simp add: sound_for_def)
      then obtain s' where "buffer_put sha256 owner writer sigs bs raw s = (Inr (map (block_cid sha256 raw) bs), s')"
          "buffer_ok sha256 (buffer s')" "cache s' = cache s"
        using buffer_put_ok [OF assms(1) _ True] by metis
      then show ?thesis using s by (simp add: PutBlocks sound_for_def)
    qed (use s in \<open>simp add: PutBlocks buffer_put_def\<close>)
  next
    case (ReadBlock owner h st)
    then show ?thesis using read_ok [OF assms(2), of owner h st] by (metis buffer_step.simps(2) prod.collapse)
  next
    case (CommitBlocks ho owner rs tid st)
    have "distinct (map fst (filter P bf))" if "distinct (map fst bf)" for P and bf :: buffer_map
      using that by (simp add: distinct_map_filter)
    then show ?thesis using s
      by (auto simp: CommitBlocks commit_blocks_def Let_def sound_for_def buffer_ok_def split: prod.splits sum.splits)
  next
    case ClearBlocks
    then show ?thesis using s by (simp add: storage_clear_def sound_for_def buffer_ok_def)
  qed
qed

lemma run_ok:
  assumes "\<forall>b. length (sha256 b) = 32"
  shows "sound_for sha256 T ops n (foldl (buffer_step sha256 T) (storage_new n) ops)"
proof (induction ops rule: rev_induct)
  case Nil
  show ?case by (simp add: sound_for_def storage_new_def cache_new_def buffer_ok_def cache_ok_def)
next
  case (snoc x xs)
  then show ?case using step_ok [OF assms, of T xs n _ x] by simp
qed

text \<open>
  C19. Whatever has been put, read, committed and cleared since the buffer was new, and whatever the target answers: a read
  returns bytes that hash to the requested CID or that the target itself returned for this CID, in this or an earlier read;
  it reports a block missing or fails only if the block is not buffered and the target says so now; the cache stays within
  its capacity.  And a put returns the CIDs of its blocks, under each of which a block of the put with that CID is then
  read back, without asking the target.
\<close>

theorem buffered_reads_sound:
  assumes "\<forall>b. length (sha256 b) = 32" "s = foldl (buffer_step sha256 T) (storage_new n) ops"
    and "buffered_get_raw T owner h st s = (r, s')" "length sigs = length bs"
  shows "(case r of
       Inr (Some x) \<Rightarrow> matches sha256 h x \<or> served T (ops @ [ReadBlock owner h st]) h x
     | _ \<Rightarrow> map_of (buffer s) h = None \<and> tg_get_raw T st owner h = r) \<and>
    buffer s' = buffer s \<and> length (cache_map (cache s')) \<le> n \<and>
    (\<exists>s2. buffer_put sha256 owner writer sigs bs raw s = (Inr (map (block_cid sha256 raw) bs), s2) \<and>
      (\<forall>b \<in> set bs. \<exists>b' \<in> set bs. block_cid sha256 raw b' = block_cid sha256 raw b \<and>
        (\<forall>T' :: ('s, 'p) target. \<forall>ow st'. fst (buffered_get_raw T' ow (block_cid sha256 raw b) st' s2) = Inr (Some b'))))"
proof -
  have s: "sound_for sha256 T ops n s" using run_ok [OF assms(1)] assms(2) by simp
  note rd = read_ok [OF s assms(3)]
  have "buffer_ok sha256 (buffer s)" using s by (simp add: sound_for_def)
  then obtain s2 where put: "buffer_put sha256 owner writer sigs bs raw s = (Inr (map (block_cid sha256 raw) bs), s2)" "buffer_ok sha256 (buffer s2)"
      "\<And>d. d \<in> set bs \<Longrightarrow> \<exists>b. map_of (buffer s2) (block_cid sha256 raw d) = Some b \<and> bb_data b \<in> set bs"
    using buffer_put_ok [OF assms(1) _ assms(4)] by metis
  have "\<exists>b' \<in> set bs. block_cid sha256 raw b' = block_cid sha256 raw d \<and>
      (\<forall>T' :: ('s, 'p) target. \<forall>ow st'. fst (buffered_get_raw T' ow (block_cid sha256 raw d) st' s2) = Inr (Some b'))" if d: "d \<in> set bs" for d
  proof -
    obtain b where b: "map_of (buffer s2) (block_cid sha256 raw d) = Some b" "bb_data b \<in> set bs" using put(3) [OF d] by blast
    then have "block_cid sha256 raw d = block_cid sha256 (bb_is_raw b) (bb_data b)"
      using put(2) by (auto simp: buffer_ok_def dest!: map_of_SomeD)
    then have "block_cid sha256 raw (bb_data b) = block_cid sha256 raw d" by (simp add: block_cid_def)
    then show ?thesis using b by (intro bexI [of _ "bb_data b"]) (simp_all add: buffered_get_raw_def)
  qed
  then show ?thesis using rd put(1) by (auto simp: sound_for_def cache_ok_def)
qed

end
