(* ===== verification/Mock_Server.thy ===== *)
theory Mock_Server
  imports Mutable Champ_Merge
begin

text \<open>
  The pointers of the mock server (\<open>peergos-mock-server/src/lib.rs\<close>): the compare-and-swap of signed updates, the
  authorisation of a writer through the trees of owned writers, and the \<open>getPointer\<close>, \<open>setPointer\<close> and \<open>setPointers\<close>
  calls on a query that has been split from its URL.  The two searches run on fuel: they end on every tree a client can
  write, but nothing in the server's code bounds them.

  The locale \<open>cas_pointers\<close> is what clients rely on; the mock server, called through \<open>HttpMutablePointers\<close>, interprets it.
\<close>

section \<open>The server\<close>

record mock_server =
  ms_blocks :: ram_storage
  ms_pointers :: "string \<times> string \<rightharpoonup> bytes"

type_synonym query = "(string \<times> string) list"

definition query_get :: "query \<Rightarrow> string \<Rightarrow> string option" where
  "query_get q k = map_of q k"

definition query_pkh :: "query \<Rightarrow> string \<Rightarrow> error + public_key_hash" where
  "query_pkh q k =
     and_then (ok_or (Protocol (''missing '' @ [CHR 0x27] @ k @ [CHR 0x27])) (query_get q k)) (\<lambda>s.
     and_then (map_err (\<lambda>_. Protocol (''bad '' @ k @ '' pkh'')) (cid_decode s)) pkh_new)"

definition parse_pointer_update :: "bytes \<Rightarrow> error + pointer_update" where
  "parse_pointer_update cas =
     (if length cas < 64 then Inl (Protocol ''signed pointer payload too short'') else parse pu_from_cbor (drop 64 cas))"

definition server_key :: "public_key_hash \<Rightarrow> public_key_hash \<Rightarrow> error + string \<times> string" where
  "server_key owner writer = and_then (pkh_to_string owner) (\<lambda>s. and_then (pkh_to_string writer) (\<lambda>t. Inr (s, t)))"

definition apply_cas :: "public_key_hash \<Rightarrow> public_key_hash \<Rightarrow> bytes \<Rightarrow> (mock_server, error, bool) io" where
  "apply_cas owner writer cas m =
     (case and_then (parse_pointer_update cas) (\<lambda>new. and_then (server_key owner writer) (\<lambda>key.
         and_then (case ms_pointers m key of Some p \<Rightarrow> and_then (parse_pointer_update p) (\<lambda>u. Inr (pu_updated u)) | None \<Rightarrow> Inr None) (\<lambda>current.
           Inr (new, key, current)))) of
        Inl e \<Rightarrow> (Inl e, m)
      | Inr (new, key, current) \<Rightarrow>
          if pu_original new \<noteq> current then (Inr False, m)
          else (Inr True, m\<lparr>ms_pointers := (ms_pointers m)(key \<mapsto> cas)\<rparr>))"

section \<open>Authorisation\<close>

fun champ_all_keys :: "nat \<Rightarrow> ram_storage \<Rightarrow> bytes list \<Rightarrow> cid list \<Rightarrow> error + bytes list" where
  "champ_all_keys fuel r out [] = Inr out"
| "champ_all_keys 0 r out (c # stack) = Inl FuelExhausted"
| "champ_all_keys (Suc fuel) r out (c # stack) =
     and_then (ram_get r c) (\<lambda>found.
       case found of
         None \<Rightarrow> champ_all_keys fuel r out stack
       | Some node \<Rightarrow> and_then (champ_from_cbor node) (\<lambda>ch.
           champ_all_keys fuel r (out @ concat (map (map ke_key) (List.map_filter as_mappings (contents ch))))
             (rev (List.map_filter (\<lambda>p. case p of Link l \<Rightarrow> Some l | _ \<Rightarrow> None) (contents ch)) @ stack)))"

definition key_writer :: "bytes \<Rightarrow> public_key_hash option" where
  "key_writer k =
     (case from_bytes (rev k) of
        Inr c \<Rightarrow> (case pkh_from_cbor c of Inr h \<Rightarrow> Some h | Inl _ \<Rightarrow> None)
      | Inl _ \<Rightarrow> None)"

definition pointer_root :: "mock_server \<Rightarrow> string \<times> string \<Rightarrow> cid option" where
  "pointer_root m key =
     Option.bind (ms_pointers m key) (\<lambda>p. case parse_pointer_update p of Inr u \<Rightarrow> pu_updated u | Inl _ \<Rightarrow> None)"

definition owned_writers :: "nat \<Rightarrow> mock_server \<Rightarrow> public_key_hash \<Rightarrow> public_key_hash \<Rightarrow> error + public_key_hash list" where
  "owned_writers fuel m owner writer =
     and_then (server_key owner writer) (\<lambda>key.
       case pointer_root m key of
         None \<Rightarrow> Inr []
       | Some c \<Rightarrow> and_then (ram_get (ms_blocks m) c) (\<lambda>found.
           case found of
             None \<Rightarrow> Inr []
           | Some wd \<Rightarrow>
               (case Option.bind (cbor_get wd ''owned'') as_link of
                  None \<Rightarrow> Inr []
                | Some l \<Rightarrow> and_then (map_err Multiformat (cid_cast l)) (\<lambda>r.
                    and_then (champ_all_keys fuel (ms_blocks m) [] [r]) (\<lambda>ks. Inr (List.map_filter key_writer ks))))))"

text \<open>Stops at the first owned writer that is the target, whose predecessors have been pushed.\<close>

fun search_owned :: "nat \<Rightarrow> mock_server \<Rightarrow> public_key_hash \<Rightarrow> string \<Rightarrow> string list \<Rightarrow> public_key_hash list \<Rightarrow> error + bool" where
  "search_owned fuel m owner t visited [] = Inr False"
| "search_owned 0 m owner t visited (w # frontier) = Inl FuelExhausted"
| "search_owned (Suc fuel) m owner t visited (w # frontier) =
     and_then (pkh_to_string w) (\<lambda>s.
       if s \<in> set visited then search_owned fuel m owner t visited frontier
       else and_then (owned_writers fuel m owner w) (\<lambda>os.
         and_then (collect_results pkh_to_string os) (\<lambda>ss.
           if t \<in> set ss then Inr True else search_owned fuel m owner t (s # visited) (rev os @ frontier))))"

definition is_authorized :: "nat \<Rightarrow> mock_server \<Rightarrow> public_key_hash \<Rightarrow> public_key_hash \<Rightarrow> error + bool" where
  "is_authorized fuel m owner writer =
     and_then (server_key owner writer) (\<lambda>(s, t).
       if s = t then Inr True
       else if ms_pointers m (s, s) = None then Inr True
       else search_owned fuel m owner t [] [owner])"

section \<open>The calls\<close>

definition set_one :: "nat \<Rightarrow> public_key_hash \<Rightarrow> public_key_hash \<Rightarrow> bytes \<Rightarrow> (mock_server, error, bool) io" where
  "set_one fuel owner writer cas m =
     (case is_authorized fuel m owner writer of
        Inl e \<Rightarrow> (Inl e, m)
      | Inr ok \<Rightarrow> if ok then apply_cas owner writer cas m else (Inr False, m))"

definition handle_mutable :: "nat \<Rightarrow> string \<Rightarrow> query \<Rightarrow> bytes \<Rightarrow> (mock_server, error, bytes) io" where
  "handle_mutable fuel call q body =
     (if call = ''getPointer'' then
        io_bind (io_lift (and_then (query_pkh q ''owner'') (\<lambda>owner. and_then (query_pkh q ''writer'') (server_key owner)))) (\<lambda>key m.
          (Inr (case ms_pointers m key of Some p \<Rightarrow> p | None \<Rightarrow> []), m))
      else if call = ''setPointer'' then
        io_bind (io_lift (query_pkh q ''owner'')) (\<lambda>owner.
        io_bind (io_lift (query_pkh q ''writer'')) (\<lambda>writer.
        io_bind (set_one fuel owner writer body) (\<lambda>ok. io_ret [if ok then 1 else 0])))
      else if call = ''setPointers'' then
        io_bind (io_lift (query_pkh q ''owner'')) (\<lambda>owner.
        io_bind (io_lift (and_then (map_err CborErr (from_bytes body)) (\<lambda>c.
            case Option.bind (cbor_get c ''p'') as_list of Some l \<Rightarrow> collect_results spu_from_cbor l | None \<Rightarrow> Inr []))) (\<lambda>us.
        io_bind (io_fold (\<lambda>ok u. io_bind (set_one fuel owner (spu_writer u) (spu_signed u)) (\<lambda>b. io_ret (ok \<and> b))) True us) (\<lambda>ok.
          io_ret [if ok then 1 else 0])))
      else io_lift (Inl (Http (''status 404: mock mutable has no route for '' @ call))))"

text \<open>\<open>HttpMutablePointers\<close> on the server, the query standing for the URL that carries it.\<close>

definition owner_query :: "public_key_hash \<Rightarrow> public_key_hash \<Rightarrow> error + query" where
  "owner_query owner writer =
     and_then (server_key owner writer) (\<lambda>(s, t). Inr [(''owner'', s), (''writer'', t)])"

definition mock_pointers :: "nat \<Rightarrow> mock_server pointers" where
  "mock_pointers fuel =
     \<lparr>set_pointer = (\<lambda>owner writer payload.
        io_bind (io_lift (owner_query owner writer)) (\<lambda>q.
        io_bind (handle_mutable fuel ''setPointer'' q payload) (\<lambda>res. io_ret (read_boolean res)))),
      set_pointers = (\<lambda>owner us.
        io_bind (io_lift (and_then (pkh_to_string owner) (\<lambda>s. Inr [(''owner'', s)]))) (\<lambda>q.
        io_bind (io_lift (serialize mwc_to_cbor us)) (\<lambda>body.
        io_bind (handle_mutable fuel ''setPointers'' q body) (\<lambda>res. io_ret (read_boolean res))))),
      get_pointer = (\<lambda>owner writer.
        io_bind (io_lift (owner_query owner writer)) (\<lambda>q.
        io_bind (handle_mutable fuel ''getPointer'' q []) (\<lambda>res. io_ret (if res = [] then None else Some res))))\<rparr>"

section \<open>What clients rely on\<close>

text \<open>
  \<open>ptr\<close> is the signed payload stored for an owner's writer and \<open>auth\<close> whether it may be written; \<open>ok\<close> is the server's
  own invariant.  Setting accepts an update exactly if its original is the target of the stored one.
\<close>

definition stored_target :: "bytes option \<Rightarrow> cid option" where
  "stored_target p = (case p of Some p \<Rightarrow> (case parse_pointer_update p of Inr u \<Rightarrow> pu_updated u | Inl _ \<Rightarrow> None) | None \<Rightarrow> None)"

locale cas_pointers =
  fixes P :: "'p pointers" and ptr :: "'p \<Rightarrow> public_key_hash \<Rightarrow> public_key_hash \<Rightarrow> bytes option"
    and auth :: "'p \<Rightarrow> public_key_hash \<Rightarrow> public_key_hash \<Rightarrow> bool" and ok :: "'p \<Rightarrow> bool"
  assumes get_law: "ok p \<Longrightarrow> wf_pkh owner \<Longrightarrow> wf_pkh writer \<Longrightarrow> get_pointer P owner writer p = (Inr (ptr p owner writer), p)"
    and set_law: "ok p \<Longrightarrow> wf_pkh owner \<Longrightarrow> wf_pkh writer \<Longrightarrow> auth p owner writer \<Longrightarrow> parse_pointer_update cas = Inr u \<Longrightarrow>
      \<exists>p'. set_pointer P owner writer cas p = (Inr (pu_original u = stored_target (ptr p owner writer)), p') \<and> ok p' \<and>
        (if pu_original u = stored_target (ptr p owner writer)
         then ptr p' owner writer = Some cas \<and> (\<forall>ow w. (ow, w) \<noteq> (owner, writer) \<and> wf_pkh ow \<and> wf_pkh w \<longrightarrow> ptr p' ow w = ptr p ow w)
         else p' = p)"
begin

lemma set_accepts:
  assumes "ok p" "wf_pkh owner" "wf_pkh writer" "auth p owner writer" "parse_pointer_update cas = Inr u"
    "pu_original u = stored_target (ptr p owner writer)"
  obtains p' where "set_pointer P owner writer cas p = (Inr True, p')" "ok p'" "ptr p' owner writer = Some cas"
  using set_law [OF assms(1-5)] assms(6) by auto

lemma set_rejects:
  assumes "ok p" "wf_pkh owner" "wf_pkh writer" "auth p owner writer" "parse_pointer_update cas = Inr u"
    "pu_original u \<noteq> stored_target (ptr p owner writer)"
  shows "set_pointer P owner writer cas p = (Inr False, p)"
  using set_law [OF assms(1-5)] assms(6) by auto

end

section \<open>The mock server keeps the contract\<close>

lemma pkh_string:
  assumes "wf_pkh h"
  obtains s where "pkh_to_string h = Inr s" "cid_decode s = Inr (pkh_target h)" "pkh_new (pkh_target h) = Inr h"
proof -
  obtain s where "cid_to_string (pkh_target h) = Inr s" "cid_decode s = Inr (pkh_target h)"
    using assms cid_string_roundtrip [of "pkh_target h"] by (auto simp: wf_pkh_def)
  moreover have "pkh_new (pkh_target h) = Inr h" using assms by (auto simp: wf_pkh_def pkh_new_def)
  ultimately show thesis using that by (simp add: pkh_to_string_def)
qed

lemma query_roundtrip:
  assumes "wf_pkh owner" "wf_pkh writer"
  obtains q key where "owner_query owner writer = Inr q" "query_pkh q ''owner'' = Inr owner" "query_pkh q ''writer'' = Inr writer"
    "server_key owner writer = Inr key"
proof -
  obtain s where s: "pkh_to_string owner = Inr s" "cid_decode s = Inr (pkh_target owner)" "pkh_new (pkh_target owner) = Inr owner"
    using assms(1) by (rule pkh_string)
  obtain t where t: "pkh_to_string writer = Inr t" "cid_decode t = Inr (pkh_target writer)" "pkh_new (pkh_target writer) = Inr writer"
    using assms(2) by (rule pkh_string)
  show thesis by (rule that [of "[(''owner'', s), (''writer'', t)]" "(s, t)"]) (simp_all add: owner_query_def server_key_def query_pkh_def query_get_def s t)
qed

lemma server_key_inject:
  assumes "wf_pkh a" "wf_pkh b" "wf_pkh c" "wf_pkh d" "server_key a b = Inr k" "server_key c d = Inr k"
  shows "a = c \<and> b = d"
proof -
  have "x = y" if "wf_pkh x" "wf_pkh y" "pkh_to_string x = pkh_to_string y" for x y
    using pkh_string [OF that(1)] pkh_string [OF that(2)] that(3) by (metis sum.inject(2))
  then show ?thesis using assms by (auto simp: server_key_def and_then_Inr_iff)
qed

definition mock_ptr :: "mock_server \<Rightarrow> public_key_hash \<Rightarrow> public_key_hash \<Rightarrow> bytes option" where
  "mock_ptr m owner writer = (case server_key owner writer of Inr k \<Rightarrow> ms_pointers m k | Inl _ \<Rightarrow> None)"

definition mock_ok :: "mock_server \<Rightarrow> bool" where
  "mock_ok m \<longleftrightarrow> (\<forall>k p. ms_pointers m k = Some p \<longrightarrow> (\<exists>u. parse_pointer_update p = Inr u))"

lemma parse_nonempty: "parse_pointer_update p = Inr u \<Longrightarrow> p \<noteq> []"
  by (auto simp: parse_pointer_update_def)

interpretation mock: cas_pointers "mock_pointers fuel" mock_ptr "\<lambda>m owner writer. is_authorized fuel m owner writer = Inr True" mock_ok for fuel
proof
  fix m owner writer
  assume ok: "mock_ok m" and wf: "wf_pkh owner" "wf_pkh writer"
  obtain q key where q: "owner_query owner writer = Inr q" "query_pkh q ''owner'' = Inr owner" "query_pkh q ''writer'' = Inr writer"
      "server_key owner writer = Inr key"
    using wf by (rule query_roundtrip)
  have "p \<noteq> []" if "ms_pointers m key = Some p" for p using ok that parse_nonempty unfolding mock_ok_def by metis
  then show "get_pointer (mock_pointers fuel) owner writer m = (Inr (mock_ptr m owner writer), m)"
    by (cases "ms_pointers m key") (auto simp: mock_pointers_def q handle_mutable_def io_bind_def mock_ptr_def)
  fix cas u
  assume auth: "is_authorized fuel m owner writer = Inr True" and u: "parse_pointer_update cas = Inr u"
  have ptr: "mock_ptr m owner writer = ms_pointers m key" by (simp add: mock_ptr_def q(4))
  have cur: "(case ms_pointers m key of Some p \<Rightarrow> and_then (parse_pointer_update p) (\<lambda>u. Inr (pu_updated u)) | None \<Rightarrow> Inr None) =
      Inr (stored_target (mock_ptr m owner writer))"
  proof (cases "ms_pointers m key")
    case (Some p)
    then obtain v where "parse_pointer_update p = Inr v" using ok unfolding mock_ok_def by metis
    then show ?thesis by (simp add: ptr stored_target_def Some)
  qed (simp add: ptr stored_target_def)
  let ?m = "m\<lparr>ms_pointers := (ms_pointers m)(key \<mapsto> cas)\<rparr>"
  have run: "set_pointer (mock_pointers fuel) owner writer cas m =
      (if pu_original u = stored_target (mock_ptr m owner writer) then (Inr True, ?m) else (Inr False, m))"
    by (simp add: mock_pointers_def q handle_mutable_def io_bind_def set_one_def auth apply_cas_def u cur read_boolean_def)
  have "mock_ok ?m" using ok u by (auto simp: mock_ok_def)
  moreover have "mock_ptr ?m owner writer = Some cas" by (simp add: mock_ptr_def q(4))
  moreover have "mock_ptr ?m ow w = mock_ptr m ow w" if "(ow, w) \<noteq> (owner, writer)" "wf_pkh ow" "wf_pkh w" for ow w
    using that wf q(4) server_key_inject [of ow w owner writer] by (auto simp: mock_ptr_def split: sum.splits)
  ultimately show "\<exists>p'. set_pointer (mock_pointers fuel) owner writer cas m = (Inr (pu_original u = stored_target (mock_ptr m owner writer)), p') \<and>
      mock_ok p' \<and> (if pu_original u = stored_target (mock_ptr m owner writer)
        then mock_ptr p' owner writer = Some cas \<and> (\<forall>ow w. (ow, w) \<noteq> (owner, writer) \<and> wf_pkh ow \<and> wf_pkh w \<longrightarrow> mock_ptr p' ow w = mock_ptr m ow w)
        else p' = m)"
    using run ok by auto
qed

end
