(* ===== verification/Commit_Merge.thy ===== *)
theory Commit_Merge
  imports Buffered_Net Buffered_Props Mock_Server
begin

text \<open>
  Two devices commit one writer's pointer: the composition of the buffered pointers, the tree merge, the block store and
  the server's compare-and-swap.
\<close>

text \<open>\<open>RamStorage\<close> with a log of its puts, behind the buffer.\<close>

definition logged_put_with :: "(bytes list \<Rightarrow> (ram_storage, error, cid list) io) \<Rightarrow> bytes list \<Rightarrow> (logged, error, cid list) io" where
  "logged_put_with f bs st = (case f bs (fst st) of (r, ram) \<Rightarrow> (r, (ram, bs @ snd st)))"

definition logged_target :: "ed25519 \<Rightarrow> (bytes \<Rightarrow> bytes) \<Rightarrow> 'p pointers \<Rightarrow> (logged, 'p) target" where
  "logged_target E sha256 P =
     \<lparr>tg_get = (\<lambda>st owner h. logged_get st h), tg_get_raw = (\<lambda>st owner h. ram_get_raw (fst st) h),
      tg_get_size = (\<lambda>st owner m. ram_get_size (fst st) m),
      tg_put = (\<lambda>owner writer sigs bs tid. logged_put_with (ram_put sha256 sigs) bs),
      tg_put_raw = (\<lambda>owner writer sigs bs tid. logged_put_with (ram_put_raw sha256 sigs) bs),
      tg_put_batch = (\<lambda>owner signer bs tid. logged_put_batch sha256 (sign_message E (spk_secret signer)) bs),
      tg_put_raw_batch = (\<lambda>owner signer bs tid. logged_put_with (put_batch sha256 (sign_message E (spk_secret signer)) (ram_put_raw sha256)) bs),
      tg_start = (\<lambda>owner. io_ret ''0''), tg_close = (\<lambda>owner tid. io_ret True),
      tg_bulk_commit = (\<lambda>owner c. io_lift (Inl (Protocol ''Unimplemented call!''))), tg_pointers = P\<rparr>"

lemma logged_target_put: "put_signed (logged_target E sha256 P) owner signer tid = logged_put sha256 (sign_message E (spk_secret signer))"
  by (rule ext) (simp add: put_signed_def logged_target_def logged_put_def)

lemma logged_target_get: "tg_get (logged_target E sha256 P) st owner = logged_get st" "tg_pointers (logged_target E sha256 P) = P"
  by (simp_all add: logged_target_def fun_eq_iff)

lemma signer_wf: "signer_of E sk = Inr signer \<Longrightarrow> wf_pkh (spk_public_key_hash signer)"
  by (erule signer_of_key) (rule psk_hash_lookup(2))

lemma signer_params:
  assumes "signer_of E sk = Inr signer" "\<forall>b. length (sha256 b) = 32"
  shows "hash_params sha256 (sign_message E (spk_secret signer))"
proof -
  obtain pk where k: "public_from_secret E sk = Inr pk" "spk_secret signer = \<lparr>ssk_bytes = sk\<rparr>"
    using assms(1) by (rule signer_of_key)
  have "length sk = 64" using k(1) by (auto simp: public_from_secret_def split: if_splits)
  then show ?thesis using assms(2) by (simp add: hash_params_def k(2) sign_message_def crypto_sign_def)
qed

lemma signed_update:
  assumes "ed25519_ok E" "signer_of E sk = Inr signer" "wf_update u"
  obtains cas where "sign_update E signer u = Inr cas" "parse_pointer_update cas = Inr u"
    "\<And>sg. parse_pointer_target E sg cas (spk_public_key_hash signer) = Inr u"
proof -
  obtain pk where k: "public_from_secret E sk = Inr pk" "spk_secret signer = \<lparr>ssk_bytes = sk\<rparr>"
    using assms(2) by (rule signer_of_key)
  have "length sk = 64" using k(1) by (auto simp: public_from_secret_def split: if_splits)
  moreover obtain bs where "serialize pu_to_cbor u = Inr bs" using pu.bytes_roundtrip [OF assms(3)] by blast
  ultimately obtain cas where cas: "sign_update E signer u = Inr cas" by (auto simp: sign_update_def sign_message_def k(2) crypto_sign_def)
  note p = sign_update_parse [OF assms(1-3) cas]
  show thesis by (rule that [OF cas]) (use p in \<open>simp_all add: parse_pointer_update_def\<close>)
qed

text \<open>The server's pointer is \<open>remote\<close>, signed with the writer's key on another device.\<close>

context cas_pointers
begin

lemma read_target:
  assumes "ok p" "wf_pkh owner" "wf_pkh writer" "ptr p owner writer = Some cas"
  shows "get_pointer_target E P sget owner writer p = (parse_pointer_target E (sget p) cas writer, p)"
  by (simp add: get_pointer_target_def get_law [OF assms(1-3)] io_bind_def assms(4))

lemma conflict_resolved:
  fixes sha256 :: "bytes \<Rightarrow> bytes"
  assumes E: "ed25519_ok E" "signer_of E sk = Inr (wu_signer w)" "wu_writer w = spk_public_key_hash (wu_signer w)"
    and srv: "ok p" "wf_pkh owner" "auth p owner (wu_writer w)" "sign_update E (wu_signer w) remote = Inr cas" "ptr p owner (wu_writer w) = Some cas" "wf_update remote"
    and u: "wf_update (wu_update w)" "pu_original (wu_update w) = Some base_wd" "pu_updated (wu_update w) = Some our_wd" "pu_updated remote = Some their_wd"
      "base_wd \<noteq> their_wd" "our_wd \<noteq> their_wd"
  shows "commit_one_with_merge E (logged_target E sha256 P) ho owner w tid (s, p) = resolve_conflict E (logged_target E sha256 P) ho owner w tid remote (s, p)"
proof -
  obtain c1 where c1: "sign_update E (wu_signer w) (wu_update w) = Inr c1" "parse_pointer_update c1 = Inr (wu_update w)"
    using signed_update [OF E(1,2) u(1)] by metis
  obtain c2 where "sign_update E (wu_signer w) remote = Inr c2" "parse_pointer_update c2 = Inr remote"
      "\<And>sg. parse_pointer_target E sg c2 (spk_public_key_hash (wu_signer w)) = Inr remote"
    by (rule signed_update [OF E(1,2) srv(6)]) blast
  then have c2: "parse_pointer_update cas = Inr remote" "\<And>sg. parse_pointer_target E sg cas (spk_public_key_hash (wu_signer w)) = Inr remote"
    using srv(4) by simp_all
  have wf: "wf_pkh (wu_writer w)" using signer_wf [OF E(2)] E(3) by simp
  have "stored_target (ptr p owner (wu_writer w)) = Some their_wd" by (simp add: stored_target_def srv(5) c2(1) u(4))
  then have "set_pointer P owner (wu_writer w) c1 p = (Inr False, p)"
    using set_rejects [OF srv(1,2) wf srv(3) c1(2)] u(2,5) by simp
  then have set: "set_pointer_update E P owner (wu_signer w) (wu_update w) p = (Inr False, p)"
    by (simp add: set_pointer_update_def c1(1) io_bind_def E(3))
  have get: "get_pointer_target E P (\<lambda>_. logged_get s) owner (wu_writer w) p = (Inr remote, p)"
    using read_target [OF srv(1,2) wf srv(5), of E "\<lambda>_. logged_get s"] c2(2) [of "logged_get s"] by (simp add: E(3))
  show ?thesis
    by (simp add: commit_one_with_merge_def on_pointers_def logged_target_get set get io_bind_def) (use u(3,4,6) in simp)
qed

text \<open>The outcome of a resolved conflict.\<close>

lemma resolve_outcome:
  fixes sha256 :: "bytes \<Rightarrow> bytes"
  assumes E: "ed25519_ok E" "signer_of E sk = Inr (wu_signer w)" "wu_writer w = spk_public_key_hash (wu_signer w)"
    and srv: "ok p" "wf_pkh owner" "auth p owner (wu_writer w)" "sign_update E (wu_signer w) remote = Inr cas" "ptr p owner (wu_writer w) = Some cas" "wf_update remote"
    and u: "pu_original (wu_update w) = Some base_wd" "pu_updated (wu_update w) = Some our_wd" "pu_updated remote = Some their_wd"
    and sha: "visits_all (ord_entries ho)" "\<forall>b. length (sha256 b) = 32"
    and trees: "logged_get s base_wd = Inr (Some b)" "tree_root b = Inr (root_hash wb)" "represents sha256 identity_key_hasher s wb base"
      "logged_get s our_wd = Inr (Some d)" "tree_root d = Inr (root_hash wo)" "represents sha256 identity_key_hasher s wo ours"
      "logged_get s their_wd = Inr (Some t)" "tree_root t = Inr (root_hash wt)" "represents sha256 identity_key_hasher s wt theirs"
      "no_null base" "no_null theirs"
    and run: "resolve_conflict E (logged_target E sha256 P) ho owner w tid remote (s, p) = (r, (s', p'))" "no_collision sha256 (snd s')"
  shows "if \<exists>k. base k \<noteq> ours k \<and> base k \<noteq> theirs k
    then r = Inl (Protocol ''Concurrent modification of a file or directory!'') \<and> s' = s \<and> p' = p
    else case r of
        Inr _ \<Rightarrow> \<exists>new_root wd tree.
          get_pointer_target E P (\<lambda>_. logged_get s') owner (wu_writer w) p' =
            (Inr \<lparr>pu_original = Some their_wd, pu_updated = Some new_root, pu_sequence = map_option (\<lambda>n. n + 1) (pu_sequence remote)\<rparr>, p') \<and>
          logged_get s' new_root = Inr (Some wd) \<and> tree_root wd = Inr (root_hash tree) \<and>
          represents sha256 identity_key_hasher s' tree (three_way base ours theirs)
      | Inl e \<Rightarrow> e = Protocol ''Hash collision!'' \<and> collide identity_key_hasher (dom ours \<union> dom theirs) \<and> p' = p"
proof -
  let ?sign = "sign_message E (spk_secret (wu_signer w))"
  note hp = signer_params [OF E(2) sha(2)]
  obtain r1 s1 where m: "merge_writer_data (ord_entries ho) logged_get (logged_put sha256 ?sign) base_wd our_wd their_wd s = (r1, s1)"
    by (meson surj_pair)
  show ?thesis
  proof (cases r1)
    case (Inl e)
    then have "r = Inl e" "s' = s1" "p' = p"
      using run(1) m by (auto simp: resolve_conflict_def u logged_target_get logged_target_put on_store_def io_bind_def)
    then show ?thesis
      using merge_writer_data_runs [OF sha(1) hp trees m] run(2) Inl by (auto split: if_splits)
  next
    case (Inr bs)
    let ?root = "block_cid sha256 False bs"
    let ?u = "\<lparr>pu_original = Some their_wd, pu_updated = Some ?root, pu_sequence = map_option (\<lambda>n. n + 1) (pu_sequence remote)\<rparr>"
    note put = logged_put_eq [OF hp, of bs s1]
    have wfw: "wf_pkh (wu_writer w)" using signer_wf [OF E(2)] E(3) by simp
    have wfu: "wf_update ?u" using srv(6) u(3) block_cid_bytes(2) sha(2) by (simp add: wf_update_def)
    obtain c3 where c3: "sign_update E (wu_signer w) ?u = Inr c3" "parse_pointer_update c3 = Inr ?u"
        "\<And>sg. parse_pointer_target E sg c3 (spk_public_key_hash (wu_signer w)) = Inr ?u"
      by (rule signed_update [OF E(1,2) wfu]) blast
    obtain c2 where "sign_update E (wu_signer w) remote = Inr c2" "parse_pointer_update c2 = Inr remote"
      by (rule signed_update [OF E(1,2) srv(6)]) blast
    then have "pu_original ?u = stored_target (ptr p owner (wu_writer w))" using srv(4) by (simp add: stored_target_def srv(5) u(3))
    then obtain p1 where p1: "set_pointer P owner (wu_writer w) c3 p = (Inr True, p1)" "ok p1" "ptr p1 owner (wu_writer w) = Some c3"
      using set_accepts [OF srv(1,2) wfw srv(3) c3(2)] by blast
    have "set_pointer_update E P owner (wu_signer w) ?u p = (Inr True, p1)"
      using p1(1) by (simp add: set_pointer_update_def c3(1) io_bind_def E(3))
    then have fin: "r = Inr ()" "s' = stored sha256 bs s1" "p' = p1"
      using run(1) m Inr put by (simp_all add: resolve_conflict_def u logged_target_get logged_target_put on_store_def on_pointers_def io_bind_def)
    have nc1: "no_collision sha256 (snd s1)" using run(2) fin(2) by (simp add: no_collision_def)
    note mr = merge_writer_data_runs [OF sha(1) hp trees m nc1, unfolded Inr]
    have nc: "\<not> (\<exists>k. base k \<noteq> ours k \<and> base k \<noteq> theirs k)" using mr by (auto split: if_splits)
    obtain wd tree where wd: "bs = to_bytes wd" "wf_cbor wd" "tree_root wd = Inr (root_hash tree)"
        "represents sha256 identity_key_hasher s1 tree (three_way base ours theirs)"
      using mr unfolding if_not_P [OF nc] sum.case by blast
    have put': "logged_put sha256 ?sign bs s1 = (Inr ?root, s')" using put fin(2) by simp
    have ad1: "addressed sha256 s1" using wd(4) by (simp add: represents_def)
    have "from_bytes bs = Inr wd" unfolding wd(1) by (rule from_bytes_to_bytes [OF wd(2)]) (use ram.put_size [OF put' run(2)] wd(1) in simp)
    then have got: "logged_get s' ?root = Inr (Some wd)" by (rule ram.put_get [OF put' ad1 run(2)])
    have rep: "represents sha256 identity_key_hasher s' tree (three_way base ours theirs)"
      by (rule represents_later [OF wd(4) ram.put_later [OF put'] run(2)])
    have "get_pointer_target E P (\<lambda>_. logged_get s') owner (wu_writer w) p' = (Inr ?u, p')"
      using read_target [OF p1(2) srv(2) wfw p1(3), of E "\<lambda>_. logged_get s'"] c3(3) [of "logged_get s'"] fin(3) E(3) by simp
    then show ?thesis using got rep wd(3) unfolding if_not_P [OF nc] fin(1) sum.case by blast
  qed
qed

end

text \<open>
  C4. A conflict on a writer's pointer is merged, not lost.  Another device moved the pointer from the root our
  update starts from.  If both sides changed one key, the commit fails and neither store nor pointer change; otherwise,
  unless more keys share all their indices than a tree can hold, the pointer is advanced from their root to a new one,
  with the next sequence number, whose tree is the three-way merge.  No other error is possible.
\<close>

theorem commit_conflict_merges:
  assumes "ed25519_ok E" "signer_of E sk = Inr (wu_signer w)" "wu_writer w = spk_public_key_hash (wu_signer w)"
    and "mock_ok p" "wf_pkh owner" "is_authorized fuel p owner (wu_writer w) = Inr True"
    and "sign_update E (wu_signer w) remote = Inr cas" "mock_ptr p owner (wu_writer w) = Some cas" "wf_update remote"
    and "wf_update (wu_update w)" "pu_original (wu_update w) = Some base_wd" "pu_updated (wu_update w) = Some our_wd" "pu_updated remote = Some their_wd"
    and "base_wd \<noteq> their_wd" "our_wd \<noteq> their_wd" "visits_all (ord_entries ho)" "\<forall>b. length (sha256 b) = 32"
    and "logged_get s base_wd = Inr (Some b)" "tree_root b = Inr (root_hash wb)" "represents sha256 identity_key_hasher s wb base"
    and "logged_get s our_wd = Inr (Some d)" "tree_root d = Inr (root_hash wo)" "represents sha256 identity_key_hasher s wo ours"
    and "logged_get s their_wd = Inr (Some t)" "tree_root t = Inr (root_hash wt)" "represents sha256 identity_key_hasher s wt theirs"
    and "no_null base" "no_null theirs"
    and "commit_one_with_merge E (logged_target E sha256 (mock_pointers fuel)) ho owner w tid (s, p) = (r, (s', p'))" "no_collision sha256 (snd s')"
  shows "if \<exists>k. base k \<noteq> ours k \<and> base k \<noteq> theirs k
    then r = Inl (Protocol ''Concurrent modification of a file or directory!'') \<and> s' = s \<and> p' = p
    else case r of
        Inr _ \<Rightarrow> \<exists>new_root wd tree.
          get_pointer_target E (mock_pointers fuel) (\<lambda>_. logged_get s') owner (wu_writer w) p' =
            (Inr \<lparr>pu_original = Some their_wd, pu_updated = Some new_root, pu_sequence = map_option (\<lambda>n. n + 1) (pu_sequence remote)\<rparr>, p') \<and>
          logged_get s' new_root = Inr (Some wd) \<and> tree_root wd = Inr (root_hash tree) \<and>
          represents sha256 identity_key_hasher s' tree (three_way base ours theirs)
      | Inl e \<Rightarrow> e = Protocol ''Hash collision!'' \<and> collide identity_key_hasher (dom ours \<union> dom theirs) \<and> p' = p"
  by (rule mock.resolve_outcome [OF assms(1-9,11-13,16-28) _ assms(30)])
    (use mock.conflict_resolved [OF assms(1-15), of sha256 ho tid s] assms(29) in simp)

section \<open>A conflict\<close>

text \<open>The other device only added a field to the writer data; the tree below it is the one we started from.\<close>

definition demo_theirs :: "champ_wrapper \<Rightarrow> (logged, error, cid) io" where
  "demo_theirs w =
     (case with_tree (CMap [(''tree'', CNull), (''users'', CNull)]) (root_hash w) of Inr wd \<Rightarrow> demo_put (to_bytes wd) | Inl e \<Rightarrow> io_lift (Inl e))"

definition demo_conflict :: "(logged, error, (champ_wrapper \<times> champ_wrapper \<times> cid \<times> cid) \<times> cid) io" where
  "demo_conflict = io_bind demo_setup (\<lambda>x. io_bind (demo_theirs (fst x)) (\<lambda>t. io_ret (x, t)))"

definition demo_resolved :: "(logged, error, (champ_wrapper \<times> champ_wrapper \<times> cid \<times> cid) \<times> cid) io" where
  "demo_resolved = io_bind demo_conflict (\<lambda>x. io_bind (demo_theirs (fst (snd (fst x)))) (\<lambda>m. io_ret x))"

definition distinct_log :: "bytes list \<Rightarrow> bool" where
  "distinct_log log \<longleftrightarrow> list_all (\<lambda>b. length b < 1000) log \<and> distinct (map demo_sha log)"

lemma distinct_log: "distinct_log log \<Longrightarrow> no_collision demo_sha log"
  by (fastforce simp: distinct_log_def no_collision_def list_all_iff distinct_map inj_on_def)

lemma demo_resolved_log: "case demo_resolved demo_empty of (Inr ((wb, wo, b, d), t), st) \<Rightarrow> distinct_log (snd st) \<and> b \<noteq> t \<and> d \<noteq> t | _ \<Rightarrow> False"
  by code_simp

lemma tree_users: "cmp_cbor_string ''tree'' ''users'' = Less" "cmp_cbor_string ''users'' ''tree'' = Greater"
  by code_simp+

lemma demo_with_tree:
  assumes "wf_cid c"
  obtains bs where "cid_cast bs = Inr c"
    "with_tree (CMap [(''tree'', x), (''users'', CNull)]) c = Inr (CMap [(''tree'', CMerkleLink bs), (''users'', CNull)])"
    "tree_root (CMap [(''tree'', CMerkleLink bs), (''users'', CNull)]) = Inr c" "wf_cbor (CMap [(''tree'', CMerkleLink bs), (''users'', CNull)])"
proof -
  obtain bs where bs: "cid_to_bytes c = Inr bs" "cid_cast bs = Inr c" using cid_bytes_roundtrip [OF assms] by blast
  show thesis
    by (rule that [OF bs(2)]) (simp_all add: with_tree_def bs tree_root_def cbor_get_def tree_self tree_users valid_literal bt_sorted_def)
qed

lemma demo_wf: "demo_writer_data w st = (Inr c, st') \<Longrightarrow> wf_cid c"
  using demo_params
  by (auto simp: demo_writer_data_def logged_put_eq [OF demo_params] hash_params_def intro: block_cid_bytes(2) split: sum.splits)

lemma demo_theirs_stores:
  assumes "demo_theirs w st = (Inr c, st')" "represents demo_sha kh st w m" "no_collision demo_sha (snd st')"
  obtains bs where "logged_get st' c = Inr (Some (CMap [(''tree'', CMerkleLink bs), (''users'', CNull)]))"
    "tree_root (CMap [(''tree'', CMerkleLink bs), (''users'', CNull)]) = Inr (root_hash w)"
    "\<forall>x. with_tree (CMap [(''tree'', x), (''users'', CNull)]) (root_hash w) = Inr (CMap [(''tree'', CMerkleLink bs), (''users'', CNull)])"
    "st' = stored demo_sha (to_bytes (CMap [(''tree'', CMerkleLink bs), (''users'', CNull)])) st"
    "wf_cid c" "ram.later demo_sha st st'"
proof -
  have ad: "addressed demo_sha st" and wf: "wf_cid (root_hash w)" using assms(2) by (auto simp: represents_def)
  obtain bs where bs: "with_tree (CMap [(''tree'', CNull), (''users'', CNull)]) (root_hash w) = Inr (CMap [(''tree'', CMerkleLink bs), (''users'', CNull)])"
      "tree_root (CMap [(''tree'', CMerkleLink bs), (''users'', CNull)]) = Inr (root_hash w)"
      "wf_cbor (CMap [(''tree'', CMerkleLink bs), (''users'', CNull)])" "cid_cast bs = Inr (root_hash w)"
    by (rule demo_with_tree [OF wf])
  let ?wd = "CMap [(''tree'', CMerkleLink bs), (''users'', CNull)]"
  have p: "demo_put (to_bytes ?wd) st = (Inr c, st')" using assms(1) by (simp add: demo_theirs_def bs(1))
  have c: "c = block_cid demo_sha False (to_bytes ?wd)" "st' = stored demo_sha (to_bytes ?wd) st"
    using p logged_put_eq [OF demo_params, of "to_bytes ?wd" st] by auto
  have any: "\<forall>x. with_tree (CMap [(''tree'', x), (''users'', CNull)]) (root_hash w) = Inr ?wd"
    using bs(1) by (auto simp: with_tree_def tree_self and_then_Inr_iff)
  have "from_bytes (to_bytes ?wd) = Inr ?wd" by (rule from_bytes_to_bytes [OF bs(3) ram.put_size [OF p assms(3)]])
  then show thesis
    using that [OF ram.put_get [OF p ad assms(3)] bs(2) any c(2) _ ram.put_later [OF p]] c(1) block_cid_bytes(2) demo_params
    by (simp add: hash_params_def)
qed

lemma demo_conflict_runs:
  obtains wb wo b d t st b' d' bs ms st' where
    "demo_conflict demo_empty = (Inr ((wb, wo, b, d), t), st)" "b \<noteq> t" "d \<noteq> t" "wf_cid b" "wf_cid d" "wf_cid t"
    "logged_get st b = Inr (Some b')" "tree_root b' = Inr (root_hash wb)" "represents demo_sha identity_key_hasher st wb Map.empty"
    "logged_get st d = Inr (Some d')" "tree_root d' = Inr (root_hash wo)" "represents demo_sha identity_key_hasher st wo [[1] \<mapsto> Some (CLong 7)]"
    "logged_get st t = Inr (Some (CMap [(''tree'', CMerkleLink bs), (''users'', CNull)]))"
    "tree_root (CMap [(''tree'', CMerkleLink bs), (''users'', CNull)]) = Inr (root_hash wb)"
    "\<forall>x. with_tree (CMap [(''tree'', x), (''users'', CNull)]) (root_hash wo) = Inr (CMap [(''tree'', CMerkleLink ms), (''users'', CNull)])"
    "no_collision demo_sha (snd st)"
    "no_collision demo_sha (snd (stored demo_sha (to_bytes (CMap [(''tree'', CMerkleLink ms), (''users'', CNull)])) st))"
proof -
  obtain r st' where rs: "demo_resolved demo_empty = (r, st')" by (meson surj_pair)
  obtain x where x: "r = Inr x" using demo_resolved_log unfolding rs by (cases r) simp_all
  obtain wb wo b d t where xs: "x = ((wb, wo, b, d), t)" by (metis surj_pair)
  have run: "demo_resolved demo_empty = (Inr ((wb, wo, b, d), t), st')" by (simp add: rs x xs)
  have ne: "b \<noteq> t" "d \<noteq> t" and ok: "no_collision demo_sha (snd st')"
    using demo_resolved_log unfolding run prod.case sum.case by (blast intro: distinct_log)+
  from run obtain st m where c: "demo_conflict demo_empty = (Inr ((wb, wo, b, d), t), st)" "demo_theirs wo st = (Inr m, st')"
    unfolding demo_resolved_def by (elim io_bind_cases) auto
  from c(1) obtain st0 where s0: "demo_setup demo_empty = (Inr (wb, wo, b, d), st0)" and t: "demo_theirs wb st0 = (Inr t, st)"
    unfolding demo_conflict_def by (elim io_bind_cases) auto
  obtain b' d' where x: "no_collision demo_sha (snd st0)"
      "logged_get st0 b = Inr (Some b')" "tree_root b' = Inr (root_hash wb)" "represents demo_sha identity_key_hasher st0 wb Map.empty"
      "logged_get st0 d = Inr (Some d')" "tree_root d' = Inr (root_hash wo)" "represents demo_sha identity_key_hasher st0 wo [[1] \<mapsto> Some (CLong 7)]"
    using demo_setup_runs s0 by auto
  have wf: "wf_cid b" "wf_cid d" using s0 demo_wf unfolding demo_setup_def by (elim io_bind_cases; simp)+
  have l: "ram.later demo_sha st0 st" using t unfolding demo_theirs_def by (auto split: sum.splits intro: ram.put_later)
  have ad0: "addressed demo_sha st0" using x(4) by (simp add: represents_def)
  have ok1: "no_collision demo_sha (snd st)"
  proof (rule ram.later_ok [OF _ ram.later_inv [OF l ad0] ok])
    show "ram.later demo_sha st st'" using c(2) unfolding demo_theirs_def by (auto split: sum.splits intro: ram.put_later)
  qed
  have rep: "represents demo_sha identity_key_hasher st wb Map.empty" "represents demo_sha identity_key_hasher st wo [[1] \<mapsto> Some (CLong 7)]"
    using represents_later [OF x(4) l ok1] represents_later [OF x(7) l ok1] by simp_all
  have get: "logged_get st b = Inr (Some b')" "logged_get st d = Inr (Some d')"
    using ram.later_get [OF l ad0 ok1] x(2,5) by blast+
  obtain bs where bs: "logged_get st t = Inr (Some (CMap [(''tree'', CMerkleLink bs), (''users'', CNull)]))"
      "tree_root (CMap [(''tree'', CMerkleLink bs), (''users'', CNull)]) = Inr (root_hash wb)" "wf_cid t"
    by (rule demo_theirs_stores [OF t x(4) ok1])
  obtain ms where ms: "\<forall>x. with_tree (CMap [(''tree'', x), (''users'', CNull)]) (root_hash wo) = Inr (CMap [(''tree'', CMerkleLink ms), (''users'', CNull)])"
      "st' = stored demo_sha (to_bytes (CMap [(''tree'', CMerkleLink ms), (''users'', CNull)])) st"
    by (rule demo_theirs_stores [OF c(2) rep(2) ok])
  show thesis
    by (rule that [OF c(1) ne wf bs(3) get(1) x(3) rep(1) get(2) x(6) rep(2) bs(1,2) ms(1) ok1]) (use ok ms(2) in simp)
qed

text \<open>A merge with a side whose tree did not change writes no node, and returns their writer data over our tree.\<close>

lemma merge_their_fields:
  assumes "logged_get st b = Inr (Some b')" "tree_root b' = Inr c" "logged_get st d = Inr (Some d')" "tree_root d' = Inr r"
    "logged_get st t = Inr (Some t')" "tree_root t' = Inr c" "with_tree t' r = Inr wd"
    "merge_writer_data ord logged_get sput b d t st = (res, st')"
  shows "st' = st \<and> (\<forall>bs. res = Inr bs \<longrightarrow> bs = to_bytes wd)"
  using assms(8)
  by (auto simp: merge_writer_data_def merge_champ_def get_block_def assms(1-7) diff_same io_bind_def wrapper_create_def and_then_Inr_iff
      split: sum.splits if_splits prod.splits option.splits)

definition demo_server :: "public_key_hash \<Rightarrow> bytes \<Rightarrow> mock_server" where
  "demo_server h cas = (case server_key h h of
     Inr k \<Rightarrow> \<lparr>ms_blocks = ram_new, ms_pointers = [k \<mapsto> cas]\<rparr> | Inl _ \<Rightarrow> \<lparr>ms_blocks = ram_new, ms_pointers = Map.empty\<rparr>)"

lemma demo_server_ok:
  assumes "wf_pkh h" "parse_pointer_update cas = Inr u"
  shows "mock_ok (demo_server h cas)" "is_authorized fuel (demo_server h cas) h h = Inr True" "mock_ptr (demo_server h cas) h h = Some cas"
proof -
  obtain s where s: "pkh_to_string h = Inr s" using pkh_string [OF assms(1)] by blast
  then show "mock_ok (demo_server h cas)" "is_authorized fuel (demo_server h cas) h h = Inr True" "mock_ptr (demo_server h cas) h h = Some cas"
    using assms(2) by (auto simp: demo_server_def server_key_def mock_ok_def is_authorized_def mock_ptr_def)
qed

lemma demo_no_collide: "\<not> collide identity_key_hasher (dom [[1 :: 8 word] \<mapsto> Some (CLong 7)] \<union> dom (Map.empty :: bytes \<rightharpoonup> cbor option))"
proof
  assume "collide identity_key_hasher (dom [[1 :: 8 word] \<mapsto> Some (CLong 7)] \<union> dom (Map.empty :: bytes \<rightharpoonup> cbor option))"
  then obtain S :: "bytes set" where "S \<subseteq> {[1]}" "card S = 5" unfolding collide_def by auto
  then show False using card_mono [of "{[1]}" S] by simp
qed

text \<open>Whatever such a commit does to the blocks, it writes nothing but their writer data over our tree.\<close>

lemma resolve_stores:
  assumes "signer_of E sk = Inr (wu_signer w)" "\<forall>b. length (sha256 b) = 32"
    "pu_original (wu_update w) = Some b" "pu_updated (wu_update w) = Some d" "pu_updated remote = Some t"
    "logged_get st b = Inr (Some b')" "tree_root b' = Inr c" "logged_get st d = Inr (Some d')" "tree_root d' = Inr r"
    "logged_get st t = Inr (Some t')" "tree_root t' = Inr c" "with_tree t' r = Inr wd"
    "no_collision sha256 (snd st)" "no_collision sha256 (snd (stored sha256 (to_bytes wd) st))"
    "resolve_conflict E (logged_target E sha256 P) ho owner w tid remote (st, p) = (res, (s', p'))"
  shows "no_collision sha256 (snd s')"
proof -
  let ?sign = "sign_message E (spk_secret (wu_signer w))"
  note put = logged_put_eq [OF signer_params [OF assms(1,2)]]
  obtain r1 s1 where m: "merge_writer_data (ord_entries ho) logged_get (logged_put sha256 ?sign) b d t st = (r1, s1)" by (meson surj_pair)
  have s1: "s1 = st" "\<And>bs. r1 = Inr bs \<Longrightarrow> bs = to_bytes wd" using merge_their_fields [OF assms(6-12) m] by simp_all
  then have "s' = st \<or> s' = stored sha256 (to_bytes wd) st"
    using assms(15) m
    by (cases r1) (auto simp: resolve_conflict_def assms(3-5) logged_target_get logged_target_put on_store_def on_pointers_def io_bind_def put
        split: prod.splits sum.splits if_splits)
  then show ?thesis using assms(13,14) by blast
qed

text \<open>We added a key to the tree, the other device a field to the writer data: both survive.\<close>

theorem commit_conflict_merges_witness:
  "\<exists>signer wb wo b d t st cas s' p' new_root wd tree.
     demo_conflict demo_empty = (Inr ((wb, wo, b, d), t), st) \<and> signer_of demo_ed (replicate 64 7) = Inr signer \<and>
     sign_update demo_ed signer \<lparr>pu_original = Some b, pu_updated = Some t, pu_sequence = Some 1\<rparr> = Inr cas \<and>
     commit_one_with_merge demo_ed (logged_target demo_ed demo_sha (mock_pointers 0)) demo_orders (spk_public_key_hash signer)
       \<lparr>wu_owner = spk_public_key_hash signer, wu_writer = spk_public_key_hash signer,
        wu_update = \<lparr>pu_original = Some b, pu_updated = Some d, pu_sequence = Some 1\<rparr>, wu_signer = signer\<rparr> ''t''
       (st, demo_server (spk_public_key_hash signer) cas) = (Inr (), (s', p')) \<and>
     get_pointer_target demo_ed (mock_pointers 0) (\<lambda>_. logged_get s') (spk_public_key_hash signer) (spk_public_key_hash signer) p' =
       (Inr \<lparr>pu_original = Some t, pu_updated = Some new_root, pu_sequence = Some 2\<rparr>, p') \<and>
     logged_get s' new_root = Inr (Some wd) \<and> tree_root wd = Inr (root_hash tree) \<and>
     represents demo_sha identity_key_hasher s' tree [[1] \<mapsto> Some (CLong 7)]"
proof -
  obtain wb wo b d t st b' d' bs ms where x: "demo_conflict demo_empty = (Inr ((wb, wo, b, d), t), st)" "b \<noteq> t" "d \<noteq> t" "wf_cid b" "wf_cid d" "wf_cid t"
    and y: "logged_get st b = Inr (Some b')" "tree_root b' = Inr (root_hash wb)" "represents demo_sha identity_key_hasher st wb Map.empty"
      "logged_get st d = Inr (Some d')" "tree_root d' = Inr (root_hash wo)" "represents demo_sha identity_key_hasher st wo [[1] \<mapsto> Some (CLong 7)]"
      "logged_get st t = Inr (Some (CMap [(''tree'', CMerkleLink bs), (''users'', CNull)]))"
      "tree_root (CMap [(''tree'', CMerkleLink bs), (''users'', CNull)]) = Inr (root_hash wb)"
    and z: "\<forall>x. with_tree (CMap [(''tree'', x), (''users'', CNull)]) (root_hash wo) = Inr (CMap [(''tree'', CMerkleLink ms), (''users'', CNull)])"
      "no_collision demo_sha (snd st)"
      "no_collision demo_sha (snd (stored demo_sha (to_bytes (CMap [(''tree'', CMerkleLink ms), (''users'', CNull)])) st))"
    by (rule demo_conflict_runs)
  have "case signer_of demo_ed (replicate 64 7) of Inr _ \<Rightarrow> True | _ \<Rightarrow> False" by code_simp
  then obtain signer where sg: "signer_of demo_ed (replicate 64 7) = Inr signer" by (auto split: sum.splits)
  let ?h = "spk_public_key_hash signer"
  let ?remote = "\<lparr>pu_original = Some b, pu_updated = Some t, pu_sequence = Some 1\<rparr>"
  let ?u = "\<lparr>pu_original = Some b, pu_updated = Some d, pu_sequence = Some 1\<rparr>"
  define w where "w = \<lparr>wu_owner = ?h, wu_writer = ?h, wu_update = ?u, wu_signer = signer\<rparr>"
  have w: "wu_writer w = spk_public_key_hash (wu_signer w)" "signer_of demo_ed (replicate 64 7) = Inr (wu_signer w)" "wu_update w = ?u"
    by (simp_all add: w_def sg)
  have wf: "wf_update ?remote" "wf_update (wu_update w)" "wf_pkh ?h" using x(4-6) signer_wf [OF sg] by (simp_all add: wf_update_def w(3))
  obtain cas where cas: "sign_update demo_ed signer ?remote = Inr cas" "parse_pointer_update cas = Inr ?remote"
    by (rule signed_update [OF demo_ed_ok sg wf(1)])
  note srv = demo_server_ok [OF wf(3) cas(2)]
  obtain r s' p' where run: "commit_one_with_merge demo_ed (logged_target demo_ed demo_sha (mock_pointers 0)) demo_orders ?h w ''t'' (st, demo_server ?h cas) = (r, (s', p'))"
    by (metis surj_pair)
  have v: "visits_all (ord_entries demo_orders)" "no_null Map.empty" by (simp_all add: demo_orders_def visits_all_def no_null_def)
  have sha: "\<forall>b. length (demo_sha b) = 32" using demo_params by (simp add: hash_params_def)
  have wu: "wu_writer w = ?h" "wu_signer w = signer" by (simp_all add: w_def)
  have upd: "pu_original (wu_update w) = Some b" "pu_updated (wu_update w) = Some d" "pu_updated ?remote = Some t" by (simp_all add: w(3))
  have "resolve_conflict demo_ed (logged_target demo_ed demo_sha (mock_pointers 0)) demo_orders ?h w ''t'' ?remote (st, demo_server ?h cas) = (r, (s', p'))"
    using mock.conflict_resolved [OF demo_ed_ok w(2,1), of "demo_server ?h cas" ?h 0 ?remote cas b d t demo_sha demo_orders "''t''" st]
      run srv wf cas(1) upd x(2,3) by (simp add: wu)
  from resolve_stores [OF w(2) sha upd y(1,2,4,5,7,8) z(1) [rule_format] z(2,3) this]
  have nc: "no_collision demo_sha (snd s')" .
  have three: "three_way Map.empty [[1] \<mapsto> Some (CLong 7)] Map.empty = [[1] \<mapsto> Some (CLong 7)]" by (auto simp: three_way_def)
  have ncf: "\<not> (\<exists>k. Map.empty k \<noteq> ([[1] \<mapsto> Some (CLong 7)] k) \<and> Map.empty k \<noteq> (Map.empty k))" by simp
  have srv': "is_authorized 0 (demo_server ?h cas) ?h (wu_writer w) = Inr True" "sign_update demo_ed (wu_signer w) ?remote = Inr cas"
      "mock_ptr (demo_server ?h cas) ?h (wu_writer w) = Some cas"
    using srv cas(1) by (simp_all add: wu)
  note res = commit_conflict_merges [OF demo_ed_ok w(2,1) srv(1) wf(3) srv' wf(1,2) upd x(2,3) v(1) sha y y(3) v(2,2) run nc, unfolded if_not_P [OF ncf] three wu]
  have r: "r = Inr ()" using res demo_no_collide by (cases r) simp_all
  obtain new_root wd tree where n: "get_pointer_target demo_ed (mock_pointers 0) (\<lambda>_. logged_get s') ?h ?h p' =
        (Inr \<lparr>pu_original = Some t, pu_updated = Some new_root, pu_sequence = Some 2\<rparr>, p')"
      "logged_get s' new_root = Inr (Some wd)" "tree_root wd = Inr (root_hash tree)" "represents demo_sha identity_key_hasher s' tree [[1] \<mapsto> Some (CLong 7)]"
    using res unfolding r sum.case by (elim exE conjE) simp
  show ?thesis by (intro exI conjI) (rule x(1) sg cas(1) run [unfolded w_def r] n)+
qed

end
