(* ===== verification/Commit_Pointers.thy ===== *)
theory Commit_Pointers
  imports Buffered_Net
begin

text \<open>
  What the buffered pointers promise: the condensed list of updates has the effect of the updates that were made, reads see
  the latest of them, and a rollback restores the list of the checkpoint.
\<close>

type_synonym pointer_write = "public_key_hash \<times> signing_private_key_and_public_hash \<times> pointer_update"

definition add_writes :: "pointer_write list \<Rightarrow> buffered_pointers \<Rightarrow> buffered_pointers" where
  "add_writes xs p = foldl (\<lambda>p (owner, signer, u). add_write owner signer u p) p xs"

lemma add_writes_snoc: "add_writes (xs @ [(owner, signer, u)]) p = add_write owner signer u (add_writes xs p)"
  by (simp add: add_writes_def)

lemma add_writes_Nil [simp]: "add_writes [] p = p"
  by (simp add: add_writes_def)

section \<open>Rollback\<close>

definition retarget :: "cid option \<Rightarrow> writer_update \<Rightarrow> writer_update" where
  "retarget c w = w\<lparr>wu_update := (wu_update w)\<lparr>pu_updated := c\<rparr>\<rparr>"

lemma retarget_last_eq: "retarget_last c ws = butlast ws @ [retarget c (last ws)]"
  by (simp add: retarget_last_def retarget_def)

lemma retarget_simps [simp]:
  "retarget c (retarget d w) = retarget c w" "retarget (pu_updated (wu_update w)) w = w"
  "wu_writer (retarget c w) = wu_writer w" "wu_owner (retarget c w) = wu_owner w" "wu_signer (retarget c w) = wu_signer w"
  "pu_updated (wu_update (retarget c w)) = c" "pu_original (wu_update (retarget c w)) = pu_original (wu_update w)"
  by (simp_all add: retarget_def)

text \<open>Writes after a moment leave its list as a prefix, but for the target of its last entry.\<close>

lemma add_writes_prefix:
  "\<exists>c ws. add_writes xs p = p\<lparr>updates := (if updates p = [] then [] else butlast (updates p) @ [retarget c (last (updates p))]) @ ws\<rparr>"
proof (induction xs rule: rev_induct)
  case Nil
  show ?case by (rule exI [of _ "pu_updated (wu_update (last (updates p)))"], rule exI [of _ "[]"]) simp
next
  case (snoc x xs)
  obtain owner signer u where x: "x = (owner, signer, u)" by (cases x)
  obtain c ws where IH: "add_writes xs p = p\<lparr>updates := (if updates p = [] then [] else butlast (updates p) @ [retarget c (last (updates p))]) @ ws\<rparr>"
    using snoc.IH by blast
  let ?p = "add_writes xs p" and ?w = "\<lparr>wu_owner = owner, wu_writer = spk_public_key_hash signer, wu_update = u, wu_signer = signer\<rparr>"
  show ?case
  proof (cases "updates ?p \<noteq> [] \<and> wu_writer (last (updates ?p)) = spk_public_key_hash signer \<and> wu_owner (last (updates ?p)) = owner")
    case True
    then have new: "add_writes (xs @ [x]) p = ?p\<lparr>updates := retarget_last (pu_updated u) (updates ?p)\<rparr>"
      unfolding x add_writes_snoc add_write_def by simp
    show ?thesis
    proof (cases ws rule: rev_cases)
      case Nil
      then have "updates p \<noteq> []" using True IH by (auto split: if_splits)
      then show ?thesis using IH Nil new by (intro exI [of _ "pu_updated u"] exI [of _ "[]"]) (simp add: retarget_last_eq butlast_append)
    next
      case (snoc ws' w)
      then show ?thesis using IH new by (intro exI [of _ c] exI [of _ "ws' @ [retarget (pu_updated u) w]"]) (simp add: retarget_last_eq butlast_append)
    qed
  next
    case False
    then have "add_writes (xs @ [x]) p = ?p\<lparr>updates := updates ?p @ [?w]\<rparr>" by (simp only: x add_writes_snoc add_write_def if_False)
    then show ?thesis using IH by (intro exI [of _ c] exI [of _ "ws @ [?w]"]) simp
  qed
qed

text \<open>
  C17. Rolling back to a checkpoint undoes exactly the writes made since: however many there were, and although the
  first of them may have been folded into the last entry of the checkpoint, the buffered updates are those of the
  checkpoint again.
\<close>

theorem rollback_restores: "rollback (take_checkpoint p) (add_writes xs p) = p"
proof -
  obtain c ws where w: "add_writes xs p = p\<lparr>updates := (if updates p = [] then [] else butlast (updates p) @ [retarget c (last (updates p))]) @ ws\<rparr>"
    using add_writes_prefix by blast
  show ?thesis
  proof (cases "updates p" rule: rev_cases)
    case Nil
    then show ?thesis by (simp add: w rollback_def take_checkpoint_def)
  next
    case (snoc us u)
    then show ?thesis by (simp add: w rollback_def take_checkpoint_def Let_def retarget_last_eq)
  qed
qed

section \<open>Condensation\<close>

text \<open>The pointers of all writers, and the effect of compare-and-swap updates made one after another.\<close>

type_synonym pointer_map = "public_key_hash \<times> public_key_hash \<Rightarrow> cid option"

definition cas_step :: "public_key_hash \<times> public_key_hash \<times> pointer_update \<Rightarrow> pointer_map \<Rightarrow> pointer_map option" where
  "cas_step x m = (case x of (owner, writer, u) \<Rightarrow> if m (owner, writer) = pu_original u then Some (m((owner, writer) := pu_updated u)) else None)"

primrec cas_run :: "(public_key_hash \<times> public_key_hash \<times> pointer_update) list \<Rightarrow> pointer_map \<Rightarrow> pointer_map option" where
  "cas_run [] m = Some m"
| "cas_run (x # us) m = Option.bind (cas_step x m) (cas_run us)"

lemma cas_run_append: "cas_run (us @ vs) m = Option.bind (cas_run us m) (cas_run vs)"
proof (induction us arbitrary: m)
  case (Cons x us)
  then show ?case by (cases "cas_step x m") simp_all
qed simp

definition made :: "pointer_write \<Rightarrow> public_key_hash \<times> public_key_hash \<times> pointer_update" where
  "made x = (case x of (owner, signer, u) \<Rightarrow> (owner, spk_public_key_hash signer, u))"

definition buffered :: "writer_update \<Rightarrow> public_key_hash \<times> public_key_hash \<times> pointer_update" where
  "buffered w = (wu_owner w, wu_writer w, wu_update w)"

lemma cas_run_snoc:
  "cas_run (us @ [buffered w]) m = Some m' \<longleftrightarrow>
     (\<exists>m1. cas_run us m = Some m1 \<and> m1 (wu_owner w, wu_writer w) = pu_original (wu_update w) \<and>
       m' = m1((wu_owner w, wu_writer w) := pu_updated (wu_update w)))"
  "cas_run (us @ [made (owner, signer, u)]) m = Some m' \<longleftrightarrow>
     (\<exists>m1. cas_run us m = Some m1 \<and> m1 (owner, spk_public_key_hash signer) = pu_original u \<and>
       m' = m1((owner, spk_public_key_hash signer) := pu_updated u))"
  by (auto simp: cas_run_append cas_step_def buffered_def made_def bind_eq_Some_conv split: if_splits)

lemma add_write_run:
  assumes "cas_run (map buffered (updates p)) m = Some m'" "m' (owner, spk_public_key_hash signer) = pu_original u"
  shows "cas_run (map buffered (updates (add_write owner signer u p))) m = Some (m'((owner, spk_public_key_hash signer) := pu_updated u))"
proof (cases "updates p \<noteq> [] \<and> wu_writer (last (updates p)) = spk_public_key_hash signer \<and> wu_owner (last (updates p)) = owner")
  case True
  then obtain us w where us: "updates p = us @ [w]" by (metis append_butlast_last_id)
  obtain m1 where m1: "cas_run (map buffered us) m = Some m1" "m1 (wu_owner w, wu_writer w) = pu_original (wu_update w)"
      "m' = m1((wu_owner w, wu_writer w) := pu_updated (wu_update w))"
    using assms(1) by (auto simp: us cas_run_snoc)
  then show ?thesis using True by (simp add: add_write_def us retarget_last_eq cas_run_snoc)
next
  case False
  then have "updates (add_write owner signer u p) = updates p @ [\<lparr>wu_owner = owner, wu_writer = spk_public_key_hash signer, wu_update = u, wu_signer = signer\<rparr>]"
    unfolding add_write_def if_not_P [OF False] by simp
  then show ?thesis using assms by (simp add: cas_run_snoc)
qed

text \<open>A writer belongs to one owner.\<close>

definition one_owner :: "writer_update list \<Rightarrow> bool" where
  "one_owner ws \<longleftrightarrow> (\<forall>v \<in> set ws. \<forall>w \<in> set ws. wu_writer v = wu_writer w \<longrightarrow> wu_owner v = wu_owner w)"

lemma cas_run_latest:
  assumes "cas_run (map buffered ws) m = Some m'" "one_owner ws" "List.find (\<lambda>w. wu_writer w = writer) (rev ws) = Some w"
  shows "pu_updated (wu_update w) = m' (wu_owner w, writer) \<and> wu_writer w = writer \<and> w \<in> set ws"
  using assms
proof (induction ws arbitrary: m' rule: rev_induct)
  case (snoc x ws)
  obtain m1 where m1: "cas_run (map buffered ws) m = Some m1" "m' = m1((wu_owner x, wu_writer x) := pu_updated (wu_update x))"
    using snoc.prems(1) by (auto simp: cas_run_snoc)
  show ?case
  proof (cases "wu_writer x = writer")
    case True
    then show ?thesis using snoc.prems(3) m1 by simp
  next
    case False
    have "one_owner ws" using snoc.prems(2) unfolding one_owner_def by (metis UnI1 set_append)
    moreover have "List.find (\<lambda>w. wu_writer w = writer) (rev ws) = Some w" using snoc.prems(3) False by simp
    ultimately have "pu_updated (wu_update w) = m1 (wu_owner w, writer) \<and> wu_writer w = writer \<and> w \<in> set ws" by (rule snoc.IH [OF m1(1)])
    then show ?thesis using False unfolding m1(2) by simp
  qed
qed simp

text \<open>
  C16. Condensing refines: if the updates a client made succeed one after another as compare-and-swaps, so does the
  shorter buffered list, with the same final pointers; and reading a writer through the buffer meanwhile gives its latest
  target.  Only the read depends on a writer having one owner.
\<close>

theorem buffered_pointers_refine:
  assumes "cas_run (map made xs) m = Some m'" "p = add_writes xs pointers_new"
  shows "cas_run (map buffered (updates p)) m = Some m' \<and> length (updates p) \<le> length xs \<and>
    (one_owner (updates p) \<longrightarrow>
      (\<forall>owner writer st r st'. (\<exists>w \<in> set (updates p). wu_writer w = writer \<and> wu_owner w = owner) \<longrightarrow>
        buffered_pointer_target E T sg p owner writer st = (r, st') \<longrightarrow>
        st' = st \<and> (\<exists>u. r = Inr u \<and> pu_updated u = m' (owner, writer))))"
proof -
  have "cas_run (map buffered (updates (add_writes xs pointers_new))) m = Some m' \<and> length (updates (add_writes xs pointers_new)) \<le> length xs"
    using assms(1)
  proof (induction xs arbitrary: m' rule: rev_induct)
    case (snoc x xs)
    obtain owner signer u where x: "x = (owner, signer, u)" by (cases x)
    obtain m1 where m1: "cas_run (map made xs) m = Some m1" "m1 (owner, spk_public_key_hash signer) = pu_original u"
        "m' = m1((owner, spk_public_key_hash signer) := pu_updated u)"
      using snoc.prems by (auto simp: x cas_run_snoc)
    have "length (updates (add_write owner signer u p)) \<le> length (updates p) + 1" for p
      by (cases "updates p") (auto simp: add_write_def retarget_last_eq)
    moreover note IH = snoc.IH [OF m1(1)]
    ultimately have "length (updates (add_writes (xs @ [x]) pointers_new)) \<le> length (xs @ [x])"
      unfolding x add_writes_snoc by (metis IH add_le_mono1 le_trans length_append_singleton Suc_eq_plus1)
    then show ?case using add_write_run [OF conjunct1 [OF IH] m1(2)] unfolding m1(3) x add_writes_snoc by (rule conjI [rotated])
  qed (simp add: pointers_new_def)
  note run = this [folded assms(2)]
  have "st' = st \<and> (\<exists>u. r = Inr u \<and> pu_updated u = m' (owner, writer))"
    if "one_owner (updates p)" "w \<in> set (updates p)" "wu_writer w = writer" "wu_owner w = owner"
      "buffered_pointer_target E T sg p owner writer st = (r, st')" for owner writer w st r st'
  proof (cases "List.find (\<lambda>w. wu_writer w = writer) (rev (updates p))")
    case None
    then show ?thesis using that by (auto simp: find_None_iff)
  next
    case (Some v)
    from cas_run_latest [OF conjunct1 [OF run] that(1) this] have "pu_updated (wu_update v) = m' (wu_owner v, writer)" "wu_writer v = writer" "v \<in> set (updates p)"
      by auto
    then have "wu_owner v = owner" using that(1-4) unfolding one_owner_def by metis
    then show ?thesis using that(5) Some \<open>pu_updated (wu_update v) = m' (wu_owner v, writer)\<close> by (auto simp: buffered_pointer_target_def)
  qed
  then have "\<forall>owner writer st r st'. (\<exists>w \<in> set (updates p). wu_writer w = writer \<and> wu_owner w = owner) \<longrightarrow>
        buffered_pointer_target E T sg p owner writer st = (r, st') \<longrightarrow>
        st' = st \<and> (\<exists>u. r = Inr u \<and> pu_updated u = m' (owner, writer))" if "one_owner (updates p)"
    using that by (intro allI impI, elim bexE conjE)
  from impI [OF this] run show ?thesis by (intro conjI) (elim conjE, assumption)+
qed

definition demo_writes :: "pointer_write list" where
  "demo_writes =
     [(demo_owner, \<lparr>spk_public_key_hash = demo_owner, spk_secret = \<lparr>ssk_bytes = []\<rparr>\<rparr>, \<lparr>pu_original = None, pu_updated = Some (block_cid demo_sha False [1]), pu_sequence = Some 1\<rparr>),
      (demo_owner, \<lparr>spk_public_key_hash = demo_owner, spk_secret = \<lparr>ssk_bytes = []\<rparr>\<rparr>,
       \<lparr>pu_original = Some (block_cid demo_sha False [1]), pu_updated = Some (block_cid demo_sha False [2]), pu_sequence = Some 2\<rparr>)]"

theorem buffered_pointers_refine_witness:
  "\<exists>m'. cas_run (map made demo_writes) (\<lambda>_. None) = Some m' \<and>
     cas_run (map buffered (updates (add_writes demo_writes pointers_new))) (\<lambda>_. None) = Some m' \<and>
     m' (demo_owner, demo_owner) = Some (block_cid demo_sha False [2]) \<and> length (updates (add_writes demo_writes pointers_new)) = 1"
proof -
  obtain m' where m': "cas_run (map made demo_writes) (\<lambda>_. None) = Some m'" "m' (demo_owner, demo_owner) = Some (block_cid demo_sha False [2])"
    by (simp add: demo_writes_def made_def cas_step_def)
  have "length (updates (add_writes demo_writes pointers_new)) = 1"
    by (simp add: demo_writes_def add_writes_def add_write_def pointers_new_def retarget_last_def)
  then show ?thesis using m' buffered_pointers_refine [OF m'(1) refl] by blast
qed

end
