(* ===== verification/Commit_Split.thy ===== *)
theory Commit_Split
  imports Buffered_Net Buffered_Props
begin

text \<open>
  What the split of an oversized commit promises: every call is within the limits of the server, every block is sent exactly
  once, and the last call, which carries the pointers, holds the top of each writer's tree.
\<close>

section \<open>Breadth first order\<close>

text \<open>The blocks of \<open>B\<close> that a path of links in \<open>B\<close> reaches from the root.\<close>

inductive rooted :: "inline_block set \<Rightarrow> cid option \<Rightarrow> inline_block \<Rightarrow> bool" for B :: "inline_block set" and r :: "cid option" where
  rooted_root: "b \<in> B \<Longrightarrow> r = Some (ib_cid b) \<Longrightarrow> rooted B r b"
| rooted_link: "rooted B r a \<Longrightarrow> b \<in> B \<Longrightarrow> ib_cid b \<in> set (block_links (ib_is_raw a) (ib_data a)) \<Longrightarrow> rooted B r b"

text \<open>Every block of the list is the root or linked from an earlier one.\<close>

definition linked_order :: "cid option \<Rightarrow> inline_block list \<Rightarrow> bool" where
  "linked_order r bs \<longleftrightarrow>
     (\<forall>i < length bs. r = Some (ib_cid (bs ! i)) \<or> (\<exists>a \<in> set (take i bs). ib_cid (bs ! i) \<in> set (block_links (ib_is_raw a) (ib_data a))))"

lemma linked_order_snoc:
  "linked_order r bs \<Longrightarrow> r = Some (ib_cid b) \<or> (\<exists>a \<in> set bs. ib_cid b \<in> set (block_links (ib_is_raw a) (ib_data a))) \<Longrightarrow>
   linked_order r (bs @ [b])"
  by (auto simp: linked_order_def nth_append less_Suc_eq)

lemma linked_order_take: "linked_order r bs \<Longrightarrow> linked_order r (take n bs)"
  by (auto simp: linked_order_def min_def)

lemma linked_order_rooted:
  assumes "linked_order r bs" "b \<in> set bs"
  shows "rooted (set bs) r b"
proof -
  have "rooted (set bs) r (bs ! i)" if "i < length bs" for i
    using that
  proof (induction i rule: less_induct)
    case (less i)
    consider "r = Some (ib_cid (bs ! i))" | a where "a \<in> set (take i bs)" "ib_cid (bs ! i) \<in> set (block_links (ib_is_raw a) (ib_data a))"
      using assms(1) less.prems by (auto simp: linked_order_def)
    then show ?case
    proof cases
      case 1
      then show ?thesis using less.prems by (simp add: rooted_root)
    next
      case 2
      then obtain j where "j < i" "bs ! j = a" by (auto simp: in_set_conv_nth)
      then have "rooted (set bs) r a" using less.IH [of j] less.prems by auto
      then show ?thesis using 2(2) less.prems by (auto intro: rooted_link)
    qed
  qed
  then show ?thesis using assms(2) by (metis in_set_conv_nth)
qed

definition keyed :: "(cid \<times> inline_block) list \<Rightarrow> bool" where
  "keyed m \<longleftrightarrow> distinct (map fst m) \<and> (\<forall>(c, b) \<in> set m. ib_cid b = c)"

lemma keyed_delete:
  assumes "keyed m" "map_of m c = Some b"
  shows "keyed (AList.delete c m)" "add_mset b (mset (map snd (AList.delete c m))) = mset (map snd m)" "ib_cid b = c"
proof -
  show "keyed (AList.delete c m)" using assms(1) by (auto simp: keyed_def AList.delete_eq distinct_map inj_on_def)
  show "ib_cid b = c" using assms by (auto simp: keyed_def dest!: map_of_SomeD)
  have "distinct (map fst m) \<Longrightarrow> map_of m c = Some b \<Longrightarrow> add_mset b (mset (map snd (AList.delete c m))) = mset (map snd m)"
  proof (induction m)
    case (Cons p m)
    show ?case
    proof (cases "fst p = c")
      case True
      then have "AList.delete c m = m" using Cons.prems(1) by (intro AList.delete_id) auto
      then show ?thesis using True Cons.prems(2) by (cases p) auto
    next
      case False
      then show ?thesis using Cons by (cases p) auto
    qed
  qed simp
  then show "add_mset b (mset (map snd (AList.delete c m))) = mset (map snd m)" using assms by (simp add: keyed_def)
qed

definition bfs_done :: "cid option \<Rightarrow> (cid \<times> inline_block) list \<Rightarrow> inline_block list \<Rightarrow> cid list \<Rightarrow> inline_block list \<Rightarrow> (cid \<times> inline_block) list \<Rightarrow> bool" where
  "bfs_done r m ordered queue out left \<longleftrightarrow> linked_order r out \<and> set left \<subseteq> set m \<and>
     mset out + mset (map snd left) = mset ordered + mset (map snd m) \<and> (\<forall>c \<in> set queue. map_of left c = None) \<and>
     (\<forall>a \<in> set out. \<forall>c \<in> set (block_links (ib_is_raw a) (ib_data a)). map_of left c = None)"

lemma map_of_subset_None: "set l \<subseteq> set m \<Longrightarrow> map_of m c = None \<Longrightarrow> map_of l c = None"
  by (auto simp: map_of_eq_None_iff)

lemma bfs_order:
  assumes "keyed m" "linked_order r ordered"
    and "\<forall>c \<in> set queue. r = Some c \<or> (\<exists>a \<in> set ordered. c \<in> set (block_links (ib_is_raw a) (ib_data a)))"
    and "\<forall>a \<in> set ordered. \<forall>c \<in> set (block_links (ib_is_raw a) (ib_data a)). map_of m c \<noteq> None \<longrightarrow> c \<in> set queue"
    and "bfs m ordered queue = (out, left)"
  shows "bfs_done r m ordered queue out left"
  using assms
proof (induction m ordered queue rule: bfs.induct)
  case (1 m ordered)
  then show ?case by (fastforce simp: bfs_done_def)
next
  case (2 m ordered c queue)
  show ?case
  proof (cases "map_of m c")
    case None
    have out: "bfs m ordered queue = (out, left)" using "2.prems"(5) None by simp
    have "\<forall>a \<in> set ordered. \<forall>x \<in> set (block_links (ib_is_raw a) (ib_data a)). map_of m x \<noteq> None \<longrightarrow> x \<in> set queue"
      using "2.prems"(4) None by fastforce
    from "2.IH"(1) [OF None "2.prems"(1,2) _ this out] "2.prems"(3) have IH: "bfs_done r m ordered queue out left" by simp
    then have "map_of left c = None" using None map_of_subset_None by (auto simp: bfs_done_def)
    then show ?thesis using IH by (simp add: bfs_done_def)
  next
    case (Some b)
    note del = keyed_delete [OF "2.prems"(1) Some]
    let ?m = "AList.delete c m" and ?q = "queue @ block_links (ib_is_raw b) (ib_data b)"
    have out: "bfs ?m (ordered @ [b]) ?q = (out, left)" using "2.prems"(5) Some by simp
    have lo: "linked_order r (ordered @ [b])"
      by (rule linked_order_snoc [OF "2.prems"(2)]) (use "2.prems"(3) del(3) in auto)
    have q: "\<forall>x \<in> set ?q. r = Some x \<or> (\<exists>a \<in> set (ordered @ [b]). x \<in> set (block_links (ib_is_raw a) (ib_data a)))"
      using "2.prems"(3) by auto
    have "x \<in> set ?q" if a: "a \<in> set (ordered @ [b])" "x \<in> set (block_links (ib_is_raw a) (ib_data a))" "map_of ?m x \<noteq> None" for a x
    proof (cases "a = b")
      case False
      have "x \<noteq> c" using a(3) by (auto simp: AList.delete_conv')
      moreover have "map_of m x \<noteq> None" using a(3) \<open>x \<noteq> c\<close> by (simp add: AList.delete_conv')
      ultimately show ?thesis using "2.prems"(4) a(1,2) False by auto
    qed (use a in simp)
    then have "\<forall>a \<in> set (ordered @ [b]). \<forall>x \<in> set (block_links (ib_is_raw a) (ib_data a)). map_of ?m x \<noteq> None \<longrightarrow> x \<in> set ?q" by blast
    from "2.IH"(2) [OF Some del(1) lo q this out] have IH: "bfs_done r ?m (ordered @ [b]) ?q out left" .
    have sub: "set ?m \<subseteq> set m" by (auto simp: AList.delete_eq)
    have "map_of left c = None"
      using IH map_of_subset_None [of left ?m c] by (simp add: bfs_done_def AList.delete_conv')
    moreover have "mset out + mset (map snd left) = mset ordered + mset (map snd m)"
      using IH del(2) by (simp add: bfs_done_def)
    ultimately show ?thesis using IH sub unfolding bfs_done_def by auto
  qed
qed

lemma keyed_init:
  assumes "distinct (map ib_cid bs)"
  shows "foldl (\<lambda>m b. AList.update (ib_cid b) b m) [] bs = map (\<lambda>b. (ib_cid b, b)) bs" "keyed (map (\<lambda>b. (ib_cid b, b)) bs)"
proof -
  show "foldl (\<lambda>m b. AList.update (ib_cid b) b m) [] bs = map (\<lambda>b. (ib_cid b, b)) bs"
    using assms by (induction bs rule: rev_induct) (auto simp: update_new image_iff)
  show "keyed (map (\<lambda>b. (ib_cid b, b)) bs)" using assms by (auto simp: keyed_def comp_def)
qed

lemma from_root_first_order:
  assumes "orders_ok ho" "distinct (map ib_cid bs)"
  shows "mset (from_root_first ho bs r) = mset bs"
    "(\<forall>b \<in> set bs. rooted (set bs) r b) \<Longrightarrow> linked_order r (from_root_first ho bs r)"
proof -
  let ?m = "map (\<lambda>b. (ib_cid b, b)) bs" and ?q = "case r of Some r \<Rightarrow> [r] | None \<Rightarrow> []"
  obtain out left where run: "bfs ?m [] ?q = (out, left)" by (meson surj_pair)
  have "bfs_done r ?m [] ?q out left"
    by (rule bfs_order [OF keyed_init(2) [OF assms(2)] _ _ _ run]) (auto simp: linked_order_def split: option.splits)
  then have d: "linked_order r out" "set left \<subseteq> set ?m" "mset out + mset (map snd left) = mset bs" "\<forall>c \<in> set ?q. map_of left c = None"
      "\<forall>a \<in> set out. \<forall>c \<in> set (block_links (ib_is_raw a) (ib_data a)). map_of left c = None"
    by (auto simp: bfs_done_def comp_def)
  have eq: "from_root_first ho bs r = out @ map snd (ord_inline ho left)"
    using run by (simp add: from_root_first_def keyed_init(1) [OF assms(2)])
  have perm: "mset (ord_inline ho left) = mset left" using assms(1) by (simp add: orders_ok_def)
  then show "mset (from_root_first ho bs r) = mset bs" using d(3) by (simp add: eq)
  assume all: "\<forall>b \<in> set bs. rooted (set bs) r b"
  have "b \<in> set out" if "rooted (set bs) r b" for b
  proof -
    have in_out: "b \<in> set out" if "b \<in> set bs" "map_of left (ib_cid b) = None" for b
    proof -
      have "b \<in># mset out + mset (map snd left)" using d(3) that(1) by simp
      moreover have "b \<notin> snd ` set left" using that(2) d(2) by (force simp: map_of_eq_None_iff)
      ultimately show ?thesis by auto
    qed
    show ?thesis using that
    proof induction
      case (rooted_root b)
      then show ?case using d(4) in_out by simp
    next
      case (rooted_link a b)
      then show ?case using d(5) in_out by blast
    qed
  qed
  then have "set left = {}"
  proof -
    have "snd ` set left \<subseteq> set out" using d(2) all \<open>\<And>b. rooted (set bs) r b \<Longrightarrow> b \<in> set out\<close> by auto
    moreover have eq: "mset (out @ map snd left) = mset bs" using d(3) by simp
    have "distinct bs" using assms(2) by (simp add: distinct_map)
    then have "distinct (out @ map snd left)" unfolding mset_eq_imp_distinct_iff [OF eq] .
    then have "set out \<inter> snd ` set left = {}" by simp
    ultimately have "snd ` set left = {}" by (simp add: inf.absorb2)
    then show ?thesis by simp
  qed
  then have "left = []" by simp
  then show "linked_order r (from_root_first ho bs r)" using d(1) perm by (simp add: eq)
qed

section \<open>Groups and calls\<close>

definition blocks_size :: "inline_block list \<Rightarrow> nat" where
  "blocks_size bs = sum_list (map (\<lambda>b. length (ib_data b)) bs)"

lemma blocks_size_simps [simp]:
  "blocks_size [] = 0" "blocks_size (b # bs) = length (ib_data b) + blocks_size bs" "blocks_size (as @ bs) = blocks_size as + blocks_size bs"
  by (simp_all add: blocks_size_def)

text \<open>Every block fits in a call on its own; if \<open>ne\<close>, then no block is empty.\<close>

definition sendable :: "bool \<Rightarrow> inline_block list \<Rightarrow> bool" where
  "sendable ne bs \<longleftrightarrow> (\<forall>b \<in> set bs. length (ib_data b) \<le> MAX_BULK_INLINE \<and> (ne \<longrightarrow> ib_data b \<noteq> []))"

definition group_ok :: "bool \<Rightarrow> inline_block list \<Rightarrow> bool" where
  "group_ok ne g \<longleftrightarrow> g \<noteq> [] \<and> blocks_size g \<le> MAX_BULK_INLINE \<and> length g \<le> MAX_BULK_COMMIT_BLOCKS \<and> sendable ne g"

lemma make_groups_ok:
  assumes "list_all (group_ok ne) groups" "groups \<noteq> [] \<longrightarrow> group_size = blocks_size (last groups)" "sendable ne bs"
  shows "list_all (group_ok ne) (make_groups groups group_size bs) \<and> concat (make_groups groups group_size bs) = concat groups @ bs"
  using assms
proof (induction groups group_size bs rule: make_groups.induct)
  case (2 groups group_size b bs)
  have b: "length (ib_data b) \<le> MAX_BULK_INLINE" "ne \<longrightarrow> ib_data b \<noteq> []" and bs: "sendable ne bs"
    using "2.prems"(3) by (auto simp: sendable_def)
  show ?case
  proof (cases "groups = [] \<or> group_size + length (ib_data b) > MAX_BULK_INLINE \<or> length (last groups) \<ge> MAX_BULK_COMMIT_BLOCKS")
    case True
    have "group_ok ne [b]" using b by (simp add: group_ok_def sendable_def)
    then have "list_all (group_ok ne) (groups @ [[b]])" using "2.prems"(1) by simp
    from "2.IH"(1) [OF True this _ bs] show ?thesis unfolding make_groups.simps if_P [OF True] by simp
  next
    case False
    then have ne: "groups \<noteq> []" and fit: "group_size + length (ib_data b) \<le> MAX_BULK_INLINE" "length (last groups) < MAX_BULK_COMMIT_BLOCKS" by auto
    obtain gs g where gs: "groups = gs @ [g]" using ne by (metis append_butlast_last_id)
    have "group_ok ne (g @ [b])" using "2.prems"(1,2) ne fit b by (auto simp: gs group_ok_def sendable_def)
    then have "list_all (group_ok ne) (butlast groups @ [last groups @ [b]])" using "2.prems"(1) by (simp add: gs)
    moreover have "butlast groups @ [last groups @ [b]] \<noteq> [] \<longrightarrow> group_size + length (ib_data b) = blocks_size (last (butlast groups @ [last groups @ [b]]))"
      using "2.prems"(2) ne by simp
    ultimately show ?thesis using "2.IH"(2) [OF False _ _ bs] unfolding make_groups.simps if_not_P [OF False] by (simp add: gs)
  qed
qed simp

type_synonym sent = "public_key_hash \<times> bool \<times> bytes"

definition wc_sent :: "writer_commit \<Rightarrow> sent multiset" where
  "wc_sent w = mset (map (\<lambda>d. (wc_writer w, False, d)) (cbor_blocks w) @ map (\<lambda>d. (wc_writer w, True, d)) (raw_blocks w))"

definition call_sent :: "writer_commit list \<Rightarrow> sent multiset" where
  "call_sent ws = (\<Sum>w \<leftarrow> ws. wc_sent w)"

definition blocks_sent :: "public_key_hash \<Rightarrow> inline_block list \<Rightarrow> sent multiset" where
  "blocks_sent w bs = mset (map (\<lambda>b. (w, ib_is_raw b, ib_data b)) bs)"

lemma blocks_sent_simps [simp]:
  "blocks_sent w [] = {#}" "blocks_sent w (as @ bs) = blocks_sent w as + blocks_sent w bs"
  by (simp_all add: blocks_sent_def)

lemma group_commit_ok:
  assumes "group_commit E sha256 writer signer sq g = Inr wc"
  shows "wc_inline_size wc = blocks_size g" "wc_block_count wc = length g" "wc_sent wc = blocks_sent writer g"
    "wc_writer wc = writer" "pre_written wc = []" "wc_pointer wc = None"
proof -
  obtain sig where wc: "wc = \<lparr>wc_writer = writer, cbor_blocks = map ib_data (filter (\<lambda>b. \<not> ib_is_raw b) g), raw_blocks = map ib_data (filter ib_is_raw g),
      pre_written = [], wc_pointer = None, block_list_signature = Some sig\<rparr>"
    using assms by (auto simp: group_commit_def Let_def and_then_Inr_iff)
  have "sum_list (map length (map ib_data (filter (\<lambda>b. \<not> ib_is_raw b) g) @ map ib_data (filter ib_is_raw g))) = blocks_size g"
    by (induction g) auto
  then show "wc_inline_size wc = blocks_size g" by (simp add: wc wc_inline_size_def)
  have "length (filter (\<lambda>b. \<not> ib_is_raw b) g) + length (filter ib_is_raw g) = length g" by (induction g) auto
  then show "wc_block_count wc = length g" by (simp add: wc wc_block_count_def)
  have "mset (map (\<lambda>d. (writer, False, d)) (map ib_data (filter (\<lambda>b. \<not> ib_is_raw b) g)) @ map (\<lambda>d. (writer, True, d)) (map ib_data (filter ib_is_raw g))) =
      blocks_sent writer g" by (induction g) (auto simp: blocks_sent_def)
  then show "wc_sent wc = blocks_sent writer g" by (simp add: wc wc_sent_def)
qed (use assms in \<open>auto simp: group_commit_def Let_def and_then_Inr_iff\<close>)

definition call_ok :: "bool \<Rightarrow> writer_commit list \<Rightarrow> bool" where
  "call_ok ne ws \<longleftrightarrow> ws \<noteq> [] \<and> sum_list (map wc_inline_size ws) \<le> MAX_BULK_INLINE \<and>
     (ne \<longrightarrow> sum_list (map wc_block_count ws) \<le> MAX_BULK_COMMIT_BLOCKS) \<and>
     (\<forall>w \<in> set ws. wc_pointer w = None \<and> pre_written w = [])"

definition calls_ok :: "bool \<Rightarrow> calls \<Rightarrow> bool" where
  "calls_ok ne acc = (case acc of (cs, used, cnt) \<Rightarrow> list_all (call_ok ne) cs \<and>
     (cs \<noteq> [] \<longrightarrow> (ne \<longrightarrow> 0 < used) \<and> used = sum_list (map wc_inline_size (last cs)) \<and> cnt = sum_list (map wc_block_count (last cs))))"

definition calls_sent :: "calls \<Rightarrow> sent multiset" where
  "calls_sent acc = (\<Sum>c \<leftarrow> fst acc. call_sent c)"

lemma group_ok_size: "group_ok True g \<Longrightarrow> 0 < blocks_size g"
  by (cases g) (auto simp: group_ok_def sendable_def)

lemma add_groups_ok:
  assumes "list_all (group_ok ne) gs" "calls_ok ne acc" "add_groups E sha256 writer signer sq acc gs = Inr acc'"
  shows "calls_ok ne acc' \<and> calls_sent acc' = calls_sent acc + blocks_sent writer (concat gs)"
  using assms
proof (induction gs arbitrary: acc)
  case (Cons g gs)
  obtain cs used cnt where acc: "acc = (cs, used, cnt)" by (cases acc)
  let ?fresh = "cs = [] \<or> used > 0 \<and> (used + blocks_size g > MAX_BULK_INLINE \<or> cnt + length g > MAX_BULK_COMMIT_BLOCKS)"
  let ?next = "\<lambda>wc. if ?fresh then (cs @ [[wc]], blocks_size g, length g) else (butlast cs @ [last cs @ [wc]], used + blocks_size g, cnt + length g)"
  obtain wc where wc: "group_commit E sha256 writer signer sq g = Inr wc" and more: "add_groups E sha256 writer signer sq (?next wc) gs = Inr acc'"
    using Cons.prems(3) unfolding acc add_groups.simps Let_def blocks_size_def [symmetric] and_then_Inr_iff by blast
  note w = group_commit_ok [OF wc]
  have g: "group_ok ne g" "ne \<longrightarrow> 0 < blocks_size g" using Cons.prems(1) group_ok_size by (cases ne; auto)+
  have "calls_ok ne (?next wc) \<and> calls_sent (?next wc) = calls_sent acc + blocks_sent writer g"
  proof (cases ?fresh)
    case True
    then show ?thesis using Cons.prems(2) g w by (simp add: acc calls_ok_def call_ok_def group_ok_def calls_sent_def call_sent_def)
  next
    case False
    then have "cs \<noteq> []" by simp
    then obtain cs' c where cs: "cs = cs' @ [c]" by (metis append_butlast_last_id)
    have u: "ne \<longrightarrow> 0 < used" "used = sum_list (map wc_inline_size c)" "cnt = sum_list (map wc_block_count c)" "call_ok ne c" "list_all (call_ok ne) cs'"
      using Cons.prems(2) by (auto simp: acc calls_ok_def cs)
    have "blocks_size g \<le> MAX_BULK_INLINE" using g(1) by (simp add: group_ok_def)
    then have fit: "used + blocks_size g \<le> MAX_BULK_INLINE" "ne \<longrightarrow> cnt + length g \<le> MAX_BULK_COMMIT_BLOCKS" using False u(1) by auto
    have "?next wc = (cs' @ [c @ [wc]], used + blocks_size g, cnt + length g)" using False by (simp add: cs)
    then show ?thesis using u fit g(2) w by (simp add: acc cs calls_ok_def call_ok_def calls_sent_def call_sent_def)
  qed
  then show ?case using Cons.IH [OF _ _ more] Cons.prems(1) by (simp add: add.assoc)
qed simp

lemma defer_calls_ok:
  assumes "\<forall>(w, bs) \<in> set ds. sendable ne bs" "calls_ok ne acc" "defer_calls E sha256 ws acc ds = Inr acc'"
  shows "calls_ok ne acc' \<and> calls_sent acc' = calls_sent acc + (\<Sum>(w, bs) \<leftarrow> ds. blocks_sent w bs)"
  using assms
proof (induction ds arbitrary: acc)
  case (Cons d ds)
  obtain writer bs where d: "d = (writer, bs)" by (cases d)
  obtain signer acc1 where 1: "add_groups E sha256 writer signer (next_sequence ws writer) acc (make_groups [] 0 bs) = Inr acc1"
      "defer_calls E sha256 ws acc1 ds = Inr acc'"
    using Cons.prems(3) by (auto simp: d and_then_Inr_iff)
  have "list_all (group_ok ne) (make_groups [] 0 bs) \<and> concat (make_groups [] 0 bs) = bs"
    using make_groups_ok [of _ "[]" 0 bs] Cons.prems(1) by (auto simp: d)
  then have "calls_ok ne acc1 \<and> calls_sent acc1 = calls_sent acc + blocks_sent writer bs"
    using add_groups_ok [OF _ Cons.prems(2) 1(1)] by simp
  then show ?case using Cons.IH [OF _ _ 1(2)] Cons.prems(1) by (simp add: d add.assoc)
qed simp

section \<open>The last call\<close>

definition mk_inline :: "(bytes \<Rightarrow> bytes) \<Rightarrow> bool \<Rightarrow> bytes \<Rightarrow> inline_block" where
  "mk_inline sha256 raw d = \<lparr>ib_cid = block_cid sha256 raw d, ib_data = d, ib_is_raw = raw\<rparr>"

lemma mk_inline_simps [simp]: "ib_data (mk_inline sha256 raw d) = d" "ib_is_raw (mk_inline sha256 raw d) = raw"
  by (simp_all add: mk_inline_def)

definition wc_inline :: "(bytes \<Rightarrow> bytes) \<Rightarrow> writer_commit \<Rightarrow> inline_block list" where
  "wc_inline sha256 w = map (mk_inline sha256 False) (cbor_blocks w) @ map (mk_inline sha256 True) (raw_blocks w)"

lemma inline_blocks_eq:
  assumes "\<forall>b. length (sha256 b) = 32"
  shows "inline_blocks sha256 w = Inr (wc_inline sha256 w)"
proof -
  have "collect_results (\<lambda>(raw, data). and_then (build_cid (sha256 data) raw) (\<lambda>c. Inr \<lparr>ib_cid = c, ib_data = data, ib_is_raw = raw\<rparr>)) xs =
      Inr (map (\<lambda>(raw, d). mk_inline sha256 raw d) xs)" for xs
    using assms by (induction xs) (auto simp: build_cid_32 mk_inline_def)
  then show ?thesis by (simp add: inline_blocks_def wc_inline_def comp_def)
qed

lemma wc_inline_sent: "wc_sent w = blocks_sent (wc_writer w) (wc_inline sha256 w)"
  by (simp add: wc_sent_def blocks_sent_def wc_inline_def comp_def)

lemma take_budget_ok:
  "take_budget budget n bs = (taken, left, budget', n') \<Longrightarrow>
   taken @ left = bs \<and> budget' + blocks_size taken = budget \<and> n' + length taken = n"
  by (induction budget n bs arbitrary: taken left budget' n' rule: take_budget.induct) (auto split: if_splits prod.splits)

definition from_blocks :: "(bytes \<Rightarrow> bytes) \<Rightarrow> inline_block list \<Rightarrow> bool" where
  "from_blocks sha256 bs \<longleftrightarrow> (\<forall>b \<in> set bs. mk_inline sha256 (ib_is_raw b) (ib_data b) = b)"

lemma taken_commit:
  assumes "from_blocks sha256 taken" "cbor_blocks l = data_of False taken" "raw_blocks l = data_of True taken"
  shows "set (wc_inline sha256 l) = set taken" "wc_inline_size l = blocks_size taken" "wc_block_count l = length taken"
    "wc_sent l = blocks_sent (wc_writer l) taken"
proof -
  show "set (wc_inline sha256 l) = set taken"
  proof -
    have "mk_inline sha256 False ` set (data_of False xs) \<union> mk_inline sha256 True ` set (data_of True xs) =
        (\<lambda>b. mk_inline sha256 (ib_is_raw b) (ib_data b)) ` set xs" for xs
      by (induction xs) (auto simp: data_of_def)
    then show ?thesis using assms(1) by (simp add: wc_inline_def assms(2,3) from_blocks_def)
  qed
  have "sum_list (map length (data_of False taken @ data_of True taken)) = blocks_size taken" by (induction taken) (auto simp: data_of_def)
  then show "wc_inline_size l = blocks_size taken" by (simp add: wc_inline_size_def assms)
  have "length (data_of False taken) + length (data_of True taken) = length taken" by (induction taken) (auto simp: data_of_def)
  then show "wc_block_count l = length taken" by (simp add: wc_block_count_def assms)
  have "mset (map (\<lambda>d. (wc_writer l, False, d)) (data_of False taken) @ map (\<lambda>d. (wc_writer l, True, d)) (data_of True taken)) =
      blocks_sent (wc_writer l) taken"
    by (induction taken) (auto simp: data_of_def blocks_sent_def)
  then show "wc_sent l = blocks_sent (wc_writer l) taken" by (simp add: wc_sent_def assms)
qed

text \<open>Writer \<open>l\<close> of the last call against writer \<open>w\<close> of the commit, whose new root is \<open>r\<close>.\<close>

definition top_of :: "(bytes \<Rightarrow> bytes) \<Rightarrow> cid option \<Rightarrow> writer_commit \<Rightarrow> writer_commit \<Rightarrow> bool" where
  "top_of sha256 r w l \<longleftrightarrow> wc_writer l = wc_writer w \<and> pre_written l = pre_written w \<and> wc_pointer l = wc_pointer w \<and>
     ((\<forall>b \<in> set (wc_inline sha256 w). rooted (set (wc_inline sha256 w)) r b) \<longrightarrow>
      (\<forall>b \<in> set (wc_inline sha256 l). rooted (set (wc_inline sha256 l)) r b))"

definition wc_sendable :: "(bytes \<Rightarrow> bytes) \<Rightarrow> bool \<Rightarrow> writer_commit \<Rightarrow> bool" where
  "wc_sendable sha256 ne w \<longleftrightarrow> distinct (map ib_cid (wc_inline sha256 w)) \<and> sendable ne (wc_inline sha256 w)"

lemma split_last_ok:
  assumes "orders_ok ho" "\<forall>b. length (sha256 b) = 32" "list_all (wc_sendable sha256 ne) ws"
    and "split_last sha256 ho budget n ws starts = Inr (lasts, deferred)"
  shows "sum_list (map wc_inline_size lasts) \<le> budget \<and> sum_list (map wc_block_count lasts) \<le> n \<and> map pre_written lasts = map pre_written ws \<and>
    list_all (\<lambda>(r, w, l). top_of sha256 r w l) (zip starts (zip ws lasts)) \<and>
    (\<forall>(w, bs) \<in> set deferred. sendable ne bs) \<and> call_sent lasts + (\<Sum>(w, bs) \<leftarrow> deferred. blocks_sent w bs) = call_sent ws"
  using assms(3,4)
proof (induction ws arbitrary: budget n starts lasts deferred)
  case (Cons w ws)
  obtain r starts' where st: "starts = r # starts'" using Cons.prems(2) by (cases starts) (auto simp: and_then_Inr_iff)
  let ?bs = "wc_inline sha256 w"
  have d: "distinct (map ib_cid ?bs)" "sendable ne ?bs" using Cons.prems(1) by (auto simp: wc_sendable_def)
  obtain taken left budget' n' where tb: "take_budget budget n (from_root_first ho ?bs r) = (taken, left, budget', n')"
    by (metis prod_cases4)
  note t = take_budget_ok [OF tb] and ord = from_root_first_order [OF assms(1) d(1), of r]
  obtain lasts' deferred' where IH: "split_last sha256 ho budget' n' ws starts' = Inr (lasts', deferred')"
      and out: "deferred = (if left = [] then deferred' else (wc_writer w, left) # deferred')"
      "lasts = \<lparr>wc_writer = wc_writer w, cbor_blocks = data_of False taken, raw_blocks = data_of True taken,
        pre_written = pre_written w, wc_pointer = wc_pointer w, block_list_signature = None\<rparr> # lasts'"
    using Cons.prems(2) by (auto simp: st inline_blocks_eq [OF assms(2)] tb and_then_Inr_iff)
  define l where "l = \<lparr>wc_writer = wc_writer w, cbor_blocks = data_of False taken, raw_blocks = data_of True taken,
        pre_written = pre_written w, wc_pointer = wc_pointer w, block_list_signature = None\<rparr>"
  have lasts: "lasts = l # lasts'" by (simp add: out(2) l_def)
  have ms: "mset taken + mset left = mset ?bs" using t ord(1) by (metis mset_append)
  then have sub: "set taken \<subseteq> set ?bs" "set left \<subseteq> set ?bs" by (metis set_mset_mset set_mset_union Un_upper1, metis set_mset_mset set_mset_union Un_upper2)
  have "from_blocks sha256 ?bs" by (auto simp: from_blocks_def wc_inline_def)
  then have fb: "from_blocks sha256 taken" using sub(1) by (auto simp: from_blocks_def)
  have cl: "cbor_blocks l = data_of False taken" "raw_blocks l = data_of True taken" "wc_writer l = wc_writer w" by (simp_all add: l_def)
  note tc = taken_commit [OF fb cl(1,2)]
  have "blocks_sent (wc_writer w) taken + blocks_sent (wc_writer w) left = wc_sent w"
    using ms unfolding wc_inline_sent [of w sha256] blocks_sent_def by (metis image_mset_union mset_map)
  then have sent: "wc_sent l + blocks_sent (wc_writer w) left = wc_sent w" by (simp add: tc(4) cl(3))
  have "linked_order r taken" if "\<forall>b \<in> set ?bs. rooted (set ?bs) r b"
    using linked_order_take [OF ord(2) [OF that], of "length taken"] t by (metis append_eq_conv_conj)
  then have "top_of sha256 r w l" using linked_order_rooted [of r taken] by (simp add: top_of_def l_def tc(1) [unfolded l_def])
  moreover have "sendable ne left" using d(2) sub(2) by (auto simp: sendable_def)
  moreover note Cons.IH [OF _ IH]
  ultimately show ?case using Cons.prems(1) t tc(2,3) sent
    by (simp add: lasts out(1) st call_sent_def add.assoc) (auto simp: ac_simps l_def)
qed (auto simp: call_sent_def)

section \<open>Splitting does not fail\<close>

definition signs_for :: "writer_update list \<Rightarrow> public_key_hash \<Rightarrow> bool" where
  "signs_for us writer \<longleftrightarrow> (\<exists>u \<in> set us. wu_writer u = writer) \<and> (\<forall>u \<in> set us. length (ssk_bytes (spk_secret (wu_signer u))) = 64)"

lemma concat_cids_total:
  assumes "\<forall>b. length (sha256 b) = 32" "from_blocks sha256 bs"
  shows "\<exists>out'. concat_cids out (map ib_cid bs) = Inr out'"
  using assms(2)
proof (induction bs arbitrary: out)
  case (Cons b bs)
  have "b = mk_inline sha256 (ib_is_raw b) (ib_data b)" using Cons.prems by (simp add: from_blocks_def)
  then have "cid_to_bytes (ib_cid b) = Inr (block_key sha256 (ib_is_raw b) (ib_data b))"
    using block_cid_bytes(1) assms(1) by (metis mk_inline_def inline_block.select_convs(1))
  then show ?case using Cons by (simp add: from_blocks_def cid_bytes_def)
qed simp

lemma group_commit_total:
  assumes "\<forall>b. length (sha256 b) = 32" "from_blocks sha256 g" "length (ssk_bytes (spk_secret signer)) = 64"
  shows "\<exists>wc. group_commit E sha256 writer signer sq g = Inr wc"
proof -
  have "from_blocks sha256 (filter (\<lambda>b. \<not> ib_is_raw b) g @ filter ib_is_raw g)" using assms(2) by (auto simp: from_blocks_def)
  from concat_cids_total [OF assms(1) this, of "[]"] show ?thesis
    using assms(3) by (auto simp: group_commit_def Let_def block_list_payload_def sign_message_def crypto_sign_def)
qed

lemma add_groups_total:
  assumes "\<forall>b. length (sha256 b) = 32" "from_blocks sha256 (concat gs)" "length (ssk_bytes (spk_secret signer)) = 64"
  shows "\<exists>acc'. add_groups E sha256 writer signer sq acc gs = Inr acc'"
  using assms(2)
proof (induction gs arbitrary: acc)
  case (Cons g gs)
  obtain cs used cnt where acc: "acc = (cs, used, cnt)" by (cases acc)
  have fb: "from_blocks sha256 g" "from_blocks sha256 (concat gs)" using Cons.prems by (auto simp: from_blocks_def)
  obtain wc where "group_commit E sha256 writer signer sq g = Inr wc" using group_commit_total [OF assms(1) fb(1) assms(3)] by blast
  moreover note fb(2)
  ultimately show ?case using Cons.IH by (simp add: acc Let_def)
qed auto

lemma find_signer_total:
  assumes "signs_for us writer"
  obtains signer where "find_signer us writer = Inr signer" "length (ssk_bytes (spk_secret signer)) = 64"
proof -
  obtain u where "List.find (\<lambda>w. wu_writer w = writer) us = Some u" "u \<in> set us"
    using assms by (cases "List.find (\<lambda>w. wu_writer w = writer) us") (auto simp: signs_for_def find_None_iff find_Some_iff)
  then show thesis using that assms by (auto simp: find_signer_def signs_for_def)
qed

lemma defer_calls_total:
  assumes "\<forall>b. length (sha256 b) = 32" "\<forall>(w, bs) \<in> set ds. sendable ne bs \<and> from_blocks sha256 bs \<and> signs_for us w"
  shows "\<exists>acc'. defer_calls E sha256 us acc ds = Inr acc'"
  using assms(2)
proof (induction ds arbitrary: acc)
  case (Cons d ds)
  obtain writer bs where d: "d = (writer, bs)" by (cases d)
  then have p: "sendable ne bs" "from_blocks sha256 bs" "signs_for us writer" using Cons.prems by auto
  obtain signer where s: "find_signer us writer = Inr signer" "length (ssk_bytes (spk_secret signer)) = 64"
    using p(3) by (rule find_signer_total)
  have "concat (make_groups [] 0 bs) = bs" using make_groups_ok [of _ "[]" 0 bs] p(1) by auto
  then obtain acc1 where "add_groups E sha256 writer signer (next_sequence us writer) acc (make_groups [] 0 bs) = Inr acc1"
    using add_groups_total [OF assms(1) _ s(2)] p(2) by metis
  then show ?case using Cons.IH [of acc1] Cons.prems by (simp add: d s(1))
qed auto

lemma split_last_total:
  assumes "orders_ok ho" "\<forall>b. length (sha256 b) = 32" "list_all (wc_sendable sha256 ne) ws" "length ws \<le> length starts"
  shows "\<exists>lasts deferred. split_last sha256 ho budget n ws starts = Inr (lasts, deferred) \<and>
    (\<forall>(w, bs) \<in> set deferred. from_blocks sha256 bs \<and> w \<in> wc_writer ` set ws)"
  using assms(3,4)
proof (induction ws arbitrary: budget n starts)
  case (Cons w ws)
  then obtain r starts' where st: "starts = r # starts'" by (cases starts) auto
  let ?bs = "wc_inline sha256 w"
  obtain taken left budget' n' where tb: "take_budget budget n (from_root_first ho ?bs r) = (taken, left, budget', n')"
    by (metis prod_cases4)
  obtain lasts deferred where IH: "split_last sha256 ho budget' n' ws starts' = Inr (lasts, deferred)"
      "\<forall>(w, bs) \<in> set deferred. from_blocks sha256 bs \<and> w \<in> wc_writer ` set ws"
    using Cons.IH [of starts' budget' n'] Cons.prems by (auto simp: st)
  have "mset (taken @ left) = mset ?bs"
    using take_budget_ok [OF tb] from_root_first_order(1) [OF assms(1)] Cons.prems(1) by (auto simp: wc_sendable_def)
  then have "set left \<subseteq> set ?bs" by (metis set_mset_mset set_append Un_upper2)
  then have "from_blocks sha256 left" by (auto simp: from_blocks_def wc_inline_def)
  then show ?case using IH by (fastforce simp: st inline_blocks_eq [OF assms(2)] tb)
qed simp

lemma split_returns:
  assumes "orders_ok ho" "\<forall>b. length (sha256 b) = 32" "list_all (wc_sendable sha256 ne) (writers commit)"
    and "length (writers commit) \<le> length starts" "\<forall>w \<in> set (writers commit). signs_for us (wc_writer w)"
  obtains blocks_only final where "split E sha256 ho commit us starts tid = Inr (blocks_only, final)"
proof -
  obtain lasts deferred where sl: "split_last sha256 ho MAX_BULK_INLINE (MAX_BULK_COMMIT_BLOCKS - pre_written_count commit) (writers commit) starts = Inr (lasts, deferred)"
      and d: "\<forall>(w, bs) \<in> set deferred. from_blocks sha256 bs \<and> w \<in> wc_writer ` set (writers commit)"
    using split_last_total [OF assms(1-4)] by blast
  have "\<forall>(w, bs) \<in> set deferred. sendable ne bs" using split_last_ok [OF assms(1-3) sl] by blast
  then have "\<forall>(w, bs) \<in> set deferred. sendable ne bs \<and> from_blocks sha256 bs \<and> signs_for us w" using d assms(5) by fastforce
  from defer_calls_total [OF assms(2) this] obtain acc where "defer_calls E sha256 us ([], 0, 0) deferred = Inr acc" by blast
  then show thesis using that sl by (cases acc) (simp add: split_def)
qed

definition no_empty :: "writer_commit list \<Rightarrow> bool" where
  "no_empty ws \<longleftrightarrow> (\<forall>w \<in> set ws. [] \<notin> set (cbor_blocks w @ raw_blocks w))"

lemma sendable_no_empty:
  assumes "list_all (wc_sendable sha256 False) ws"
  shows "list_all (wc_sendable sha256 (no_empty ws)) ws"
  using assms by (auto simp: list_all_iff wc_sendable_def sendable_def no_empty_def wc_inline_def)

text \<open>
  C6. A commit that is too big for one call is split, and split soundly.  Provided that every block fits in a call of its
  own, that no writer sends a block twice and that every writer has a key to sign with: the split succeeds; every call
  stays within the inline size the server accepts; the last call stays within the number of blocks unless the blocks
  written beforehand alone exceed it, and so do the calls before it if no block is empty; the calls before the last carry
  no pointer and are held by the transaction; all calls together send exactly the blocks of the commit, each under its
  writer; and the last call keeps all pointers and, for every writer whose blocks all hang off its new root, sends blocks
  that hang off that root by themselves.
\<close>

theorem split_sound:
  assumes "orders_ok ho" "\<forall>b. length (sha256 b) = 32" "list_all (wc_sendable sha256 False) (writers commit)"
    and "length (writers commit) \<le> length starts" "\<forall>w \<in> set (writers commit). signs_for us (wc_writer w)"
  shows "\<exists>blocks_only final. split E sha256 ho commit us starts tid = Inr (blocks_only, final) \<and>
    (\<forall>c \<in> set (final # blocks_only). inline_size c \<le> MAX_BULK_INLINE) \<and>
    block_count final + pre_written_count final \<le> max MAX_BULK_COMMIT_BLOCKS (pre_written_count commit) \<and>
    (no_empty (writers commit) \<longrightarrow> (\<forall>c \<in> set blocks_only. block_count c + pre_written_count c \<le> MAX_BULK_COMMIT_BLOCKS)) \<and>
    (\<forall>c \<in> set blocks_only. bc_tid c = Some tid \<and> writers c \<noteq> [] \<and> \<not> has_pointer_update c) \<and>
    (\<Sum>c \<leftarrow> final # blocks_only. call_sent (writers c)) = call_sent (writers commit) \<and>
    bc_tid final = bc_tid commit \<and> length (writers final) = length (writers commit) \<and>
    list_all (\<lambda>(r, w, l). top_of sha256 r w l) (zip starts (zip (writers commit) (writers final)))"
proof -
  let ?ne = "no_empty (writers commit)"
  note ws = sendable_no_empty [OF assms(3)]
  obtain blocks_only final where run: "split E sha256 ho commit us starts tid = Inr (blocks_only, final)"
    by (rule split_returns [OF assms])
  obtain lasts deferred cs used cnt where
      sl: "split_last sha256 ho MAX_BULK_INLINE (MAX_BULK_COMMIT_BLOCKS - pre_written_count commit) (writers commit) starts = Inr (lasts, deferred)"
      and dc: "defer_calls E sha256 us ([], 0, 0) deferred = Inr (cs, used, cnt)"
      and out: "blocks_only = map (\<lambda>c. \<lparr>bc_tid = Some tid, writers = c\<rparr>) (filter (\<lambda>c. c \<noteq> []) cs)" "final = \<lparr>bc_tid = bc_tid commit, writers = lasts\<rparr>"
    using run by (auto simp: split_def and_then_Inr_iff)
  note last = split_last_ok [OF assms(1,2) ws sl]
  have start: "calls_ok ?ne ([], 0, 0)" "calls_sent ([], 0, 0) = {#}" by (simp_all add: calls_ok_def calls_sent_def)
  have "\<forall>(w, bs) \<in> set deferred. sendable ?ne bs" using last by blast
  from defer_calls_ok [OF this start(1) dc]
  have dk: "calls_ok ?ne (cs, used, cnt) \<and> calls_sent (cs, used, cnt) = (\<Sum>(w, bs) \<leftarrow> deferred. blocks_sent w bs)" by (simp only: start(2) add_0)
  then have cs: "\<forall>c \<in> set cs. call_ok ?ne c" by (simp add: calls_ok_def list_all_iff)
  then have "filter (\<lambda>c. c \<noteq> []) cs = cs" by (auto simp: filter_id_conv call_ok_def)
  then have bo: "blocks_only = map (\<lambda>c. \<lparr>bc_tid = Some tid, writers = c\<rparr>) cs" by (simp add: out(1))
  have pre: "pre_written_count final = pre_written_count commit"
  proof -
    have "pre_written_count c = sum_list (map length (map pre_written (writers c)))" for c by (simp add: pre_written_count_def comp_def)
    then show ?thesis using last by (simp add: out(2) del: map_map)
  qed
  have "\<forall>c \<in> set (final # blocks_only). inline_size c \<le> MAX_BULK_INLINE"
    using cs last by (auto simp: bo out(2) inline_size_def call_ok_def)
  moreover have none: "pre_written_count c = 0" if "c \<in> set blocks_only" for c
    using cs that by (auto simp: bo pre_written_count_def call_ok_def)
  have "?ne \<longrightarrow> (\<forall>c \<in> set blocks_only. block_count c + pre_written_count c \<le> MAX_BULK_COMMIT_BLOCKS)"
    using cs by (simp add: none) (simp add: bo block_count_def call_ok_def)
  moreover have "block_count final + pre_written_count final \<le> max MAX_BULK_COMMIT_BLOCKS (pre_written_count commit)"
  proof -
    have "block_count final \<le> MAX_BULK_COMMIT_BLOCKS - pre_written_count commit" using last by (simp add: out(2) block_count_def)
    then show ?thesis unfolding pre by linarith
  qed
  moreover have "\<forall>c \<in> set blocks_only. bc_tid c = Some tid \<and> writers c \<noteq> [] \<and> \<not> has_pointer_update c"
    using cs by (auto simp: bo call_ok_def has_pointer_update_def list_ex_iff)
  moreover have "(\<Sum>c \<leftarrow> final # blocks_only. call_sent (writers c)) = call_sent (writers commit)"
    using last dk by (simp add: bo out(2) calls_sent_def comp_def)
  moreover have "length (writers final) = length (writers commit)" using last map_eq_imp_length_eq by (simp add: out(2)) blast
  ultimately show ?thesis using last by (intro exI [of _ blocks_only] exI [of _ final] conjI run) (simp_all add: out(2))
qed

section \<open>An oversized commit\<close>

text \<open>Two blocks of two million bytes, which do not fit in one call.\<close>

definition demo_commit :: bulk_commit where
  "demo_commit = \<lparr>bc_tid = None, writers = [\<lparr>wc_writer = demo_owner, cbor_blocks = [], raw_blocks = [replicate 2000000 5, replicate 2000000 6],
     pre_written = [], wc_pointer = None, block_list_signature = None\<rparr>]\<rparr>"

definition demo_write :: writer_update where
  "demo_write = \<lparr>wu_owner = demo_owner, wu_writer = demo_owner, wu_update = demo_update,
     wu_signer = \<lparr>spk_public_key_hash = demo_owner, spk_secret = \<lparr>ssk_bytes = replicate 64 7\<rparr>\<rparr>\<rparr>"

lemma sent_size: "sum_list (map wc_inline_size ws) = (\<Sum>x \<in># call_sent ws. length (snd (snd x)))"
proof -
  have "wc_inline_size w = (\<Sum>x \<in># wc_sent w. length (snd (snd x)))" for w
    by (simp add: wc_inline_size_def wc_sent_def multiset.map_comp comp_def flip: sum_mset_sum_list)
  then show ?thesis by (induction ws) (simp_all add: call_sent_def)
qed

theorem split_sound_witness:
  "\<exists>c cs final. split demo_ed demo_sha demo_orders demo_commit [demo_write] [None] ''t'' = Inr (c # cs, final) \<and>
     (\<forall>d \<in> set (final # c # cs). inline_size d \<le> MAX_BULK_INLINE \<and> block_count d \<le> MAX_BULK_COMMIT_BLOCKS) \<and>
     (\<Sum>d \<leftarrow> final # c # cs. call_sent (writers d)) = call_sent (writers demo_commit)"
proof -
  have sha: "demo_sha (replicate 2000000 x) = replicate 32 x" for x by (simp add: demo_sha_def)
  have c: "list_all (wc_sendable demo_sha False) (writers demo_commit)" "length (writers demo_commit) \<le> length [None :: cid option]"
    by (simp_all add: demo_commit_def wc_sendable_def sendable_def wc_inline_def mk_inline_def block_cid_def sha)
  have s: "\<forall>w \<in> set (writers demo_commit). signs_for [demo_write] (wc_writer w)" by (simp add: demo_commit_def demo_write_def signs_for_def)
  have ne: "no_empty (writers demo_commit)" "pre_written_count demo_commit = 0" by (simp_all add: demo_commit_def no_empty_def pre_written_count_def)
  have "\<forall>b. length (demo_sha b) = 32" using demo_params by (simp add: hash_params_def)
  from split_sound [OF demo_orders_ok this c s, of demo_ed "''t''"] ne obtain bs final where
      run: "split demo_ed demo_sha demo_orders demo_commit [demo_write] [None] ''t'' = Inr (bs, final)"
      and b: "\<forall>d \<in> set (final # bs). inline_size d \<le> MAX_BULK_INLINE \<and> block_count d \<le> MAX_BULK_COMMIT_BLOCKS"
      and sent: "(\<Sum>d \<leftarrow> final # bs. call_sent (writers d)) = call_sent (writers demo_commit)"
    by fastforce
  have "bs \<noteq> []"
  proof
    assume "bs = []"
    then have "inline_size final = sum_list (map wc_inline_size (writers demo_commit))" using sent by (simp add: inline_size_def sent_size)
    then show False using b by (simp add: demo_commit_def wc_inline_size_def)
  qed
  then obtain c cs where "bs = c # cs" by (cases bs) auto
  then show ?thesis using run b sent by blast
qed

end
