(* ===== verification/Buffered_Ram.thy ===== *)
theory Buffered_Ram
  imports Buffered_Props
begin

text \<open>
  The buffered store in front of \<open>RamStorage\<close> (\<open>ram.rs\<close>): committing moves blocks from the buffer to the store and no read
  notices it.
\<close>

definition ram_target :: "ed25519 \<Rightarrow> (bytes \<Rightarrow> bytes) \<Rightarrow> 'p pointers \<Rightarrow> (ram_storage, 'p) target" where
  "ram_target E sha256 P =
     \<lparr>tg_get = (\<lambda>st owner h. ram_get st h), tg_get_raw = (\<lambda>st owner h. ram_get_raw st h), tg_get_size = (\<lambda>st owner m. ram_get_size st m),
      tg_put = (\<lambda>owner writer sigs bs tid. ram_put sha256 sigs bs), tg_put_raw = (\<lambda>owner writer sigs bs tid. ram_put_raw sha256 sigs bs),
      tg_put_batch = (\<lambda>owner signer bs tid. put_batch sha256 (sign_message E (spk_secret signer)) (ram_put sha256) bs),
      tg_put_raw_batch = (\<lambda>owner signer bs tid. put_batch sha256 (sign_message E (spk_secret signer)) (ram_put_raw sha256) bs),
      tg_start = (\<lambda>owner. io_ret ''0''), tg_close = (\<lambda>owner tid. io_ret True),
      tg_bulk_commit = (\<lambda>owner c. io_lift (Inl (Protocol ''Unimplemented call!''))), tg_pointers = P\<rparr>"

text \<open>The blocks in play: no two of them collide.\<close>

definition stores_in :: "(bytes \<Rightarrow> bytes) \<Rightarrow> bytes set \<Rightarrow> ram_storage \<Rightarrow> bool" where
  "stores_in sha256 S r \<longleftrightarrow> (\<forall>k b. blocks r k = Some b \<longrightarrow> b \<in> S \<and> (\<exists>raw. k = block_key sha256 raw b))"

definition store_extends :: "ram_storage \<Rightarrow> ram_storage \<Rightarrow> bool" where
  "store_extends r r' \<longleftrightarrow> (\<forall>k b. blocks r k = Some b \<longrightarrow> blocks r' k = Some b)"

lemma store_extends_refl [simp]: "store_extends r r"
  by (simp add: store_extends_def)

lemma store_extends_trans: "store_extends r r' \<Longrightarrow> store_extends r' r'' \<Longrightarrow> store_extends r r''"
  by (simp add: store_extends_def)

lemma ram_store_adds:
  assumes "\<forall>b. length (sha256 b) = 32" "inj_on sha256 S" "stores_in sha256 S r" "set bs \<subseteq> S"
  shows "\<exists>r'. ram_store_loop sha256 raw out bs r = (Inr (out @ map (block_cid sha256 raw) bs), r') \<and> stores_in sha256 S r' \<and> store_extends r r' \<and>
    (\<forall>b \<in> set bs. blocks r' (block_key sha256 raw b) = Some b)"
  using assms(3,4)
proof (induction bs arbitrary: r out)
  case (Cons b bs)
  let ?r = "r\<lparr>blocks := (blocks r)(block_key sha256 raw b \<mapsto> b)\<rparr>"
  have "x = b" if "blocks r (block_key sha256 raw b) = Some x" for x
  proof -
    have "x \<in> S" "sha256 x = sha256 b" using Cons.prems(1) that block_key_inject unfolding stores_in_def by metis+
    then show ?thesis using assms(2) Cons.prems(2) by (auto dest: inj_onD)
  qed
  then have ext: "store_extends r ?r" by (auto simp: store_extends_def)
  have "stores_in sha256 S ?r" using Cons.prems by (auto simp: stores_in_def)
  then obtain r' where r': "ram_store_loop sha256 raw (out @ [block_cid sha256 raw b]) bs ?r =
        (Inr ((out @ [block_cid sha256 raw b]) @ map (block_cid sha256 raw) bs), r')"
      "stores_in sha256 S r'" "store_extends ?r r'" "\<forall>b \<in> set bs. blocks r' (block_key sha256 raw b) = Some b"
    using Cons.IH [of ?r "out @ [block_cid sha256 raw b]"] Cons.prems(2) by auto
  moreover have "blocks r' (block_key sha256 raw b) = Some b" using r'(3) by (simp add: store_extends_def)
  ultimately show ?case using assms(1) ext store_extends_trans by (auto simp: build_cid_32 block_cid_bytes)
qed simp

definition batch_blocks :: "batch \<Rightarrow> (bool \<times> bytes) set" where
  "batch_blocks b = (case b of (w, raw, sigs, bs) \<Rightarrow> Pair raw ` set bs)"

lemma upload_batch_adds:
  assumes "\<forall>b. length (sha256 b) = 32" "inj_on sha256 S" "stores_in sha256 S r" "snd ` batch_blocks b \<subseteq> S"
  shows "\<exists>cs r'. upload_batch (ram_target E sha256 P) owner tid b r = (Inr cs, r') \<and> stores_in sha256 S r' \<and> store_extends r r' \<and>
    (\<forall>(raw, x) \<in> batch_blocks b. blocks r' (block_key sha256 raw x) = Some x)"
proof -
  obtain w raw sigs bs where b: "b = (w, raw, sigs, bs)" by (cases b)
  have "set bs \<subseteq> S" using assms(4) by (force simp: b batch_blocks_def)
  from ram_store_adds [OF assms(1-3) this, of raw "[]"] show ?thesis
    by (cases raw) (auto simp: b batch_blocks_def upload_batch_def ram_target_def ram_put_def ram_put_raw_def ram_store_def)
qed

lemma run_uploads:
  assumes "\<forall>b. length (sha256 b) = 32" "inj_on sha256 S" "stores_in sha256 S r" "\<forall>i \<in> set is. snd ` batch_blocks (f i) \<subseteq> S"
  shows "\<exists>rs r'. run_tasks (\<lambda>i. upload_batch (ram_target E sha256 P) owner tid (f i)) is r = (rs, r') \<and> stores_in sha256 S r' \<and> store_extends r r' \<and>
    (\<forall>i \<in> set is. (\<exists>cs. map_of rs i = Some (Inr cs)) \<and> (\<forall>(raw, x) \<in> batch_blocks (f i). blocks r' (block_key sha256 raw x) = Some x))"
  using assms(3,4)
proof (induction "is" arbitrary: r)
  case (Cons i "is")
  obtain cs r1 where 1: "upload_batch (ram_target E sha256 P) owner tid (f i) r = (Inr cs, r1)" "stores_in sha256 S r1" "store_extends r r1"
      "\<forall>(raw, x) \<in> batch_blocks (f i). blocks r1 (block_key sha256 raw x) = Some x"
    using upload_batch_adds [OF assms(1,2) Cons.prems(1), of "f i" E P owner tid] Cons.prems(2) by auto
  obtain rs r2 where 2: "run_tasks (\<lambda>i. upload_batch (ram_target E sha256 P) owner tid (f i)) is r1 = (rs, r2)" "stores_in sha256 S r2" "store_extends r1 r2"
      "\<forall>i \<in> set is. (\<exists>cs. map_of rs i = Some (Inr cs)) \<and> (\<forall>(raw, x) \<in> batch_blocks (f i). blocks r2 (block_key sha256 raw x) = Some x)"
    using Cons.IH [OF 1(2)] Cons.prems(2) by auto
  have "\<forall>(raw, x) \<in> batch_blocks (f i). blocks r2 (block_key sha256 raw x) = Some x" using 1(4) 2(3) by (auto simp: store_extends_def)
  then show ?case using 1(1) 2 store_extends_trans [OF 1(3) 2(3)] by auto
qed simp

lemma collect_results_every: "\<forall>x \<in> set xs. \<exists>y. f x = Inr y \<Longrightarrow> \<exists>ys. collect_results f xs = Inr ys"
  by (induction xs) auto

lemma spawn_uploads:
  assumes "orders_ok ho" "\<forall>b. length (sha256 b) = 32" "inj_on sha256 S" "stores_in sha256 S r" "\<forall>b \<in> set bs. snd ` batch_blocks b \<subseteq> S"
  shows "\<exists>cs r'. spawn_all ho (upload_batch (ram_target E sha256 P) owner tid) bs r = (Inr cs, r') \<and> stores_in sha256 S r' \<and> store_extends r r' \<and>
    (\<forall>b \<in> set bs. \<forall>(raw, x) \<in> batch_blocks b. blocks r' (block_key sha256 raw x) = Some x)"
proof -
  have "set (ord_tasks ho xs) = set xs" for xs using assms(1) unfolding orders_ok_def by (metis set_mset_mset)
  then have tasks: "set (ord_tasks ho [0..<length bs]) = {0..<length bs}" by simp
  have "\<forall>i \<in> set (ord_tasks ho [0..<length bs]). snd ` batch_blocks (bs ! i) \<subseteq> S" using assms(5) by (simp add: tasks)
  then obtain rs r' where r: "run_tasks (\<lambda>i. upload_batch (ram_target E sha256 P) owner tid (bs ! i)) (ord_tasks ho [0..<length bs]) r = (rs, r')"
      "stores_in sha256 S r'" "store_extends r r'"
      "\<forall>i \<in> {0..<length bs}. (\<exists>cs. map_of rs i = Some (Inr cs)) \<and> (\<forall>(raw, x) \<in> batch_blocks (bs ! i). blocks r' (block_key sha256 raw x) = Some x)"
    using run_uploads [OF assms(2-4), of "ord_tasks ho [0..<length bs]" "\<lambda>i. bs ! i" E P owner tid] unfolding tasks by blast
  have "\<exists>ys. collect_results (\<lambda>i. case map_of rs i of Some r \<Rightarrow> r | None \<Rightarrow> Inl Panicked) [0..<length bs] = Inr ys"
    by (rule collect_results_every) (use r(4) in \<open>auto dest!: bspec\<close>)
  moreover have "\<forall>b \<in> set bs. \<forall>(raw, x) \<in> batch_blocks b. blocks r' (block_key sha256 raw x) = Some x"
  proof
    fix b
    assume "b \<in> set bs"
    then obtain i where "i \<in> {0..<length bs}" "bs ! i = b" by (metis atLeastLessThan_iff in_set_conv_nth le0)
    then show "\<forall>(raw, x) \<in> batch_blocks b. blocks r' (block_key sha256 raw x) = Some x" using r(4) by blast
  qed
  ultimately show ?thesis using r by (auto simp: spawn_all_def)
qed

lemma batch_blocks_kept:
  assumes "orders_ok ho"
  shows "(raw, x) \<in> (\<Union>b \<in> set (commit_batches ho bf keep). batch_blocks b) \<longleftrightarrow>
    (\<exists>(c, b) \<in> set bf. c \<in> set keep \<and> bb_is_raw b = raw \<and> bb_data b = x)"
proof -
  define g where "g = (\<lambda>(w :: public_key_hash, raw :: bool, s :: bytes, x :: bytes). (raw, x))"
  note cover = batches_cover [OF assms, of bf keep]
  have one: "batch_blocks b = g ` set (batch_uploads b)" if "batch_ok b" for b
    using that by (auto simp: g_def batch_blocks_def batch_uploads_def batch_ok_def image_iff set_zip in_set_conv_nth split: prod.splits)
  have "(\<Union>b \<in> set (commit_batches ho bf keep). batch_blocks b) = (\<Union>b \<in> set (commit_batches ho bf keep). g ` set (batch_uploads b))"
    by (rule SUP_cong [OF refl], rule one) (use cover in \<open>simp add: list_all_iff\<close>)
  also have "\<dots> = g ` set (concat (map batch_uploads (commit_batches ho bf keep)))" by (simp add: image_UN)
  also have "set (concat (map batch_uploads (commit_batches ho bf keep))) =
      set (map (\<lambda>(c, b). block_upload b) (filter (\<lambda>(c, b). c \<in> set keep) bf))"
    by (rule mset_eq_setD) (use cover in blast)
  finally show ?thesis by (auto simp: block_upload_def g_def image_iff)
qed

section \<open>Committing\<close>

text \<open>All blocks in play, in the store, the buffer and the cache.\<close>

definition known :: "bytes set \<Rightarrow> buffered_storage \<Rightarrow> bool" where
  "known S s \<longleftrightarrow> bb_data ` snd ` set (buffer s) \<subseteq> S \<and> snd ` set (cache_map (cache s)) \<subseteq> S"

lemma fetch_block:
  assumes "\<forall>b. length (sha256 b) = 32"
  shows "ram_fetch r (block_cid sha256 raw b) = Inr (blocks r (block_key sha256 raw b))"
  using assms by (simp add: ram_fetch_def block_cid_bytes)

lemma fetch_extends: "store_extends r r' \<Longrightarrow> ram_fetch r h = Inr (Some x) \<Longrightarrow> ram_fetch r' h = Inr (Some x)"
  by (auto simp: ram_fetch_def store_extends_def and_then_Inr_iff split: if_splits)

lemma block_cid_inject: "block_cid sha256 raw b = block_cid sha256 raw' b' \<Longrightarrow> sha256 b = sha256 b'"
  by (simp add: block_cid_def)

lemma map_of_filter_keys: "map_of (filter (\<lambda>(c, b). P c) bf) h = (if P h then map_of bf h else None)"
  by (induction bf) auto

lemma commit_keep_iff:
  assumes "orders_ok ho"
  shows "h \<in> set (commit_keep ho bf owner roots) \<longleftrightarrow> held bf (set roots) h \<and> (\<exists>b. map_of bf h = Some b \<and> bb_owner b = owner)"
proof -
  have "set (ord_cids ho (reachable bf roots)) = {c. held bf (set roots) c}"
    using assms reachable_set [of bf roots] unfolding orders_ok_def by (metis set_mset_mset)
  then show ?thesis by (auto simp: commit_keep_def split: option.splits)
qed

lemma cached_same:
  assumes "intact sha256 s" "known S s" "inj_on sha256 S" "map_of (buffer s) h = Some b" "cache_get (cache s) h = Some x"
  shows "x = bb_data b"
proof -
  have in_b: "(h, b) \<in> set (buffer s)" and in_c: "(h, x) \<in> set (cache_map (cache s))"
    using assms(4,5) by (simp_all add: cache_get_def map_of_SomeD)
  have h: "h = block_cid sha256 (bb_is_raw b) (bb_data b)" using assms(1) in_b by (auto simp: intact_def buffer_ok_def)
  have b: "bb_data b \<in> S" using assms(2) imageI [OF imageI [OF in_b], of bb_data snd] by (auto simp: known_def)
  have m: "matches sha256 h x" using assms(1) in_c by (auto simp: intact_def cache_ok_def)
  have x: "x \<in> S" using assms(2) imageI [OF in_c, of snd] by (auto simp: known_def)
  from m h obtain raw where "h = block_cid sha256 raw x" by (auto simp: matches_def)
  then show ?thesis using h block_cid_inject [of sha256 raw x] assms(3) x b by (metis inj_onD)
qed

text \<open>
  C7. Committing to \<open>RamStorage\<close> succeeds, moves exactly the reachable blocks of the owner from the buffer to the
  store, and is invisible to readers: every block that could be read through the buffer before is read unchanged after.
\<close>

theorem commit_blocks_reads:
  assumes "orders_ok ho" "\<forall>b. length (sha256 b) = 32" "inj_on sha256 S" "stores_in sha256 S st" "known S s" "intact sha256 s"
    and "T = ram_target E sha256 P"
  shows "\<exists>st' s'. commit_blocks T ho owner roots tid (st, s) = (Inr (), (st', s')) \<and> intact sha256 s' \<and> stores_in sha256 S st' \<and>
    (\<forall>h b. map_of (buffer s) h = Some b \<longrightarrow>
      (if held (buffer s) (set roots) h \<and> bb_owner b = owner
       then map_of (buffer s') h = None \<and> ram_get_raw st' h = Inr (Some (bb_data b)) else map_of (buffer s') h = Some b)) \<and>
    (\<forall>ow h x. fst (buffered_get_raw T ow h st s) = Inr (Some x) \<longrightarrow> fst (buffered_get_raw T ow h st' s') = Inr (Some x))"
proof -
  let ?keep = "commit_keep ho (buffer s) owner roots"
  let ?bs = "commit_batches ho (buffer s) ?keep"
  let ?s = "s\<lparr>buffer := filter (\<lambda>(c, b). c \<notin> set ?keep) (buffer s)\<rparr>"
  have "x \<in> S" if "(raw, x) \<in> (\<Union>b \<in> set ?bs. batch_blocks b)" for raw x
    using that assms(5) unfolding batch_blocks_kept [OF assms(1)] known_def by (auto intro!: image_eqI)
  then have "\<forall>b \<in> set ?bs. snd ` batch_blocks b \<subseteq> S" by fastforce
  then obtain cs st' where run: "spawn_all ho (upload_batch T owner tid) ?bs st = (Inr cs, st')" and st': "stores_in sha256 S st'" "store_extends st st'"
      and up: "\<forall>b \<in> set ?bs. \<forall>(raw, x) \<in> batch_blocks b. blocks st' (block_key sha256 raw x) = Some x"
    using spawn_uploads [OF assms(1-4), of ?bs E P owner tid] unfolding assms(7) by blast
  have out: "commit_blocks T ho owner roots tid (st, s) = (Inr (), (st', ?s))" by (simp add: commit_blocks_def run)
  have ok: "intact sha256 ?s" using assms(6) by (auto simp: intact_def buffer_ok_def distinct_map_filter)
  have kept: "ram_get_raw st' h = Inr (Some (bb_data b))" if "map_of (buffer s) h = Some b" "h \<in> set ?keep" for h b
  proof -
    have "(bb_is_raw b, bb_data b) \<in> (\<Union>b \<in> set ?bs. batch_blocks b)"
      using that batch_blocks_kept [OF assms(1), of "bb_is_raw b" "bb_data b" "buffer s" ?keep] by (force dest: map_of_SomeD)
    then have "blocks st' (block_key sha256 (bb_is_raw b) (bb_data b)) = Some (bb_data b)" using up by blast
    moreover have "h = block_cid sha256 (bb_is_raw b) (bb_data b)"
      using assms(6) that(1) by (auto simp: intact_def buffer_ok_def dest!: map_of_SomeD)
    ultimately show ?thesis using fetch_block [OF assms(2)] by (simp add: ram_get_raw_def)
  qed
  have "fst (buffered_get_raw T ow h st' ?s) = Inr (Some x)" if "fst (buffered_get_raw T ow h st s) = Inr (Some x)" for ow h x
  proof (cases "map_of (buffer s) h")
    case None
    then show ?thesis using that st'(2) fetch_extends
      by (auto simp: buffered_get_raw_def map_of_filter_keys assms(7) ram_target_def ram_get_raw_def split: option.splits sum.splits if_splits)
  next
    case (Some b)
    then show ?thesis using that kept [OF Some] cached_same [OF assms(6,5,3) Some]
      by (cases "h \<in> set ?keep"; cases "cache_get (cache s) h")
        (auto simp: buffered_get_raw_def map_of_filter_keys assms(7) ram_target_def split: if_splits)
  qed
  moreover have "if held (buffer s) (set roots) h \<and> bb_owner b = owner
      then map_of (buffer ?s) h = None \<and> ram_get_raw st' h = Inr (Some (bb_data b)) else map_of (buffer ?s) h = Some b"
    if "map_of (buffer s) h = Some b" for h b
    using that kept [OF that] commit_keep_iff [OF assms(1), of h "buffer s" owner roots] by (auto simp: map_of_filter_keys)
  ultimately show ?thesis using out ok st'(1) by blast
qed

section \<open>An instance\<close>

definition demo_pointers :: "unit pointers" where
  "demo_pointers = \<lparr>set_pointer = (\<lambda>ow w b. io_ret False), set_pointers = (\<lambda>ow us. io_ret False), get_pointer = (\<lambda>ow w. io_ret None)\<rparr>"

definition demo_storage :: buffered_storage where
  "demo_storage = \<lparr>buffer = [(demo_block_cid, demo_block)], cache = cache_new 2, bulk_unsupported = []\<rparr>"

lemma demo_sha_length: "\<forall>b. length (demo_sha b) = 32"
  using demo_params by (simp add: hash_params_def)

lemma demo_storage_ok: "intact demo_sha demo_storage" "known {[5]} demo_storage" "stores_in demo_sha {[5]} ram_new"
  by (simp_all add: intact_def buffer_ok_def cache_ok_def known_def stores_in_def demo_storage_def demo_block_def cache_new_def ram_new_def)

definition demo_ops :: "ram_storage buffer_op list" where
  "demo_ops = [PutBlocks demo_owner demo_owner [[]] [[5]] False]"

theorem buffered_reads_sound_witness:
  "\<exists>s'. buffered_get_raw (ram_target demo_ed demo_sha demo_pointers) demo_owner demo_block_cid ram_new
      (foldl (buffer_step demo_sha (ram_target demo_ed demo_sha demo_pointers)) (storage_new 2) demo_ops) = (Inr (Some [5]), s') \<and>
    (matches demo_sha demo_block_cid [5] \<or>
      served (ram_target demo_ed demo_sha demo_pointers) (demo_ops @ [ReadBlock demo_owner demo_block_cid ram_new]) demo_block_cid [5]) \<and>
    length (cache_map (cache s')) \<le> 2"
proof -
  let ?T = "ram_target demo_ed demo_sha demo_pointers"
  let ?s = "foldl (buffer_step demo_sha ?T) (storage_new 2) demo_ops"
  have "buffer ?s = [(demo_block_cid, demo_block)]"
    using demo_sha_length by (simp add: demo_ops_def buffer_put_def storage_new_def build_cid_32 demo_block_def)
  then have run: "buffered_get_raw ?T demo_owner demo_block_cid ram_new ?s = (Inr (Some [5]), ?s)"
    by (simp add: buffered_get_raw_def demo_block_def)
  have "length [] = length ([] :: bytes list)" by simp
  from buffered_reads_sound [OF demo_sha_length refl run this, of demo_owner False] run show ?thesis by auto
qed

theorem commit_blocks_reads_witness:
  "\<exists>st' s'. commit_blocks (ram_target demo_ed demo_sha demo_pointers) demo_orders demo_owner [demo_block_cid] ''t'' (ram_new, demo_storage) = (Inr (), (st', s')) \<and>
     fst (buffered_get_raw (ram_target demo_ed demo_sha demo_pointers) demo_owner demo_block_cid st' s') = Inr (Some [5])"
proof -
  let ?T = "ram_target demo_ed demo_sha demo_pointers"
  have "fst (buffered_get_raw ?T demo_owner demo_block_cid ram_new demo_storage) = Inr (Some [5])"
    by (simp add: buffered_get_raw_def demo_storage_def demo_block_def)
  then show ?thesis
    using commit_blocks_reads [OF demo_orders_ok demo_sha_length _ demo_storage_ok(3,2,1) refl, of demo_ed demo_pointers demo_owner "[demo_block_cid]" "''t''"]
    by fastforce
qed

end
