(* ===== verification/Spec2Isabelle.thy ===== *)
theory Spec2Isabelle
  imports Champ_Props Capability_Props Chat_Group Sync_Run Commit_Merge Commit_Pointers Commit_Split Buffered_Ram
begin

text \<open>
  Verification of the Peergos client in Rust, the crates below \<open>src/crates\<close>.

  The client keeps its data in content-addressed blocks.  A block is a DAG-CBOR value named by a CID; maps are
  CHAMP trees of such blocks; keys sign blocks and vouch for each other; capabilities and secret links hand
  out read and write access; chats are replicated logs of signed messages ordered by vector clocks; a synchroniser
  keeps a local and a remote directory the same.  Each writer's tree is named by a signed pointer on a server; writes are buffered, sent in
  bulk and merged when two devices move one pointer.  The development follows these layers from below.

  \<^bold>\<open>Parts and theories.\<close>

  \<^item> \<open>Prelude\<close>: results as sums (\<open>and_then\<close>, \<open>ok_or\<close>), state passing with errors (\<open>io\<close>), the association lists that
    stand for \<open>BTreeMap\<close> (\<open>bt_get\<close>, \<open>bt_insert\<close>, \<open>bt_remove\<close>) and the locale \<open>ord_key\<close> of key orders under which they
    are finite maps.  \<open>Ordered_Maps\<close>: maps and sets with string keys.  \<open>Strings\<close>: searching, splitting and decimal numbers.
  \<^item> \<open>Utf\<close>, \<open>Cbor\<close>: \<open>peergos-cbor\<close> (\<open>lib.rs\<close>, \<open>encode.rs\<close>, \<open>decode.rs\<close>) with its reader, key order by UTF-16 units and map builder.
    \<open>Cbor_Codec\<close>: the decoder inverts the encoder, ends on every input, accepts only well-formed values; encodings are canonical.
  \<^item> \<open>Bases\<close>, \<open>Multiformats\<close>: \<open>peergos-multiformats\<close> (\<open>bases.rs\<close>, \<open>lib.rs\<close>), varints, multihashes, CIDs and base encodings at their
    machine widths.  \<open>Bases_Codec\<close>: the in-place divisions compute digits of numbers; all codecs round trip.
  \<^item> \<open>Storage\<close>: block CIDs, errors, access tokens and \<open>RamStorage\<close> (\<open>peergos-core/src/storage.rs\<close>, \<open>error.rs\<close>, \<open>auth.rs\<close>, \<open>ram.rs\<close>).  The
    locale \<open>block_store\<close> is what a tree relies on: a block put is read back, and stays.  \<open>RamStorage\<close> interprets it.
  \<^item> \<open>Champ\<close>: \<open>peergos-core/src/champ.rs\<close>, over any block store.  \<open>Champ_Codec\<close> (nodes as bytes), \<open>Champ_Node\<close> (a node as eight
    slots), \<open>Champ_Tree\<close> (the map a tree stands for), \<open>Champ_Put\<close>, \<open>Champ_Remove\<close> (insertion and removal, with the
    numbers of keys in buckets and children), \<open>Champ_Wrapper\<close> and \<open>Champ_Props\<close>: a wrapper is a compare-and-set map.
  \<^item> \<open>Codec\<close>: the locale \<open>cbor_codec\<close> of types with a CBOR form, interpreted for every such type of the model, and the
    lemmas on nested values proved once in it.
  \<^item> \<open>Keys\<close>: \<open>peergos-core/src/keys.rs\<close>, \<open>peergos-crypto/src/sign.rs\<close>: key hashes, signing keys, ownership proofs.
  \<^item> \<open>Champ_Merge\<close>: \<open>peergos-core/src/champ_merge.rs\<close>, the difference of two trees and the merge of a writer's data.  \<open>Mutable\<close>: \<open>mutable.rs\<close>, pointer
    updates, their signatures and the HTTP client of the pointer server.  \<open>Bulk\<close>: \<open>bulk.rs\<close>, the messages of a bulk commit.
  \<^item> \<open>Buffered\<close>, \<open>Buffered_Net\<close>: \<open>buffered.rs\<close>, over any store (the record \<open>target\<close>): read cache, buffered blocks and pointers, collection, batches, the
    split of a commit, conflicts and the coordinator.  \<open>Buffered_Props\<close>: what is collected and uploaded, and that reads are sound.  \<open>Buffered_Ram\<close>:
    commits to \<open>RamStorage\<close>.  \<open>Commit_Pointers\<close>: checkpoints and condensation.  \<open>Commit_Split\<close>: the split of a commit.
  \<^item> \<open>Mock_Server\<close>: the pointer calls of \<open>peergos-mock-server/src/lib.rs\<close>; the locale \<open>cas_pointers\<close> is what a client relies on, and the mock server
    interprets it.  \<open>Commit_Merge\<close>: buffer, merge, block store and server together when a commit meets a conflict.
  \<^item> \<open>Capability\<close>: \<open>peergos-fs/src/capability.rs\<close>, \<open>peergos-core/src/symmetric.rs\<close>, \<open>peergos-crypto/src/symmetric.rs\<close> and \<open>hash.rs\<close>, the rest of
    \<open>auth.rs\<close>.  \<open>Capability_Props\<close>: storage, encryption under a password and secret links round trip.
  \<^item> \<open>Tree_Clock\<close>: \<open>peergos-fs/src/messaging/id.rs\<close>, \<open>tree_clock.rs\<close>: clocks are a semilattice.  \<open>Chat_Types\<close>, \<open>Chat_Codec\<close>: the data of
    a chat (\<open>member.rs\<close>, \<open>message_ref.rs\<close>, \<open>messages.rs\<close>, \<open>envelope.rs\<close>, \<open>private_state.rs\<close>, \<open>store.rs\<close>, and \<open>Content\<close> of \<open>feed.rs\<close>).
    \<open>Chat\<close>: \<open>chat.rs\<close>, and the state a member's own view starts from (\<open>messenger.rs\<close>).  \<open>Chat_Inv\<close>: the invariant and the growth of the membership, operation by operation.  \<open>Chat_Props\<close>: the step
    relations \<open>chat_step\<close> of one view and \<open>view_step\<close> with copying, their reachable states, and which messages have which effect.  \<open>Chat_Group\<close>: reordering of group
    properties, and the stored form of a chat.
  \<^item> \<open>Sync_State\<close>: \<open>peergos-sync/src/file_state.rs\<close>, \<open>state.rs\<close>; a tree state refines a map with an index.  \<open>Sync\<close>: \<open>filesystem.rs\<close> and
    \<open>sync.rs\<close>, a run over any two file systems.  \<open>Sync_Fs\<close>: the locale \<open>sync_side\<close> of what a run relies on, and \<open>local_fs.rs\<close>, which
    interprets it.  \<open>Sync_Props\<close>: edits survive, in the locale \<open>sync_pair\<close> of two sides.  \<open>Sync_Run\<close>: termination and idle runs.

  \<^bold>\<open>Conventions.\<close>  Integers have their width and wrap as in a release build.  Strings are lists of their UTF-8 bytes.  Every error and
  early return is an \<open>Inl\<close>; an index out of range, a failed \<open>unwrap\<close> and the like are \<open>Panicked\<close>.  Error texts that print values are
  cut to their fixed part.  Asynchronous calls run to their end in the order in which they are awaited.

  \<^bold>\<open>Parameters.\<close>  Code outside the repository is an argument: SHA-256, the hash of CHAMP keys and of file contents, Ed25519
  (\<open>ed25519\<close>, with the law that signatures verify), XSalsa20-Poly1305 (\<open>secretbox_lib\<close>, with the law that it decrypts what it
  encrypted), scrypt, random bytes and the clock.  The remote side of a synchroniser is any file system that keeps \<open>sync_side\<close>.
  The order in which a hash map is visited or concurrent tasks run is an argument too (\<open>sync_config\<close>, \<open>orders\<close>).

  \<^bold>\<open>Fuel.\<close>  \<open>deserialize\<close> has one step more than there are bytes; it is shown never to run out.  \<open>champ_put\<close> and \<open>champ_remove\<close> have
  \<open>champ_fuel\<close>, more than the 32 levels that a hash of 32 bytes is used for; running out is excluded by the properties of
  the wrapper.  \<open>chat_apply\<close> recurses at most once; its property is the recursive equation of the source.  \<open>rename_fuel\<close> bounds the search for a
  conflict name; the properties say when a bound is enough and when none is.  \<open>diff\<close> descends at most \<open>champ_fuel\<close> levels, shown to be enough
  by the property of the merge.  The mock server's search for owned writers has fuel, as nothing in its code bounds it.

  \<^bold>\<open>What is shown.\<close>  C1 to C3, C26 and C27 on the CHAMP: refinement of a compare-and-set map.  C4 to C7, C16 to C19 and C32 to C34 on commits: conflicts
  are merged or refused, splits and batches stay within their limits and send every block, buffering is invisible to readers, checkpoints restore,
  pointers are authentic.  C8 to C11, C23, C25, C28 and C31 on chats: authenticity, authorisation, the invariant, delivery at most once,
  convergence; a lemma of \<open>Chat_Group\<close> shows where convergence ends.  C12, C24, C29 and C30 on the synchroniser.  C13 and C14 and the other
  round trips on the encodings, C15, C20 to C22 and C39 on blocks, keys and capabilities.

  \<^bold>\<open>Not modelled.\<close>  The HTTP block store with its champ lookups and the cache in front of it (\<open>storage.rs\<close> past the interface, \<open>direct_s3.rs\<close>, \<open>cached.rs\<close>);
  X25519 and ML-KEM boxing, which only call libraries; the encrypted file tree, sharing, accounts, archives, thumbnails and e-mail of
  \<open>peergos-fs\<close>, whose behaviour rests on a remote server; persistence of chats in that tree; the remote side and the runner of
  \<open>peergos-sync\<close>; the command line; the accounts, social, usage and storage calls of the mock server and the decoding of its URLs.
\<close>

end
